(* ===== verification/Prelude.thy ===== *)
theory Prelude
  imports Main "HOL-Library.Word" "HOL-Library.Sublist"
begin

text \<open>
  What every other theory shares: runs of a step function under a schedule, the reachable
  states with their invariant rule, the C rules for signed division, and a few facts on
  lists. The collections \<open>steps\<close> and \<open>calls\<close> hold the defining equations that a proof of a
  concrete execution unfolds.
\<close>

named_theorems steps \<open>defining equations of step functions and initial states\<close>
named_theorems calls \<open>defining equations of library calls and program operations\<close>

section \<open>Step functions, schedules and reachable states\<close>

text \<open>
  A concurrent program is a partial step function: \<open>step a s\<close> is \<open>None\<close> when the actor \<open>a\<close>
  is blocked (or has finished) in the state \<open>s\<close>, and \<open>Some t\<close> when its next atomic action
  leads to \<open>t\<close>. A schedule is the list of the actors in the order in which they run.
\<close>

fun run :: "('a \<Rightarrow> 's \<Rightarrow> 's option) \<Rightarrow> 'a list \<Rightarrow> 's \<Rightarrow> 's option" where
  "run step [] s = Some s"
| "run step (a # as) s = (case step a s of None \<Rightarrow> None | Some t \<Rightarrow> run step as t)"

inductive reachable :: "('a \<Rightarrow> 's \<Rightarrow> 's option) \<Rightarrow> 's \<Rightarrow> 's \<Rightarrow> bool"
  for step :: "'a \<Rightarrow> 's \<Rightarrow> 's option" and s0 :: 's where
  start: "reachable step s0 s0"
| step: "reachable step s0 s \<Longrightarrow> step a s = Some t \<Longrightarrow> reachable step s0 t"

lemma reachable_invariant:
  assumes "reachable step s0 s"
    and "P s0"
    and "\<And>a s t. P s \<Longrightarrow> step a s = Some t \<Longrightarrow> P t"
  shows "P s"
  using assms(1)
proof (induction rule: reachable.induct)
  case start
  show ?case by (rule assms(2))
next
  case (step s a t)
  show ?case by (rule assms(3) [OF step.IH step.hyps(2)])
qed

lemma run_append:
  "run step (xs @ ys) s = (case run step xs s of None \<Rightarrow> None | Some t \<Rightarrow> run step ys t)"
  by (induction xs arbitrary: s) (auto split: option.split)

lemma run_appendI: "run step xs s = Some t \<Longrightarrow> run step ys t = Some u \<Longrightarrow> run step (xs @ ys) s = Some u"
  by (simp add: run_append)

lemma run_one: "step a s = Some t \<Longrightarrow> run step [a] s = Some t"
  by simp

lemma reachable_run: "reachable step s0 s \<Longrightarrow> run step as s = Some t \<Longrightarrow> reachable step s0 t"
proof (induction as arbitrary: s)
  case Nil
  then show ?case by simp
next
  case (Cons a as)
  then obtain u where u: "step a s = Some u" "run step as u = Some t"
    by (auto split: option.splits)
  from Cons.prems(1) u(1) have "reachable step s0 u" by (rule reachable.step)
  then show ?case using u(2) by (rule Cons.IH)
qed

lemma run_reachable: "run step as s0 = Some t \<Longrightarrow> reachable step s0 t"
  using reachable_run [OF reachable.start] .

text \<open>
  Progress by a measure: when every unfinished state that satisfies the invariant can run
  to one with less work left, a finished state can be reached from all of them.
\<close>

lemma progress_by_measure:
  fixes work :: "'s \<Rightarrow> nat"
  assumes "P s"
    and prog: "\<And>s. P s \<Longrightarrow> \<not> fin s \<Longrightarrow> \<exists>as t. run step as s = Some t \<and> P t \<and> work t < work s"
  shows "\<exists>as t. run step as s = Some t \<and> P t \<and> fin t"
  using assms(1)
proof (induction "work s" arbitrary: s rule: less_induct)
  case less
  show ?case
  proof (cases "fin s")
    case True
    with less.prems have "run step [] s = Some s \<and> P s \<and> fin s" by simp
    then show ?thesis by blast
  next
    case False
    from prog [OF less.prems False] obtain as t
      where t: "run step as s = Some t" "P t" "work t < work s" by blast
    from less.hyps [OF t(3) t(2)] obtain bs u
      where "run step bs t = Some u" "P u" "fin u" by blast
    with run_appendI [OF t(1), of bs u] show ?thesis by blast
  qed
qed

text \<open>
  Termination under every schedule: when each step does some of the work left, no schedule
  is longer than the work there was.
\<close>

lemma run_length_bound:
  fixes work :: "'s \<Rightarrow> nat"
  assumes "P s" and "run step as s = Some t"
    and st: "\<And>a s t. P s \<Longrightarrow> step a s = Some t \<Longrightarrow> P t \<and> work t < work s"
  shows "length as + work t \<le> work s"
  using assms(1,2)
proof (induction as arbitrary: s)
  case Nil
  then show ?case by simp
next
  case (Cons a as)
  then obtain u where u: "step a s = Some u" "run step as u = Some t"
    by (auto split: option.splits)
  with st [OF Cons.prems(1) u(1)] Cons.IH [of u] show ?case by simp
qed

text \<open>The same when only some of the actors' steps do work.\<close>

lemma run_count_bound:
  fixes work :: "'s \<Rightarrow> nat"
  assumes "P s" and "run step as s = Some t"
    and st: "\<And>a s t. P s \<Longrightarrow> step a s = Some t \<Longrightarrow> P t \<and> (if c a then work t < work s else work t \<le> work s)"
  shows "length (filter c as) + work t \<le> work s"
  using assms(1,2)
proof (induction as arbitrary: s)
  case Nil
  then show ?case by simp
next
  case (Cons a as)
  then obtain u where u: "step a s = Some u" "run step as u = Some t"
    by (auto split: option.splits)
  with st [OF Cons.prems(1) u(1)] Cons.IH [of u] show ?case by (auto split: if_splits)
qed

text \<open>What an executed schedule shows of the state it ends in.\<close>

lemma reachable_obs: "map_option f (run step as s0) = Some v \<Longrightarrow> \<exists>s. reachable step s0 s \<and> f s = v"
  by (auto intro: run_reachable)

section \<open>C integer division\<close>

text \<open>C truncates towards zero; HOL's \<open>div\<close> on \<open>int\<close> rounds down.\<close>

definition c_div :: "int \<Rightarrow> int \<Rightarrow> int" where
  "c_div a b = sgn a * sgn b * (\<bar>a\<bar> div \<bar>b\<bar>)"

definition c_mod :: "int \<Rightarrow> int \<Rightarrow> int" where
  "c_mod a b = a - b * c_div a b"

lemma c_div_pos: "0 \<le> a \<Longrightarrow> 0 < b \<Longrightarrow> c_div a b = a div b"
  by (cases "a = 0") (auto simp: c_div_def)

lemma c_mod_pos: "0 \<le> a \<Longrightarrow> 0 < b \<Longrightarrow> c_mod a b = a mod b"
  by (simp add: c_mod_def c_div_pos minus_mult_div_eq_mod)

section \<open>Lists\<close>

lemma mod_add_1_neq:
  fixes c p n :: nat
  assumes "c \<le> k" "k < p" "p - c < n"
  shows "k mod n \<noteq> p mod n"
proof
  assume "k mod n = p mod n"
  then have "n dvd p - k"
    using assms(2) mod_eq_dvd_iff_nat [of k p n] by simp
  then show False
    using assms nat_dvd_not_less [of "p - k" n] by auto
qed

end
