(* ===== verification/Locks.thy ===== *)
theory Locks
  imports Prelude
begin

text \<open>
  The lock clients of \<open>Lecture Codes/03_synchro\<close>: in each of the programs a producer thread
  adds 1 to a shared counter ITERATIONS times, a consumer thread subtracts 1 as often, both
  inside \<open>lock()\<close> and \<open>unlock()\<close>, and \<open>main\<close> creates the two threads, joins them and prints
  the counter. Only the lock differs from program to program. The thread bodies and \<open>main\<close>
  are defined here over the lock's operations; the locale \<open>lock_algorithm\<close> states what a lock
  promises, and the client's correctness is proved from the promises alone.
\<close>

section \<open>The programs' state\<close>

text \<open>
  The position of \<open>main\<close>: before its set-up code, before each \<open>pthread_create\<close> and each
  \<open>pthread_join\<close>, before the last \<open>printf\<close>, and after it returned its exit code (a return
  from \<open>main\<close> ends every thread of the process).
\<close>

datatype main_pc = MInit | MCreateP | MCreateC | MJoinP | MJoinC | MPrint | MDone int

text \<open>
  The position of a thread. \<open>(*counter)++\<close> is not atomic: it is a load and a store. A call
  of \<open>lock()\<close> may take many steps, its own position is \<open>'p\<close>.
\<close>

datatype 'p tpc =
  NotStarted | ForTest | InLock 'p | LoadCounter | StoreCounter int | InUnlock | Returned

datatype outmsg = Text string | ErrText string | CounterIs int

record ('s, 'p) lsys =
  lk :: 's
  counter :: int
  pcs :: "nat \<Rightarrow> 'p tpc"
  idx :: "nat \<Rightarrow> nat"
  mpc :: main_pc
  outs :: "outmsg list"

text \<open>The two threads: 0 is the producer, 1 the consumer.\<close>

datatype actor = MainOk | MainFail | Thr nat

definition set_pc :: "nat \<Rightarrow> 'p tpc \<Rightarrow> ('s, 'p) lsys \<Rightarrow> ('s, 'p) lsys" where
  "set_pc t p s = s\<lparr>pcs := (pcs s)(t := p)\<rparr>"

definition put :: "outmsg list \<Rightarrow> ('s, 'p) lsys \<Rightarrow> ('s, 'p) lsys" where
  "put xs s = s\<lparr>outs := outs s @ xs\<rparr>"

section \<open>The thread body\<close>

text \<open>
  \<open>for (int i = 0; i < ITERATIONS; ++i) { lock(); (*counter)++; unlock(); }\<close>, one atomic
  action per step. \<open>lock t s p\<close> is one action of the call that thread \<open>t\<close> makes: \<open>None\<close>
  when the call blocks, \<open>Some (s', Some p')\<close> when it goes on at \<open>p'\<close>, \<open>Some (s', None)\<close>
  when it returns.
\<close>

definition critical_loop ::
  "(nat \<Rightarrow> 'p) \<Rightarrow> (nat \<Rightarrow> 's \<Rightarrow> 'p \<Rightarrow> ('s \<times> 'p option) option) \<Rightarrow> (nat \<Rightarrow> 's \<Rightarrow> 's) \<Rightarrow>
   int \<Rightarrow> nat \<Rightarrow> nat \<Rightarrow> ('s, 'p) lsys \<Rightarrow> ('s, 'p) lsys option" where
  "critical_loop start lock unlock delta n t s =
     (case pcs s t of
        NotStarted \<Rightarrow> None
      | ForTest \<Rightarrow> Some (set_pc t (if idx s t < n then InLock (start t) else Returned) s)
      | InLock p \<Rightarrow>
          (case lock t (lk s) p of
             None \<Rightarrow> None
           | Some (l, None) \<Rightarrow> Some (set_pc t LoadCounter (s\<lparr>lk := l\<rparr>))
           | Some (l, Some p') \<Rightarrow> Some (set_pc t (InLock p') (s\<lparr>lk := l\<rparr>)))
      | LoadCounter \<Rightarrow> Some (set_pc t (StoreCounter (counter s)) s)
      | StoreCounter v \<Rightarrow> Some (set_pc t InUnlock (s\<lparr>counter := v + delta\<rparr>))
      | InUnlock \<Rightarrow>
          Some ((set_pc t ForTest (s\<lparr>lk := unlock t (lk s)\<rparr>))
                  \<lparr>idx := (idx s)(t := Suc (idx s t))\<rparr>)
      | Returned \<Rightarrow> None)"

section \<open>The main thread\<close>

text \<open>
  \<open>texts m\<close> is what \<open>main\<close> prints on its way to the position \<open>m\<close>; \<open>init\<close> is the lock
  after the set-up call (\<open>sem_init\<close>, \<open>sem_open\<close>, or a static initialiser), which returns an
  error only where \<open>init_fails\<close> holds. \<open>MainFail\<close> is the actor for a failing call.
  \<open>srand(getpid())\<close> is left out: no program of the group calls \<open>rand\<close>.
\<close>

definition thread_main ::
  "(main_pc \<Rightarrow> outmsg list) \<Rightarrow> 's \<Rightarrow> bool \<Rightarrow> bool \<Rightarrow> ('s, 'p) lsys \<Rightarrow> ('s, 'p) lsys option" where
  "thread_main texts init init_fails ok s =
     (case mpc s of
        MInit \<Rightarrow>
          (if ok then Some (put (texts MCreateP) (s\<lparr>lk := init, mpc := MCreateP\<rparr>))
           else if init_fails then Some (put [ErrText ''sem_open()''] (s\<lparr>mpc := MDone 1\<rparr>))
           else None)
      | MCreateP \<Rightarrow>
          (if ok then Some (put (texts MCreateC) (set_pc 0 ForTest (s\<lparr>mpc := MCreateC\<rparr>)))
           else Some (put [ErrText ''pthread_create()''] (s\<lparr>mpc := MDone 1\<rparr>)))
      | MCreateC \<Rightarrow>
          (if ok then Some (put (texts MJoinP) (set_pc 1 ForTest (s\<lparr>mpc := MJoinP\<rparr>)))
           else Some (put [ErrText ''pthread_create()''] (s\<lparr>mpc := MDone 1\<rparr>)))
      | MJoinP \<Rightarrow>
          (if ok \<and> pcs s 0 = Returned then Some (put (texts MJoinC) (s\<lparr>mpc := MJoinC\<rparr>)) else None)
      | MJoinC \<Rightarrow>
          (if ok \<and> pcs s 1 = Returned then Some (put (texts MPrint) (s\<lparr>mpc := MPrint\<rparr>)) else None)
      | MPrint \<Rightarrow>
          (if ok then Some (put [CounterIs (counter s)] (s\<lparr>mpc := MDone 0\<rparr>)) else None)
      | MDone c \<Rightarrow> None)"

definition init_lsys :: "'s \<Rightarrow> ('s, 'p) lsys" where
  "init_lsys l = \<lparr>lk = l, counter = 0, pcs = (\<lambda>_. NotStarted), idx = (\<lambda>_. 0), mpc = MInit, outs = []\<rparr>"

text \<open>
  The process: any of its threads may be the next to run. Once \<open>main\<close> has returned, none is.
\<close>

definition process_step ::
  "(bool \<Rightarrow> ('s, 'p) lsys \<Rightarrow> ('s, 'p) lsys option) \<Rightarrow> (('s, 'p) lsys \<Rightarrow> ('s, 'p) lsys option) \<Rightarrow>
   (('s, 'p) lsys \<Rightarrow> ('s, 'p) lsys option) \<Rightarrow> actor \<Rightarrow> ('s, 'p) lsys \<Rightarrow> ('s, 'p) lsys option" where
  "process_step mainf prod_th cons_th a s =
     (case mpc s of
        MDone c \<Rightarrow> None
      | _ \<Rightarrow> (case a of
                MainOk \<Rightarrow> mainf True s
              | MainFail \<Rightarrow> mainf False s
              | Thr t \<Rightarrow> (if t = 0 then prod_th s else if t = 1 then cons_th s else None)))"

lemmas [steps] = set_pc_def put_def critical_loop_def thread_main_def init_lsys_def process_step_def

section \<open>What a lock promises\<close>

datatype 'p phase = Outside | Acquiring 'p | Holding

fun phase_of :: "'p tpc \<Rightarrow> 'p phase" where
  "phase_of (InLock p) = Acquiring p"
| "phase_of LoadCounter = Holding"
| "phase_of (StoreCounter v) = Holding"
| "phase_of InUnlock = Holding"
| "phase_of NotStarted = Outside"
| "phase_of ForTest = Outside"
| "phase_of Returned = Outside"

lemma phase_of_Acquiring [simp]: "phase_of x = Acquiring p \<longleftrightarrow> x = InLock p"
  by (cases x) simp_all

text \<open>
  \<open>contend lock s ph\<close>: the callers of \<open>lock()\<close> can be scheduled, among themselves, so that
  one of the calls returns.
\<close>

inductive contend :: "(nat \<Rightarrow> 's \<Rightarrow> 'p \<Rightarrow> ('s \<times> 'p option) option) \<Rightarrow> 's \<Rightarrow> (nat \<Rightarrow> 'p phase) \<Rightarrow> bool"
  for lock where
  now: "i < 2 \<Longrightarrow> ph i = Acquiring p \<Longrightarrow> lock i s p = Some (s', None) \<Longrightarrow> contend lock s ph"
| later: "i < 2 \<Longrightarrow> ph i = Acquiring p \<Longrightarrow> lock i s p = Some (s', Some p') \<Longrightarrow>
     contend lock s' (ph(i := Acquiring p')) \<Longrightarrow> contend lock s ph"

text \<open>
  The contract: an invariant between the lock and the phases of the two threads, kept by
  every action; no two threads hold the lock; and when nobody holds it, the callers can get it.
\<close>

locale lock_algorithm =
  fixes init :: 's
    and start :: "nat \<Rightarrow> 'p"
    and lock :: "nat \<Rightarrow> 's \<Rightarrow> 'p \<Rightarrow> ('s \<times> 'p option) option"
    and unlock :: "nat \<Rightarrow> 's \<Rightarrow> 's"
    and linv :: "'s \<Rightarrow> (nat \<Rightarrow> 'p phase) \<Rightarrow> bool"
  assumes linv_init: "linv init (\<lambda>_. Outside)"
    and linv_start: "linv s ph \<Longrightarrow> i < 2 \<Longrightarrow> ph i = Outside \<Longrightarrow> linv s (ph(i := Acquiring (start i)))"
    and linv_wait: "linv s ph \<Longrightarrow> i < 2 \<Longrightarrow> ph i = Acquiring p \<Longrightarrow>
          lock i s p = Some (s', Some p') \<Longrightarrow> linv s' (ph(i := Acquiring p'))"
    and linv_enter: "linv s ph \<Longrightarrow> i < 2 \<Longrightarrow> ph i = Acquiring p \<Longrightarrow>
          lock i s p = Some (s', None) \<Longrightarrow> linv s' (ph(i := Holding))"
    and linv_unlock: "linv s ph \<Longrightarrow> i < 2 \<Longrightarrow> ph i = Holding \<Longrightarrow> linv (unlock i s) (ph(i := Outside))"
    and exclusion: "linv s ph \<Longrightarrow> i < 2 \<Longrightarrow> j < 2 \<Longrightarrow> ph i = Holding \<Longrightarrow> ph j = Holding \<Longrightarrow> i = j"
    and obtainable: "linv s ph \<Longrightarrow> i < 2 \<Longrightarrow> ph i = Acquiring p \<Longrightarrow> \<forall>j < 2. ph j \<noteq> Holding \<Longrightarrow>
          contend lock s ph"

section \<open>The client over any lock\<close>

definition lock_client ::
  "(main_pc \<Rightarrow> outmsg list) \<Rightarrow> bool \<Rightarrow> 's \<Rightarrow> (nat \<Rightarrow> 'p) \<Rightarrow>
   (nat \<Rightarrow> 's \<Rightarrow> 'p \<Rightarrow> ('s \<times> 'p option) option) \<Rightarrow> (nat \<Rightarrow> 's \<Rightarrow> 's) \<Rightarrow> nat \<Rightarrow>
   actor \<Rightarrow> ('s, 'p) lsys \<Rightarrow> ('s, 'p) lsys option" where
  "lock_client texts init_fails init start lock unlock n =
     process_step (thread_main texts init init_fails)
       (critical_loop start lock unlock 1 n 0) (critical_loop start lock unlock (-1) n 1)"

text \<open>
  What the properties of the programs are stated with: no two threads between \<open>lock()\<close> and
  \<open>unlock()\<close>, and a schedule after which \<open>main\<close> has printed 0 and returned 0.
\<close>

definition mutual_exclusion :: "('s, 'p) lsys \<Rightarrow> bool" where
  "mutual_exclusion s \<longleftrightarrow> \<not> (phase_of (pcs s 0) = Holding \<and> phase_of (pcs s 1) = Holding)"

definition can_complete :: "(actor \<Rightarrow> ('s, 'p) lsys \<Rightarrow> ('s, 'p) lsys option) \<Rightarrow> ('s, 'p) lsys \<Rightarrow> bool" where
  "can_complete step s \<longleftrightarrow>
     (\<exists>as t. run step as s = Some t \<and> mpc t = MDone 0 \<and> CounterIs 0 \<in> set (outs t))"

definition no_counter :: "(main_pc \<Rightarrow> outmsg list) \<Rightarrow> bool" where
  "no_counter texts \<longleftrightarrow> (\<forall>m c. CounterIs c \<notin> set (texts m))"

text \<open>How many iterations of thread \<open>t\<close> the counter already shows.\<close>

definition counted :: "('s, 'p) lsys \<Rightarrow> nat \<Rightarrow> int" where
  "counted s t = int (idx s t) + (if pcs s t = InUnlock then 1 else 0)"

definition exited :: "('s, 'p) lsys \<Rightarrow> bool" where
  "exited s \<longleftrightarrow> (\<exists>c. mpc s = MDone c)"

definition thread_inv :: "nat \<Rightarrow> ('s, 'p) lsys \<Rightarrow> nat \<Rightarrow> bool" where
  "thread_inv n s t \<longleftrightarrow> idx s t \<le> n
     \<and> (phase_of (pcs s t) \<noteq> Outside \<longrightarrow> idx s t < n)
     \<and> (pcs s t = Returned \<longrightarrow> idx s t = n)
     \<and> (\<forall>v. pcs s t = StoreCounter v \<longrightarrow> v = counter s)"

definition main_inv :: "('s, 'p) lsys \<Rightarrow> bool" where
  "main_inv s \<longleftrightarrow>
     (mpc s = MInit \<or> mpc s = MCreateP \<longrightarrow> pcs s = (\<lambda>_. NotStarted))
     \<and> (mpc s = MCreateC \<longrightarrow> pcs s 0 \<noteq> NotStarted \<and> pcs s 1 = NotStarted)
     \<and> (mpc s = MJoinP \<or> mpc s = MJoinC \<or> mpc s = MPrint \<longrightarrow> pcs s 0 \<noteq> NotStarted \<and> pcs s 1 \<noteq> NotStarted)
     \<and> (mpc s = MJoinC \<or> mpc s = MPrint \<longrightarrow> pcs s 0 = Returned)
     \<and> (mpc s = MPrint \<longrightarrow> pcs s 1 = Returned)
     \<and> (mpc s = MDone 0 \<longrightarrow> CounterIs 0 \<in> set (outs s))
     \<and> (\<forall>c. CounterIs c \<in> set (outs s) \<longrightarrow> c = 0)"

definition client_inv :: "('s \<Rightarrow> (nat \<Rightarrow> 'p phase) \<Rightarrow> bool) \<Rightarrow> nat \<Rightarrow> ('s, 'p) lsys \<Rightarrow> bool" where
  "client_inv linv n s \<longleftrightarrow>
     (linv (lk s) (phase_of \<circ> pcs s) \<or> pcs s = (\<lambda>_. NotStarted))
     \<and> (mpc s \<noteq> MInit \<and> \<not> exited s \<longrightarrow> linv (lk s) (phase_of \<circ> pcs s))
     \<and> thread_inv n s 0 \<and> thread_inv n s 1
     \<and> counter s = counted s 0 - counted s 1
     \<and> main_inv s"

lemmas client_defs = client_inv_def thread_inv_def main_inv_def counted_def exited_def

text \<open>The steps left: the measure of the termination proof.\<close>

fun main_left :: "main_pc \<Rightarrow> nat" where
  "main_left MInit = 6"
| "main_left MCreateP = 5"
| "main_left MCreateC = 4"
| "main_left MJoinP = 3"
| "main_left MJoinC = 2"
| "main_left MPrint = 1"
| "main_left (MDone c) = 0"

fun thread_left :: "nat \<Rightarrow> nat \<Rightarrow> 'p tpc \<Rightarrow> nat" where
  "thread_left n i NotStarted = 5 * n + 2"
| "thread_left n i ForTest = 5 * (n - i) + 1"
| "thread_left n i (InLock p) = 5 * (n - i)"
| "thread_left n i LoadCounter = 5 * (n - i) - 1"
| "thread_left n i (StoreCounter v) = 5 * (n - i) - 2"
| "thread_left n i InUnlock = 5 * (n - i) - 3"
| "thread_left n i Returned = 0"

definition work_left :: "nat \<Rightarrow> ('s, 'p) lsys \<Rightarrow> nat" where
  "work_left n s = main_left (mpc s) + thread_left n (idx s 0) (pcs s 0) + thread_left n (idx s 1) (pcs s 1)"

lemma phase_of_upd: "phase_of \<circ> (pcs s)(t := p) = (phase_of \<circ> pcs s)(t := phase_of p)"
  by (rule ext) simp

lemma phase_upd_same: "ph t = x \<Longrightarrow> ph(t := x) = ph"
  by auto

lemma lock_client_thread:
  "\<not> exited s \<Longrightarrow> i = 0 \<or> i = 1 \<Longrightarrow> lock_client texts init_fails init start lock unlock n (Thr i) s =
     critical_loop start lock unlock (if i = 0 then 1 else -1) n i s"
  by (cases "mpc s") (auto simp: lock_client_def process_step_def exited_def)

lemma lock_client_main:
  "\<not> exited s \<Longrightarrow> lock_client texts init_fails init start lock unlock n MainOk s =
     thread_main texts init init_fails True s"
  by (cases "mpc s") (auto simp: lock_client_def process_step_def exited_def)

lemma critical_loop_active:
  "critical_loop start lock unlock d n t s = Some s' \<Longrightarrow> pcs s t \<noteq> NotStarted \<and> pcs s t \<noteq> Returned"
  by (intro conjI notI) (simp_all add: critical_loop_def)

text \<open>What one thread step has to establish; everything else of the invariant is framed.\<close>

lemma client_inv_thread:
  assumes "client_inv linv n s" and "t = 0 \<and> u = 1 \<and> d = 1 \<or> t = 1 \<and> u = 0 \<and> d = -1"
    and "mpc s \<noteq> MInit" and "\<not> exited s" and "pcs s t \<noteq> NotStarted" and "pcs s t \<noteq> Returned"
    and "p \<noteq> NotStarted"
    and "linv l ((phase_of \<circ> pcs s)(t := phase_of p))"
    and "i \<le> n" and "phase_of p \<noteq> Outside \<longrightarrow> i < n" and "p = Returned \<longrightarrow> i = n"
    and "\<forall>v. p = StoreCounter v \<longrightarrow> v = c" and "\<forall>v. pcs s u = StoreCounter v \<longrightarrow> v = c"
    and "c = counter s + d * (int i + (if p = InUnlock then 1 else 0) - counted s t)"
  shows "client_inv linv n
    (s\<lparr>lk := l, counter := c, pcs := (pcs s)(t := p), idx := (idx s)(t := i)\<rparr>)"
proof -
  let ?s = "s\<lparr>lk := l, counter := c, pcs := (pcs s)(t := p), idx := (idx s)(t := i)\<rparr>"
  have tu: "t \<noteq> u" "{0, 1} = {t, u}"
    using assms(2) by auto
  have ti: "thread_inv n s t" "thread_inv n s u" and cn: "counter s = counted s 0 - counted s 1"
    and mi: "main_inv s"
    using assms(1,2) by (auto simp: client_inv_def)
  have "thread_inv n ?s t"
    using assms(9-12) by (simp add: thread_inv_def)
  moreover have "thread_inv n ?s u"
    using ti(2) tu assms(13) by (simp add: thread_inv_def)
  ultimately have "thread_inv n ?s 0 \<and> thread_inv n ?s 1"
    using assms(2) by auto
  moreover have "counter ?s = counted ?s 0 - counted ?s 1"
    using assms(2,14) cn by (auto simp: counted_def)
  moreover have "main_inv ?s"
    using mi assms(2-7) by (auto simp: main_inv_def exited_def)
  moreover have "linv (lk ?s) (phase_of \<circ> pcs ?s)"
    using assms(8) by (simp add: phase_of_upd)
  ultimately show ?thesis
    by (simp add: client_inv_def)
qed

context lock_algorithm
begin

lemma critical_loop_inv:
  fixes t u :: nat
  assumes inv: "client_inv linv n s" and tu: "t = 0 \<and> u = 1 \<and> d = 1 \<or> t = 1 \<and> u = 0 \<and> d = -1"
    and live: "\<not> exited s" and st: "critical_loop start lock unlock d n t s = Some s'"
  shows "client_inv linv n s'"
proof -
  have ns: "pcs s t \<noteq> NotStarted" "pcs s t \<noteq> Returned"
    using critical_loop_active [OF st] by simp_all
  have m: "mpc s \<noteq> MInit"
    by (rule notI) (use inv ns(1) in \<open>simp add: client_inv_def main_inv_def\<close>)
  have li: "linv (lk s) (phase_of \<circ> pcs s)"
    using inv m live by (simp add: client_inv_def)
  have t: "t < 2" "u < 2" "t \<noteq> u"
    using tu by auto
  have ti: "thread_inv n s t" "thread_inv n s u"
    using inv tu by (auto simp: client_inv_def)
  note rule = client_inv_thread [OF inv tu m live ns]
  show ?thesis
  proof (cases "pcs s t")
    case ForTest
    show ?thesis
    proof (cases "idx s t < n")
      case True
      have "linv (lk s) ((phase_of \<circ> pcs s)(t := phase_of (InLock (start t))))"
        using linv_start [OF li t(1)] ForTest by simp
      then have "client_inv linv n
          (s\<lparr>lk := lk s, counter := counter s, pcs := (pcs s)(t := InLock (start t)), idx := (idx s)(t := idx s t)\<rparr>)"
        by (intro rule) (use ti ForTest True in \<open>auto simp: thread_inv_def counted_def\<close>)
      with ForTest st [symmetric] True show ?thesis
        by (simp add: critical_loop_def set_pc_def)
    next
      case False
      have "linv (lk s) ((phase_of \<circ> pcs s)(t := phase_of Returned))"
        using ForTest li by (simp add: phase_upd_same)
      then have "client_inv linv n
          (s\<lparr>lk := lk s, counter := counter s, pcs := (pcs s)(t := Returned), idx := (idx s)(t := idx s t)\<rparr>)"
        by (intro rule) (use ti ForTest False in \<open>auto simp: thread_inv_def counted_def\<close>)
      with ForTest st [symmetric] False show ?thesis
        by (simp add: critical_loop_def set_pc_def)
    qed
  next
    case (InLock p)
    with st obtain l q where q: "lock t (lk s) p = Some (l, q)"
      by (auto simp: critical_loop_def split: option.splits)
    let ?q = "case q of None \<Rightarrow> LoadCounter | Some p' \<Rightarrow> InLock p'"
    have ph: "(phase_of \<circ> pcs s) t = Acquiring p"
      using InLock by simp
    have "linv l ((phase_of \<circ> pcs s)(t := phase_of ?q))"
      using linv_wait [OF li t(1) ph] linv_enter [OF li t(1) ph] q
      by (cases q) (simp_all only: option.case phase_of.simps)
    then have "client_inv linv n (s\<lparr>lk := l, counter := counter s, pcs := (pcs s)(t := ?q), idx := (idx s)(t := idx s t)\<rparr>)"
      by (intro rule) (use ti InLock in \<open>auto simp: thread_inv_def counted_def split: option.split\<close>)
    with InLock st [symmetric] q show ?thesis
      by (cases q) (simp_all add: critical_loop_def set_pc_def)
  next
    case LoadCounter
    have "client_inv linv n (s\<lparr>lk := lk s, counter := counter s, pcs := (pcs s)(t := StoreCounter (counter s)), idx := (idx s)(t := idx s t)\<rparr>)"
      by (intro rule) (use ti LoadCounter li in \<open>auto simp: thread_inv_def counted_def phase_upd_same\<close>)
    with LoadCounter st [symmetric] show ?thesis
      by (simp add: critical_loop_def set_pc_def)
  next
    case (StoreCounter v)
    have "phase_of (pcs s u) \<noteq> Holding"
      using exclusion [OF li t(1,2)] StoreCounter t(3) by auto
    then have "client_inv linv n (s\<lparr>lk := lk s, counter := v + d, pcs := (pcs s)(t := InUnlock), idx := (idx s)(t := idx s t)\<rparr>)"
      by (intro rule) (use ti StoreCounter li in \<open>auto simp: thread_inv_def counted_def phase_upd_same\<close>)
    with StoreCounter st [symmetric] show ?thesis
      by (simp add: critical_loop_def set_pc_def)
  next
    case InUnlock
    have "linv (unlock t (lk s)) ((phase_of \<circ> pcs s)(t := Outside))"
      using linv_unlock [OF li t(1)] InUnlock by simp
    then have "client_inv linv n
        (s\<lparr>lk := unlock t (lk s), counter := counter s, pcs := (pcs s)(t := ForTest), idx := (idx s)(t := Suc (idx s t))\<rparr>)"
      by (intro rule) (use ti InUnlock in \<open>auto simp: thread_inv_def counted_def\<close>)
    with InUnlock st [symmetric] show ?thesis
      by (simp add: critical_loop_def set_pc_def)
  qed (use ns in auto)
qed

lemma thread_main_inv:
  assumes inv: "client_inv linv n s" and live: "\<not> exited s" and texts: "no_counter texts"
    and st: "thread_main texts init init_fails ok s = Some s'"
  shows "client_inv linv n s'"
proof -
  have no: "CounterIs c \<notin> set (texts m)" for c m
    using texts by (simp add: no_counter_def)
  have li: "mpc s \<noteq> MInit \<Longrightarrow> linv (lk s) (phase_of \<circ> pcs s)"
    using inv live by (simp add: client_inv_def)
  have l0: "linv init (phase_of \<circ> (\<lambda>_. NotStarted))"
    using linv_init by (simp add: comp_def)
  have lu: "mpc s \<noteq> MInit \<Longrightarrow> pcs s t = NotStarted \<Longrightarrow> linv (lk s) (phase_of \<circ> (pcs s)(t := ForTest))" for t
    using li by (simp add: phase_of_upd phase_upd_same)
  show ?thesis
  proof (cases "mpc s")
    case MInit
    then show ?thesis
      using inv st [symmetric] l0 no
      by (auto simp: thread_main_def put_def client_defs split: if_splits)
  next
    case MCreateP
    then show ?thesis
      using inv st [symmetric] li lu [of 0] no
      by (auto simp: thread_main_def put_def set_pc_def client_defs split: if_splits)
  next
    case MCreateC
    then show ?thesis
      using inv st [symmetric] li lu [of 1] no
      by (auto simp: thread_main_def put_def set_pc_def client_defs split: if_splits)
  next
    case MPrint
    then show ?thesis
      using inv st [symmetric] li no
      by (auto simp: thread_main_def put_def client_defs split: if_splits)
  qed (use inv st [symmetric] li no live in
      \<open>auto simp: thread_main_def put_def client_defs split: if_splits\<close>)
qed

lemma lock_client_inv:
  assumes "client_inv linv n s" and "no_counter texts"
    and "lock_client texts init_fails init start lock unlock n a s = Some s'"
  shows "client_inv linv n s'"
proof -
  have live: "\<not> exited s"
    using assms(3) by (auto simp: lock_client_def process_step_def exited_def)
  have "thread_main texts init init_fails True s = Some s' \<or> thread_main texts init init_fails False s = Some s'
      \<or> critical_loop start lock unlock 1 n 0 s = Some s'
      \<or> critical_loop start lock unlock (-1) n 1 s = Some s'"
    using assms(3) live
    by (auto simp: lock_client_def process_step_def exited_def split: main_pc.splits actor.splits if_splits)
  then show ?thesis
    using thread_main_inv [OF assms(1) live assms(2)] critical_loop_inv [OF assms(1) _ live, of 0 1 1]
      critical_loop_inv [OF assms(1) _ live, of 1 0 "-1"] by auto
qed

lemma client_inv_init: "client_inv linv n (init_lsys l)"
  by (simp add: init_lsys_def client_defs)

lemma reachable_client_inv:
  assumes "no_counter texts"
    and "reachable (lock_client texts init_fails init start lock unlock n) (init_lsys l) s"
  shows "client_inv linv n s"
  using assms(2) client_inv_init lock_client_inv [OF _ assms(1)] by (rule reachable_invariant)

text \<open>Mutual exclusion, no lost update, no overflow.\<close>

lemma client_exclusion:
  assumes "no_counter texts"
    and "reachable (lock_client texts init_fails init start lock unlock n) (init_lsys l) s"
  shows "\<not> (phase_of (pcs s 0) = Holding \<and> phase_of (pcs s 1) = Holding)"
proof -
  have "linv (lk s) (phase_of \<circ> pcs s) \<or> pcs s = (\<lambda>_. NotStarted)"
    using reachable_client_inv [OF assms] by (simp add: client_inv_def)
  then show ?thesis
    using exclusion [of "lk s" "phase_of \<circ> pcs s" 0 1] by auto
qed

lemma client_counter:
  assumes "no_counter texts"
    and "reachable (lock_client texts init_fails init start lock unlock n) (init_lsys l) s"
  shows "CounterIs c \<in> set (outs s) \<Longrightarrow> c = 0"
  using reachable_client_inv [OF assms] by (simp add: client_inv_def main_inv_def)

lemma client_bound:
  assumes "no_counter texts"
    and "reachable (lock_client texts init_fails init start lock unlock n) (init_lsys l) s"
  shows "\<bar>counter s\<bar> \<le> int n"
proof -
  have inv: "thread_inv n s 0" "thread_inv n s 1" "counter s = counted s 0 - counted s 1"
    using reachable_client_inv [OF assms] by (auto simp: client_inv_def)
  have b: "0 \<le> counted s t \<and> counted s t \<le> int n" if "thread_inv n s t" for t
    using that by (auto simp: counted_def thread_inv_def)
  show ?thesis
    using inv(3) b [OF inv(1)] b [OF inv(2)] by linarith
qed

text \<open>
  Termination stays possible: from every reachable state in which \<open>main\<close> has not returned,
  some schedule completes the run, and \<open>main\<close> returns 0 after printing a zero counter.
\<close>

lemma contended_run:
  assumes "contend lock l ph" and "l = lk s" and "ph = phase_of \<circ> pcs s"
    and "client_inv linv n s" and "\<not> exited s" and "no_counter texts"
  shows "\<exists>as t. run (lock_client texts init_fails init start lock unlock n) as s = Some t
    \<and> client_inv linv n t \<and> \<not> exited t \<and> work_left n t < work_left n s"
  using assms
proof (induction arbitrary: s rule: contend.induct)
  case (now i ph p l l')
  have i: "i = 0 \<or> i = 1" and p: "pcs s i = InLock p"
    using now.hyps(1,2) now.prems(2) by auto
  define t where "t = set_pc i LoadCounter (s\<lparr>lk := l'\<rparr>)"
  have st: "lock_client texts init_fails init start lock unlock n (Thr i) s = Some t"
    using p now.hyps(3) now.prems(1)
    by (simp add: lock_client_thread [OF now.prems(4) i] critical_loop_def t_def)
  moreover have "idx s i < n"
    using now.prems(3) i p by (auto simp: client_inv_def thread_inv_def)
  then have "\<not> exited t" and "work_left n t < work_left n s"
    using i p now.prems(4) by (auto simp: t_def set_pc_def work_left_def exited_def)
  moreover have "client_inv linv n t"
    using lock_client_inv [OF now.prems(3) now.prems(5) st] .
  ultimately show ?case
    by (intro exI [of _ "[Thr i]"] exI [of _ t]) simp
next
  case (later i ph p l l' p')
  have i: "i = 0 \<or> i = 1" and p: "pcs s i = InLock p"
    using later.hyps(1,2) later.prems(2) by auto
  define u where "u = set_pc i (InLock p') (s\<lparr>lk := l'\<rparr>)"
  have st: "lock_client texts init_fails init start lock unlock n (Thr i) s = Some u"
    using p later.hyps(3) later.prems(1)
    by (simp add: lock_client_thread [OF later.prems(4) i] critical_loop_def u_def)
  have inv: "client_inv linv n u"
    using lock_client_inv [OF later.prems(3) later.prems(5) st] .
  have u: "l' = lk u" "ph(i := Acquiring p') = phase_of \<circ> pcs u" "\<not> exited u" "work_left n u = work_left n s"
    using i p later.prems by (auto simp: u_def set_pc_def work_left_def exited_def)
  from later.IH [OF u(1,2) inv u(3) later.prems(5)] obtain as t
    where "run (lock_client texts init_fails init start lock unlock n) as u = Some t
      \<and> client_inv linv n t \<and> \<not> exited t \<and> work_left n t < work_left n u" by blast
  then show ?case
    using u(4) st by (intro exI [of _ "Thr i # as"] exI [of _ t]) simp
qed

lemma client_progress:
  assumes inv: "client_inv linv n s" and live: "\<not> exited s" and texts: "no_counter texts"
  shows "\<exists>as t. run (lock_client texts init_fails init start lock unlock n) as s = Some t
    \<and> (client_inv linv n t \<and> (exited t \<longrightarrow> mpc t = MDone 0)) \<and> work_left n t < work_left n s"
proof -
  let ?step = "lock_client texts init_fails init start lock unlock n"
  have one: ?thesis if "?step a s = Some t" "exited t \<longrightarrow> mpc t = MDone 0" "work_left n t < work_left n s" for a t
    using that lock_client_inv [OF inv texts that(1)] by (intro exI [of _ "[a]"] exI [of _ t]) simp
  have thr: ?thesis if i: "i = 0 \<or> i = 1" and pc: "pcs s i \<in> {ForTest, LoadCounter, InUnlock} \<union> range StoreCounter" for i
  proof -
    obtain t where t: "critical_loop start lock unlock (if i = 0 then 1 else -1) n i s = Some t"
      using pc by (auto simp: critical_loop_def)
    have "idx s i \<le> n \<and> (pcs s i \<noteq> ForTest \<longrightarrow> idx s i < n)"
      using inv i pc by (auto simp: client_inv_def thread_inv_def)
    then have "work_left n t < work_left n s" "mpc t = mpc s"
      using i pc t [symmetric] by (auto simp: critical_loop_def set_pc_def work_left_def split: if_splits)
    then show ?thesis
      using one [of "Thr i" t] t live lock_client_thread [OF live i] by (simp add: exited_def)
  qed
  have locked: ?thesis if "pcs s 0 \<noteq> NotStarted" "pcs s 1 \<noteq> NotStarted" "pcs s i \<noteq> Returned" "i = 0 \<or> i = 1" for i
  proof (cases "\<exists>j. (j = 0 \<or> j = 1) \<and> pcs s j \<in> {ForTest, LoadCounter, InUnlock} \<union> range StoreCounter")
    case True
    with thr show ?thesis by blast
  next
    case False
    then have *: "pcs s j = Returned \<or> (\<exists>p. pcs s j = InLock p)" if "j = 0 \<or> j = 1" for j
      using \<open>pcs s 0 \<noteq> NotStarted\<close> \<open>pcs s 1 \<noteq> NotStarted\<close> that by (cases "pcs s j") auto
    then obtain p where p: "pcs s i = InLock p"
      using \<open>pcs s i \<noteq> Returned\<close> \<open>i = 0 \<or> i = 1\<close> by blast
    have "\<forall>j < 2. (phase_of \<circ> pcs s) j \<noteq> Holding"
      using * [of 0] * [of 1] by (auto simp: less_2_cases_iff)
    moreover have "linv (lk s) (phase_of \<circ> pcs s)"
      using inv p by (auto simp: client_inv_def)
    ultimately have "contend lock (lk s) (phase_of \<circ> pcs s)"
      using obtainable [of "lk s" "phase_of \<circ> pcs s" i p] p \<open>i = 0 \<or> i = 1\<close> by auto
    from contended_run [OF this refl refl inv live texts] show ?thesis by blast
  qed
  show ?thesis
  proof (cases "mpc s")
    case MJoinP
    have m: "pcs s 0 \<noteq> NotStarted" "pcs s 1 \<noteq> NotStarted"
      using inv MJoinP by (auto simp: client_inv_def main_inv_def)
    show ?thesis
    proof (cases "pcs s 0 = Returned")
      case True
      with MJoinP show ?thesis
        by (intro one [of MainOk "put (texts MJoinC) (s\<lparr>mpc := MJoinC\<rparr>)"])
          (simp_all add: lock_client_main [OF live] thread_main_def exited_def put_def work_left_def)
    qed (use locked [OF m, of 0] in simp)
  next
    case MJoinC
    have m: "pcs s 0 \<noteq> NotStarted" "pcs s 1 \<noteq> NotStarted"
      using inv MJoinC by (auto simp: client_inv_def main_inv_def)
    show ?thesis
    proof (cases "pcs s 1 = Returned")
      case True
      with MJoinC show ?thesis
        by (intro one [of MainOk "put (texts MPrint) (s\<lparr>mpc := MPrint\<rparr>)"])
          (simp_all add: lock_client_main [OF live] thread_main_def exited_def put_def work_left_def)
    qed (use locked [OF m, of 1] in simp)
  next
    case MCreateP
    have "pcs s 0 = NotStarted" "idx s 0 \<le> n"
      using inv MCreateP by (auto simp: client_inv_def main_inv_def thread_inv_def)
    with MCreateP show ?thesis
      by (intro one [of MainOk "put (texts MCreateC) (set_pc 0 ForTest (s\<lparr>mpc := MCreateC\<rparr>))"])
        (simp_all add: lock_client_main [OF live] thread_main_def exited_def put_def set_pc_def work_left_def)
  next
    case MCreateC
    have "pcs s 1 = NotStarted" "idx s 1 \<le> n"
      using inv MCreateC by (auto simp: client_inv_def main_inv_def thread_inv_def)
    with MCreateC show ?thesis
      by (intro one [of MainOk "put (texts MJoinP) (set_pc 1 ForTest (s\<lparr>mpc := MJoinP\<rparr>))"])
        (simp_all add: lock_client_main [OF live] thread_main_def exited_def put_def set_pc_def work_left_def)
  next
    case MInit
    then show ?thesis
      by (intro one [of MainOk "put (texts MCreateP) (s\<lparr>lk := init, mpc := MCreateP\<rparr>)"])
        (simp_all add: lock_client_main [OF live] thread_main_def exited_def put_def work_left_def)
  next
    case MPrint
    then show ?thesis
      by (intro one [of MainOk "put [CounterIs (counter s)] (s\<lparr>mpc := MDone 0\<rparr>)"])
        (simp_all add: lock_client_main [OF live] thread_main_def exited_def put_def work_left_def)
  qed (use live in \<open>auto simp: exited_def\<close>)
qed

lemma client_finishes:
  assumes texts: "no_counter texts"
    and "reachable (lock_client texts init_fails init start lock unlock n) (init_lsys l) s"
    and "\<not> exited s"
  shows "\<exists>as t. run (lock_client texts init_fails init start lock unlock n) as s = Some t
    \<and> mpc t = MDone 0 \<and> CounterIs 0 \<in> set (outs t)"
proof -
  let ?P = "\<lambda>s. client_inv linv n s \<and> (exited s \<longrightarrow> mpc s = MDone 0)"
  have "?P s"
    using reachable_client_inv [OF assms(1,2)] assms(3) by simp
  then have "\<exists>as t. run (lock_client texts init_fails init start lock unlock n) as s = Some t \<and> ?P t \<and> exited t"
  proof (rule progress_by_measure [where work = "work_left n"])
    fix s :: "('s, 'p) lsys"
    assume "?P s" "\<not> exited s"
    then show "\<exists>as t. run (lock_client texts init_fails init start lock unlock n) as s = Some t
        \<and> ?P t \<and> work_left n t < work_left n s"
      using client_progress [of n s texts init_fails] texts by simp
  qed
  then obtain as t where "run (lock_client texts init_fails init start lock unlock n) as s = Some t"
      and t: "client_inv linv n t" "mpc t = MDone 0" by blast
  moreover have "CounterIs 0 \<in> set (outs t)"
    using t by (simp add: client_inv_def main_inv_def)
  ultimately show ?thesis by blast
qed

lemma client_correct:
  assumes texts: "no_counter texts"
    and "reachable (lock_client texts init_fails init start lock unlock n) (init_lsys l) s"
  shows "mutual_exclusion s \<and> \<bar>counter s\<bar> \<le> int n \<and> (\<forall>c. CounterIs c \<in> set (outs s) \<longrightarrow> c = 0)
    \<and> (\<not> exited s \<longrightarrow> can_complete (lock_client texts init_fails init start lock unlock n) s)"
  unfolding mutual_exclusion_def can_complete_def
  using client_exclusion [OF assms] client_bound [OF assms] client_counter [OF assms] client_finishes [OF assms]
  by blast

end

end
