(* ===== verification/LockPrograms.thy ===== *)
theory LockPrograms
  imports Locks
begin

text \<open>
  The lock programs of \<open>Lecture Codes/03_synchro\<close> whose lock is taken in one atomic action:
  \<open>04_atomic_swap.c\<close>, \<open>05_atomic_test_and_set.c\<close>, \<open>06_mutex.c\<close>, \<open>07_semaphore.c\<close> and
  \<open>11_sem_open.c\<close>, and the program without a lock, \<open>01_base.c\<close>. A narrower contract,
  \<open>direct_lock\<close>, gives the lock contract of the theory Locks; each program's lock is an
  interpretation of it, and its properties are those of the client over that lock.
\<close>

section \<open>Locks taken in one action\<close>

text \<open>
  \<open>free\<close>: the lock is free; \<open>owns s i\<close>: what the lock shows while \<open>i\<close> holds it; \<open>valid\<close>: the
  local variables of a call under way.
\<close>

definition direct_inv ::
  "('s \<Rightarrow> bool) \<Rightarrow> ('s \<Rightarrow> nat \<Rightarrow> bool) \<Rightarrow> ('p \<Rightarrow> bool) \<Rightarrow> 's \<Rightarrow> (nat \<Rightarrow> 'p phase) \<Rightarrow> bool" where
  "direct_inv free owns valid s ph \<longleftrightarrow>
     (free s \<and> (\<forall>j < 2. ph j \<noteq> Holding)
      \<or> (\<exists>h < 2. owns s h \<and> ph h = Holding \<and> (\<forall>j < 2. j \<noteq> h \<longrightarrow> ph j \<noteq> Holding)))
     \<and> (\<forall>j < 2. \<forall>p. ph j = Acquiring p \<longrightarrow> valid p)"

lemma direct_inv_upd:
  assumes "direct_inv free owns valid s ph" and "ph i \<noteq> Holding" and "x \<noteq> Holding"
    and "\<forall>p. x = Acquiring p \<longrightarrow> valid p"
  shows "direct_inv free owns valid s (ph(i := x))"
proof -
  have v: "\<forall>j < 2. \<forall>p. (ph(i := x)) j = Acquiring p \<longrightarrow> valid p"
    using assms(1,4) by (auto simp: direct_inv_def)
  consider (none) "free s" "\<forall>j < 2. ph j \<noteq> Holding"
    | (held) h where "h < 2" "owns s h" "ph h = Holding" "\<forall>j < 2. j \<noteq> h \<longrightarrow> ph j \<noteq> Holding"
    using assms(1) by (auto simp: direct_inv_def)
  then show ?thesis
  proof cases
    case none
    with assms(3) v show ?thesis by (simp add: direct_inv_def)
  next
    case (held h)
    with assms(2,3) have "(ph(i := x)) h = Holding \<and> (\<forall>j < 2. j \<noteq> h \<longrightarrow> (ph(i := x)) j \<noteq> Holding)"
      by auto
    with held v show ?thesis unfolding direct_inv_def by blast
  qed
qed

locale direct_lock =
  fixes init :: 's
    and start :: "nat \<Rightarrow> 'p"
    and lock :: "nat \<Rightarrow> 's \<Rightarrow> 'p \<Rightarrow> ('s \<times> 'p option) option"
    and unlock :: "nat \<Rightarrow> 's \<Rightarrow> 's"
    and free :: "'s \<Rightarrow> bool"
    and owns :: "'s \<Rightarrow> nat \<Rightarrow> bool"
    and valid :: "'p \<Rightarrow> bool"
  assumes free_init: "free init"
    and valid_start: "valid (start i)"
    and take: "free s \<Longrightarrow> valid p \<Longrightarrow> \<exists>s'. lock i s p = Some (s', None) \<and> owns s' i"
    and wait: "owns s h \<Longrightarrow> valid p \<Longrightarrow> lock i s p = Some (s', q) \<Longrightarrow>
          owns s' h \<and> (\<exists>p'. q = Some p' \<and> valid p')"
    and release: "owns s h \<Longrightarrow> free (unlock h s)"

sublocale direct_lock \<subseteq> lock_algorithm init start lock unlock "direct_inv free owns valid"
proof unfold_locales
  show "direct_inv free owns valid init (\<lambda>_. Outside)"
    using free_init by (simp add: direct_inv_def)
next
  fix s ph i
  assume "direct_inv free owns valid s ph" "i < 2" "ph i = Outside"
  then show "direct_inv free owns valid s (ph(i := Acquiring (start i)))"
    using valid_start by (intro direct_inv_upd) auto
next
  fix s ph i p s' p'
  assume inv: "direct_inv free owns valid s ph" "i < 2" "ph i = Acquiring p" "lock i s p = Some (s', Some p')"
  then have "\<not> free s"
    using take [of s p i] by (auto simp: direct_inv_def)
  with inv obtain h where h: "h < 2" "owns s h" "ph h = Holding" "\<forall>j < 2. j \<noteq> h \<longrightarrow> ph j \<noteq> Holding"
    by (auto simp: direct_inv_def)
  have "owns s' h \<and> valid p'"
    using wait [OF h(2) _ inv(4)] inv(1-3) by (auto simp: direct_inv_def)
  moreover from this h inv(1) have "direct_inv free owns valid s' ph"
    unfolding direct_inv_def by blast
  ultimately show "direct_inv free owns valid s' (ph(i := Acquiring p'))"
    using inv(3) by (intro direct_inv_upd) auto
next
  fix s ph i p s'
  assume inv: "direct_inv free owns valid s ph" "i < 2" "ph i = Acquiring p" "lock i s p = Some (s', None)"
  then have v: "valid p"
    by (auto simp: direct_inv_def)
  have "\<not> owns s h" for h
    using wait [of s h p i s' None] v inv(4) by auto
  with inv(1) have "free s" "\<forall>j < 2. ph j \<noteq> Holding"
    by (auto simp: direct_inv_def)
  moreover have "owns s' i"
    using take [of s p i] v inv(4) \<open>free s\<close> by auto
  ultimately show "direct_inv free owns valid s' (ph(i := Holding))"
    using inv by (auto simp: direct_inv_def)
next
  fix s ph i
  assume "direct_inv free owns valid s ph" "i < 2" "ph i = Holding"
  then show "direct_inv free owns valid (unlock i s) (ph(i := Outside))"
    using release [of s i] unfolding direct_inv_def by (metis fun_upd_apply phase.distinct(1,3))
next
  fix s ph i j
  assume "direct_inv free owns valid s ph" "i < 2" "j < 2" "ph i = Holding" "ph j = Holding"
  then show "i = j"
    by (auto simp: direct_inv_def)
next
  fix s ph i p
  assume "direct_inv free owns valid s ph" "i < 2" "ph i = Acquiring p" "\<forall>j < 2. ph j \<noteq> Holding"
  then show "contend lock s ph"
    using take [of s p i] by (auto simp: direct_inv_def intro: contend.now)
qed

section \<open>The programs\<close>

text \<open>\<open>#define ITERATIONS 10000000\<close>, the same in every program; the properties hold for any bound.\<close>

definition ITERATIONS :: nat where
  "ITERATIONS = 10000000"

text \<open>Outputs of \<open>main\<close>: \<open>04\<close> and \<open>05\<close> print only the counter, \<open>06\<close>, \<open>07\<close> and \<open>11\<close> report the threads.\<close>

definition quiet_texts :: "main_pc \<Rightarrow> outmsg list" where
  "quiet_texts m = []"

definition report_texts :: "main_pc \<Rightarrow> outmsg list" where
  "report_texts m =
     (case m of
        MCreateP \<Rightarrow> [Text ''Creating producer'']
      | MCreateC \<Rightarrow> [Text ''Creating consumer'']
      | MJoinP \<Rightarrow> [Text ''Created both threads'']
      | _ \<Rightarrow> [])"

lemma texts_no_counter [simp]: "no_counter quiet_texts" "no_counter report_texts"
  by (auto simp: no_counter_def quiet_texts_def report_texts_def split: main_pc.splits)

subsection \<open>04_atomic_swap.c\<close>

text \<open>\<open>atomic_exchange(&obj, v)\<close>: the old value is returned, \<open>v\<close> stored.\<close>

definition atomic_exchange :: "int \<Rightarrow> int \<Rightarrow> int \<times> int" where
  "atomic_exchange obj v = (obj, v)"

definition swap_start :: "nat \<Rightarrow> int" where
  "swap_start t = 1"

definition swap_lock :: "nat \<Rightarrow> int \<Rightarrow> int \<Rightarrow> (int \<times> int option) option" where
  "swap_lock t lck key =
     (let (key, lck) = atomic_exchange lck key in Some (lck, if key \<noteq> 0 then Some key else None))"

definition swap_unlock :: "nat \<Rightarrow> int \<Rightarrow> int" where
  "swap_unlock t lck = 0"

definition swap_producer :: "nat \<Rightarrow> (int, int) lsys \<Rightarrow> (int, int) lsys option" where
  "swap_producer n = critical_loop swap_start swap_lock swap_unlock 1 n 0"

definition swap_consumer :: "nat \<Rightarrow> (int, int) lsys \<Rightarrow> (int, int) lsys option" where
  "swap_consumer n = critical_loop swap_start swap_lock swap_unlock (-1) n 1"

definition swap_main :: "bool \<Rightarrow> (int, int) lsys \<Rightarrow> (int, int) lsys option" where
  "swap_main = thread_main quiet_texts 0 False"

definition swap_program :: "nat \<Rightarrow> actor \<Rightarrow> (int, int) lsys \<Rightarrow> (int, int) lsys option" where
  "swap_program n = process_step swap_main (swap_producer n) (swap_consumer n)"

definition swap_init :: "(int, int) lsys" where
  "swap_init = init_lsys 0"

interpretation swap: direct_lock "0 :: int" swap_start swap_lock swap_unlock "\<lambda>l. l = 0"
  "\<lambda>l i. l = 1" "\<lambda>key. key = 1"
  by unfold_locales (auto simp: swap_start_def swap_lock_def swap_unlock_def atomic_exchange_def)

lemma swap_program_client:
  "swap_program n = lock_client quiet_texts False 0 swap_start swap_lock swap_unlock n"
  by (simp add: swap_program_def swap_main_def swap_producer_def swap_consumer_def lock_client_def)

subsection \<open>05_atomic_test_and_set.c\<close>

text \<open>\<open>atomic_flag_test_and_set\<close> sets the flag and returns the old value; \<open>ATOMIC_FLAG_INIT\<close> is clear.\<close>

definition tas_start :: "nat \<Rightarrow> unit" where
  "tas_start t = ()"

definition tas_lock :: "nat \<Rightarrow> bool \<Rightarrow> unit \<Rightarrow> (bool \<times> unit option) option" where
  "tas_lock t lck p = Some (True, if lck then Some () else None)"

definition tas_unlock :: "nat \<Rightarrow> bool \<Rightarrow> bool" where
  "tas_unlock t lck = False"

definition tas_producer :: "nat \<Rightarrow> (bool, unit) lsys \<Rightarrow> (bool, unit) lsys option" where
  "tas_producer n = critical_loop tas_start tas_lock tas_unlock 1 n 0"

definition tas_consumer :: "nat \<Rightarrow> (bool, unit) lsys \<Rightarrow> (bool, unit) lsys option" where
  "tas_consumer n = critical_loop tas_start tas_lock tas_unlock (-1) n 1"

definition tas_main :: "bool \<Rightarrow> (bool, unit) lsys \<Rightarrow> (bool, unit) lsys option" where
  "tas_main = thread_main quiet_texts False False"

definition tas_program :: "nat \<Rightarrow> actor \<Rightarrow> (bool, unit) lsys \<Rightarrow> (bool, unit) lsys option" where
  "tas_program n = process_step tas_main (tas_producer n) (tas_consumer n)"

definition tas_init :: "(bool, unit) lsys" where
  "tas_init = init_lsys False"

interpretation tas: direct_lock False tas_start tas_lock tas_unlock Not "\<lambda>l i. l" "\<lambda>p. True"
  by unfold_locales (auto simp: tas_lock_def tas_unlock_def)

lemma tas_program_client:
  "tas_program n = lock_client quiet_texts False False tas_start tas_lock tas_unlock n"
  by (simp add: tas_program_def tas_main_def tas_producer_def tas_consumer_def lock_client_def)

subsection \<open>06_mutex.c\<close>

text \<open>
  \<open>pthread_mutex_lock\<close> blocks while another thread owns the mutex (and, for the default
  type on the owner itself, forever); \<open>pthread_mutex_unlock\<close> by the owner frees it.
\<close>

definition pthread_mutex_lock :: "nat \<Rightarrow> nat option \<Rightarrow> nat option option" where
  "pthread_mutex_lock t m = (case m of None \<Rightarrow> Some (Some t) | Some u \<Rightarrow> None)"

definition pthread_mutex_unlock :: "nat \<Rightarrow> nat option \<Rightarrow> nat option" where
  "pthread_mutex_unlock t m = (if m = Some t then None else m)"

definition mutex_start :: "nat \<Rightarrow> unit" where
  "mutex_start t = ()"

definition mutex_lock :: "nat \<Rightarrow> nat option \<Rightarrow> unit \<Rightarrow> (nat option \<times> unit option) option" where
  "mutex_lock t m p = map_option (\<lambda>m'. (m', None)) (pthread_mutex_lock t m)"

definition mutex_unlock :: "nat \<Rightarrow> nat option \<Rightarrow> nat option" where
  "mutex_unlock t m = pthread_mutex_unlock t m"

definition mutex_producer :: "nat \<Rightarrow> (nat option, unit) lsys \<Rightarrow> (nat option, unit) lsys option" where
  "mutex_producer n = critical_loop mutex_start mutex_lock mutex_unlock 1 n 0"

definition mutex_consumer :: "nat \<Rightarrow> (nat option, unit) lsys \<Rightarrow> (nat option, unit) lsys option" where
  "mutex_consumer n = critical_loop mutex_start mutex_lock mutex_unlock (-1) n 1"

definition mutex_main :: "bool \<Rightarrow> (nat option, unit) lsys \<Rightarrow> (nat option, unit) lsys option" where
  "mutex_main = thread_main report_texts None False"

definition mutex_program :: "nat \<Rightarrow> actor \<Rightarrow> (nat option, unit) lsys \<Rightarrow> (nat option, unit) lsys option" where
  "mutex_program n = process_step mutex_main (mutex_producer n) (mutex_consumer n)"

definition mutex_init :: "(nat option, unit) lsys" where
  "mutex_init = init_lsys None"

interpretation mutex: direct_lock None mutex_start mutex_lock mutex_unlock "\<lambda>m. m = None"
  "\<lambda>m i. m = Some i" "\<lambda>p. True"
  by unfold_locales (auto simp: mutex_lock_def mutex_unlock_def pthread_mutex_lock_def pthread_mutex_unlock_def)

lemma mutex_program_client:
  "mutex_program n = lock_client report_texts False None mutex_start mutex_lock mutex_unlock n"
  by (simp add: mutex_program_def mutex_main_def mutex_producer_def mutex_consumer_def lock_client_def)

subsection \<open>07_semaphore.c and 11_sem_open.c\<close>

definition sem_wait :: "nat \<Rightarrow> nat option" where
  "sem_wait v = (if 0 < v then Some (v - 1) else None)"

definition sem_post :: "nat \<Rightarrow> nat" where
  "sem_post v = Suc v"

definition sem_start :: "nat \<Rightarrow> unit" where
  "sem_start t = ()"

definition sem_lock :: "nat \<Rightarrow> nat \<Rightarrow> unit \<Rightarrow> (nat \<times> unit option) option" where
  "sem_lock t v p = map_option (\<lambda>v'. (v', None)) (sem_wait v)"

definition sem_unlock :: "nat \<Rightarrow> nat \<Rightarrow> nat" where
  "sem_unlock t v = sem_post v"

definition sem_producer :: "nat \<Rightarrow> (nat, unit) lsys \<Rightarrow> (nat, unit) lsys option" where
  "sem_producer n = critical_loop sem_start sem_lock sem_unlock 1 n 0"

definition sem_consumer :: "nat \<Rightarrow> (nat, unit) lsys \<Rightarrow> (nat, unit) lsys option" where
  "sem_consumer n = critical_loop sem_start sem_lock sem_unlock (-1) n 1"

text \<open>\<open>sem_init(&sem, 0, 1)\<close>, whose result \<open>main\<close> does not check.\<close>

definition sem_main :: "bool \<Rightarrow> (nat, unit) lsys \<Rightarrow> (nat, unit) lsys option" where
  "sem_main = thread_main report_texts 1 False"

definition sem_program :: "nat \<Rightarrow> actor \<Rightarrow> (nat, unit) lsys \<Rightarrow> (nat, unit) lsys option" where
  "sem_program n = process_step sem_main (sem_producer n) (sem_consumer n)"

definition sem_init :: "(nat, unit) lsys" where
  "sem_init = init_lsys 0"

text \<open>
  \<open>11_sem_open.c\<close>: the same loop over a named semaphore reached through \<open>ctx->sem\<close>, with
  \<open>sem_wait\<close> and \<open>sem_post\<close> called directly; \<open>main\<close> returns 1 when \<open>sem_open\<close> fails.
\<close>

definition named_producer :: "nat \<Rightarrow> (nat, unit) lsys \<Rightarrow> (nat, unit) lsys option" where
  "named_producer n = critical_loop sem_start sem_lock sem_unlock 1 n 0"

definition named_consumer :: "nat \<Rightarrow> (nat, unit) lsys \<Rightarrow> (nat, unit) lsys option" where
  "named_consumer n = critical_loop sem_start sem_lock sem_unlock (-1) n 1"

definition named_main :: "bool \<Rightarrow> (nat, unit) lsys \<Rightarrow> (nat, unit) lsys option" where
  "named_main = thread_main report_texts 1 True"

definition named_program :: "nat \<Rightarrow> actor \<Rightarrow> (nat, unit) lsys \<Rightarrow> (nat, unit) lsys option" where
  "named_program n = process_step named_main (named_producer n) (named_consumer n)"

interpretation sema: direct_lock "1 :: nat" sem_start sem_lock sem_unlock "\<lambda>v. v = 1" "\<lambda>v i. v = 0" "\<lambda>p. True"
  by unfold_locales (auto simp: sem_lock_def sem_unlock_def sem_wait_def sem_post_def)

lemma sem_program_client:
  "sem_program n = lock_client report_texts False 1 sem_start sem_lock sem_unlock n"
  by (simp add: sem_program_def sem_main_def sem_producer_def sem_consumer_def lock_client_def)

lemma named_program_client:
  "named_program n = lock_client report_texts True 1 sem_start sem_lock sem_unlock n"
  by (simp add: named_program_def named_main_def named_producer_def named_consumer_def lock_client_def)

section \<open>Properties of the programs\<close>

text \<open>
  A schedule into the middle of a run with one iteration: \<open>main\<close> waits for the producer,
  which is about to store, and the consumer has not asked for the lock yet.
\<close>

definition midway :: "actor list" where
  "midway = [MainOk, MainOk, MainOk, Thr 0, Thr 0, Thr 0]"

lemmas midway_defs = midway_def process_step_def critical_loop_def thread_main_def set_pc_def put_def init_lsys_def

text \<open>
  \<open>04_atomic_swap.c\<close>, the lock taken by exchanging a 1 into it: in every state the program can reach, for any
  number of iterations, the two threads are never both between \<open>lock()\<close> and \<open>unlock()\<close>, the
  counter stays within the number of iterations, only 0 is ever printed for it, and as long as
  \<open>main\<close> has not returned some schedule lets it print 0 and return 0.
\<close>

theorem swap_program_correct:
  assumes "reachable (swap_program n) swap_init s"
  shows "mutual_exclusion s \<and> \<bar>counter s\<bar> \<le> int n \<and> (\<forall>c. CounterIs c \<in> set (outs s) \<longrightarrow> c = 0)
    \<and> (\<not> exited s \<longrightarrow> can_complete (swap_program n) s)"
  using assms unfolding swap_program_client swap_init_def
  by (intro swap.client_correct) simp_all

lemma swap_program_correct_witness:
  "\<exists>s. reachable (swap_program 1) swap_init s \<and> \<not> exited s \<and> phase_of (pcs s 0) = Holding
    \<and> mutual_exclusion s \<and> \<bar>counter s\<bar> \<le> 1 \<and> can_complete (swap_program 1) s"
proof -
  have "map_option (\<lambda>s. (mpc s, pcs s 0)) (run (swap_program 1) midway swap_init) = Some (MJoinP, StoreCounter 0)"
    by (simp add: midway_defs swap_program_def swap_main_def swap_producer_def swap_start_def swap_lock_def atomic_exchange_def swap_init_def)
  then obtain s where s: "reachable (swap_program 1) swap_init s" "mpc s = MJoinP" "pcs s 0 = StoreCounter 0"
    using reachable_obs [of "\<lambda>s. (mpc s, pcs s 0)"] by blast
  then show ?thesis
    using swap_program_correct [OF s(1)] by (intro exI [of _ s]) (simp add: exited_def)
qed

text \<open>
  \<open>05_atomic_test_and_set.c\<close>, the test-and-set flag: in every state the program can reach, for any
  number of iterations, the two threads are never both between \<open>lock()\<close> and \<open>unlock()\<close>, the
  counter stays within the number of iterations, only 0 is ever printed for it, and as long as
  \<open>main\<close> has not returned some schedule lets it print 0 and return 0.
\<close>

theorem tas_program_correct:
  assumes "reachable (tas_program n) tas_init s"
  shows "mutual_exclusion s \<and> \<bar>counter s\<bar> \<le> int n \<and> (\<forall>c. CounterIs c \<in> set (outs s) \<longrightarrow> c = 0)
    \<and> (\<not> exited s \<longrightarrow> can_complete (tas_program n) s)"
  using assms unfolding tas_program_client tas_init_def
  by (intro tas.client_correct) simp_all

lemma tas_program_correct_witness:
  "\<exists>s. reachable (tas_program 1) tas_init s \<and> \<not> exited s \<and> phase_of (pcs s 0) = Holding
    \<and> mutual_exclusion s \<and> \<bar>counter s\<bar> \<le> 1 \<and> can_complete (tas_program 1) s"
proof -
  have "map_option (\<lambda>s. (mpc s, pcs s 0)) (run (tas_program 1) midway tas_init) = Some (MJoinP, StoreCounter 0)"
    by (simp add: midway_defs tas_program_def tas_main_def tas_producer_def tas_start_def tas_lock_def tas_init_def)
  then obtain s where s: "reachable (tas_program 1) tas_init s" "mpc s = MJoinP" "pcs s 0 = StoreCounter 0"
    using reachable_obs [of "\<lambda>s. (mpc s, pcs s 0)"] by blast
  then show ?thesis
    using tas_program_correct [OF s(1)] by (intro exI [of _ s]) (simp add: exited_def)
qed

text \<open>
  \<open>06_mutex.c\<close>, the mutex: in every state the program can reach, for any
  number of iterations, the two threads are never both between \<open>lock()\<close> and \<open>unlock()\<close>, the
  counter stays within the number of iterations, only 0 is ever printed for it, and as long as
  \<open>main\<close> has not returned some schedule lets it print 0 and return 0.
\<close>

theorem mutex_program_correct:
  assumes "reachable (mutex_program n) mutex_init s"
  shows "mutual_exclusion s \<and> \<bar>counter s\<bar> \<le> int n \<and> (\<forall>c. CounterIs c \<in> set (outs s) \<longrightarrow> c = 0)
    \<and> (\<not> exited s \<longrightarrow> can_complete (mutex_program n) s)"
  using assms unfolding mutex_program_client mutex_init_def
  by (intro mutex.client_correct) simp_all

lemma mutex_program_correct_witness:
  "\<exists>s. reachable (mutex_program 1) mutex_init s \<and> \<not> exited s \<and> phase_of (pcs s 0) = Holding
    \<and> mutual_exclusion s \<and> \<bar>counter s\<bar> \<le> 1 \<and> can_complete (mutex_program 1) s"
proof -
  have "map_option (\<lambda>s. (mpc s, pcs s 0)) (run (mutex_program 1) midway mutex_init) = Some (MJoinP, StoreCounter 0)"
    by (simp add: midway_defs mutex_program_def mutex_main_def mutex_producer_def mutex_start_def mutex_lock_def pthread_mutex_lock_def mutex_init_def)
  then obtain s where s: "reachable (mutex_program 1) mutex_init s" "mpc s = MJoinP" "pcs s 0 = StoreCounter 0"
    using reachable_obs [of "\<lambda>s. (mpc s, pcs s 0)"] by blast
  then show ?thesis
    using mutex_program_correct [OF s(1)] by (intro exI [of _ s]) (simp add: exited_def)
qed

text \<open>
  \<open>07_semaphore.c\<close>, the semaphore that starts at 1: in every state the program can reach, for any
  number of iterations, the two threads are never both between \<open>lock()\<close> and \<open>unlock()\<close>, the
  counter stays within the number of iterations, only 0 is ever printed for it, and as long as
  \<open>main\<close> has not returned some schedule lets it print 0 and return 0.
\<close>

theorem sem_program_correct:
  assumes "reachable (sem_program n) sem_init s"
  shows "mutual_exclusion s \<and> \<bar>counter s\<bar> \<le> int n \<and> (\<forall>c. CounterIs c \<in> set (outs s) \<longrightarrow> c = 0)
    \<and> (\<not> exited s \<longrightarrow> can_complete (sem_program n) s)"
  using assms unfolding sem_program_client sem_init_def
  by (intro sema.client_correct) simp_all

lemma sem_program_correct_witness:
  "\<exists>s. reachable (sem_program 1) sem_init s \<and> \<not> exited s \<and> phase_of (pcs s 0) = Holding
    \<and> mutual_exclusion s \<and> \<bar>counter s\<bar> \<le> 1 \<and> can_complete (sem_program 1) s"
proof -
  have "map_option (\<lambda>s. (mpc s, pcs s 0)) (run (sem_program 1) midway sem_init) = Some (MJoinP, StoreCounter 0)"
    by (simp add: midway_defs sem_program_def sem_main_def sem_producer_def sem_start_def sem_lock_def sem_wait_def sem_init_def)
  then obtain s where s: "reachable (sem_program 1) sem_init s" "mpc s = MJoinP" "pcs s 0 = StoreCounter 0"
    using reachable_obs [of "\<lambda>s. (mpc s, pcs s 0)"] by blast
  then show ?thesis
    using sem_program_correct [OF s(1)] by (intro exI [of _ s]) (simp add: exited_def)
qed

text \<open>
  \<open>11_sem_open.c\<close>, the named semaphore: in every state the program can reach, for any
  number of iterations, the two threads are never both between \<open>lock()\<close> and \<open>unlock()\<close>, the
  counter stays within the number of iterations, only 0 is ever printed for it, and as long as
  \<open>main\<close> has not returned some schedule lets it print 0 and return 0.
\<close>

theorem named_program_correct:
  assumes "reachable (named_program n) sem_init s"
  shows "mutual_exclusion s \<and> \<bar>counter s\<bar> \<le> int n \<and> (\<forall>c. CounterIs c \<in> set (outs s) \<longrightarrow> c = 0)
    \<and> (\<not> exited s \<longrightarrow> can_complete (named_program n) s)"
  using assms unfolding named_program_client sem_init_def
  by (intro sema.client_correct) simp_all

lemma named_program_correct_witness:
  "\<exists>s. reachable (named_program 1) sem_init s \<and> \<not> exited s \<and> phase_of (pcs s 0) = Holding
    \<and> mutual_exclusion s \<and> \<bar>counter s\<bar> \<le> 1 \<and> can_complete (named_program 1) s"
proof -
  have "map_option (\<lambda>s. (mpc s, pcs s 0)) (run (named_program 1) midway sem_init) = Some (MJoinP, StoreCounter 0)"
    by (simp add: midway_defs named_program_def named_main_def named_producer_def sem_start_def sem_lock_def sem_wait_def sem_init_def)
  then obtain s where s: "reachable (named_program 1) sem_init s" "mpc s = MJoinP" "pcs s 0 = StoreCounter 0"
    using reachable_obs [of "\<lambda>s. (mpc s, pcs s 0)"] by blast
  then show ?thesis
    using named_program_correct [OF s(1)] by (intro exI [of _ s]) (simp add: exited_def)
qed

end
