(* ===== verification/Peterson.thy ===== *)
theory Peterson
  imports LockPrograms
begin

text \<open>
  \<open>Lecture Codes/03_synchro/03_peterson_atomic.c\<close>: Peterson's algorithm on sequentially
  consistent atomics. Every access to \<open>flag\<close> and \<open>turn\<close> is a step of its own, so a call of
  \<open>lock(i)\<close> passes through four positions. The algorithm is an instance of the lock contract
  of the theory Locks; unlike the other locks it may need steps of both callers to let one in.
\<close>

section \<open>The algorithm\<close>

record peterson =
  flag :: "nat \<Rightarrow> int"
  turn :: nat

text \<open>The next access of a call: \<open>flag[i] = 1\<close>, \<open>turn = j\<close>, the two operands of the loop's \<open>&&\<close>.\<close>

datatype ppos = SetFlag | SetTurn | ReadFlag | ReadTurn

definition peterson_start :: "nat \<Rightarrow> ppos" where
  "peterson_start i = SetFlag"

definition peterson_lock :: "nat \<Rightarrow> peterson \<Rightarrow> ppos \<Rightarrow> (peterson \<times> ppos option) option" where
  "peterson_lock i s p =
     (let j = 1 - i in
      case p of
        SetFlag \<Rightarrow> Some (s\<lparr>flag := (flag s)(i := 1)\<rparr>, Some SetTurn)
      | SetTurn \<Rightarrow> Some (s\<lparr>turn := j\<rparr>, Some ReadFlag)
      | ReadFlag \<Rightarrow> Some (s, if flag s j \<noteq> 0 then Some ReadTurn else None)
      | ReadTurn \<Rightarrow> Some (s, if turn s = j then Some ReadFlag else None))"

definition peterson_unlock :: "nat \<Rightarrow> peterson \<Rightarrow> peterson" where
  "peterson_unlock i s = s\<lparr>flag := (flag s)(i := 0)\<rparr>"

definition peterson_globals :: peterson where
  "peterson_globals = \<lparr>flag = (\<lambda>_. 0), turn = 0\<rparr>"

definition peterson_producer :: "nat \<Rightarrow> (peterson, ppos) lsys \<Rightarrow> (peterson, ppos) lsys option" where
  "peterson_producer n = critical_loop peterson_start peterson_lock peterson_unlock 1 n 0"

definition peterson_consumer :: "nat \<Rightarrow> (peterson, ppos) lsys \<Rightarrow> (peterson, ppos) lsys option" where
  "peterson_consumer n = critical_loop peterson_start peterson_lock peterson_unlock (-1) n 1"

definition peterson_main :: "bool \<Rightarrow> (peterson, ppos) lsys \<Rightarrow> (peterson, ppos) lsys option" where
  "peterson_main = thread_main quiet_texts peterson_globals False"

definition peterson_program :: "nat \<Rightarrow> actor \<Rightarrow> (peterson, ppos) lsys \<Rightarrow> (peterson, ppos) lsys option" where
  "peterson_program n = process_step peterson_main (peterson_producer n) (peterson_consumer n)"

definition peterson_init :: "(peterson, ppos) lsys" where
  "peterson_init = init_lsys peterson_globals"

section \<open>The invariant\<close>

text \<open>
  A thread's flag is up from its first access to its unlock; and when one thread is inside
  while the other is at the loop (or, were it possible, inside as well), \<open>turn\<close> names the one inside.
\<close>

definition flag_down :: "ppos phase \<Rightarrow> bool" where
  "flag_down x \<longleftrightarrow> x = Outside \<or> x = Acquiring SetFlag"

definition at_door :: "ppos phase \<Rightarrow> bool" where
  "at_door x \<longleftrightarrow> x = Acquiring ReadFlag \<or> x = Acquiring ReadTurn \<or> x = Holding"

definition peterson_inv :: "peterson \<Rightarrow> (nat \<Rightarrow> ppos phase) \<Rightarrow> bool" where
  "peterson_inv s ph \<longleftrightarrow> turn s < 2
     \<and> (\<forall>i < 2. flag s i = (if flag_down (ph i) then 0 else 1))
     \<and> (\<forall>i < 2. ph i = Holding \<longrightarrow> at_door (ph (1 - i)) \<longrightarrow> turn s = i)"

text \<open>The same over the two threads by name.\<close>

lemma peterson_inv_alt:
  "peterson_inv s ph \<longleftrightarrow> (turn s = 0 \<or> turn s = Suc 0)
     \<and> flag s 0 = (if flag_down (ph 0) then 0 else 1)
     \<and> flag s (Suc 0) = (if flag_down (ph (Suc 0)) then 0 else 1)
     \<and> (ph 0 = Holding \<longrightarrow> at_door (ph (Suc 0)) \<longrightarrow> turn s = 0)
     \<and> (ph (Suc 0) = Holding \<longrightarrow> at_door (ph 0) \<longrightarrow> turn s = Suc 0)"
  unfolding peterson_inv_def by (auto simp: less_2_cases_iff)

lemma peterson_lock_enter:
  "peterson_lock i s p = Some (s', None) \<longleftrightarrow>
     s' = s \<and> (p = ReadFlag \<and> flag s (1 - i) = 0 \<or> p = ReadTurn \<and> turn s \<noteq> 1 - i)"
  by (cases p) (auto simp: peterson_lock_def Let_def)

lemma peterson_lock_wait:
  "peterson_lock i s p = Some (s', Some p') \<longleftrightarrow>
     p = SetFlag \<and> s' = s\<lparr>flag := (flag s)(i := 1)\<rparr> \<and> p' = SetTurn
     \<or> p = SetTurn \<and> s' = s\<lparr>turn := 1 - i\<rparr> \<and> p' = ReadFlag
     \<or> p = ReadFlag \<and> flag s (1 - i) \<noteq> 0 \<and> s' = s \<and> p' = ReadTurn
     \<or> p = ReadTurn \<and> turn s = 1 - i \<and> s' = s \<and> p' = ReadFlag"
  by (cases p) (auto simp: peterson_lock_def Let_def)

lemma contend_later:
  assumes "i < 2" and "ph i = Acquiring p" and "peterson_lock i s p = Some (s', Some p')"
    and "ph' = ph(i := Acquiring p')" and "contend peterson_lock s' ph'"
  shows "contend peterson_lock s ph"
  using contend.later [of i ph p peterson_lock s s' p'] assms by simp

text \<open>Whoever \<open>turn\<close> favours gets in from any position behind \<open>turn = j\<close>.\<close>

lemma contend_favoured:
  assumes "i < 2" and "ph i = Acquiring p" and "p = ReadFlag \<or> p = ReadTurn" and "turn s = i"
  shows "contend peterson_lock s ph"
proof -
  have "turn s \<noteq> 1 - i" using assms(1,4) by presburger
  then have rt: "contend peterson_lock s (ph(i := Acquiring ReadTurn))"
    by (intro contend.now [of i _ ReadTurn _ s s]) (use assms(1) in \<open>simp_all add: peterson_lock_enter\<close>)
  show ?thesis
  proof (cases "p = ReadTurn")
    case True
    with rt assms(2) show ?thesis by (simp add: fun_upd_idem)
  next
    case False
    then have p: "p = ReadFlag" using assms(3) by simp
    show ?thesis
    proof (cases "flag s (1 - i) = 0")
      case True
      with assms p show ?thesis
        by (intro contend.now [of i ph p _ s s]) (simp_all add: peterson_lock_enter)
    next
      case False
      with assms p rt show ?thesis
        by (intro contend_later [of i ph p s s ReadTurn]) (simp_all add: peterson_lock_wait)
    qed
  qed
qed

text \<open>
  A thread alone in \<open>lock()\<close> gets in because the other's flag is down; two threads get in
  because the second to write \<open>turn\<close> favours the first.
\<close>

lemma contend_door:
  assumes "i < 2" and "ph i = Acquiring p" and "p = ReadFlag \<or> p = ReadTurn"
    and "peterson_inv s ph" and "\<forall>j < 2. ph j \<noteq> Holding"
  shows "contend peterson_lock s ph"
proof -
  let ?j = "1 - i"
  have j: "?j < 2" "?j \<noteq> i" "1 - ?j = i" using assms(1) by presburger+
  have fj: "flag s ?j = (if flag_down (ph ?j) then 0 else 1)"
    using assms(4) j(1) by (simp only: peterson_inv_def)
  show ?thesis
  proof (cases "turn s = i")
    case True
    with assms(1-3) show ?thesis by (rule contend_favoured)
  next
    case False
    then have tj: "turn s = ?j"
      using assms(1,4) by (auto simp: peterson_inv_alt less_2_cases_iff)
    consider (down) "flag_down (ph ?j)" | (st) "ph ?j = Acquiring SetTurn"
      | (door) q where "ph ?j = Acquiring q" "q = ReadFlag \<or> q = ReadTurn"
    proof (cases "ph ?j")
      case (Acquiring q)
      then show ?thesis using down st door by (cases q) (simp_all add: flag_down_def)
    qed (use down assms(5) j(1) in \<open>auto simp: flag_down_def\<close>)
    then show ?thesis
    proof cases
      case down
      then have f0: "flag s ?j = 0" using fj by simp
      have rf: "contend peterson_lock s (ph(i := Acquiring ReadFlag))"
        by (rule contend.now [of i _ ReadFlag _ s s]) (use f0 assms(1) in \<open>simp_all add: peterson_lock_enter\<close>)
      show ?thesis
      proof (cases "p = ReadFlag")
        case True
        with rf assms(2) show ?thesis by (simp add: fun_upd_idem)
      next
        case False
        with rf assms tj show ?thesis
          by (intro contend_later [of i ph p s s ReadFlag]) (auto simp: peterson_lock_wait)
      qed
    next
      case st
      have "contend peterson_lock (s\<lparr>turn := i\<rparr>) (ph(?j := Acquiring ReadFlag))"
        using assms(1-3) j by (intro contend_favoured [of i _ p]) simp_all
      then show ?thesis
        using st j by (intro contend_later [of ?j ph SetTurn s "s\<lparr>turn := i\<rparr>" ReadFlag])
          (simp_all add: peterson_lock_wait)
    next
      case (door q)
      then show ?thesis
        using tj j(1) by (intro contend_favoured [of ?j ph q]) simp_all
    qed
  qed
qed

lemma peterson_keeps_wait:
  assumes "peterson_inv s ph" and "i < 2" and "ph i = Acquiring p"
    and "peterson_lock i s p = Some (s', Some p')"
  shows "peterson_inv s' (ph(i := Acquiring p'))"
proof -
  have "i = 0 \<or> i = Suc 0" using assms(2) by auto
  then show ?thesis
    using assms(1,3,4) unfolding peterson_lock_wait
    by (elim disjE conjE) (simp_all add: peterson_inv_alt flag_down_def at_door_def split: if_splits)
qed

lemma peterson_keeps_enter:
  assumes "peterson_inv s ph" and "i < 2" and "ph i = Acquiring p"
    and "peterson_lock i s p = Some (s', None)"
  shows "peterson_inv s' (ph(i := Holding))"
proof -
  have "i = 0 \<or> i = Suc 0" using assms(2) by auto
  then show ?thesis
    using assms(1,3,4) unfolding peterson_lock_enter
    by (elim disjE conjE) (auto simp: peterson_inv_alt flag_down_def at_door_def split: if_splits)
qed

lemma peterson_obtainable:
  assumes inv: "peterson_inv s ph" and i: "i < 2" and p: "ph i = Acquiring p" and no: "\<forall>j < 2. ph j \<noteq> Holding"
  shows "contend peterson_lock s ph"
proof -
  have st: "contend peterson_lock s ph"
    if "peterson_inv s ph" "ph i = Acquiring SetTurn" "\<forall>j < 2. ph j \<noteq> Holding" for s ph
  proof (rule contend_later [where ph = ph and i = i and p = SetTurn, OF i that(2) _ refl])
    show "peterson_lock i s SetTurn = Some (s\<lparr>turn := 1 - i\<rparr>, Some ReadFlag)"
      by (simp add: peterson_lock_wait)
    show "contend peterson_lock (s\<lparr>turn := 1 - i\<rparr>) (ph(i := Acquiring ReadFlag))"
      by (rule contend_door [where p = ReadFlag, OF i _ _ peterson_keeps_wait [OF that(1) i that(2)]])
        (use that(3) in \<open>auto simp: peterson_lock_wait\<close>)
  qed
  show ?thesis
  proof (cases p)
    case SetFlag
    show ?thesis
    proof (rule contend_later [where ph = ph and i = i and p = p, OF i p _ refl])
      show eq: "peterson_lock i s p = Some (s\<lparr>flag := (flag s)(i := 1)\<rparr>, Some SetTurn)"
        using SetFlag by (simp add: peterson_lock_wait)
      show "contend peterson_lock (s\<lparr>flag := (flag s)(i := 1)\<rparr>) (ph(i := Acquiring SetTurn))"
        using no by (intro st peterson_keeps_wait [OF inv i p eq]) simp_all
    qed
  next
    case SetTurn
    with st [OF inv] p no show ?thesis by simp
  qed (use contend_door [OF i p _ inv no] in simp_all)
qed

interpretation peterson: lock_algorithm peterson_globals peterson_start peterson_lock peterson_unlock peterson_inv
proof unfold_locales
  show "peterson_inv peterson_globals (\<lambda>_. Outside)"
    by (simp add: peterson_inv_alt peterson_globals_def flag_down_def)
next
  fix s ph i
  assume "peterson_inv s ph" "i < 2" "ph i = Outside"
  then show "peterson_inv s (ph(i := Acquiring (peterson_start i)))"
    by (auto simp: peterson_inv_alt peterson_start_def flag_down_def at_door_def less_2_cases_iff)
next
  fix s ph i
  assume "peterson_inv s ph" "i < 2" "ph i = Holding"
  then show "peterson_inv (peterson_unlock i s) (ph(i := Outside))"
    by (auto simp: peterson_inv_alt peterson_unlock_def flag_down_def at_door_def less_2_cases_iff)
next
  fix s :: peterson and ph :: "nat \<Rightarrow> ppos phase" and i j :: nat
  assume "peterson_inv s ph" "i < 2" "j < 2" "ph i = Holding" "ph j = Holding"
  then show "i = j"
    by (auto simp: peterson_inv_alt at_door_def less_2_cases_iff)
qed (rule peterson_keeps_wait peterson_keeps_enter peterson_obtainable, assumption+)+

lemma peterson_program_client:
  "peterson_program n = lock_client quiet_texts False peterson_globals peterson_start peterson_lock peterson_unlock n"
  by (simp add: peterson_program_def peterson_main_def peterson_producer_def peterson_consumer_def lock_client_def)

section \<open>Property\<close>

text \<open>
  C1. \<open>03_peterson_atomic.c\<close>: in every reachable state, for any number of iterations, the
  two threads are never both between \<open>lock(i)\<close> and \<open>unlock(i)\<close>, the counter stays within the
  number of iterations, only 0 is ever printed, and as long as \<open>main\<close> has not returned some
  schedule lets it print 0 and return 0 (no deadlock in the spinning loops).
\<close>

theorem peterson_program_correct:
  assumes "reachable (peterson_program n) peterson_init s"
  shows "mutual_exclusion s \<and> \<bar>counter s\<bar> \<le> int n \<and> (\<forall>c. CounterIs c \<in> set (outs s) \<longrightarrow> c = 0)
    \<and> (\<not> exited s \<longrightarrow> can_complete (peterson_program n) s)"
  using assms unfolding peterson_program_client peterson_init_def
  by (intro peterson.client_correct) simp_all

lemma peterson_program_correct_witness:
  "\<exists>s. reachable (peterson_program 1) peterson_init s \<and> \<not> exited s \<and> phase_of (pcs s 0) = Acquiring ReadTurn
    \<and> mutual_exclusion s \<and> \<bar>counter s\<bar> \<le> 1 \<and> can_complete (peterson_program 1) s"
proof -
  have "map_option (\<lambda>s. (mpc s, pcs s 0)) (run (peterson_program 1)
      [MainOk, MainOk, MainOk, Thr 0, Thr 0, Thr 1, Thr 1, Thr 0, Thr 0] peterson_init)
      = Some (MJoinP, InLock ReadTurn)"
    by (simp add: midway_defs peterson_program_def peterson_main_def peterson_producer_def peterson_consumer_def
        peterson_start_def peterson_lock_def peterson_globals_def peterson_init_def)
  then obtain s where s: "reachable (peterson_program 1) peterson_init s" "mpc s = MJoinP" "pcs s 0 = InLock ReadTurn"
    using reachable_obs [of "\<lambda>s. (mpc s, pcs s 0)"] by blast
  then show ?thesis
    using peterson_program_correct [OF s(1)] by (intro exI [of _ s]) (simp add: exited_def)
qed

end
