(* ===== verification/DataRace.thy ===== *)
theory DataRace
  imports LockPrograms
begin

text \<open>
  \<open>Lecture Codes/03_synchro/01_base.c\<close>: the two threads of the lock programs without a lock.
  The increments are not atomic, so updates get lost: for every number \<open>n\<close> of iterations some
  schedule prints \<open>n\<close> instead of 0. What survives is a bound: the printed value never leaves
  the range from \<open>-n\<close> to \<open>n\<close>.
\<close>

section \<open>The program\<close>

definition unlocked_loop :: "int \<Rightarrow> nat \<Rightarrow> nat \<Rightarrow> (unit, unit) lsys \<Rightarrow> (unit, unit) lsys option" where
  "unlocked_loop delta n t s =
     (case pcs s t of
        ForTest \<Rightarrow> Some (set_pc t (if idx s t < n then LoadCounter else Returned) s)
      | LoadCounter \<Rightarrow> Some (set_pc t (StoreCounter (counter s)) s)
      | StoreCounter v \<Rightarrow>
          Some ((set_pc t ForTest (s\<lparr>counter := v + delta\<rparr>))\<lparr>idx := (idx s)(t := Suc (idx s t))\<rparr>)
      | _ \<Rightarrow> None)"

definition base_producer :: "nat \<Rightarrow> (unit, unit) lsys \<Rightarrow> (unit, unit) lsys option" where
  "base_producer n = unlocked_loop 1 n 0"

definition base_consumer :: "nat \<Rightarrow> (unit, unit) lsys \<Rightarrow> (unit, unit) lsys option" where
  "base_consumer n = unlocked_loop (-1) n 1"

definition base_main :: "bool \<Rightarrow> (unit, unit) lsys \<Rightarrow> (unit, unit) lsys option" where
  "base_main = thread_main (\<lambda>m. []) () False"

definition base_program :: "nat \<Rightarrow> actor \<Rightarrow> (unit, unit) lsys \<Rightarrow> (unit, unit) lsys option" where
  "base_program n = process_step base_main (base_producer n) (base_consumer n)"

definition base_init :: "(unit, unit) lsys" where
  "base_init = init_lsys ()"

lemmas base_defs = base_program_def base_main_def base_producer_def base_consumer_def

lemma base_thread:
  assumes "mpc s = MJoinP"
  shows "base_program n (Thr 0) s = unlocked_loop 1 n 0 s"
    and "base_program n (Thr 1) s = unlocked_loop (-1) n 1 s"
  using assms by (simp_all add: base_defs process_step_def)

section \<open>A lost update for every number of iterations\<close>

text \<open>A thread that runs alone for \<open>k\<close> iterations adds its delta \<open>k\<close> times.\<close>

lemma solo_iterations:
  assumes "\<And>s. mpc s = MJoinP \<Longrightarrow> step (Thr t) s = unlocked_loop d n t s"
    and "mpc s = MJoinP" and "pcs s t = ForTest" and "idx s t + k \<le> n"
  shows "run step (replicate (3 * k) (Thr t)) s =
    Some (s\<lparr>counter := counter s + d * int k, idx := (idx s)(t := idx s t + k)\<rparr>)"
  using assms(2-)
proof (induction k arbitrary: s)
  case 0
  then show ?case by simp
next
  case (Suc k)
  let ?s = "s\<lparr>counter := counter s + d, idx := (idx s)(t := Suc (idx s t))\<rparr>"
  have three: "replicate (3 * Suc k) a = a # a # a # replicate (3 * k) a" for a :: actor
    by (simp add: numeral_3_eq_3)
  have "run step (replicate (3 * Suc k) (Thr t)) s = run step (replicate (3 * k) (Thr t)) ?s"
    unfolding three using Suc.prems by (simp add: assms(1) unlocked_loop_def set_pc_def fun_upd_idem)
  also have "\<dots> = Some (?s\<lparr>counter := counter ?s + d * int k, idx := (idx ?s)(t := idx ?s t + k)\<rparr>)"
    using Suc.prems by (intro Suc.IH) auto
  also have "?s\<lparr>counter := counter ?s + d * int k, idx := (idx ?s)(t := idx ?s t + k)\<rparr>
      = s\<lparr>counter := counter s + d * int (Suc k), idx := (idx s)(t := idx s t + Suc k)\<rparr>"
  proof -
    have "counter s + d + d * int k = counter s + d * int (Suc k)"
      by (simp add: algebra_simps)
    then show ?thesis by simp
  qed
  finally show ?case .
qed

definition race_schedule :: "nat \<Rightarrow> actor list" where
  "race_schedule n =
     [MainOk, MainOk, MainOk] @ [Thr 0, Thr 0] @ (replicate (3 * n) (Thr 1) @ [Thr 1])
     @ [Thr 0] @ (replicate (3 * (n - 1)) (Thr 0) @ [Thr 0]) @ [MainOk, MainOk, MainOk]"

lemma race_run:
  assumes "0 < n"
  shows "\<exists>s. run (base_program n) (race_schedule n) base_init = Some s
    \<and> mpc s = MDone 0 \<and> outs s = [CounterIs (int n)]"
proof -
  let ?step = "base_program n"
  define s0 :: "(unit, unit) lsys" where
    "s0 = \<lparr>lk = (), counter = 0, pcs = (\<lambda>_. NotStarted)(0 := StoreCounter 0, 1 := ForTest),
       idx = (\<lambda>_. 0), mpc = MJoinP, outs = []\<rparr>"
  define s1 where "s1 = s0\<lparr>counter := counter s0 + (-1) * int n, idx := (idx s0)(1 := idx s0 1 + n)\<rparr>"
  define s2 where "s2 = s1\<lparr>pcs := (pcs s1)(1 := Returned, 0 := ForTest), counter := 1, idx := (idx s1)(0 := 1)\<rparr>"
  define s3 where "s3 = s2\<lparr>counter := counter s2 + 1 * int (n - 1), idx := (idx s2)(0 := idx s2 0 + (n - 1))\<rparr>"
  have r0: "run ?step ([MainOk, MainOk, MainOk] @ [Thr 0, Thr 0]) base_init = Some s0"
    using assms by (simp add: base_defs base_init_def init_lsys_def process_step_def thread_main_def
        set_pc_def put_def unlocked_loop_def s0_def fun_upd_twist)
  have r1: "run ?step (replicate (3 * n) (Thr 1)) s0 = Some s1"
    unfolding s1_def by (rule solo_iterations [of ?step 1 "-1" n, OF base_thread(2)]) (simp_all add: s0_def)
  have r2: "run ?step ([Thr 1] @ [Thr 0]) s1 = Some s2"
    by (simp add: base_defs process_step_def unlocked_loop_def set_pc_def s0_def s1_def s2_def)
  have r3: "run ?step (replicate (3 * (n - 1)) (Thr 0)) s2 = Some s3"
    unfolding s3_def using assms
    by (intro solo_iterations [of ?step 0 1 n, OF base_thread(1)]) (simp_all add: s0_def s1_def s2_def)
  have r4: "\<exists>s. run ?step ([Thr 0] @ [MainOk, MainOk, MainOk]) s3 = Some s
      \<and> mpc s = MDone 0 \<and> outs s = [CounterIs (int n)]"
    using assms by (simp add: base_defs process_step_def unlocked_loop_def thread_main_def set_pc_def
        put_def s0_def s1_def s2_def s3_def of_nat_diff)
  have "race_schedule n = ([MainOk, MainOk, MainOk] @ [Thr 0, Thr 0]) @ replicate (3 * n) (Thr 1)
      @ ([Thr 1] @ [Thr 0]) @ replicate (3 * (n - 1)) (Thr 0) @ ([Thr 0] @ [MainOk, MainOk, MainOk])"
    by (simp add: race_schedule_def)
  with r4 run_appendI [OF r0 run_appendI [OF r1 run_appendI [OF r2 run_appendI [OF r3]]]]
  show ?thesis by metis
qed

section \<open>The bound that remains\<close>

text \<open>
  Every value a thread has read or written counts at most the producer's completed stores
  and at least minus the consumer's.
\<close>

definition race_range :: "(unit, unit) lsys \<Rightarrow> int \<Rightarrow> bool" where
  "race_range s v \<longleftrightarrow> - int (idx s 1) \<le> v \<and> v \<le> int (idx s 0)"

definition race_inv :: "nat \<Rightarrow> (unit, unit) lsys \<Rightarrow> bool" where
  "race_inv n s \<longleftrightarrow> race_range s (counter s)
     \<and> (\<forall>t v. t < 2 \<longrightarrow> pcs s t = StoreCounter v \<longrightarrow> race_range s v)
     \<and> (\<forall>t. t < 2 \<longrightarrow> idx s t \<le> n \<and> (pcs s t = LoadCounter \<or> (\<exists>v. pcs s t = StoreCounter v) \<longrightarrow> idx s t < n))
     \<and> (\<forall>c. CounterIs c \<in> set (outs s) \<longrightarrow> \<bar>c\<bar> \<le> int n)"

lemma less_2_all: "(\<forall>t < 2. P t) \<longleftrightarrow> P 0 \<and> P (Suc 0)" for P :: "nat \<Rightarrow> bool"
  by (auto simp: less_2_cases_iff)

lemma race_inv_upd:
  assumes "race_inv n s" and t: "t < 2" and "race_range (s\<lparr>idx := (idx s)(t := i)\<rparr>) c"
    and "idx s t \<le> i" and "i \<le> n" and "p = LoadCounter \<longrightarrow> i < n"
    and "\<forall>v. p = StoreCounter v \<longrightarrow> i < n \<and> race_range s v"
  shows "race_inv n (s\<lparr>counter := c, pcs := (pcs s)(t := p), idx := (idx s)(t := i)\<rparr>)"
proof -
  have mono: "race_range (s\<lparr>idx := (idx s)(t := i)\<rparr>) v" if "race_range s v" for v
    using that assms(4) by (auto simp: race_range_def)
  then show ?thesis
    using assms unfolding race_inv_def by (auto simp: race_range_def)
qed

lemma unlocked_loop_inv:
  assumes inv: "race_inv n s" and t: "t = 0 \<and> d = 1 \<or> t = 1 \<and> d = -1"
    and st: "unlocked_loop d n t s = Some s'"
  shows "race_inv n s'"
proof -
  have t2: "t < 2" using t by auto
  have i: "idx s t \<le> n" and c: "race_range s (counter s)"
    using inv t2 by (auto simp: race_inv_def)
  have same: "race_range (s\<lparr>idx := (idx s)(t := idx s t)\<rparr>) v = race_range s v" for v
    by (simp add: race_range_def)
  show ?thesis
  proof (cases "pcs s t")
    case ForTest
    then have "race_inv n (s\<lparr>counter := counter s, pcs := (pcs s)(t := if idx s t < n then LoadCounter else Returned), idx := (idx s)(t := idx s t)\<rparr>)"
      using i c by (intro race_inv_upd [OF inv t2]) (simp_all add: same)
    with ForTest st [symmetric] show ?thesis
      by (simp add: unlocked_loop_def set_pc_def)
  next
    case LoadCounter
    then have "idx s t < n" using inv t2 by (auto simp: race_inv_def)
    then have "race_inv n (s\<lparr>counter := counter s, pcs := (pcs s)(t := StoreCounter (counter s)), idx := (idx s)(t := idx s t)\<rparr>)"
      using i c by (intro race_inv_upd [OF inv t2]) (simp_all add: same)
    with LoadCounter st [symmetric] show ?thesis
      by (simp add: unlocked_loop_def set_pc_def)
  next
    case (StoreCounter v)
    then have v: "idx s t < n" "race_range s v" using inv t2 by (auto simp: race_inv_def)
    have "race_inv n (s\<lparr>counter := v + d, pcs := (pcs s)(t := ForTest), idx := (idx s)(t := Suc (idx s t))\<rparr>)"
      using v t by (intro race_inv_upd [OF inv t2]) (auto simp: race_range_def)
    with StoreCounter st [symmetric] show ?thesis
      by (simp add: unlocked_loop_def set_pc_def)
  qed (use st in \<open>simp_all add: unlocked_loop_def\<close>)
qed

lemma base_program_inv:
  assumes inv: "race_inv n s" and st: "base_program n a s = Some s'"
  shows "race_inv n s'"
proof -
  have bnd: "\<bar>counter s\<bar> \<le> int n"
    using inv by (auto simp: race_inv_def race_range_def less_2_all)
  have fr: "race_inv n (put xs (set_pc t ForTest (s\<lparr>mpc := m\<rparr>)))" "race_inv n (put xs (s\<lparr>lk := l, mpc := m\<rparr>))"
    "race_inv n (put xs (s\<lparr>mpc := m\<rparr>))"
    if "\<And>c. CounterIs c \<in> set xs \<Longrightarrow> \<bar>c\<bar> \<le> int n" for xs t l m
    using inv that by (auto simp: race_inv_def race_range_def put_def set_pc_def)
  have "unlocked_loop 1 n 0 s = Some s' \<or> unlocked_loop (-1) n 1 s = Some s'
      \<or> base_main True s = Some s' \<or> base_main False s = Some s'"
    using st by (auto simp: base_program_def process_step_def base_producer_def base_consumer_def
        split: main_pc.splits actor.splits if_splits)
  moreover have "race_inv n s'" if "base_main ok s = Some s'" for ok
    using that bnd by (auto simp: base_main_def thread_main_def intro!: fr split: main_pc.splits if_splits)
  ultimately show ?thesis
    using unlocked_loop_inv [OF inv] by blast
qed

lemma reachable_race_inv:
  assumes "reachable (base_program n) base_init s"
  shows "race_inv n s"
  using assms
proof (rule reachable_invariant)
  show "race_inv n base_init"
    by (simp add: base_init_def init_lsys_def race_inv_def race_range_def)
qed (rule base_program_inv)

section \<open>Properties\<close>

text \<open>
  \<open>01_base.c\<close>: without a lock updates are lost. For every positive number of iterations
  there is a schedule under which the program ends normally and prints not 0 but that number:
  every one of the consumer's decrements was overwritten.
\<close>

theorem base_program_loses_updates:
  assumes "0 < n"
  shows "\<exists>as s. run (base_program n) as base_init = Some s \<and> mpc s = MDone 0 \<and> outs s = [CounterIs (int n)]"
  using race_run [OF assms] by blast

lemma base_program_loses_updates_witness:
  "0 < ITERATIONS \<and> (\<exists>as s. run (base_program ITERATIONS) as base_init = Some s \<and> mpc s = MDone 0
     \<and> outs s = [CounterIs 10000000])"
  using base_program_loses_updates [of ITERATIONS] by (simp add: ITERATIONS_def)

text \<open>
  \<open>01_base.c\<close>: what survives the race. In every reachable state the counter, and every
  value printed for it, lies between minus and plus the number of iterations.
\<close>

theorem base_program_bounds:
  assumes "reachable (base_program n) base_init s"
  shows "\<bar>counter s\<bar> \<le> int n \<and> (\<forall>c. CounterIs c \<in> set (outs s) \<longrightarrow> \<bar>c\<bar> \<le> int n)"
  using reachable_race_inv [OF assms] by (auto simp: race_inv_def race_range_def less_2_all)

lemma base_program_bounds_witness:
  "\<exists>s. reachable (base_program 1) base_init s \<and> outs s = [CounterIs 1] \<and> \<bar>counter s\<bar> \<le> 1"
proof -
  obtain s where s: "run (base_program 1) (race_schedule 1) base_init = Some s" "outs s = [CounterIs 1]"
    using race_run [of 1] by auto
  then show ?thesis
    using base_program_bounds [OF run_reachable [OF s(1)]] run_reachable [OF s(1)]
    by (intro exI [of _ s]) simp
qed

end
