(* ===== verification/BoundedBuffer.thy ===== *)
theory BoundedBuffer
  imports LockPrograms
begin

text \<open>
  The bounded buffer of \<open>Lecture Codes/03_synchro\<close>: one producer and one consumer share a ring
  of 10 integers under three semaphores, as two threads in \<open>08_bounded_buffer.c\<close> and as two
  processes over shared memory in \<open>12_sem_in_shm.c\<close>. The locale \<open>fifo_buffer\<close> is the interface
  between the loops and the ring: the loops are verified over its laws, the ring provides them.
\<close>

section \<open>The ring\<close>

definition N :: nat where
  "N = 10"

record ring =
  items :: "int list"
  in_pos :: nat
  out_pos :: nat

text \<open>\<open>bounded_buffer_t buffer = {};\<close> (or the zeroed pages of a new shared memory object)\<close>

definition ring_zero :: ring where
  "ring_zero = \<lparr>items = replicate N 0, in_pos = 0, out_pos = 0\<rparr>"

text \<open>\<open>buffer->items[buffer->in] = new_item;\<close>\<close>

definition ring_store :: "int \<Rightarrow> ring \<Rightarrow> ring" where
  "ring_store x b = b\<lparr>items := (items b)[in_pos b := x]\<rparr>"

text \<open>\<open>buffer->in = (buffer->in + 1) % N;\<close>\<close>

definition ring_advance_in :: "ring \<Rightarrow> ring" where
  "ring_advance_in b = b\<lparr>in_pos := (in_pos b + 1) mod N\<rparr>"

text \<open>\<open>buffer->items[buffer->out]\<close>\<close>

definition ring_read :: "ring \<Rightarrow> int" where
  "ring_read b = items b ! out_pos b"

text \<open>\<open>buffer->out = (buffer->out + 1) % N;\<close>\<close>

definition ring_advance_out :: "ring \<Rightarrow> ring" where
  "ring_advance_out b = b\<lparr>out_pos := (out_pos b + 1) mod N\<rparr>"

text \<open>
  The ring does not record how many items it holds: equal positions mean empty or full. What
  it represents is therefore a relation to a list, not a function of the ring.
\<close>

definition ring_holds :: "ring \<Rightarrow> int list \<Rightarrow> bool" where
  "ring_holds b xs \<longleftrightarrow> length (items b) = N \<and> out_pos b < N \<and> length xs \<le> N
     \<and> in_pos b = (out_pos b + length xs) mod N
     \<and> (\<forall>k < length xs. items b ! ((out_pos b + k) mod N) = xs ! k)"

section \<open>The interface: a bounded FIFO queue\<close>

locale fifo_buffer =
  fixes fresh :: 'b
    and store :: "int \<Rightarrow> 'b \<Rightarrow> 'b"
    and advance_in :: "'b \<Rightarrow> 'b"
    and read_item :: "'b \<Rightarrow> int"
    and advance_out :: "'b \<Rightarrow> 'b"
    and holds :: "'b \<Rightarrow> int list \<Rightarrow> bool"
    and capacity :: nat
  assumes holds_fresh: "holds fresh []"
    and holds_append: "holds b xs \<Longrightarrow> length xs < capacity \<Longrightarrow> holds (advance_in (store x b)) (xs @ [x])"
    and read_head: "holds b (x # xs) \<Longrightarrow> read_item b = x"
    and holds_tail: "holds b (x # xs) \<Longrightarrow> holds (advance_out b) xs"
    and holds_bounded: "holds b xs \<Longrightarrow> length xs \<le> capacity"
    and capacity_pos: "0 < capacity"

lemma ring_holds_append:
  assumes "ring_holds b xs" and "length xs < N"
  shows "ring_holds (ring_advance_in (ring_store x b)) (xs @ [x])"
proof -
  let ?i = "(out_pos b + length xs) mod N"
  have n: "0 < N" by (simp add: N_def)
  have i: "in_pos b = ?i" "length (items b) = N" "out_pos b < N" "?i < N"
    using assms(1) n by (auto simp: ring_holds_def)
  have old: "(items b)[?i := x] ! ((out_pos b + k) mod N) = xs ! k" if "k < length xs" for k
  proof -
    have "(out_pos b + k) mod N \<noteq> (out_pos b + length xs) mod N"
      using that assms(2) by (intro mod_add_1_neq [of "out_pos b"]) auto
    then show ?thesis
      using assms(1) that by (simp add: ring_holds_def)
  qed
  have "((out_pos b + length xs) mod N + 1) mod N = (out_pos b + length (xs @ [x])) mod N"
    by (simp add: mod_simps)
  then show ?thesis
    using i old assms(2) unfolding ring_holds_def
    by (auto simp: ring_advance_in_def ring_store_def nth_append less_Suc_eq)
qed

lemma ring_holds_tail:
  assumes "ring_holds b (x # xs)"
  shows "ring_holds (ring_advance_out b) xs"
proof -
  have n: "0 < N" by (simp add: N_def)
  have all: "\<forall>k < length (x # xs). items b ! ((out_pos b + k) mod N) = (x # xs) ! k"
    using assms by (simp add: ring_holds_def)
  have "items b ! (((out_pos b + 1) mod N + k) mod N) = xs ! k" if "k < length xs" for k
    using all [rule_format, of "Suc k"] that by (simp add: mod_simps)
  moreover have "(out_pos b + length (x # xs)) mod N = ((out_pos b + 1) mod N + length xs) mod N"
    by (simp add: mod_simps)
  ultimately show ?thesis
    using assms n unfolding ring_holds_def by (simp add: ring_advance_out_def)
qed

interpretation ring_fifo: fifo_buffer ring_zero ring_store ring_advance_in ring_read ring_advance_out ring_holds N
proof unfold_locales
  show "ring_holds ring_zero []"
    by (simp add: ring_holds_def ring_zero_def N_def)
next
  fix b x xs
  assume "ring_holds b (x # xs)"
  then show "ring_read b = x"
    by (auto simp: ring_holds_def ring_read_def)
qed (rule ring_holds_append ring_holds_tail, assumption+ | simp add: ring_holds_def N_def)+

section \<open>The producer's and the consumer's loop\<close>

datatype prod_pc = PIdle | PFor | PWaitEmpty | PWaitMtx | PStore | PAdvance | PPostMtx | PPostNonempty | PReturn

datatype cons_pc = CIdle | CFor | CWaitNonempty | CWaitMtx | CRead | CAdvance | CCheck | CPostMtx | CPostEmpty | CReturn

record ('b, 'm) bbsys =
  sem_mtx :: nat
  sem_empty :: nat
  sem_nonempty :: nat
  buf :: 'b
  ppc :: prod_pc
  p_i :: nat
  cpc :: cons_pc
  c_i :: nat
  c_item :: int
  main_at :: 'm
  printed :: "outmsg list"

definition say :: "outmsg list \<Rightarrow> ('b, 'm) bbsys \<Rightarrow> ('b, 'm) bbsys" where
  "say xs s = s\<lparr>printed := printed s @ xs\<rparr>"

definition bb_producer ::
  "(int \<Rightarrow> 'b \<Rightarrow> 'b) \<Rightarrow> ('b \<Rightarrow> 'b) \<Rightarrow> nat \<Rightarrow> ('b, 'm) bbsys \<Rightarrow> ('b, 'm) bbsys option" where
  "bb_producer store advance_in n s =
     (case ppc s of
        PIdle \<Rightarrow> None
      | PFor \<Rightarrow> Some (s\<lparr>ppc := if p_i s < n then PWaitEmpty else PReturn\<rparr>)
      | PWaitEmpty \<Rightarrow> map_option (\<lambda>v. s\<lparr>sem_empty := v, ppc := PWaitMtx\<rparr>) (sem_wait (sem_empty s))
      | PWaitMtx \<Rightarrow> map_option (\<lambda>v. s\<lparr>sem_mtx := v, ppc := PStore\<rparr>) (sem_wait (sem_mtx s))
      | PStore \<Rightarrow> Some (s\<lparr>buf := store (int (p_i s)) (buf s), ppc := PAdvance\<rparr>)
      | PAdvance \<Rightarrow> Some (s\<lparr>buf := advance_in (buf s), ppc := PPostMtx\<rparr>)
      | PPostMtx \<Rightarrow> Some (s\<lparr>sem_mtx := sem_post (sem_mtx s), ppc := PPostNonempty\<rparr>)
      | PPostNonempty \<Rightarrow> Some (s\<lparr>sem_nonempty := sem_post (sem_nonempty s), ppc := PFor, p_i := Suc (p_i s)\<rparr>)
      | PReturn \<Rightarrow> None)"

definition bb_consumer ::
  "('b \<Rightarrow> int) \<Rightarrow> ('b \<Rightarrow> 'b) \<Rightarrow> nat \<Rightarrow> ('b, 'm) bbsys \<Rightarrow> ('b, 'm) bbsys option" where
  "bb_consumer read_item advance_out n s =
     (case cpc s of
        CIdle \<Rightarrow> None
      | CFor \<Rightarrow> Some (s\<lparr>cpc := if c_i s < n then CWaitNonempty else CReturn\<rparr>)
      | CWaitNonempty \<Rightarrow> map_option (\<lambda>v. s\<lparr>sem_nonempty := v, cpc := CWaitMtx\<rparr>) (sem_wait (sem_nonempty s))
      | CWaitMtx \<Rightarrow> map_option (\<lambda>v. s\<lparr>sem_mtx := v, cpc := CRead\<rparr>) (sem_wait (sem_mtx s))
      | CRead \<Rightarrow> Some (s\<lparr>cpc := CAdvance, c_item := read_item (buf s)\<rparr>)
      | CAdvance \<Rightarrow> Some (s\<lparr>buf := advance_out (buf s), cpc := CCheck\<rparr>)
      | CCheck \<Rightarrow>
          Some (say (if c_item s \<noteq> int (c_i s) then [ErrText ''item corruption!''] else []) (s\<lparr>cpc := CPostMtx\<rparr>))
      | CPostMtx \<Rightarrow> Some (s\<lparr>sem_mtx := sem_post (sem_mtx s), cpc := CPostEmpty\<rparr>)
      | CPostEmpty \<Rightarrow> Some (s\<lparr>sem_empty := sem_post (sem_empty s), cpc := CFor, c_i := Suc (c_i s)\<rparr>)
      | CReturn \<Rightarrow> None)"

section \<open>The loops' invariant\<close>

text \<open>
  What a position stands for: \<open>p_paid\<close> the iteration under way has taken its slot, \<open>p_in\<close> it
  owns the mutex, \<open>p_put\<close> its item is in the buffer; the same for the consumer.
\<close>

fun p_paid :: "prod_pc \<Rightarrow> nat" where
  "p_paid PIdle = 0" | "p_paid PFor = 0" | "p_paid PWaitEmpty = 0" | "p_paid PReturn = 0" | "p_paid p = 1"

fun p_in :: "prod_pc \<Rightarrow> nat" where
  "p_in PStore = 1" | "p_in PAdvance = 1" | "p_in PPostMtx = 1" | "p_in p = 0"

fun p_put :: "prod_pc \<Rightarrow> nat" where
  "p_put PPostMtx = 1" | "p_put PPostNonempty = 1" | "p_put p = 0"

fun c_paid :: "cons_pc \<Rightarrow> nat" where
  "c_paid CIdle = 0" | "c_paid CFor = 0" | "c_paid CWaitNonempty = 0" | "c_paid CReturn = 0" | "c_paid c = 1"

fun c_in :: "cons_pc \<Rightarrow> nat" where
  "c_in CRead = 1" | "c_in CAdvance = 1" | "c_in CCheck = 1" | "c_in CPostMtx = 1" | "c_in c = 0"

fun c_got :: "cons_pc \<Rightarrow> nat" where
  "c_got CCheck = 1" | "c_got CPostMtx = 1" | "c_got CPostEmpty = 1" | "c_got c = 0"

definition in_buffer :: "('b, 'm) bbsys \<Rightarrow> int list" where
  "in_buffer s = map int [c_i s + c_got (cpc s) ..< p_i s + p_put (ppc s)]"

definition counts_inv :: "nat \<Rightarrow> nat \<Rightarrow> ('b, 'm) bbsys \<Rightarrow> bool" where
  "counts_inv cap n s \<longleftrightarrow>
     sem_mtx s + p_in (ppc s) + c_in (cpc s) = 1
     \<and> sem_empty s + p_i s + p_paid (ppc s) = cap + c_i s
     \<and> sem_nonempty s + c_i s + c_paid (cpc s) = p_i s
     \<and> (if ppc s = PFor \<or> ppc s = PIdle then p_i s \<le> n else if ppc s = PReturn then p_i s = n else p_i s < n)
     \<and> (if cpc s = CFor \<or> cpc s = CIdle then c_i s \<le> n else if cpc s = CReturn then c_i s = n else c_i s < n)"

definition data_inv :: "((int \<Rightarrow> 'b \<Rightarrow> 'b)) \<Rightarrow> ('b \<Rightarrow> int list \<Rightarrow> bool) \<Rightarrow> ('b, 'm) bbsys \<Rightarrow> bool" where
  "data_inv store holds s \<longleftrightarrow>
     (if ppc s = PAdvance then \<exists>b. buf s = store (int (p_i s)) b \<and> holds b (in_buffer s) else holds (buf s) (in_buffer s))
     \<and> (cpc s = CAdvance \<or> cpc s = CCheck \<longrightarrow> c_item s = int (c_i s))
     \<and> ErrText ''item corruption!'' \<notin> set (printed s)"

text \<open>The steps left of a loop.\<close>

fun p_left :: "prod_pc \<Rightarrow> nat" where
  "p_left PIdle = 9" | "p_left PFor = 8" | "p_left PWaitEmpty = 7" | "p_left PWaitMtx = 6" | "p_left PStore = 5"
| "p_left PAdvance = 4" | "p_left PPostMtx = 3" | "p_left PPostNonempty = 2" | "p_left PReturn = 0"

fun c_left :: "cons_pc \<Rightarrow> nat" where
  "c_left CIdle = 10" | "c_left CFor = 9" | "c_left CWaitNonempty = 8" | "c_left CWaitMtx = 7" | "c_left CRead = 6"
| "c_left CAdvance = 5" | "c_left CCheck = 4" | "c_left CPostMtx = 3" | "c_left CPostEmpty = 2" | "c_left CReturn = 0"

definition loops_left :: "nat \<Rightarrow> ('b, 'm) bbsys \<Rightarrow> nat" where
  "loops_left n s = (8 * (n - p_i s) + p_left (ppc s)) + (9 * (n - c_i s) + c_left (cpc s))"

lemma prod_step_counts:
  assumes "counts_inv cap n s" and "bb_producer store advance_in n s = Some s'"
  shows "counts_inv cap n s' \<and> loops_left n s' < loops_left n s"
  using assms(1) assms(2) [symmetric]
  by (cases "ppc s") (auto simp: bb_producer_def counts_inv_def loops_left_def sem_wait_def sem_post_def split: if_splits)

lemma cons_step_counts:
  assumes "counts_inv cap n s" and "bb_consumer read_item advance_out n s = Some s'"
  shows "counts_inv cap n s' \<and> loops_left n s' < loops_left n s"
  using assms(1) assms(2) [symmetric]
  by (cases "cpc s") (auto simp: bb_consumer_def counts_inv_def loops_left_def sem_wait_def sem_post_def say_def split: if_splits)

text \<open>
  No deadlock: once both loops run, one of them has a step until both have returned.
\<close>

lemma loops_not_stuck:
  assumes inv: "counts_inv cap n s" and cap: "0 < cap" and started: "ppc s \<noteq> PIdle" "cpc s \<noteq> CIdle"
    and stuck: "bb_producer store advance_in n s = None" "bb_consumer read_item advance_out n s = None"
  shows "ppc s = PReturn \<and> cpc s = CReturn"
proof -
  have p: "ppc s = PReturn \<or> ppc s = PWaitEmpty \<and> sem_empty s = 0 \<or> ppc s = PWaitMtx \<and> sem_mtx s = 0"
    using started(1) stuck(1) by (cases "ppc s") (auto simp: bb_producer_def sem_wait_def split: if_splits)
  have c: "cpc s = CReturn \<or> cpc s = CWaitNonempty \<and> sem_nonempty s = 0 \<or> cpc s = CWaitMtx \<and> sem_mtx s = 0"
    using started(2) stuck(2) by (cases "cpc s") (auto simp: bb_consumer_def sem_wait_def split: if_splits)
  show ?thesis
    using p c inv cap by (elim disjE conjE) (auto simp: counts_inv_def)
qed

context fifo_buffer
begin

abbreviation loops_inv :: "nat \<Rightarrow> ('b, 'm) bbsys \<Rightarrow> bool" where
  "loops_inv n s \<equiv> counts_inv capacity n s \<and> data_inv store holds s"

lemma prod_step_data:
  assumes cn: "counts_inv capacity n s" and dt: "data_inv store holds s"
    and st: "bb_producer store advance_in n s = Some s'"
  shows "data_inv store holds s'"
proof (cases "ppc s")
  case PStore
  with dt st [symmetric] show ?thesis
    by (auto simp: bb_producer_def data_inv_def in_buffer_def)
next
  case PAdvance
  then obtain b where b: "buf s = store (int (p_i s)) b" "holds b (in_buffer s)"
    using dt by (auto simp: data_inv_def)
  have le: "c_i s + c_got (cpc s) \<le> p_i s" and "p_i s < capacity + (c_i s + c_got (cpc s))"
    using cn PAdvance by (cases "cpc s"; simp add: counts_inv_def)+
  then have "length (in_buffer s) < capacity"
    using PAdvance capacity_pos by (auto simp: in_buffer_def)
  with b(2) have "holds (advance_in (store (int (p_i s)) b)) (in_buffer s @ [int (p_i s)])"
    by (rule holds_append)
  then show ?thesis
    using PAdvance dt b(1) le st [symmetric] by (simp add: bb_producer_def data_inv_def in_buffer_def)
qed (use dt st [symmetric] in
    \<open>auto simp: bb_producer_def data_inv_def in_buffer_def sem_wait_def split: if_splits\<close>)

lemma cons_step_data:
  assumes cn: "counts_inv capacity n s" and dt: "data_inv store holds s"
    and st: "bb_consumer read_item advance_out n s = Some s'"
  shows "data_inv store holds s'"
proof -
  have take: "holds (buf s) (int (c_i s) # map int [Suc (c_i s) ..< p_i s + p_put (ppc s)]) \<and> ppc s \<noteq> PAdvance"
    if "cpc s = CRead \<or> cpc s = CAdvance"
  proof -
    have out: "p_in (ppc s) = 0" and lt: "c_i s < p_i s + p_put (ppc s)" and got: "c_got (cpc s) = 0"
      using that cn by (auto simp: counts_inv_def)
    have "ppc s \<noteq> PAdvance" using out by auto
    moreover from this have "holds (buf s) (in_buffer s)" using dt by (simp add: data_inv_def)
    ultimately show ?thesis using lt got by (simp add: in_buffer_def upt_conv_Cons)
  qed
  show ?thesis
  proof (cases "cpc s")
    case CRead
    with take have "ppc s \<noteq> PAdvance" "read_item (buf s) = int (c_i s)" by (auto dest: read_head)
    with CRead dt st [symmetric] show ?thesis
      by (auto simp: bb_consumer_def data_inv_def in_buffer_def)
  next
    case CAdvance
    with take have "ppc s \<noteq> PAdvance" "holds (advance_out (buf s)) (map int [Suc (c_i s) ..< p_i s + p_put (ppc s)])"
      by (auto dest: holds_tail)
    with CAdvance dt st [symmetric] show ?thesis
      by (simp add: bb_consumer_def data_inv_def in_buffer_def)
  qed (use dt st [symmetric] in
      \<open>auto simp: bb_consumer_def data_inv_def in_buffer_def sem_wait_def say_def split: if_splits\<close>)
qed

lemma prod_step_inv:
  "loops_inv n s \<Longrightarrow> bb_producer store advance_in n s = Some s' \<Longrightarrow> loops_inv n s' \<and> loops_left n s' < loops_left n s"
  using prod_step_counts prod_step_data by blast

lemma cons_step_inv:
  "loops_inv n s \<Longrightarrow> bb_consumer read_item advance_out n s = Some s' \<Longrightarrow> loops_inv n s' \<and> loops_left n s' < loops_left n s"
  using cons_step_counts cons_step_data by blast

lemma loops_end:
  "loops_inv n s \<Longrightarrow> ppc s \<noteq> PIdle \<Longrightarrow> cpc s \<noteq> CIdle \<Longrightarrow> bb_producer store advance_in n s = None \<Longrightarrow>
    bb_consumer read_item advance_out n s = None \<Longrightarrow> ppc s = PReturn \<and> cpc s = CReturn"
  using loops_not_stuck [OF _ capacity_pos] by blast

end

section \<open>08_bounded_buffer.c: two threads\<close>

definition buffer_main :: "bool \<Rightarrow> (ring, main_pc) bbsys \<Rightarrow> (ring, main_pc) bbsys option" where
  "buffer_main ok s =
     (case main_at s of
        MInit \<Rightarrow>
          (if ok then Some (say [Text ''Creating producer'']
             (s\<lparr>sem_mtx := 1, sem_empty := N, sem_nonempty := 0, main_at := MCreateP\<rparr>))
           else None)
      | MCreateP \<Rightarrow>
          (if ok then Some (say [Text ''Creating consumer''] (s\<lparr>ppc := PFor, main_at := MCreateC\<rparr>))
           else Some (say [ErrText ''pthread_create()''] (s\<lparr>main_at := MDone 1\<rparr>)))
      | MCreateC \<Rightarrow>
          (if ok then Some (say [Text ''Created both threads''] (s\<lparr>cpc := CFor, main_at := MJoinP\<rparr>))
           else Some (say [ErrText ''pthread_create()''] (s\<lparr>main_at := MDone 1\<rparr>)))
      | MJoinP \<Rightarrow> (if ok \<and> ppc s = PReturn then Some (s\<lparr>main_at := MJoinC\<rparr>) else None)
      | MJoinC \<Rightarrow> (if ok \<and> cpc s = CReturn then Some (s\<lparr>main_at := MDone 0\<rparr>) else None)
      | _ \<Rightarrow> None)"

definition buffer_producer :: "nat \<Rightarrow> (ring, main_pc) bbsys \<Rightarrow> (ring, main_pc) bbsys option" where
  "buffer_producer n = bb_producer ring_store ring_advance_in n"

definition buffer_consumer :: "nat \<Rightarrow> (ring, main_pc) bbsys \<Rightarrow> (ring, main_pc) bbsys option" where
  "buffer_consumer n = bb_consumer ring_read ring_advance_out n"

definition buffer_program :: "nat \<Rightarrow> actor \<Rightarrow> (ring, main_pc) bbsys \<Rightarrow> (ring, main_pc) bbsys option" where
  "buffer_program n a s =
     (case main_at s of
        MDone c \<Rightarrow> None
      | _ \<Rightarrow> (case a of
                MainOk \<Rightarrow> buffer_main True s
              | MainFail \<Rightarrow> buffer_main False s
              | Thr t \<Rightarrow> (if t = 0 then buffer_producer n s else if t = 1 then buffer_consumer n s else None)))"

text \<open>The state at \<open>main\<close>: global semaphores are zero until \<open>sem_init\<close>.\<close>

definition bb_start :: "'m \<Rightarrow> (ring, 'm) bbsys" where
  "bb_start m = \<lparr>sem_mtx = 0, sem_empty = 0, sem_nonempty = 0, buf = ring_zero, ppc = PIdle, p_i = 0,
     cpc = CIdle, c_i = 0, c_item = 0, main_at = m, printed = []\<rparr>"

definition buffer_inv :: "nat \<Rightarrow> (ring, main_pc) bbsys \<Rightarrow> bool" where
  "buffer_inv n s \<longleftrightarrow> s = bb_start MInit
     \<or> (main_at s \<noteq> MInit \<and> main_at s \<noteq> MPrint \<and> ring_fifo.loops_inv n s
        \<and> (main_at s = MCreateP \<longrightarrow> ppc s = PIdle \<and> cpc s = CIdle)
        \<and> (main_at s = MCreateC \<longrightarrow> ppc s \<noteq> PIdle \<and> cpc s = CIdle)
        \<and> (main_at s \<in> {MJoinP, MJoinC, MDone 0} \<longrightarrow> ppc s \<noteq> PIdle \<and> cpc s \<noteq> CIdle)
        \<and> (main_at s \<in> {MJoinC, MDone 0} \<longrightarrow> ppc s = PReturn)
        \<and> (main_at s = MDone 0 \<longrightarrow> cpc s = CReturn)
        \<and> (\<forall>c. main_at s = MDone c \<longrightarrow> c = 0 \<or> c = 1))"

definition buffer_left :: "nat \<Rightarrow> (ring, main_pc) bbsys \<Rightarrow> nat" where
  "buffer_left n s = main_left (main_at s) + loops_left n s"

lemma say_sel [simp]:
  "ppc (say xs s) = ppc s" "cpc (say xs s) = cpc s" "main_at (say xs s) = main_at s"
  "printed (say xs s) = printed s @ xs"
  by (simp_all add: say_def)

lemma loops_frame:
  "counts_inv cap n (s\<lparr>main_at := m\<rparr>) = counts_inv cap n s"
  "counts_inv cap n (say xs s) = counts_inv cap n s"
  "data_inv st holds (s\<lparr>main_at := m\<rparr>) = data_inv st holds s"
  "data_inv st holds (say xs s) \<longleftrightarrow> data_inv st holds s \<and> ErrText ''item corruption!'' \<notin> set xs"
  "loops_left n (s\<lparr>main_at := m\<rparr>) = loops_left n s"
  "loops_left n (say xs s) = loops_left n s"
  by (auto simp: counts_inv_def data_inv_def in_buffer_def loops_left_def say_def)

lemma loops_start_prod:
  assumes "ppc s = PIdle"
  shows "counts_inv cap n (s\<lparr>ppc := PFor, main_at := m\<rparr>) = counts_inv cap n s"
    and "data_inv st holds (s\<lparr>ppc := PFor, main_at := m\<rparr>) = data_inv st holds s"
    and "loops_left n (s\<lparr>ppc := PFor, main_at := m\<rparr>) < loops_left n s"
  using assms by (auto simp: counts_inv_def data_inv_def in_buffer_def loops_left_def)

lemma loops_start_cons:
  assumes "cpc s = CIdle"
  shows "counts_inv cap n (s\<lparr>cpc := CFor, main_at := m\<rparr>) = counts_inv cap n s"
    and "data_inv st holds (s\<lparr>cpc := CFor, main_at := m\<rparr>) = data_inv st holds s"
    and "loops_left n (s\<lparr>cpc := CFor, main_at := m\<rparr>) < loops_left n s"
  using assms by (auto simp: counts_inv_def data_inv_def in_buffer_def loops_left_def)

lemma bb_step_main:
  "bb_producer st adv n s = Some s' \<Longrightarrow> main_at s' = main_at s \<and> cpc s' = cpc s \<and> ppc s \<noteq> PIdle \<and> ppc s \<noteq> PReturn \<and> ppc s' \<noteq> PIdle"
  "bb_consumer rd adv n s = Some s' \<Longrightarrow> main_at s' = main_at s \<and> ppc s' = ppc s \<and> cpc s \<noteq> CIdle \<and> cpc s \<noteq> CReturn \<and> cpc s' \<noteq> CIdle"
  subgoal by (cases "ppc s") (auto simp: bb_producer_def split: if_splits)
  subgoal by (cases "cpc s") (auto simp: bb_consumer_def say_def split: if_splits)
  done

lemma bb_start_sel [simp]: "ppc (bb_start m) = PIdle" "cpc (bb_start m) = CIdle" "main_at (bb_start m) = m"
  by (simp_all add: bb_start_def)

lemma buffer_loops_start:
  assumes "sem_mtx s = 1" "sem_empty s = N" "sem_nonempty s = 0" "buf s = ring_zero" "ppc s = PIdle" "p_i s = 0"
    "cpc s = CIdle" "c_i s = 0" "ErrText ''item corruption!'' \<notin> set (printed s)"
  shows "counts_inv N n s" "data_inv ring_store ring_holds s" "loops_left n s = loops_left n (bb_start m)"
  using ring_fifo.holds_fresh assms
  by (simp_all add: bb_start_def counts_inv_def data_inv_def in_buffer_def loops_left_def)

lemma buffer_step_inv:
  assumes inv: "buffer_inv n s" and st: "buffer_program n a s = Some s'"
  shows "buffer_inv n s' \<and> buffer_left n s' < buffer_left n s"
proof -
  consider (prod) "bb_producer ring_store ring_advance_in n s = Some s'" "\<forall>c. main_at s \<noteq> MDone c"
    | (cons) "bb_consumer ring_read ring_advance_out n s = Some s'" "\<forall>c. main_at s \<noteq> MDone c"
    | (main) ok where "buffer_main ok s = Some s'"
    using st by (auto simp: buffer_program_def buffer_producer_def buffer_consumer_def split: main_pc.splits actor.splits if_splits)
  then show ?thesis
  proof cases
    case prod
    have "s \<noteq> bb_start MInit"
      using bb_step_main(1) [OF prod(1)] by auto
    with prod show ?thesis
      using inv bb_step_main(1) [OF prod(1)] ring_fifo.prod_step_inv [OF _ prod(1)]
      by (auto simp: buffer_inv_def buffer_left_def)
  next
    case cons
    have "s \<noteq> bb_start MInit"
      using bb_step_main(2) [OF cons(1)] by auto
    with cons show ?thesis
      using inv bb_step_main(2) [OF cons(1)] ring_fifo.cons_step_inv [OF _ cons(1)]
      by (auto simp: buffer_inv_def buffer_left_def)
  next
    case (main ok)
    show ?thesis
    proof (cases "s = bb_start MInit")
      case True
      with main [symmetric] show ?thesis
        using buffer_loops_start(1) [of s' n] buffer_loops_start(2) [of s'] buffer_loops_start(3) [of s' n MInit]
        by (auto simp: buffer_main_def buffer_inv_def buffer_left_def say_def bb_start_def split: if_splits)
    next
      case False
      with main [symmetric] inv show ?thesis
        using loops_start_prod [of s] loops_start_cons [of s]
        by (cases "main_at s")
          (auto simp: buffer_main_def buffer_inv_def buffer_left_def loops_frame less_SucI split: if_splits)
    qed
  qed
qed

lemma reachable_buffer_inv:
  assumes "reachable (buffer_program n) (bb_start MInit) s"
  shows "buffer_inv n s"
  using assms
proof (rule reachable_invariant)
  show "buffer_inv n (bb_start MInit)" by (simp add: buffer_inv_def)
next
  fix a s t
  assume "buffer_inv n s" "buffer_program n a s = Some t"
  then show "buffer_inv n t" using buffer_step_inv by blast
qed

text \<open>What the loops' invariant says of the ring.\<close>

lemma ring_in_range:
  assumes "data_inv ring_store ring_holds s"
  shows "in_pos (buf s) < N \<and> out_pos (buf s) < N"
proof -
  have "in_pos b < N \<and> out_pos b < N" if "ring_holds b xs" for b xs
    using that by (auto simp: ring_holds_def N_def)
  then show ?thesis
    using assms by (auto simp: data_inv_def ring_store_def split: if_splits)
qed

lemma counts_distance: "counts_inv cap n s \<Longrightarrow> c_i s \<le> p_i s \<and> p_i s \<le> c_i s + cap"
  by (auto simp: counts_inv_def)

lemma buffer_stuck:
  assumes inv: "buffer_inv n s" and stuck: "\<forall>a. buffer_program n a s = None"
  shows "main_at s = MDone 0 \<and> p_i s = n \<and> c_i s = n \<or> main_at s = MDone 1"
proof -
  have main: "\<forall>c. main_at s \<noteq> MDone c \<Longrightarrow> buffer_main True s = None"
    and prod: "\<forall>c. main_at s \<noteq> MDone c \<Longrightarrow> bb_producer ring_store ring_advance_in n s = None"
    and cons: "\<forall>c. main_at s \<noteq> MDone c \<Longrightarrow> bb_consumer ring_read ring_advance_out n s = None"
    using stuck [rule_format, of MainOk] stuck [rule_format, of "Thr 0"] stuck [rule_format, of "Thr 1"]
    by (auto simp: buffer_program_def buffer_producer_def buffer_consumer_def split: main_pc.splits)
  show ?thesis
  proof (cases "\<exists>c. main_at s = MDone c")
    case True
    then show ?thesis
      using inv by (auto simp: buffer_inv_def counts_inv_def bb_start_def)
  next
    case False
    then have no: "\<forall>c. main_at s \<noteq> MDone c" by simp
    have j: "main_at s = MJoinP \<and> ppc s \<noteq> PReturn \<or> main_at s = MJoinC \<and> cpc s \<noteq> CReturn"
      using main [OF no] no inv by (cases "main_at s") (auto simp: buffer_main_def buffer_inv_def bb_start_def)
    then have "ring_fifo.loops_inv n s" "ppc s \<noteq> PIdle" "cpc s \<noteq> CIdle"
      using inv by (auto simp: buffer_inv_def bb_start_def)
    with ring_fifo.loops_end prod [OF no] cons [OF no] j show ?thesis by blast
  qed
qed

section \<open>12_sem_in_shm.c: two processes\<close>

text \<open>
  The parent's position: the set-up calls, which fail with an exit code, then its loop, the
  wait for the child and the release of the shared memory; the child runs the consumer's loop
  and then the same last lines. The child is absent until \<open>fork\<close>.
\<close>

datatype shm_pc =
  SOpen | STruncate | SMap | SInitMtx | SInitEmpty | SInitNonempty | SFork | SBody | SWait | SUnmap | SExit int

type_synonym shm_sys = "(ring, shm_pc \<times> shm_pc option) bbsys"

definition shm_fails :: "string \<Rightarrow> shm_sys \<Rightarrow> shm_sys option" where
  "shm_fails call s = Some (say [ErrText call] (s\<lparr>main_at := (SExit 1, None)\<rparr>))"

text \<open>\<open>while (wait(NULL) > 0);\<close> is over when the only child has terminated.\<close>

fun gone :: "shm_pc option \<Rightarrow> bool" where
  "gone (Some (SExit c)) = True"
| "gone q = False"

lemma gone_iff: "gone q \<longleftrightarrow> (\<exists>c. q = Some (SExit c))"
  by (cases q rule: gone.cases) simp_all

definition shm_parent :: "bool \<Rightarrow> shm_sys \<Rightarrow> shm_sys option" where
  "shm_parent ok s =
     (case fst (main_at s) of
        SOpen \<Rightarrow> if ok then Some (s\<lparr>main_at := (STruncate, None)\<rparr>) else shm_fails ''shm_open()'' s
      | STruncate \<Rightarrow> if ok then Some (s\<lparr>main_at := (SMap, None)\<rparr>) else shm_fails ''ftruncate()'' s
      | SMap \<Rightarrow> if ok then Some (s\<lparr>main_at := (SInitMtx, None)\<rparr>) else shm_fails ''mmap()'' s
      | SInitMtx \<Rightarrow>
          if ok then Some (s\<lparr>sem_mtx := 1, main_at := (SInitEmpty, None)\<rparr>) else shm_fails ''sem_init()'' s
      | SInitEmpty \<Rightarrow>
          if ok then Some (s\<lparr>sem_empty := N, main_at := (SInitNonempty, None)\<rparr>) else shm_fails ''sem_init()'' s
      | SInitNonempty \<Rightarrow>
          if ok then Some (s\<lparr>sem_nonempty := 0, main_at := (SFork, None)\<rparr>) else shm_fails ''sem_init()'' s
      | SFork \<Rightarrow>
          if ok then Some (s\<lparr>ppc := PFor, cpc := CFor, main_at := (SBody, Some SBody)\<rparr>) else shm_fails ''fork()'' s
      | SBody \<Rightarrow>
          if ok \<and> ppc s = PReturn then Some (s\<lparr>main_at := (SWait, snd (main_at s))\<rparr>) else None
      | SWait \<Rightarrow>
          if ok \<and> gone (snd (main_at s))
          then Some (say [Text ''Unmapping file''] (s\<lparr>main_at := (SUnmap, snd (main_at s))\<rparr>)) else None
      | SUnmap \<Rightarrow> if ok then Some (s\<lparr>main_at := (SExit 0, snd (main_at s))\<rparr>) else None
      | SExit c \<Rightarrow> None)"

definition shm_child :: "shm_sys \<Rightarrow> shm_sys option" where
  "shm_child s =
     (case snd (main_at s) of
        Some SBody \<Rightarrow>
          if cpc s = CReturn
          then Some (say [Text ''Unmapping file''] (s\<lparr>main_at := (fst (main_at s), Some SUnmap)\<rparr>)) else None
      | Some SUnmap \<Rightarrow> Some (s\<lparr>main_at := (fst (main_at s), Some (SExit 0))\<rparr>)
      | _ \<Rightarrow> None)"

definition shm_producer :: "nat \<Rightarrow> shm_sys \<Rightarrow> shm_sys option" where
  "shm_producer n = bb_producer ring_store ring_advance_in n"

definition shm_consumer :: "nat \<Rightarrow> shm_sys \<Rightarrow> shm_sys option" where
  "shm_consumer n = bb_consumer ring_read ring_advance_out n"

lemmas bb_bodies = buffer_producer_def buffer_consumer_def shm_producer_def shm_consumer_def

text \<open>
  Actors: the parent's calls, the parent in \<open>producer\<close> (0), the child in \<open>consumer\<close> (1) and the
  child's last lines (2).
\<close>

definition shm_program :: "nat \<Rightarrow> actor \<Rightarrow> shm_sys \<Rightarrow> shm_sys option" where
  "shm_program n a s =
     (case a of
        MainOk \<Rightarrow> shm_parent True s
      | MainFail \<Rightarrow> shm_parent False s
      | Thr t \<Rightarrow>
          (if t = 0 then (if fst (main_at s) = SBody then shm_producer n s else None)
           else if t = 1 then (if snd (main_at s) = Some SBody then shm_consumer n s else None)
           else if t = 2 then shm_child s else None))"

fun shm_left :: "shm_pc \<Rightarrow> nat" where
  "shm_left SOpen = 13" | "shm_left STruncate = 12" | "shm_left SMap = 11" | "shm_left SInitMtx = 10"
| "shm_left SInitEmpty = 9" | "shm_left SInitNonempty = 8" | "shm_left SFork = 7" | "shm_left SBody = 3"
| "shm_left SWait = 2" | "shm_left SUnmap = 1" | "shm_left (SExit c) = 0"

fun setting_up :: "shm_pc \<Rightarrow> bool" where
  "setting_up SBody = False" | "setting_up SWait = False" | "setting_up SUnmap = False"
| "setting_up (SExit c) = False" | "setting_up p = True"

definition shm_inv :: "nat \<Rightarrow> shm_sys \<Rightarrow> bool" where
  "shm_inv n s \<longleftrightarrow>
     (case snd (main_at s) of
        None \<Rightarrow>
          (setting_up (fst (main_at s)) \<or> fst (main_at s) = SExit 1) \<and> buf s = ring_zero \<and> ppc s = PIdle \<and> p_i s = 0
          \<and> cpc s = CIdle \<and> c_i s = 0 \<and> ErrText ''item corruption!'' \<notin> set (printed s)
          \<and> (fst (main_at s) \<in> {SInitEmpty, SInitNonempty, SFork} \<longrightarrow> sem_mtx s = 1)
          \<and> (fst (main_at s) \<in> {SInitNonempty, SFork} \<longrightarrow> sem_empty s = N)
          \<and> (fst (main_at s) = SFork \<longrightarrow> sem_nonempty s = 0)
      | Some q \<Rightarrow>
          fst (main_at s) \<in> {SBody, SWait, SUnmap, SExit 0} \<and> q \<in> {SBody, SUnmap, SExit 0}
          \<and> ring_fifo.loops_inv n s \<and> ppc s \<noteq> PIdle \<and> cpc s \<noteq> CIdle
          \<and> (fst (main_at s) \<noteq> SBody \<longrightarrow> ppc s = PReturn)
          \<and> (fst (main_at s) \<in> {SUnmap, SExit 0} \<longrightarrow> q = SExit 0)
          \<and> (q \<noteq> SBody \<longrightarrow> cpc s = CReturn))"

definition shm_work :: "nat \<Rightarrow> shm_sys \<Rightarrow> nat" where
  "shm_work n s = shm_left (fst (main_at s)) + (case snd (main_at s) of None \<Rightarrow> 0 | Some q \<Rightarrow> shm_left q) + loops_left n s"

lemma shm_forked:
  assumes "sem_mtx s = 1" "sem_empty s = N" "sem_nonempty s = 0" "buf s = ring_zero" "ppc s = PFor" "p_i s = 0"
    "cpc s = CFor" "c_i s = 0" "ErrText ''item corruption!'' \<notin> set (printed s)"
  shows "counts_inv N n s" "data_inv ring_store ring_holds s"
  using ring_fifo.holds_fresh assms
  by (simp_all add: counts_inv_def data_inv_def in_buffer_def)

lemma say_sel2 [simp]:
  "buf (say xs s) = buf s" "p_i (say xs s) = p_i s" "c_i (say xs s) = c_i s" "sem_mtx (say xs s) = sem_mtx s"
  "sem_empty (say xs s) = sem_empty s" "sem_nonempty (say xs s) = sem_nonempty s"
  by (simp_all add: say_def)

lemma shm_parent_inv:
  assumes "shm_inv n s" and "shm_parent ok s = Some s'"
  shows "shm_inv n s' \<and> shm_work n s' < shm_work n s"
proof (cases "snd (main_at s)")
  case None
  show ?thesis
  proof (cases "fst (main_at s) = SFork \<and> ok")
    case True
    then have s': "s' = s\<lparr>ppc := PFor, cpc := CFor, main_at := (SBody, Some SBody)\<rparr>"
      using assms(2) by (simp add: shm_parent_def)
    have "counts_inv N n s'" "data_inv ring_store ring_holds s'"
      using assms(1) None True shm_forked [of s'] by (simp_all add: shm_inv_def s')
    moreover have "shm_work n s' < shm_work n s"
      using assms(1) None True by (simp add: shm_work_def s' loops_left_def shm_inv_def)
    ultimately show ?thesis
      by (simp add: shm_inv_def s')
  next
    case False
    with assms(1) assms(2) [symmetric] None show ?thesis
      by (cases "fst (main_at s)")
        (auto simp: shm_parent_def shm_fails_def shm_inv_def shm_work_def loops_frame loops_left_def split: if_splits)
  qed
next
  case (Some q)
  with assms(1) assms(2) [symmetric] show ?thesis
    by (cases "fst (main_at s)") (auto simp: shm_parent_def shm_inv_def shm_work_def loops_frame gone_iff split: if_splits)
qed

lemma shm_child_inv:
  assumes "shm_inv n s" and "shm_child s = Some s'"
  shows "shm_inv n s' \<and> shm_work n s' < shm_work n s"
proof (cases "snd (main_at s)")
  case None
  with assms(2) show ?thesis by (simp add: shm_child_def)
next
  case (Some q)
  with assms(1) assms(2) [symmetric] show ?thesis
    by (cases q) (auto simp: shm_child_def shm_inv_def shm_work_def loops_frame split: if_splits)
qed

lemma shm_step_inv:
  assumes inv: "shm_inv n s" and st: "shm_program n a s = Some s'"
  shows "shm_inv n s' \<and> shm_work n s' < shm_work n s"
proof -
  consider (prod) "bb_producer ring_store ring_advance_in n s = Some s'" "fst (main_at s) = SBody"
    | (cons) "bb_consumer ring_read ring_advance_out n s = Some s'" "snd (main_at s) = Some SBody"
    | (parent) ok where "shm_parent ok s = Some s'" | (child) "shm_child s = Some s'"
    using st by (auto simp: shm_program_def bb_bodies split: actor.splits if_splits)
  then show ?thesis
  proof cases
    case prod
    then obtain q where "snd (main_at s) = Some q"
      using inv by (cases "snd (main_at s)") (auto simp: shm_inv_def)
    then show ?thesis
      using prod inv bb_step_main(1) [OF prod(1)] ring_fifo.prod_step_inv [OF _ prod(1)]
      by (auto simp: shm_inv_def shm_work_def)
  next
    case cons
    then show ?thesis
      using inv bb_step_main(2) [OF cons(1)] ring_fifo.cons_step_inv [OF _ cons(1)]
      by (auto simp: shm_inv_def shm_work_def)
  qed (use shm_parent_inv [OF inv] shm_child_inv [OF inv] in blast)+
qed

lemma bb_returned:
  "ppc s = PReturn \<Longrightarrow> bb_producer st adv n s = None"
  "cpc s = CReturn \<Longrightarrow> bb_consumer rd adv' n s = None"
  by (simp_all add: bb_producer_def bb_consumer_def)

lemma shm_stuck:
  assumes inv: "shm_inv n s" and stuck: "\<forall>a. shm_program n a s = None"
  shows "main_at s = (SExit 1, None) \<or> main_at s = (SExit 0, Some (SExit 0)) \<and> p_i s = n \<and> c_i s = n"
proof -
  have parent: "shm_parent True s = None" and child: "shm_child s = None"
    and prod: "fst (main_at s) = SBody \<Longrightarrow> bb_producer ring_store ring_advance_in n s = None"
    and cons: "snd (main_at s) = Some SBody \<Longrightarrow> bb_consumer ring_read ring_advance_out n s = None"
    using stuck [rule_format, of MainOk] stuck [rule_format, of "Thr 0"] stuck [rule_format, of "Thr 1"]
      stuck [rule_format, of "Thr 2"]
    by (auto simp: shm_program_def bb_bodies)
  show ?thesis
  proof (cases "snd (main_at s)")
    case None
    with inv parent show ?thesis
      by (cases "main_at s"; cases "fst (main_at s)") (auto simp: shm_inv_def shm_parent_def split: if_splits)
  next
    case (Some q)
    have li: "ring_fifo.loops_inv n s" "ppc s \<noteq> PIdle" "cpc s \<noteq> CIdle"
      using inv Some by (auto simp: shm_inv_def)
    have q: "q = SExit 0 \<or> q = SBody \<and> cpc s \<noteq> CReturn"
      using child inv Some by (auto simp: shm_child_def shm_inv_def split: if_splits)
    have f: "fst (main_at s) = SExit 0 \<or> fst (main_at s) = SBody \<and> ppc s \<noteq> PReturn \<or> fst (main_at s) = SWait \<and> q = SBody"
      using parent inv Some q by (auto simp: shm_parent_def shm_inv_def gone_iff split: if_splits)
    have pn: "bb_producer ring_store ring_advance_in n s = None"
      using prod inv Some f bb_returned(1) [of s] by (auto simp: shm_inv_def)
    have cn: "bb_consumer ring_read ring_advance_out n s = None"
      using cons inv Some q bb_returned(2) [of s] by (auto simp: shm_inv_def)
    have "ppc s = PReturn \<and> cpc s = CReturn"
      using ring_fifo.loops_end [OF li pn cn] .
    with q f li(1) Some show ?thesis
      by (cases "main_at s") (auto simp: counts_inv_def)
  qed
qed

lemma reachable_shm_inv:
  assumes "reachable (shm_program n) (bb_start (SOpen, None)) s"
  shows "shm_inv n s"
  using assms
proof (rule reachable_invariant)
  show "shm_inv n (bb_start (SOpen, None))" by (simp add: shm_inv_def bb_start_def)
next
  fix a s t
  assume "shm_inv n s" "shm_program n a s = Some t"
  then show "shm_inv n t" using shm_step_inv by blast
qed

section \<open>Properties\<close>

lemma loops_safe:
  assumes "ring_fifo.loops_inv n s"
  shows "ErrText ''item corruption!'' \<notin> set (printed s) \<and> in_pos (buf s) < N \<and> out_pos (buf s) < N
    \<and> c_i s \<le> p_i s \<and> p_i s \<le> c_i s + N"
  using assms ring_in_range [of s] counts_distance [of N n s] by (auto simp: data_inv_def)

lemma zero_safe:
  assumes "buf s = ring_zero" "p_i s = 0" "c_i s = 0" "ErrText ''item corruption!'' \<notin> set (printed s)"
  shows "ErrText ''item corruption!'' \<notin> set (printed s) \<and> in_pos (buf s) < N \<and> out_pos (buf s) < N
    \<and> c_i s \<le> p_i s \<and> p_i s \<le> c_i s + N"
  using assms by (simp add: ring_zero_def N_def)

text \<open>A whole run of both loops with one iteration, from the start of the two loops.\<close>

definition one_item :: "actor list" where
  "one_item = [Thr 0, Thr 0, Thr 0, Thr 0, Thr 0, Thr 0, Thr 0, Thr 0,
     Thr 1, Thr 1, Thr 1, Thr 1, Thr 1, Thr 1, Thr 1, Thr 1, Thr 1]"

lemmas bb_exec = one_item_def bb_start_def bb_producer_def bb_consumer_def say_def sem_wait_def sem_post_def
  ring_zero_def ring_store_def ring_advance_in_def ring_read_def ring_advance_out_def N_def
  bb_bodies buffer_program_def buffer_main_def shm_program_def shm_parent_def shm_child_def

text \<open>
  C3. \<open>08_bounded_buffer.c\<close>: in every reachable state, for any number of iterations, no item
  was reported corrupt (the consumer's i-th item was always i), both positions are inside the
  array, and the producer is at most 10 items ahead of the consumer and never behind it.
\<close>

theorem buffer_program_correct:
  assumes "reachable (buffer_program n) (bb_start MInit) s"
  shows "ErrText ''item corruption!'' \<notin> set (printed s) \<and> in_pos (buf s) < N \<and> out_pos (buf s) < N
    \<and> c_i s \<le> p_i s \<and> p_i s \<le> c_i s + N"
  using reachable_buffer_inv [OF assms] loops_safe [of n s] zero_safe [of s]
  by (auto simp: buffer_inv_def bb_start_def)

lemma buffer_program_correct_witness:
  "\<exists>s. reachable (buffer_program 1) (bb_start MInit) s \<and> main_at s = MDone 0 \<and> c_i s = 1
    \<and> ErrText ''item corruption!'' \<notin> set (printed s) \<and> in_pos (buf s) < 10"
proof -
  have "map_option (\<lambda>s. (main_at s, c_i s)) (run (buffer_program 1)
      ([MainOk, MainOk, MainOk] @ one_item @ [MainOk, MainOk]) (bb_start MInit)) = Some (MDone 0, 1)"
    by code_simp
  then obtain s where s: "reachable (buffer_program 1) (bb_start MInit) s" "main_at s = MDone 0" "c_i s = 1"
    using reachable_obs [of "\<lambda>s. (main_at s, c_i s)"] by blast
  then show ?thesis
    using buffer_program_correct [OF s(1)] by (intro exI [of _ s]) (simp add: N_def)
qed

text \<open>
  C12. \<open>08_bounded_buffer.c\<close>: the program terminates under every schedule, after at most
  17 n + 25 steps, and it never deadlocks: when no thread can move, \<open>main\<close> has returned 0 with
  all n items produced and consumed, or 1 after a failed \<open>pthread_create\<close>.
\<close>

theorem buffer_program_terminates:
  assumes "run (buffer_program n) as (bb_start MInit) = Some s"
  shows "length as \<le> 17 * n + 25
    \<and> ((\<forall>a. buffer_program n a s = None) \<longrightarrow>
         main_at s = MDone 0 \<and> p_i s = n \<and> c_i s = n \<or> main_at s = MDone 1)"
proof -
  have "length as + buffer_left n s \<le> buffer_left n (bb_start MInit)"
    using assms by (intro run_length_bound [where P = "buffer_inv n"])
      (auto simp: buffer_step_inv, simp add: buffer_inv_def)
  moreover have "buffer_left n (bb_start MInit) = 17 * n + 25"
    by (simp add: buffer_left_def loops_left_def bb_start_def)
  ultimately show ?thesis
    using buffer_stuck [OF reachable_buffer_inv [OF run_reachable [OF assms]]] by simp
qed

lemma buffer_program_terminates_witness:
  "\<exists>s. run (buffer_program 1) [MainOk, MainOk, MainFail] (bb_start MInit) = Some s \<and> main_at s = MDone 1
    \<and> length [MainOk, MainOk, MainFail] \<le> 17 * 1 + 25"
proof -
  obtain s where s: "run (buffer_program 1) [MainOk, MainOk, MainFail] (bb_start MInit) = Some s" "main_at s = MDone 1"
    by (simp add: bb_exec)
  then show ?thesis
    using buffer_program_terminates [OF s(1)] by (intro exI [of _ s]) simp
qed

text \<open>
  \<open>12_sem_in_shm.c\<close>: the same over shared memory, and when the child gets to \<open>sem_destroy\<close>
  the parent makes no further call on the semaphores: its loop has done its n iterations.
\<close>

theorem shm_program_correct:
  assumes "reachable (shm_program n) (bb_start (SOpen, None)) s"
  shows "ErrText ''item corruption!'' \<notin> set (printed s) \<and> in_pos (buf s) < N \<and> out_pos (buf s) < N
    \<and> c_i s \<le> p_i s \<and> p_i s \<le> c_i s + N
    \<and> (snd (main_at s) = Some SUnmap \<or> snd (main_at s) = Some (SExit 0) \<longrightarrow>
         p_i s = n \<and> (ppc s = PFor \<or> ppc s = PReturn))"
proof (cases "snd (main_at s)")
  case None
  with reachable_shm_inv [OF assms] zero_safe [of s] show ?thesis
    by (simp add: shm_inv_def)
next
  case (Some q)
  then have inv: "ring_fifo.loops_inv n s" "ppc s \<noteq> PIdle" "q \<noteq> SBody \<longrightarrow> cpc s = CReturn"
    using reachable_shm_inv [OF assms] by (auto simp: shm_inv_def)
  then have "q \<noteq> SBody \<longrightarrow> p_i s = n \<and> (ppc s = PFor \<or> ppc s = PReturn)"
    by (auto simp: counts_inv_def split: if_splits)
  with loops_safe [OF inv(1)] Some show ?thesis
    by auto
qed

definition shm_schedule :: "actor list" where
  "shm_schedule = [MainOk, MainOk, MainOk, MainOk, MainOk, MainOk, MainOk] @ one_item @ [MainOk, Thr 2]"

lemma shm_schedule_run:
  "map_option (\<lambda>s. (main_at s, p_i s)) (run (shm_program 1) shm_schedule (bb_start (SOpen, None)))
    = Some ((SWait, Some SUnmap), 1)"
  by code_simp

lemma shm_program_correct_witness:
  "\<exists>s. reachable (shm_program 1) (bb_start (SOpen, None)) s \<and> snd (main_at s) = Some SUnmap
    \<and> ErrText ''item corruption!'' \<notin> set (printed s) \<and> p_i s = 1 \<and> (ppc s = PFor \<or> ppc s = PReturn)"
proof -
  obtain s where s: "reachable (shm_program 1) (bb_start (SOpen, None)) s" "main_at s = (SWait, Some SUnmap)"
    using reachable_obs [OF shm_schedule_run] by blast
  then show ?thesis
    using shm_program_correct [OF s(1)] by (intro exI [of _ s]) simp
qed

text \<open>
  \<open>12_sem_in_shm.c\<close>: both processes terminate under every schedule, after at most
  17 n + 32 steps in all, and there is no deadlock: when nothing can move, both processes have
  exited with 0 and all n items went through, or the parent returned 1 from a failed set-up
  call before there was a child.
\<close>

theorem shm_program_terminates:
  assumes "run (shm_program n) as (bb_start (SOpen, None)) = Some s"
  shows "length as \<le> 17 * n + 32
    \<and> ((\<forall>a. shm_program n a s = None) \<longrightarrow>
         main_at s = (SExit 0, Some (SExit 0)) \<and> p_i s = n \<and> c_i s = n \<or> main_at s = (SExit 1, None))"
proof -
  have "length as + shm_work n s \<le> shm_work n (bb_start (SOpen, None))"
    using assms by (intro run_length_bound [where P = "shm_inv n"])
      (auto simp: shm_step_inv, simp add: shm_inv_def bb_start_def)
  moreover have "shm_work n (bb_start (SOpen, None)) = 17 * n + 32"
    by (simp add: shm_work_def loops_left_def bb_start_def)
  ultimately show ?thesis
    using shm_stuck [OF reachable_shm_inv [OF run_reachable [OF assms]]] by auto
qed

lemma shm_program_terminates_witness:
  "\<exists>s. run (shm_program 1) [MainOk, MainOk, MainFail] (bb_start (SOpen, None)) = Some s
    \<and> main_at s = (SExit 1, None) \<and> length [MainOk, MainOk, MainFail] \<le> 17 * 1 + 32"
proof -
  obtain s where s: "run (shm_program 1) [MainOk, MainOk, MainFail] (bb_start (SOpen, None)) = Some s"
      "main_at s = (SExit 1, None)"
    by (simp add: bb_exec shm_fails_def)
  then show ?thesis
    using shm_program_terminates [OF s(1)] by (intro exI [of _ s]) simp
qed

end
