(* ===== verification/CondBuffer.thy ===== *)
theory CondBuffer
  imports BoundedBuffer
begin

text \<open>
  \<open>Lecture Codes/03_synchro/15_cv.c\<close>: the bounded buffer between two processes with a mutex, two
  condition variables and a \<open>size\<close> field. Waiting on a condition variable releases the mutex and
  blocks in one step; a waiter wakes when the other process signals, or, as POSIX allows,
  spuriously. The ring is the one of the theory BoundedBuffer and is used through its interface.
\<close>

section \<open>The processes\<close>

datatype cv_prod_pc =
  QIdle | QFor | QSleep | QLock | QTest | QWaiting | QWoken | QStore | QAdvance | QSize | QPrint | QSignal | QUnlock | QReturn

datatype cv_cons_pc =
  RIdle | RFor | RLock | RTest | RWaiting | RWoken | RRead | RAdvance | RSize | RPrint | RSignal | RUnlock | RReturn

datatype cv_out = Note string | Failed string | Produced int | Consumed int

record cvsys =
  owner :: "nat option"
  cbuf :: ring
  csize :: nat
  qpc :: cv_prod_pc
  q_i :: nat
  rpc :: cv_cons_pc
  r_i :: nat
  r_item :: int
  procs :: "shm_pc \<times> shm_pc option"
  couts :: "cv_out list"

text \<open>
  \<open>producer(ctx)\<close>: the process is number 0 on the mutex. \<open>pthread_cond_signal\<close> wakes the
  other process if it waits and is lost otherwise.
\<close>

definition cv_producer :: "nat \<Rightarrow> cvsys \<Rightarrow> cvsys option" where
  "cv_producer n s =
     (case qpc s of
        QIdle \<Rightarrow> None
      | QFor \<Rightarrow> Some (s\<lparr>qpc := if q_i s < n then QSleep else QReturn\<rparr>)
      | QSleep \<Rightarrow> Some (s\<lparr>qpc := QLock\<rparr>)
      | QLock \<Rightarrow> map_option (\<lambda>m. s\<lparr>owner := m, qpc := QTest\<rparr>) (pthread_mutex_lock 0 (owner s))
      | QTest \<Rightarrow>
          if N \<le> csize s then Some (s\<lparr>owner := pthread_mutex_unlock 0 (owner s), qpc := QWaiting\<rparr>)
          else Some (s\<lparr>qpc := QStore\<rparr>)
      | QWaiting \<Rightarrow> None
      | QWoken \<Rightarrow> map_option (\<lambda>m. s\<lparr>owner := m, qpc := QTest\<rparr>) (pthread_mutex_lock 0 (owner s))
      | QStore \<Rightarrow> Some (s\<lparr>cbuf := ring_store (int (q_i s)) (cbuf s), qpc := QAdvance\<rparr>)
      | QAdvance \<Rightarrow> Some (s\<lparr>cbuf := ring_advance_in (cbuf s), qpc := QSize\<rparr>)
      | QSize \<Rightarrow> Some (s\<lparr>csize := csize s + 1, qpc := QPrint\<rparr>)
      | QPrint \<Rightarrow> Some (s\<lparr>qpc := QSignal, couts := couts s @ [Produced (int (q_i s))]\<rparr>)
      | QSignal \<Rightarrow> Some (s\<lparr>qpc := QUnlock, rpc := if rpc s = RWaiting then RWoken else rpc s\<rparr>)
      | QUnlock \<Rightarrow> Some (s\<lparr>owner := pthread_mutex_unlock 0 (owner s), qpc := QFor, q_i := Suc (q_i s)\<rparr>)
      | QReturn \<Rightarrow> None)"

definition cv_consumer :: "nat \<Rightarrow> cvsys \<Rightarrow> cvsys option" where
  "cv_consumer n s =
     (case rpc s of
        RIdle \<Rightarrow> None
      | RFor \<Rightarrow> Some (s\<lparr>rpc := if r_i s < n then RLock else RReturn\<rparr>)
      | RLock \<Rightarrow> map_option (\<lambda>m. s\<lparr>owner := m, rpc := RTest\<rparr>) (pthread_mutex_lock 1 (owner s))
      | RTest \<Rightarrow>
          if csize s = 0 then Some (s\<lparr>owner := pthread_mutex_unlock 1 (owner s), rpc := RWaiting\<rparr>)
          else Some (s\<lparr>rpc := RRead\<rparr>)
      | RWaiting \<Rightarrow> None
      | RWoken \<Rightarrow> map_option (\<lambda>m. s\<lparr>owner := m, rpc := RTest\<rparr>) (pthread_mutex_lock 1 (owner s))
      | RRead \<Rightarrow> Some (s\<lparr>rpc := RAdvance, r_item := ring_read (cbuf s)\<rparr>)
      | RAdvance \<Rightarrow> Some (s\<lparr>cbuf := ring_advance_out (cbuf s), rpc := RSize\<rparr>)
      | RSize \<Rightarrow> Some (s\<lparr>csize := csize s - 1, rpc := RPrint\<rparr>)
      | RPrint \<Rightarrow> Some (s\<lparr>rpc := RSignal, couts := couts s @ [Consumed (r_item s)]\<rparr>)
      | RSignal \<Rightarrow> Some (s\<lparr>qpc := if qpc s = QWaiting then QWoken else qpc s, rpc := RUnlock\<rparr>)
      | RUnlock \<Rightarrow> Some (s\<lparr>owner := pthread_mutex_unlock 1 (owner s), rpc := RFor, r_i := Suc (r_i s)\<rparr>)
      | RReturn \<Rightarrow> None)"

section \<open>The mutex, the counts and the waiters\<close>

fun q_holds :: "cv_prod_pc \<Rightarrow> bool" where
  "q_holds QIdle = False" | "q_holds QFor = False" | "q_holds QSleep = False" | "q_holds QLock = False"
| "q_holds QWaiting = False" | "q_holds QWoken = False" | "q_holds QReturn = False" | "q_holds q = True"

fun r_holds :: "cv_cons_pc \<Rightarrow> bool" where
  "r_holds RIdle = False" | "r_holds RFor = False" | "r_holds RLock = False"
| "r_holds RWaiting = False" | "r_holds RWoken = False" | "r_holds RReturn = False" | "r_holds r = True"

fun q_put :: "cv_prod_pc \<Rightarrow> nat" where
  "q_put QSize = 1" | "q_put QPrint = 1" | "q_put QSignal = 1" | "q_put QUnlock = 1" | "q_put q = 0"

fun r_got :: "cv_cons_pc \<Rightarrow> nat" where
  "r_got RSize = 1" | "r_got RPrint = 1" | "r_got RSignal = 1" | "r_got RUnlock = 1" | "r_got r = 0"

fun q_said :: "cv_prod_pc \<Rightarrow> nat" where
  "q_said QSignal = 1" | "q_said QUnlock = 1" | "q_said q = 0"

fun r_said :: "cv_cons_pc \<Rightarrow> nat" where
  "r_said RSignal = 1" | "r_said RUnlock = 1" | "r_said r = 0"

definition cv_mutex_inv :: "cvsys \<Rightarrow> bool" where
  "cv_mutex_inv s \<longleftrightarrow> (owner s = Some 0 \<longleftrightarrow> q_holds (qpc s)) \<and> (owner s = Some 1 \<longleftrightarrow> r_holds (rpc s))
     \<and> owner s \<in> {None, Some 0, Some 1}"

definition cv_count_inv :: "nat \<Rightarrow> cvsys \<Rightarrow> bool" where
  "cv_count_inv n s \<longleftrightarrow>
     csize s + r_i s + r_got (rpc s) + (if qpc s = QSize then 1 else 0)
       = q_i s + q_put (qpc s) + (if rpc s = RSize then 1 else 0)
     \<and> csize s \<le> N
     \<and> (qpc s = QStore \<or> qpc s = QAdvance \<or> qpc s = QSize \<longrightarrow> csize s < N)
     \<and> (rpc s = RRead \<or> rpc s = RAdvance \<or> rpc s = RSize \<longrightarrow> 0 < csize s)
     \<and> (if qpc s \<in> {QIdle, QFor} then q_i s \<le> n else if qpc s = QReturn then q_i s = n else q_i s < n)
     \<and> (if rpc s \<in> {RIdle, RFor} then r_i s \<le> n else if rpc s = RReturn then r_i s = n else r_i s < n)"

text \<open>No lost wake-up: a process waits only while its condition fails or the signal is still to come.\<close>

definition cv_wait_inv :: "cvsys \<Rightarrow> bool" where
  "cv_wait_inv s \<longleftrightarrow>
     (qpc s = QWaiting \<longrightarrow> N \<le> csize s \<or> rpc s = RPrint \<or> rpc s = RSignal)
     \<and> (rpc s = RWaiting \<longrightarrow> csize s = 0 \<or> qpc s = QPrint \<or> qpc s = QSignal)"

definition cv_contents :: "cvsys \<Rightarrow> int list" where
  "cv_contents s = map int [r_i s + r_got (rpc s) ..< q_i s + q_put (qpc s)]"

definition consumed :: "cv_out list \<Rightarrow> int list" where
  "consumed xs = concat (map (\<lambda>x. case x of Consumed v \<Rightarrow> [v] | _ \<Rightarrow> []) xs)"

definition produced :: "cv_out list \<Rightarrow> int list" where
  "produced xs = concat (map (\<lambda>x. case x of Produced v \<Rightarrow> [v] | _ \<Rightarrow> []) xs)"

definition cv_data_inv :: "cvsys \<Rightarrow> bool" where
  "cv_data_inv s \<longleftrightarrow>
     (if qpc s = QAdvance then \<exists>b. cbuf s = ring_store (int (q_i s)) b \<and> ring_holds b (cv_contents s)
      else ring_holds (cbuf s) (cv_contents s))
     \<and> (rpc s \<in> {RAdvance, RSize, RPrint} \<longrightarrow> r_item s = int (r_i s))
     \<and> produced (couts s) = map int [0 ..< q_i s + q_said (qpc s)]
     \<and> consumed (couts s) = map int [0 ..< r_i s + r_said (rpc s)]"

definition cv_inv :: "nat \<Rightarrow> cvsys \<Rightarrow> bool" where
  "cv_inv n s \<longleftrightarrow> cv_mutex_inv s \<and> cv_count_inv n s \<and> cv_wait_inv s \<and> cv_data_inv s"

lemma cv_prod_mutex:
  assumes "cv_mutex_inv s" and "cv_producer n s = Some s'"
  shows "cv_mutex_inv s'"
  using assms(1) assms(2) [symmetric]
  by (cases "qpc s") (auto simp: cv_producer_def cv_mutex_inv_def pthread_mutex_lock_def pthread_mutex_unlock_def
      split: option.splits if_splits)

lemma cv_cons_mutex:
  assumes "cv_mutex_inv s" and "cv_consumer n s = Some s'"
  shows "cv_mutex_inv s'"
  using assms(1) assms(2) [symmetric]
  by (cases "rpc s") (auto simp: cv_consumer_def cv_mutex_inv_def pthread_mutex_lock_def pthread_mutex_unlock_def
      split: option.splits if_splits)

text \<open>The two processes are never inside the mutex together.\<close>

lemma cv_exclusion: "cv_mutex_inv s \<Longrightarrow> \<not> (q_holds (qpc s) \<and> r_holds (rpc s))"
  by (auto simp: cv_mutex_inv_def)

lemma cv_prod_count:
  assumes "cv_mutex_inv s" and "cv_count_inv n s" and "cv_producer n s = Some s'"
  shows "cv_count_inv n s'"
  using cv_exclusion [OF assms(1)] assms(2) assms(3) [symmetric]
  by (cases "qpc s") (auto simp: cv_producer_def cv_count_inv_def pthread_mutex_lock_def split: option.splits if_splits)

lemma cv_cons_count:
  assumes "cv_mutex_inv s" and "cv_count_inv n s" and "cv_consumer n s = Some s'"
  shows "cv_count_inv n s'"
  using cv_exclusion [OF assms(1)] assms(2) assms(3) [symmetric]
  by (cases "rpc s") (auto simp: cv_consumer_def cv_count_inv_def pthread_mutex_lock_def split: option.splits if_splits)

lemma cv_prod_wait:
  assumes "cv_mutex_inv s" and "cv_wait_inv s" and "cv_producer n s = Some s'"
  shows "cv_wait_inv s'"
  using cv_exclusion [OF assms(1)] assms(2) assms(3) [symmetric]
  by (cases "qpc s") (auto simp: cv_producer_def cv_wait_inv_def pthread_mutex_lock_def split: option.splits if_splits)

lemma cv_cons_wait:
  assumes "cv_mutex_inv s" and "cv_wait_inv s" and "cv_consumer n s = Some s'"
  shows "cv_wait_inv s'"
  using cv_exclusion [OF assms(1)] assms(2) assms(3) [symmetric]
  by (cases "rpc s") (auto simp: cv_consumer_def cv_wait_inv_def pthread_mutex_lock_def split: option.splits if_splits)

lemma seen_append [simp]:
  "produced (xs @ ys) = produced xs @ produced ys" "consumed (xs @ ys) = consumed xs @ consumed ys"
  "produced [] = []" "consumed [] = []"
  "produced [Produced v] = [v]" "produced [Consumed v] = []" "consumed [Consumed v] = [v]" "consumed [Produced v] = []"
  "produced [Note m] = []" "consumed [Note m] = []" "produced [Failed m] = []" "consumed [Failed m] = []"
  by (simp_all add: produced_def consumed_def)

lemma cv_prod_data:
  assumes mx: "cv_mutex_inv s" and cn: "cv_count_inv n s" and dt: "cv_data_inv s"
    and st: "cv_producer n s = Some s'"
  shows "cv_data_inv s'"
proof (cases "qpc s")
  case QStore
  with dt st [symmetric] show ?thesis
    by (auto simp: cv_producer_def cv_data_inv_def cv_contents_def)
next
  case QAdvance
  then obtain b where b: "cbuf s = ring_store (int (q_i s)) b" "ring_holds b (cv_contents s)"
    using dt by (auto simp: cv_data_inv_def)
  have "rpc s \<noteq> RSize"
    using cv_exclusion [OF mx] QAdvance by auto
  then have eq: "csize s + (r_i s + r_got (rpc s)) = q_i s" and "csize s < N"
    using cn QAdvance by (auto simp: cv_count_inv_def)
  then have "length (cv_contents s) < N"
    using QAdvance by (simp add: cv_contents_def)
  with b(2) have "ring_holds (ring_advance_in (ring_store (int (q_i s)) b)) (cv_contents s @ [int (q_i s)])"
    by (rule ring_fifo.holds_append)
  moreover have "r_i s + r_got (rpc s) \<le> q_i s"
    using eq by linarith
  ultimately show ?thesis
    using QAdvance dt b(1) st [symmetric] by (simp add: cv_producer_def cv_data_inv_def cv_contents_def)
qed (use dt st [symmetric] in
    \<open>auto simp: cv_producer_def cv_data_inv_def cv_contents_def pthread_mutex_lock_def split: option.splits if_splits\<close>)

lemma cv_cons_data:
  assumes mx: "cv_mutex_inv s" and cn: "cv_count_inv n s" and dt: "cv_data_inv s"
    and st: "cv_consumer n s = Some s'"
  shows "cv_data_inv s'"
proof -
  have take: "ring_holds (cbuf s) (int (r_i s) # map int [Suc (r_i s) ..< q_i s + q_put (qpc s)]) \<and> qpc s \<noteq> QAdvance"
    if r: "rpc s = RRead \<or> rpc s = RAdvance"
  proof -
    have q: "qpc s \<noteq> QAdvance" "qpc s \<noteq> QSize"
      using cv_exclusion [OF mx] r by auto
    then have "r_i s < q_i s + q_put (qpc s)"
      using cn r by (auto simp: cv_count_inv_def)
    moreover have "ring_holds (cbuf s) (cv_contents s)"
      using dt q by (simp add: cv_data_inv_def)
    ultimately show ?thesis
      using q r by (auto simp: cv_contents_def upt_conv_Cons)
  qed
  show ?thesis
  proof (cases "rpc s")
    case RRead
    with take have "qpc s \<noteq> QAdvance" "ring_read (cbuf s) = int (r_i s)"
      by (auto dest: ring_fifo.read_head)
    with RRead dt st [symmetric] show ?thesis
      by (auto simp: cv_consumer_def cv_data_inv_def cv_contents_def)
  next
    case RAdvance
    with take have "qpc s \<noteq> QAdvance"
        "ring_holds (ring_advance_out (cbuf s)) (map int [Suc (r_i s) ..< q_i s + q_put (qpc s)])"
      by (auto dest: ring_fifo.holds_tail)
    with RAdvance dt st [symmetric] show ?thesis
      by (simp add: cv_consumer_def cv_data_inv_def cv_contents_def)
  qed (use dt st [symmetric] in
      \<open>auto simp: cv_consumer_def cv_data_inv_def cv_contents_def pthread_mutex_lock_def split: option.splits if_splits\<close>)
qed

lemma cv_prod_inv: "cv_inv n s \<Longrightarrow> cv_producer n s = Some s' \<Longrightarrow> cv_inv n s'"
  using cv_prod_mutex cv_prod_count cv_prod_wait cv_prod_data unfolding cv_inv_def by blast

lemma cv_cons_inv: "cv_inv n s \<Longrightarrow> cv_consumer n s = Some s' \<Longrightarrow> cv_inv n s'"
  using cv_cons_mutex cv_cons_count cv_cons_wait cv_cons_data unfolding cv_inv_def by blast

text \<open>A spurious wake-up moves a waiter on; it finds out in its loop that nothing has changed.\<close>

definition cv_spurious :: "nat \<Rightarrow> cvsys \<Rightarrow> cvsys option" where
  "cv_spurious p s =
     (if p = 0 \<and> qpc s = QWaiting then Some (s\<lparr>qpc := QWoken\<rparr>)
      else if p = 1 \<and> rpc s = RWaiting then Some (s\<lparr>rpc := RWoken\<rparr>)
      else None)"

lemma cv_wake_prod:
  assumes "cv_inv n s" and w: "qpc s = QWaiting"
  shows "cv_inv n (s\<lparr>qpc := QWoken\<rparr>)"
proof -
  have "cv_contents (s\<lparr>qpc := QWoken\<rparr>) = cv_contents s"
    using w by (simp add: cv_contents_def)
  then have "cv_data_inv (s\<lparr>qpc := QWoken\<rparr>) = cv_data_inv s"
    using w by (simp add: cv_data_inv_def)
  moreover have "cv_mutex_inv (s\<lparr>qpc := QWoken\<rparr>) = cv_mutex_inv s" "cv_count_inv n (s\<lparr>qpc := QWoken\<rparr>) = cv_count_inv n s"
    using w by (simp_all add: cv_mutex_inv_def cv_count_inv_def)
  moreover have "cv_wait_inv s \<Longrightarrow> cv_wait_inv (s\<lparr>qpc := QWoken\<rparr>)"
    using w by (simp add: cv_wait_inv_def)
  ultimately show ?thesis
    using assms(1) by (simp add: cv_inv_def)
qed

lemma cv_wake_cons:
  assumes "cv_inv n s" and w: "rpc s = RWaiting"
  shows "cv_inv n (s\<lparr>rpc := RWoken\<rparr>)"
proof -
  have "cv_contents (s\<lparr>rpc := RWoken\<rparr>) = cv_contents s"
    using w by (simp add: cv_contents_def)
  then have "cv_data_inv (s\<lparr>rpc := RWoken\<rparr>) = cv_data_inv s"
    using w by (simp add: cv_data_inv_def)
  moreover have "cv_mutex_inv (s\<lparr>rpc := RWoken\<rparr>) = cv_mutex_inv s" "cv_count_inv n (s\<lparr>rpc := RWoken\<rparr>) = cv_count_inv n s"
    using w by (simp_all add: cv_mutex_inv_def cv_count_inv_def)
  moreover have "cv_wait_inv s \<Longrightarrow> cv_wait_inv (s\<lparr>rpc := RWoken\<rparr>)"
    using w by (simp add: cv_wait_inv_def)
  ultimately show ?thesis
    using assms(1) by (simp add: cv_inv_def)
qed

lemma cv_spurious_inv:
  assumes "cv_inv n s" and "cv_spurious p s = Some s'"
  shows "cv_inv n s'"
  using assms cv_wake_prod cv_wake_cons unfolding cv_spurious_def
  by (metis option.distinct(1) option.inject)

section \<open>Termination and deadlock freedom of the loops\<close>

fun q_left :: "cv_prod_pc \<Rightarrow> nat" where
  "q_left QIdle = 16" | "q_left QFor = 15" | "q_left QSleep = 14" | "q_left QLock = 13" | "q_left QWoken = 12"
| "q_left QTest = 11" | "q_left QWaiting = 10" | "q_left QStore = 9" | "q_left QAdvance = 8" | "q_left QSize = 7"
| "q_left QPrint = 6" | "q_left QSignal = 5" | "q_left QUnlock = 1" | "q_left QReturn = 0"

fun r_left :: "cv_cons_pc \<Rightarrow> nat" where
  "r_left RIdle = 16" | "r_left RFor = 15" | "r_left RLock = 13" | "r_left RWoken = 12"
| "r_left RTest = 11" | "r_left RWaiting = 10" | "r_left RRead = 9" | "r_left RAdvance = 8" | "r_left RSize = 7"
| "r_left RPrint = 6" | "r_left RSignal = 5" | "r_left RUnlock = 1" | "r_left RReturn = 0"

definition cv_loops_left :: "nat \<Rightarrow> cvsys \<Rightarrow> nat" where
  "cv_loops_left n s = (15 * (n - q_i s) + q_left (qpc s)) + (15 * (n - r_i s) + r_left (rpc s))"

lemma cv_prod_left:
  assumes "cv_count_inv n s" and "cv_producer n s = Some s'"
  shows "cv_loops_left n s' < cv_loops_left n s"
  using assms(1) assms(2) [symmetric]
  by (cases "qpc s") (auto simp: cv_producer_def cv_loops_left_def cv_count_inv_def pthread_mutex_lock_def
      split: option.splits if_splits)

lemma cv_cons_left:
  assumes "cv_count_inv n s" and "cv_consumer n s = Some s'"
  shows "cv_loops_left n s' < cv_loops_left n s"
  using assms(1) assms(2) [symmetric]
  by (cases "rpc s") (auto simp: cv_consumer_def cv_loops_left_def cv_count_inv_def pthread_mutex_lock_def
      split: option.splits if_splits)

lemma cv_prod_blocked:
  "cv_producer n s = None \<longleftrightarrow> qpc s = QIdle \<or> qpc s = QWaiting \<or> qpc s = QReturn
     \<or> (qpc s = QLock \<or> qpc s = QWoken) \<and> owner s \<noteq> None"
  by (cases "qpc s") (auto simp: cv_producer_def pthread_mutex_lock_def split: option.splits)

lemma cv_cons_blocked:
  "cv_consumer n s = None \<longleftrightarrow> rpc s = RIdle \<or> rpc s = RWaiting \<or> rpc s = RReturn
     \<or> (rpc s = RLock \<or> rpc s = RWoken) \<and> owner s \<noteq> None"
  by (cases "rpc s") (auto simp: cv_consumer_def pthread_mutex_lock_def split: option.splits)

lemma cv_loops_end:
  assumes inv: "cv_inv n s" and run: "qpc s \<noteq> QIdle" "rpc s \<noteq> RIdle"
    and stuck: "cv_producer n s = None" "cv_consumer n s = None"
  shows "qpc s = QReturn \<and> rpc s = RReturn"
proof -
  have "\<not> q_holds (qpc s)" "\<not> r_holds (rpc s)"
    using stuck unfolding cv_prod_blocked cv_cons_blocked by auto
  then have "owner s = None"
    using inv by (auto simp: cv_inv_def cv_mutex_inv_def)
  then have q: "qpc s = QWaiting \<or> qpc s = QReturn" and r: "rpc s = RWaiting \<or> rpc s = RReturn"
    using stuck run unfolding cv_prod_blocked cv_cons_blocked by auto
  have N: "0 < N" by (simp add: N_def)
  have w: "qpc s = QWaiting \<longrightarrow> N \<le> csize s" "rpc s = RWaiting \<longrightarrow> csize s = 0"
    using inv q r by (auto simp: cv_inv_def cv_wait_inv_def)
  have cn: "csize s + r_i s = q_i s" "qpc s = QReturn \<longrightarrow> q_i s = n" "rpc s = RReturn \<longrightarrow> r_i s = n"
    "qpc s = QWaiting \<longrightarrow> q_i s < n" "rpc s = RWaiting \<longrightarrow> r_i s < n"
    using inv q r by (auto simp: cv_inv_def cv_count_inv_def)
  show ?thesis
    using q r
  proof (elim disjE)
    assume "qpc s = QWaiting" "rpc s = RWaiting"
    with w N show ?thesis by simp
  next
    assume "qpc s = QWaiting" "rpc s = RReturn"
    with cn show ?thesis by simp
  next
    assume "qpc s = QReturn" "rpc s = RWaiting"
    with w cn show ?thesis by simp
  qed simp
qed

section \<open>The program\<close>

definition cv_fails :: "string \<Rightarrow> cvsys \<Rightarrow> cvsys option" where
  "cv_fails call s = Some (s\<lparr>procs := (SExit 1, None), couts := couts s @ [Failed call]\<rparr>)"

text \<open>The parent: set-up, \<open>fork\<close>, its loop, \<open>wait\<close>, and the release of everything.\<close>

definition cv_parent :: "bool \<Rightarrow> cvsys \<Rightarrow> cvsys option" where
  "cv_parent ok s =
     (case fst (procs s) of
        SOpen \<Rightarrow> if ok then Some (s\<lparr>procs := (STruncate, None)\<rparr>) else cv_fails ''shm_open()'' s
      | STruncate \<Rightarrow> if ok then Some (s\<lparr>procs := (SMap, None)\<rparr>) else cv_fails ''ftruncate()'' s
      | SMap \<Rightarrow>
          if ok then Some (s\<lparr>cbuf := ring_zero, csize := 0, procs := (SInitMtx, None),
                            couts := couts s @ [Note ''Creating mutex and CVs...'']\<rparr>)
          else cv_fails ''mmap()'' s
      | SInitMtx \<Rightarrow>
          if ok then Some (s\<lparr>owner := None, procs := (SInitEmpty, None)\<rparr>) else cv_fails ''pthread_mutex_init()'' s
      | SInitEmpty \<Rightarrow>
          if ok then Some (s\<lparr>procs := (SInitNonempty, None)\<rparr>) else cv_fails ''pthread_mutex_init()'' s
      | SInitNonempty \<Rightarrow>
          if ok then Some (s\<lparr>procs := (SFork, None)\<rparr>) else cv_fails ''pthread_mutex_init()'' s
      | SFork \<Rightarrow>
          if ok then Some (s\<lparr>qpc := QFor, rpc := RFor, procs := (SBody, Some SBody)\<rparr>) else cv_fails ''fork()'' s
      | SBody \<Rightarrow> if ok \<and> qpc s = QReturn then Some (s\<lparr>procs := (SWait, snd (procs s))\<rparr>) else None
      | SWait \<Rightarrow>
          if ok \<and> gone (snd (procs s))
          then Some (s\<lparr>procs := (SUnmap, snd (procs s)), couts := couts s @ [Note ''Unmapping shm'']\<rparr>) else None
      | SUnmap \<Rightarrow> if ok then Some (s\<lparr>procs := (SExit 0, snd (procs s))\<rparr>) else None
      | SExit c \<Rightarrow> None)"

definition cv_child :: "cvsys \<Rightarrow> cvsys option" where
  "cv_child s =
     (case snd (procs s) of
        Some SBody \<Rightarrow>
          if rpc s = RReturn
          then Some (s\<lparr>procs := (fst (procs s), Some SUnmap), couts := couts s @ [Note ''Unmapping shm'']\<rparr>) else None
      | Some SUnmap \<Rightarrow> Some (s\<lparr>procs := (fst (procs s), Some (SExit 0))\<rparr>)
      | _ \<Rightarrow> None)"

text \<open>
  Actors: the parent's calls, its loop (0), the child's loop (1), the child's last lines (2),
  and, where \<open>spurious\<close> allows it, a spurious wake-up of the parent (3) or of the child (4).
\<close>

definition cv_program :: "bool \<Rightarrow> nat \<Rightarrow> actor \<Rightarrow> cvsys \<Rightarrow> cvsys option" where
  "cv_program spurious n a s =
     (case a of
        MainOk \<Rightarrow> cv_parent True s
      | MainFail \<Rightarrow> cv_parent False s
      | Thr t \<Rightarrow>
          if t = 0 then (if fst (procs s) = SBody then cv_producer n s else None)
          else if t = 1 then (if snd (procs s) = Some SBody then cv_consumer n s else None)
          else if t = 2 then cv_child s
          else if spurious then cv_spurious (t - 3) s
          else None)"

definition cv_start :: cvsys where
  "cv_start = \<lparr>owner = None, cbuf = ring_zero, csize = 0, qpc = QIdle, q_i = 0, rpc = RIdle, r_i = 0, r_item = 0,
     procs = (SOpen, None), couts = []\<rparr>"

definition cv_program_inv :: "nat \<Rightarrow> cvsys \<Rightarrow> bool" where
  "cv_program_inv n s \<longleftrightarrow> cv_inv n s \<and>
     (case snd (procs s) of
        None \<Rightarrow> (setting_up (fst (procs s)) \<or> fst (procs s) = SExit 1) \<and> qpc s = QIdle \<and> rpc s = RIdle
                \<and> q_i s = 0 \<and> r_i s = 0
      | Some q \<Rightarrow>
          fst (procs s) \<in> {SBody, SWait, SUnmap, SExit 0} \<and> q \<in> {SBody, SUnmap, SExit 0}
          \<and> qpc s \<noteq> QIdle \<and> rpc s \<noteq> RIdle
          \<and> (fst (procs s) \<noteq> SBody \<longrightarrow> qpc s = QReturn)
          \<and> (fst (procs s) \<in> {SUnmap, SExit 0} \<longrightarrow> q = SExit 0)
          \<and> (q \<noteq> SBody \<longrightarrow> rpc s = RReturn))"

definition cv_work :: "nat \<Rightarrow> cvsys \<Rightarrow> nat" where
  "cv_work n s = shm_left (fst (procs s)) + (case snd (procs s) of None \<Rightarrow> 0 | Some q \<Rightarrow> shm_left q) + cv_loops_left n s"

lemma cv_frame [simp]:
  "cv_inv n (s\<lparr>procs := p\<rparr>) = cv_inv n s"
  "cv_inv n (s\<lparr>procs := p, couts := couts s @ [Note m]\<rparr>) = cv_inv n s"
  "cv_inv n (s\<lparr>procs := p, couts := couts s @ [Failed m]\<rparr>) = cv_inv n s"
  "cv_loops_left n (s\<lparr>procs := p\<rparr>) = cv_loops_left n s"
  "cv_loops_left n (s\<lparr>procs := p, couts := xs\<rparr>) = cv_loops_left n s"
  by (simp_all add: cv_inv_def cv_mutex_inv_def cv_count_inv_def cv_wait_inv_def cv_data_inv_def cv_contents_def
      cv_loops_left_def)

lemma cv_fresh_inv:
  assumes "owner s = None" "cbuf s = ring_zero" "csize s = 0" "qpc s = QIdle \<or> qpc s = QFor" "q_i s = 0"
    "rpc s = RIdle \<or> rpc s = RFor" "r_i s = 0" "produced (couts s) = []" "consumed (couts s) = []"
  shows "cv_inv n s"
  using assms ring_fifo.holds_fresh
  by (auto simp: cv_inv_def cv_mutex_inv_def cv_count_inv_def cv_wait_inv_def cv_data_inv_def cv_contents_def)

lemma cv_idle_seen:
  assumes "cv_inv n s" "qpc s = QIdle" "rpc s = RIdle" "q_i s = 0" "r_i s = 0"
  shows "owner s = None" "csize s = 0" "produced (couts s) = []" "consumed (couts s) = []"
proof -
  show "owner s = None"
    using assms by (auto simp: cv_inv_def cv_mutex_inv_def)
  show "csize s = 0" "produced (couts s) = []" "consumed (couts s) = []"
    using assms by (simp_all add: cv_inv_def cv_count_inv_def cv_data_inv_def)
qed

lemma cv_idle_ring:
  assumes "cv_inv n s" "qpc s = QIdle" "rpc s = RIdle" "q_i s = 0" "r_i s = 0"
  shows "cv_inv n (s\<lparr>qpc := QFor, rpc := RFor, procs := p\<rparr>)"
    and "cv_loops_left n (s\<lparr>qpc := QFor, rpc := RFor, procs := p\<rparr>) < cv_loops_left n s"
  subgoal
    using assms
    by (auto simp: cv_inv_def cv_mutex_inv_def cv_count_inv_def cv_wait_inv_def cv_data_inv_def cv_contents_def)
  subgoal using assms by (simp add: cv_loops_left_def)
  done

lemma cv_setup_inv:
  assumes inv: "cv_program_inv n s" and none: "snd (procs s) = None" and st: "cv_parent ok s = Some s'"
  shows "cv_program_inv n s' \<and> cv_work n s' < cv_work n s"
proof -
  have i: "cv_inv n s" and idle: "qpc s = QIdle" "rpc s = RIdle" "q_i s = 0" "r_i s = 0"
    using inv none by (simp_all add: cv_program_inv_def)
  note seen = cv_idle_seen [OF i idle] and fork = cv_idle_ring [OF i idle]
  have map: "cv_inv n (s\<lparr>cbuf := ring_zero, csize := 0, procs := p, couts := couts s @ [Note m]\<rparr>)" for p m
    using seen idle by (intro cv_fresh_inv) simp_all
  have mtx: "cv_inv n (s\<lparr>owner := None, procs := p\<rparr>)" for p
  proof -
    have "s\<lparr>owner := None, procs := p\<rparr> = s\<lparr>procs := p\<rparr>" using seen(1) by simp
    with i show ?thesis by simp
  qed
  have left: "cv_loops_left n (s\<lparr>cbuf := b, csize := c, procs := p, couts := xs\<rparr>) = cv_loops_left n s"
    "cv_loops_left n (s\<lparr>owner := m, procs := p\<rparr>) = cv_loops_left n s" for b c p xs m
    by (simp_all add: cv_loops_left_def)
  show ?thesis
    using i idle none inv st [symmetric] map mtx fork left
    by (cases "fst (procs s)")
      (auto simp: cv_parent_def cv_fails_def cv_program_inv_def cv_work_def less_SucI split: if_splits)
qed

lemma cv_parent_inv:
  assumes inv: "cv_program_inv n s" and st: "cv_parent ok s = Some s'"
  shows "cv_program_inv n s' \<and> cv_work n s' < cv_work n s"
proof (cases "snd (procs s)")
  case None
  with cv_setup_inv [OF inv None st] show ?thesis by simp
next
  case (Some q)
  with inv st [symmetric] show ?thesis
    by (cases "fst (procs s)") (auto simp: cv_parent_def cv_program_inv_def cv_work_def gone_iff split: if_splits)
qed

lemma cv_child_inv:
  assumes "cv_program_inv n s" and "cv_child s = Some s'"
  shows "cv_program_inv n s' \<and> cv_work n s' < cv_work n s"
proof (cases "snd (procs s)")
  case None
  with assms(2) show ?thesis by (simp add: cv_child_def)
next
  case (Some q)
  with assms(1) assms(2) [symmetric] show ?thesis
    by (cases q) (auto simp: cv_child_def cv_program_inv_def cv_work_def split: if_splits)
qed

text \<open>A loop's step leaves the other process where it is, but for waking it.\<close>

lemma cv_step_frame:
  "cv_producer n s = Some s' \<Longrightarrow> procs s' = procs s \<and> qpc s \<noteq> QIdle \<and> qpc s \<noteq> QReturn \<and> qpc s' \<noteq> QIdle
     \<and> (rpc s' = rpc s \<or> rpc s = RWaiting \<and> rpc s' = RWoken)"
  "cv_consumer n s = Some s' \<Longrightarrow> procs s' = procs s \<and> rpc s \<noteq> RIdle \<and> rpc s \<noteq> RReturn \<and> rpc s' \<noteq> RIdle
     \<and> (qpc s' = qpc s \<or> qpc s = QWaiting \<and> qpc s' = QWoken)"
  subgoal by (cases "qpc s") (auto simp: cv_producer_def split: if_splits)
  subgoal by (cases "rpc s") (auto simp: cv_consumer_def split: if_splits)
  done

lemma cv_step_inv:
  assumes inv: "cv_program_inv n s" and st: "cv_program spurious n a s = Some s'"
  shows "cv_program_inv n s' \<and> (\<not> spurious \<longrightarrow> cv_work n s' < cv_work n s)"
proof -
  have i: "cv_inv n s" and c: "cv_count_inv n s"
    using inv by (simp_all add: cv_program_inv_def cv_inv_def)
  consider (prod) "cv_producer n s = Some s'" "fst (procs s) = SBody"
    | (cons) "cv_consumer n s = Some s'" "snd (procs s) = Some SBody"
    | (parent) ok where "cv_parent ok s = Some s'" | (child) "cv_child s = Some s'"
    | (spur) p where "cv_spurious p s = Some s'" "spurious"
    using st by (auto simp: cv_program_def split: actor.splits if_splits)
  then show ?thesis
  proof cases
    case prod
    have "snd (procs s) \<noteq> None"
      using inv cv_step_frame(1) [OF prod(1)] by (auto simp: cv_program_inv_def split: option.splits)
    then show ?thesis
      using prod(2) inv cv_prod_inv [OF i prod(1)] cv_prod_left [OF c prod(1)] cv_step_frame(1) [OF prod(1)]
      by (auto simp: cv_program_inv_def cv_work_def)
  next
    case cons
    then show ?thesis
      using inv cv_cons_inv [OF i cons(1)] cv_cons_left [OF c cons(1)] cv_step_frame(2) [OF cons(1)]
      by (auto simp: cv_program_inv_def cv_work_def)
  next
    case spur
    then have "procs s' = procs s \<and> q_i s' = q_i s \<and> r_i s' = r_i s
        \<and> (qpc s' = qpc s \<or> qpc s = QWaiting \<and> qpc s' = QWoken) \<and> (rpc s' = rpc s \<or> rpc s = RWaiting \<and> rpc s' = RWoken)"
      by (auto simp: cv_spurious_def split: if_splits)
    then show ?thesis
      using inv cv_spurious_inv [OF i spur(1)] spur(2) by (auto simp: cv_program_inv_def split: option.splits)
  qed (use cv_parent_inv [OF inv] cv_child_inv [OF inv] in blast)+
qed

lemma cv_stuck:
  assumes inv: "cv_program_inv n s" and stuck: "\<forall>a. cv_program spurious n a s = None"
  shows "procs s = (SExit 1, None) \<or> procs s = (SExit 0, Some (SExit 0)) \<and> q_i s = n \<and> r_i s = n"
proof -
  have parent: "cv_parent True s = None" and child: "cv_child s = None"
    and prod: "fst (procs s) = SBody \<Longrightarrow> cv_producer n s = None"
    and cons: "snd (procs s) = Some SBody \<Longrightarrow> cv_consumer n s = None"
    using stuck [rule_format, of MainOk] stuck [rule_format, of "Thr 0"] stuck [rule_format, of "Thr 1"]
      stuck [rule_format, of "Thr 2"]
    by (auto simp: cv_program_def)
  show ?thesis
  proof (cases "snd (procs s)")
    case None
    with inv parent show ?thesis
      by (cases "procs s"; cases "fst (procs s)") (auto simp: cv_program_inv_def cv_parent_def cv_fails_def split: if_splits)
  next
    case (Some q)
    have li: "cv_inv n s" "qpc s \<noteq> QIdle" "rpc s \<noteq> RIdle"
      using inv Some by (auto simp: cv_program_inv_def)
    have q: "q = SExit 0 \<or> q = SBody \<and> rpc s \<noteq> RReturn"
      using child inv Some by (auto simp: cv_child_def cv_program_inv_def split: if_splits)
    have f: "fst (procs s) = SExit 0 \<or> fst (procs s) = SBody \<and> qpc s \<noteq> QReturn \<or> fst (procs s) = SWait \<and> q = SBody"
      using parent inv Some q by (auto simp: cv_parent_def cv_program_inv_def gone_iff split: if_splits)
    have pn: "cv_producer n s = None"
      using prod inv Some f by (auto simp: cv_program_inv_def cv_prod_blocked)
    have cn: "cv_consumer n s = None"
      using cons inv Some q by (auto simp: cv_program_inv_def cv_cons_blocked)
    have "qpc s = QReturn \<and> rpc s = RReturn"
      using cv_loops_end [OF li pn cn] .
    with q f li(1) Some show ?thesis
      by (cases "procs s") (auto simp: cv_inv_def cv_count_inv_def)
  qed
qed

lemma reachable_cv_inv:
  assumes "reachable (cv_program spurious n) cv_start s"
  shows "cv_program_inv n s"
  using assms
proof (rule reachable_invariant)
  show "cv_program_inv n cv_start"
    by (simp add: cv_program_inv_def cv_start_def cv_fresh_inv)
next
  fix a s t
  assume "cv_program_inv n s" "cv_program spurious n a s = Some t"
  then show "cv_program_inv n t" using cv_step_inv by blast
qed

section \<open>Properties\<close>

text \<open>
  C2. \<open>15_cv.c\<close>: in every reachable state, spurious wake-ups included, the values printed as
  consumed are 0, 1, 2, ... in this order, the values printed as produced likewise, nothing is
  consumed before it was produced, and \<open>size\<close> never exceeds the buffer.
\<close>

theorem cv_program_correct:
  assumes "reachable (cv_program spurious n) cv_start s"
  shows "(\<exists>k \<le> n. consumed (couts s) = map int [0 ..< k]) \<and> (\<exists>k \<le> n. produced (couts s) = map int [0 ..< k])
    \<and> csize s \<le> N \<and> length (consumed (couts s)) \<le> q_i s + 1
    \<and> \<not> (q_holds (qpc s) \<and> r_holds (rpc s))"
proof -
  have mx: "cv_mutex_inv s" and cn: "cv_count_inv n s" and dt: "cv_data_inv s"
    using reachable_cv_inv [OF assms] by (simp_all add: cv_program_inv_def cv_inv_def)
  have "q_i s + q_said (qpc s) \<le> n" "r_i s + r_said (rpc s) \<le> n"
    using cn by (cases "qpc s"; simp add: cv_count_inv_def) (use cn in \<open>cases "rpc s"; simp add: cv_count_inv_def\<close>)
  moreover have "r_i s + r_said (rpc s) \<le> q_i s + 1"
    using cn by (cases "qpc s"; cases "rpc s"; simp add: cv_count_inv_def)
  moreover have "csize s \<le> N"
    using cn by (simp add: cv_count_inv_def)
  ultimately show ?thesis
    using dt cv_exclusion [OF mx] by (auto simp: cv_data_inv_def)
qed


text \<open>
  A run with one item in which the consumer comes first, waits, is woken spuriously, waits
  again, is signalled, and prints what it got.
\<close>

definition cv_schedule :: "actor list" where
  "cv_schedule = [MainOk, MainOk, MainOk, MainOk, MainOk, MainOk, MainOk, Thr 1, Thr 1, Thr 1, Thr 4, Thr 1, Thr 1,
     Thr 0, Thr 0, Thr 0, Thr 0, Thr 0, Thr 0, Thr 0, Thr 0, Thr 0, Thr 0, Thr 1, Thr 1, Thr 1, Thr 1, Thr 1, Thr 1]"

lemma cv_schedule_run:
  "map_option (\<lambda>s. (rpc s, consumed (couts s))) (run (cv_program True 1) cv_schedule cv_start) = Some (RSignal, [0])"
  by code_simp

lemma cv_program_correct_witness:
  "\<exists>s. reachable (cv_program True 1) cv_start s \<and> rpc s = RSignal \<and> consumed (couts s) = [0]
    \<and> csize s \<le> N \<and> \<not> q_holds (qpc s)"
proof -
  obtain s where s: "reachable (cv_program True 1) cv_start s" "rpc s = RSignal" "consumed (couts s) = [0]"
    using reachable_obs [OF cv_schedule_run] by blast
  then show ?thesis
    using cv_program_correct [OF s(1)] by (intro exI [of _ s]) simp
qed


end
