(* ===== verification/Philosophers.thy ===== *)
theory Philosophers
  imports LockPrograms
begin

text \<open>
  \<open>Lecture Codes/03_synchro/16_dining_philosophers.c\<close>: three philosophers, each taking the left
  and then the right chopstick. Neighbours never eat together; the program deadlocks when each
  holds its left chopstick, and that is the only way in which it gets stuck.
\<close>

section \<open>The program\<close>

definition PHILOSOPHERS :: nat where
  "PHILOSOPHERS = 3"

datatype ph_pc =
  PhNotStarted | PhFor | PhWaitLeft | PhWaitRight | PhEat | PhPostRight | PhPostLeft | PhThink | PhReturned

datatype ph_main = PhInit | PhCreate nat | PhJoin nat | PhExit int

datatype ph_out = Eats nat | Thinks nat | PhText string | PhError string

record philsys =
  chop :: "nat \<Rightarrow> nat"
  ph_pc :: "nat \<Rightarrow> ph_pc"
  ph_i :: "nat \<Rightarrow> nat"
  ph_main :: ph_main
  ph_out :: "ph_out list"

text \<open>\<open>ctxs[i].left = &chopsticks[i]; ctxs[i].right = &chopsticks[(i + 1) % N];\<close>\<close>

definition left_chop :: "nat \<Rightarrow> nat" where
  "left_chop i = i"

definition right_chop :: "nat \<Rightarrow> nat" where
  "right_chop i = (i + 1) mod PHILOSOPHERS"

definition ph_goto :: "nat \<Rightarrow> ph_pc \<Rightarrow> philsys \<Rightarrow> philsys" where
  "ph_goto i p s = s\<lparr>ph_pc := (ph_pc s)(i := p)\<rparr>"

definition set_chop :: "nat \<Rightarrow> nat \<Rightarrow> philsys \<Rightarrow> philsys" where
  "set_chop k v s = s\<lparr>chop := (chop s)(k := v)\<rparr>"

definition ph_say :: "ph_out \<Rightarrow> philsys \<Rightarrow> philsys" where
  "ph_say x s = s\<lparr>ph_out := ph_out s @ [x]\<rparr>"

text \<open>
  \<open>philosopher\<close>. The calls of \<open>nanosleep\<close> have a \<open>tv_nsec\<close> above 999999999 and fail at once
  with EINVAL, which is ignored: they have no effect.
\<close>

definition philosopher :: "nat \<Rightarrow> nat \<Rightarrow> philsys \<Rightarrow> philsys option" where
  "philosopher n i s =
     (case ph_pc s i of
        PhNotStarted \<Rightarrow> None
      | PhFor \<Rightarrow> Some (ph_goto i (if ph_i s i < n then PhWaitLeft else PhReturned) s)
      | PhWaitLeft \<Rightarrow>
          map_option (\<lambda>v. ph_goto i PhWaitRight (set_chop (left_chop i) v s)) (sem_wait (chop s (left_chop i)))
      | PhWaitRight \<Rightarrow>
          map_option (\<lambda>v. ph_goto i PhEat (set_chop (right_chop i) v s)) (sem_wait (chop s (right_chop i)))
      | PhEat \<Rightarrow> Some (ph_say (Eats i) (ph_goto i PhPostRight s))
      | PhPostRight \<Rightarrow> Some (ph_goto i PhPostLeft (set_chop (right_chop i) (sem_post (chop s (right_chop i))) s))
      | PhPostLeft \<Rightarrow> Some (ph_goto i PhThink (set_chop (left_chop i) (sem_post (chop s (left_chop i))) s))
      | PhThink \<Rightarrow> Some (ph_say (Thinks i) ((ph_goto i PhFor s)\<lparr>ph_i := (ph_i s)(i := Suc (ph_i s i))\<rparr>))
      | PhReturned \<Rightarrow> None)"

definition ph_main_step :: "bool \<Rightarrow> philsys \<Rightarrow> philsys option" where
  "ph_main_step ok s =
     (case ph_main s of
        PhInit \<Rightarrow>
          if ok then Some (ph_say (PhText ''Creating philosophers'')
            (s\<lparr>chop := (\<lambda>k. if k < PHILOSOPHERS then 1 else chop s k), ph_main := PhCreate 0\<rparr>)) else None
      | PhCreate i \<Rightarrow>
          if i < PHILOSOPHERS then
            (if ok then Some ((ph_goto i PhFor s)\<lparr>ph_main := PhCreate (Suc i)\<rparr>)
             else Some (ph_say (PhError ''pthread_create()'') (s\<lparr>ph_main := PhExit 1\<rparr>)))
          else if ok then Some (ph_say (PhText ''Joining all threads'') (s\<lparr>ph_main := PhJoin 0\<rparr>)) else None
      | PhJoin i \<Rightarrow>
          if i < PHILOSOPHERS then
            (if ok \<and> ph_pc s i = PhReturned then Some (s\<lparr>ph_main := PhJoin (Suc i)\<rparr>) else None)
          else if ok then Some (s\<lparr>ph_main := PhExit 0\<rparr>) else None
      | PhExit c \<Rightarrow> None)"

definition ph_program :: "nat \<Rightarrow> actor \<Rightarrow> philsys \<Rightarrow> philsys option" where
  "ph_program n a s =
     (case ph_main s of
        PhExit c \<Rightarrow> None
      | _ \<Rightarrow> (case a of
                MainOk \<Rightarrow> ph_main_step True s
              | MainFail \<Rightarrow> ph_main_step False s
              | Thr i \<Rightarrow> if i < PHILOSOPHERS then philosopher n i s else None))"

definition ph_start :: philsys where
  "ph_start = \<lparr>chop = (\<lambda>_. 0), ph_pc = (\<lambda>_. PhNotStarted), ph_i = (\<lambda>_. 0), ph_main = PhInit, ph_out = []\<rparr>"

section \<open>Chopsticks and their holders\<close>

fun has_left :: "ph_pc \<Rightarrow> nat" where
  "has_left PhWaitRight = 1" | "has_left PhEat = 1" | "has_left PhPostRight = 1" | "has_left PhPostLeft = 1"
| "has_left p = 0"

fun has_right :: "ph_pc \<Rightarrow> nat" where
  "has_right PhEat = 1" | "has_right PhPostRight = 1" | "has_right p = 0"

text \<open>Chopstick \<open>k\<close> is left of \<open>k\<close> and right of \<open>k - 1\<close>: on the table or in one hand.\<close>

definition chop_inv :: "philsys \<Rightarrow> bool" where
  "chop_inv s \<longleftrightarrow>
     chop s 0 + has_left (ph_pc s 0) + has_right (ph_pc s 2) = 1
     \<and> chop s 1 + has_left (ph_pc s 1) + has_right (ph_pc s 0) = 1
     \<and> chop s 2 + has_left (ph_pc s 2) + has_right (ph_pc s 1) = 1"

definition started :: "ph_main \<Rightarrow> nat" where
  "started m = (case m of PhInit \<Rightarrow> 0 | PhCreate i \<Rightarrow> i | PhJoin i \<Rightarrow> 3 | PhExit c \<Rightarrow> 0)"

definition ph_inv :: "nat \<Rightarrow> philsys \<Rightarrow> bool" where
  "ph_inv n s \<longleftrightarrow> (ph_main s \<noteq> PhInit \<longrightarrow> chop_inv s)
     \<and> (ph_main s = PhInit \<longrightarrow> s = ph_start)
     \<and> (\<forall>i. ph_main s = PhCreate i \<longrightarrow> i \<le> 3)
     \<and> (\<forall>i < 3. i < started (ph_main s) \<longrightarrow> ph_pc s i \<noteq> PhNotStarted)
     \<and> (\<forall>i < 3. (\<forall>c. ph_main s \<noteq> PhExit c) \<longrightarrow> started (ph_main s) \<le> i \<longrightarrow> ph_pc s i = PhNotStarted)
     \<and> (\<forall>i j. ph_main s = PhJoin i \<longrightarrow> j < i \<longrightarrow> j < 3 \<longrightarrow> ph_pc s j = PhReturned)
     \<and> (\<forall>i. ph_main s = PhJoin i \<longrightarrow> i \<le> 3)"

lemma three_cases: "(i :: nat) < 3 \<longleftrightarrow> i = 0 \<or> i = 1 \<or> i = 2"
  by auto

lemma ph_sel [simp]:
  "ph_pc (ph_goto i p s) = (ph_pc s)(i := p)" "ph_main (ph_goto i p s) = ph_main s" "chop (ph_goto i p s) = chop s"
  "ph_pc (set_chop k v s) = ph_pc s" "ph_main (set_chop k v s) = ph_main s" "chop (set_chop k v s) = (chop s)(k := v)"
  "ph_pc (ph_say x s) = ph_pc s" "ph_main (ph_say x s) = ph_main s" "chop (ph_say x s) = chop s"
  by (simp_all add: ph_goto_def set_chop_def ph_say_def)

lemma chop_values [simp]:
  "left_chop i = i" "right_chop 0 = 1" "right_chop 1 = 2" "right_chop (Suc 0) = 2" "right_chop 2 = 0"
  by (simp_all add: left_chop_def right_chop_def PHILOSOPHERS_def)

lemma philosopher_chops:
  assumes "chop_inv s" and "i < 3" and "philosopher n i s = Some s'"
  shows "chop_inv s'"
proof -
  have "i = 0 \<or> i = 1 \<or> i = 2" using assms(2) by auto
  then show ?thesis
    using assms(1) assms(3) [symmetric]
    by (elim disjE; cases "ph_pc s i")
      (simp_all add: philosopher_def chop_inv_def sem_wait_def sem_post_def split: if_splits)
qed

lemma philosopher_frame:
  assumes "philosopher n i s = Some s'"
  shows "ph_main s' = ph_main s" and "j \<noteq> i \<Longrightarrow> ph_pc s' j = ph_pc s j"
    and "ph_pc s i \<noteq> PhNotStarted" and "ph_pc s i \<noteq> PhReturned" and "ph_pc s' i \<noteq> PhNotStarted"
  using assms by (cases "ph_pc s i"; auto simp: philosopher_def split: if_splits)+

lemma ph_step_inv:
  assumes inv: "ph_inv n s" and st: "ph_program n a s = Some s'"
  shows "ph_inv n s'"
proof -
  consider (ph) i where "i < 3" "philosopher n i s = Some s'" "\<forall>c. ph_main s \<noteq> PhExit c"
    | (main) ok where "ph_main_step ok s = Some s'"
    using st by (auto simp: ph_program_def PHILOSOPHERS_def split: ph_main.splits actor.splits if_splits)
  then show ?thesis
  proof cases
    case (ph i)
    note fr = philosopher_frame [OF ph(2)]
    have "ph_main s \<noteq> PhInit"
      using inv fr(3) by (auto simp: ph_inv_def ph_start_def)
    then have "chop_inv s'"
      using inv ph philosopher_chops by (auto simp: ph_inv_def)
    moreover have "ph_pc s' j = PhNotStarted \<longleftrightarrow> ph_pc s j = PhNotStarted" for j
      using fr(2,3,5) by (cases "j = i") auto
    moreover have "ph_pc s j = PhReturned \<Longrightarrow> ph_pc s' j = PhReturned" for j
      using fr(2,4) by (cases "j = i") auto
    ultimately show ?thesis
      using inv fr(1) \<open>ph_main s \<noteq> PhInit\<close> by (auto simp: ph_inv_def)
  next
    case (main ok)
    show ?thesis
    proof (cases "ph_main s")
      case PhInit
      then show ?thesis
        using inv main [symmetric]
        by (auto simp: ph_main_step_def ph_inv_def chop_inv_def started_def ph_start_def PHILOSOPHERS_def split: if_splits)
    next
      case (PhCreate i)
      then have ci: "chop_inv s" "i \<le> 3" "i < 3 \<Longrightarrow> ph_pc s i = PhNotStarted"
        using inv by (auto simp: ph_inv_def started_def)
      then have "chop_inv (s\<lparr>ph_pc := (ph_pc s)(i := PhFor), ph_main := m\<rparr>)" if "i < 3" for m
        using that by (auto simp: chop_inv_def three_cases)
      with ci(1) PhCreate inv main [symmetric] show ?thesis
        by (auto simp: ph_main_step_def ph_inv_def started_def PHILOSOPHERS_def chop_inv_def ph_goto_def less_Suc_eq split: if_splits)
    next
      case (PhJoin i)
      with inv main [symmetric] show ?thesis
        by (auto simp: ph_main_step_def ph_inv_def started_def chop_inv_def PHILOSOPHERS_def less_Suc_eq split: if_splits)
    next
      case (PhExit c)
      with main show ?thesis by (simp add: ph_main_step_def)
    qed
  qed
qed

lemma reachable_ph_inv:
  assumes "reachable (ph_program n) ph_start s"
  shows "ph_inv n s"
  using assms
proof (rule reachable_invariant)
  show "ph_inv n ph_start"
    by (simp add: ph_inv_def started_def) (simp add: ph_start_def)
qed (rule ph_step_inv)

lemma philosopher_blocked:
  "philosopher n i s = None \<longleftrightarrow> ph_pc s i = PhNotStarted \<or> ph_pc s i = PhReturned
     \<or> ph_pc s i = PhWaitLeft \<and> chop s (left_chop i) = 0 \<or> ph_pc s i = PhWaitRight \<and> chop s (right_chop i) = 0"
  by (cases "ph_pc s i") (auto simp: philosopher_def sem_wait_def)

definition eating :: "philsys \<Rightarrow> nat \<Rightarrow> bool" where
  "eating s i \<longleftrightarrow> ph_pc s i = PhEat \<or> ph_pc s i = PhPostRight"

lemma eating_exclusive:
  assumes "chop_inv s" and "i < 3" "j < 3" "i \<noteq> j" and "eating s i"
  shows "\<not> eating s j"
proof -
  have r: "has_right (ph_pc s k) = 1 \<and> has_left (ph_pc s k) = 1" if "eating s k" for k
    using that by (auto simp: eating_def)
  show ?thesis
  proof
    assume "eating s j"
    with r [of i] r [of j] assms show False
      by (auto simp: chop_inv_def three_cases)
  qed
qed

lemma ph_stuck:
  assumes inv: "ph_inv n s" and stuck: "\<forall>a. ph_program n a s = None" and live: "\<forall>c. ph_main s \<noteq> PhExit c"
  shows "\<forall>i < 3. ph_pc s i = PhWaitRight"
proof -
  have main: "ph_main_step True s = None"
    using stuck [rule_format, of MainOk] live by (auto simp: ph_program_def split: ph_main.splits)
  then obtain i where i: "ph_main s = PhJoin i" "i < 3" "ph_pc s i \<noteq> PhReturned"
    using live by (cases "ph_main s") (auto simp: ph_main_step_def PHILOSOPHERS_def split: if_splits)
  have ci: "chop_inv s" and ns: "\<forall>j < 3. ph_pc s j \<noteq> PhNotStarted"
    using inv i by (auto simp: ph_inv_def started_def)
  have "philosopher n j s = None" if "j < 3" for j
    using stuck [rule_format, of "Thr j"] that i(1) by (auto simp: ph_program_def PHILOSOPHERS_def)
  then have bl: "ph_pc s j = PhReturned \<or> ph_pc s j = PhWaitLeft \<and> chop s j = 0
      \<or> ph_pc s j = PhWaitRight \<and> chop s (right_chop j) = 0" if "j < 3" for j
    using that ns by (auto simp: philosopher_blocked)
  then have nr: "has_right (ph_pc s j) = 0" if "j < 3" for j
    using bl [OF that] by auto
  have wr: "ph_pc s j = PhReturned \<or> ph_pc s j = PhWaitRight \<and> chop s (right_chop j) = 0" if "j < 3" for j
    using bl [OF that] ci nr [of 0] nr [of 1] nr [of 2] that by (auto simp: chop_inv_def three_cases)
  have nb: "ph_pc s j = PhWaitRight \<Longrightarrow> ph_pc s (right_chop j) = PhWaitRight" if "j < 3" for j
    using wr [of 0] wr [of 1] wr [of 2] ci nr [of 0] nr [of 1] nr [of 2] that by (auto simp: chop_inv_def three_cases)
  have "ph_pc s i = PhWaitRight"
    using wr i by auto
  then show ?thesis
    using nb [of 0] nb [of 1] nb [of 2] i(2) by (auto simp: three_cases)
qed

text \<open>All philosophers are created and take their left chopstick.\<close>

definition all_left :: "actor list" where
  "all_left = [MainOk, MainOk, MainOk, MainOk, MainOk, Thr 0, Thr 0, Thr 1, Thr 1, Thr 2, Thr 2]"

lemma all_left_run:
  assumes "0 < n"
  shows "\<exists>s. run (ph_program n) all_left ph_start = Some s \<and> (\<forall>a. ph_program n a s = None) \<and> ph_main s = PhJoin 0"
proof -
  let ?s = "\<lparr>chop = (\<lambda>k. if k < 3 then 0 else 0), ph_pc = (\<lambda>i. if i < 3 then PhWaitRight else PhNotStarted), ph_i = (\<lambda>_. 0),
    ph_main = PhJoin 0, ph_out = [PhText ''Creating philosophers'', PhText ''Joining all threads'']\<rparr>"
  have r: "run (ph_program n) all_left ph_start = Some ?s"
    using assms by (simp add: all_left_def ph_program_def ph_main_step_def philosopher_def ph_start_def ph_goto_def
        set_chop_def ph_say_def sem_wait_def PHILOSOPHERS_def fun_eq_iff)
  have "philosopher n i ?s = None" if "i < 3" for i
    using that by (auto simp: philosopher_blocked three_cases)
  then have "ph_program n a ?s = None" for a
    by (cases a) (simp_all add: ph_program_def ph_main_step_def PHILOSOPHERS_def)
  with r show ?thesis by (intro exI [of _ ?s]) simp
qed

section \<open>Properties\<close>

text \<open>
  C15. \<open>16_dining_philosophers.c\<close>: in every reachable state at most one philosopher eats (with
  three of them, all are neighbours), and the program can only get stuck in one way: each
  philosopher holds its left chopstick and waits for the right one.
\<close>

theorem ph_program_safe:
  assumes "reachable (ph_program n) ph_start s"
  shows "(\<forall>i < PHILOSOPHERS. \<forall>j < PHILOSOPHERS. eating s i \<and> eating s j \<longrightarrow> i = j)
    \<and> ((\<forall>a. ph_program n a s = None) \<and> (\<forall>c. ph_main s \<noteq> PhExit c) \<longrightarrow>
         (\<forall>i < PHILOSOPHERS. ph_pc s i = PhWaitRight))"
proof -
  have inv: "ph_inv n s" using reachable_ph_inv [OF assms] .
  have "chop_inv s \<or> s = ph_start" using inv by (auto simp: ph_inv_def)
  then have "eating s i \<and> eating s j \<longrightarrow> i = j" if "i < 3" "j < 3" for i j
    using eating_exclusive that by (auto simp: eating_def ph_start_def)
  then show ?thesis
    using ph_stuck [OF inv] by (auto simp: PHILOSOPHERS_def)
qed

lemma ph_program_safe_witness:
  "\<exists>s. reachable (ph_program 1) ph_start s \<and> eating s 0 \<and> \<not> eating s 1"
proof -
  have "map_option (\<lambda>s. ph_pc s 0) (run (ph_program 1)
      [MainOk, MainOk, MainOk, MainOk, MainOk, Thr 0, Thr 0, Thr 0] ph_start) = Some PhEat"
    by code_simp
  then obtain s where s: "reachable (ph_program 1) ph_start s" "ph_pc s 0 = PhEat"
    using reachable_obs [of "\<lambda>s. ph_pc s 0"] by blast
  then have "eating s 0" by (simp add: eating_def)
  moreover have "(0 :: nat) < PHILOSOPHERS" "1 < PHILOSOPHERS" by (simp_all add: PHILOSOPHERS_def)
  ultimately have "\<not> eating s 1"
    using ph_program_safe [OF s(1)] by (metis zero_neq_one)
  then show ?thesis
    using s(1) \<open>eating s 0\<close> by blast
qed

text \<open>
  C16. \<open>16_dining_philosophers.c\<close> deadlocks: for every positive number of iterations a schedule
  leads to a state in which neither \<open>main\<close> nor any philosopher can ever move again, while
  \<open>main\<close> still waits to join the first of them.
\<close>

theorem ph_program_deadlocks:
  assumes "0 < n"
  shows "\<exists>as s. run (ph_program n) as ph_start = Some s \<and> (\<forall>a. ph_program n a s = None) \<and> ph_main s = PhJoin 0"
  using all_left_run [OF assms] by blast

lemma ph_program_deadlocks_witness:
  "0 < ITERATIONS \<and> (\<exists>as s. run (ph_program ITERATIONS) as ph_start = Some s
    \<and> (\<forall>a. ph_program ITERATIONS a s = None) \<and> ph_main s = PhJoin 0)"
  using ph_program_deadlocks [of ITERATIONS] by (simp add: ITERATIONS_def)

end
