(* ===== verification/ReadersWriters.thy ===== *)
theory ReadersWriters
  imports LockPrograms
begin

text \<open>
  \<open>Lecture Codes/03_synchro/09_reades_writers.c\<close>: a writer and two readers. The writer holds
  \<open>rw_mtx\<close>; the first reader to come takes it for all readers and the last to leave gives it
  back, with \<open>readers_count\<close> under \<open>mtx\<close>.
\<close>

section \<open>The program\<close>

datatype wr_pc = WrNew | WrFor | WrWait | WrWrite | WrPost | WrReturn

datatype rd_pc =
  RdNew | RdFor | RdRand | RdEnter | RdInc | RdFirst | RdWaitRw | RdEntered | RdRead | RdLeave | RdDec | RdLast
| RdPostRw | RdLeft | RdReturn

datatype rw_main = RwInit | RwCreateW | RwCreate1 | RwCreate2 | RwJoinW | RwJoin1 | RwJoin2 | RwExit int

datatype rw_out = Writing nat | Reading nat | RwText string | RwError string

record rwsys =
  rw_counter :: int
  rmtx :: nat
  readers_count :: int
  rw_mtx :: nat
  wpc :: wr_pc
  w_i :: nat
  rdpc :: "nat \<Rightarrow> rd_pc"
  rd_i :: "nat \<Rightarrow> nat"
  rw_at :: rw_main
  rw_outs :: "rw_out list"

definition rw_writer :: "nat \<Rightarrow> rwsys \<Rightarrow> rwsys option" where
  "rw_writer n s =
     (case wpc s of
        WrNew \<Rightarrow> None
      | WrFor \<Rightarrow> Some (s\<lparr>wpc := if w_i s < n then WrWait else WrReturn\<rparr>)
      | WrWait \<Rightarrow> map_option (\<lambda>v. s\<lparr>rw_mtx := v, wpc := WrWrite\<rparr>) (sem_wait (rw_mtx s))
      | WrWrite \<Rightarrow>
          Some (s\<lparr>rw_counter := rw_counter s + 1, wpc := WrPost, rw_outs := rw_outs s @ [Writing (w_i s)]\<rparr>)
      | WrPost \<Rightarrow> Some (s\<lparr>rw_mtx := sem_post (rw_mtx s), wpc := WrFor, w_i := Suc (w_i s)\<rparr>)
      | WrReturn \<Rightarrow> None)"

definition rd_goto :: "nat \<Rightarrow> rd_pc \<Rightarrow> rwsys \<Rightarrow> rwsys" where
  "rd_goto r p s = s\<lparr>rdpc := (rdpc s)(r := p)\<rparr>"

text \<open>\<open>again\<close>: the value of \<open>rand() % 100\<close> was not 0 and the slow-down loop goes on.\<close>

definition rw_reader :: "nat \<Rightarrow> bool \<Rightarrow> nat \<Rightarrow> rwsys \<Rightarrow> rwsys option" where
  "rw_reader n again r s =
     (if again then (if rdpc s r = RdRand then Some s else None) else
      case rdpc s r of
        RdNew \<Rightarrow> None
      | RdFor \<Rightarrow> Some (rd_goto r (if rd_i s r < n then RdRand else RdReturn) s)
      | RdRand \<Rightarrow> Some (rd_goto r RdEnter s)
      | RdEnter \<Rightarrow> map_option (\<lambda>v. rd_goto r RdInc (s\<lparr>rmtx := v\<rparr>)) (sem_wait (rmtx s))
      | RdInc \<Rightarrow> Some (rd_goto r RdFirst (s\<lparr>readers_count := readers_count s + 1\<rparr>))
      | RdFirst \<Rightarrow> Some (rd_goto r (if readers_count s = 1 then RdWaitRw else RdEntered) s)
      | RdWaitRw \<Rightarrow> map_option (\<lambda>v. rd_goto r RdEntered (s\<lparr>rw_mtx := v\<rparr>)) (sem_wait (rw_mtx s))
      | RdEntered \<Rightarrow> Some (rd_goto r RdRead (s\<lparr>rmtx := sem_post (rmtx s)\<rparr>))
      | RdRead \<Rightarrow> Some (rd_goto r RdLeave (s\<lparr>rw_outs := rw_outs s @ [Reading r]\<rparr>))
      | RdLeave \<Rightarrow> map_option (\<lambda>v. rd_goto r RdDec (s\<lparr>rmtx := v\<rparr>)) (sem_wait (rmtx s))
      | RdDec \<Rightarrow> Some (rd_goto r RdLast (s\<lparr>readers_count := readers_count s - 1\<rparr>))
      | RdLast \<Rightarrow> Some (rd_goto r (if readers_count s = 0 then RdPostRw else RdLeft) s)
      | RdPostRw \<Rightarrow> Some (rd_goto r RdLeft (s\<lparr>rw_mtx := sem_post (rw_mtx s)\<rparr>))
      | RdLeft \<Rightarrow> Some ((rd_goto r RdFor (s\<lparr>rmtx := sem_post (rmtx s)\<rparr>))\<lparr>rd_i := (rd_i s)(r := Suc (rd_i s r))\<rparr>)
      | RdReturn \<Rightarrow> None)"

definition rw_say :: "rw_out \<Rightarrow> rwsys \<Rightarrow> rwsys" where
  "rw_say x s = s\<lparr>rw_outs := rw_outs s @ [x]\<rparr>"

definition rw_create_fails :: "rwsys \<Rightarrow> rwsys option" where
  "rw_create_fails s = Some (rw_say (RwError ''pthread_create()'') (s\<lparr>rw_at := RwExit 1\<rparr>))"

definition rw_main_step :: "bool \<Rightarrow> rwsys \<Rightarrow> rwsys option" where
  "rw_main_step ok s =
     (case rw_at s of
        RwInit \<Rightarrow>
          if ok then Some (rw_say (RwText ''Creating writer'') (s\<lparr>rmtx := 1, rw_mtx := 1, rw_at := RwCreateW\<rparr>)) else None
      | RwCreateW \<Rightarrow>
          if ok then Some (rw_say (RwText ''Creating reader 1'') (s\<lparr>wpc := WrFor, rw_at := RwCreate1\<rparr>))
          else rw_create_fails s
      | RwCreate1 \<Rightarrow>
          if ok then Some (rw_say (RwText ''Creating reader 2'') ((rd_goto 0 RdFor s)\<lparr>rw_at := RwCreate2\<rparr>))
          else rw_create_fails s
      | RwCreate2 \<Rightarrow>
          if ok then Some (rw_say (RwText ''Created both threads'') ((rd_goto 1 RdFor s)\<lparr>rw_at := RwJoinW\<rparr>))
          else rw_create_fails s
      | RwJoinW \<Rightarrow> if ok \<and> wpc s = WrReturn then Some (s\<lparr>rw_at := RwJoin1\<rparr>) else None
      | RwJoin1 \<Rightarrow> if ok \<and> rdpc s 0 = RdReturn then Some (s\<lparr>rw_at := RwJoin2\<rparr>) else None
      | RwJoin2 \<Rightarrow> if ok \<and> rdpc s 1 = RdReturn then Some (s\<lparr>rw_at := RwExit 0\<rparr>) else None
      | RwExit c \<Rightarrow> None)"

text \<open>
  Actors: \<open>main\<close>, the writer (0), the readers (1 and 2) leaving their random loop at the next
  test, and the readers staying in it (3 and 4).
\<close>

definition rw_program :: "nat \<Rightarrow> actor \<Rightarrow> rwsys \<Rightarrow> rwsys option" where
  "rw_program n a s =
     (case rw_at s of
        RwExit c \<Rightarrow> None
      | _ \<Rightarrow> (case a of
                MainOk \<Rightarrow> rw_main_step True s
              | MainFail \<Rightarrow> rw_main_step False s
              | Thr t \<Rightarrow>
                  if t = 0 then rw_writer n s
                  else if t = 1 \<or> t = 2 then rw_reader n False (t - 1) s
                  else if t = 3 \<or> t = 4 then rw_reader n True (t - 3) s
                  else None))"

definition rw_start :: rwsys where
  "rw_start = \<lparr>rw_counter = 0, rmtx = 0, readers_count = 0, rw_mtx = 0, wpc = WrNew, w_i = 0, rdpc = (\<lambda>_. RdNew),
     rd_i = (\<lambda>_. 0), rw_at = RwInit, rw_outs = []\<rparr>"

section \<open>The invariant\<close>

fun wr_in :: "wr_pc \<Rightarrow> nat" where
  "wr_in WrWrite = 1" | "wr_in WrPost = 1" | "wr_in w = 0"

text \<open>Inside \<open>mtx\<close>; counted in \<open>readers_count\<close>; responsible for \<open>rw_mtx\<close>.\<close>

fun rd_in :: "rd_pc \<Rightarrow> nat" where
  "rd_in RdNew = 0" | "rd_in RdFor = 0" | "rd_in RdRand = 0" | "rd_in RdEnter = 0" | "rd_in RdRead = 0"
| "rd_in RdLeave = 0" | "rd_in RdReturn = 0" | "rd_in p = 1"

fun rd_counted :: "rd_pc \<Rightarrow> int" where
  "rd_counted RdFirst = 1" | "rd_counted RdWaitRw = 1" | "rd_counted RdEntered = 1" | "rd_counted RdRead = 1"
| "rd_counted RdLeave = 1" | "rd_counted RdDec = 1" | "rd_counted p = 0"

fun rd_group :: "rd_pc \<Rightarrow> bool" where
  "rd_group RdEntered = True" | "rd_group RdRead = True" | "rd_group RdLeave = True" | "rd_group RdDec = True"
| "rd_group RdLast = True" | "rd_group RdPostRw = True" | "rd_group p = False"

definition rw_inv :: "rwsys \<Rightarrow> bool" where
  "rw_inv s \<longleftrightarrow>
     rmtx s + rd_in (rdpc s 0) + rd_in (rdpc s 1) = 1
     \<and> readers_count s = rd_counted (rdpc s 0) + rd_counted (rdpc s 1)
     \<and> rw_mtx s + wr_in (wpc s) + (if rd_group (rdpc s 0) \<or> rd_group (rdpc s 1) then 1 else 0) = 1
     \<and> (\<forall>r < 2. (rdpc s r = RdWaitRw \<longrightarrow> readers_count s = 1) \<and> (rdpc s r = RdPostRw \<longrightarrow> readers_count s = 0))"

definition rw_idx_inv :: "nat \<Rightarrow> rwsys \<Rightarrow> bool" where
  "rw_idx_inv n s \<longleftrightarrow>
     (if wpc s = WrFor \<or> wpc s = WrNew then w_i s \<le> n else if wpc s = WrReturn then w_i s = n else w_i s < n)
     \<and> (\<forall>r < 2. if rdpc s r = RdFor \<or> rdpc s r = RdNew then rd_i s r \<le> n else if rdpc s r = RdReturn then rd_i s r = n
               else rd_i s r < n)
     \<and> rw_counter s = int (w_i s) + (if wpc s = WrPost then 1 else 0)"

text \<open>A property of the two readers, by name.\<close>

lemma both_readers: "(\<forall>r < 2. P r) \<longleftrightarrow> P 0 \<and> P (Suc 0)" for P :: "nat \<Rightarrow> bool"
  by (auto simp: less_2_cases_iff)

lemma rw_writer_inv:
  assumes "rw_inv s" and "rw_writer n s = Some s'"
  shows "rw_inv s'"
  using assms(1) assms(2) [symmetric]
  by (cases "wpc s") (auto simp: rw_writer_def rw_inv_def sem_wait_def sem_post_def split: if_splits)

lemma reader_outside:
  "rd_in q = 0 \<Longrightarrow> q \<noteq> RdWaitRw \<and> q \<noteq> RdPostRw \<and> (if rd_group q then rd_counted q = 1 else rd_counted q = 0)"
  by (cases q) simp_all

lemma rd_goto_sel [simp]:
  "rdpc (rd_goto r p s) = (rdpc s)(r := p)" "rmtx (rd_goto r p s) = rmtx s" "readers_count (rd_goto r p s) = readers_count s"
  "rw_mtx (rd_goto r p s) = rw_mtx s" "wpc (rd_goto r p s) = wpc s" "rw_at (rd_goto r p s) = rw_at s"
  "w_i (rd_goto r p s) = w_i s" "rd_i (rd_goto r p s) = rd_i s" "rw_counter (rd_goto r p s) = rw_counter s"
  by (simp_all add: rd_goto_def)

text \<open>The invariant from the point of view of one reader, \<open>p\<close> being its position and \<open>q\<close> the other's.\<close>

definition rw_view :: "rd_pc \<Rightarrow> rd_pc \<Rightarrow> nat \<Rightarrow> int \<Rightarrow> nat \<Rightarrow> nat \<Rightarrow> bool" where
  "rw_view p q m c w wi \<longleftrightarrow> m + rd_in p + rd_in q = 1 \<and> c = rd_counted p + rd_counted q
     \<and> w + wi + (if rd_group p \<or> rd_group q then 1 else 0) = 1
     \<and> (p = RdWaitRw \<longrightarrow> c = 1) \<and> (p = RdPostRw \<longrightarrow> c = 0) \<and> (q = RdWaitRw \<longrightarrow> c = 1) \<and> (q = RdPostRw \<longrightarrow> c = 0)"

lemma rw_view_swap: "rw_view p q m c w wi = rw_view q p m c w wi"
  by (auto simp: rw_view_def)

lemma rw_inv_view:
  assumes "r < 2"
  shows "rw_inv s = rw_view (rdpc s r) (rdpc s (1 - r)) (rmtx s) (readers_count s) (rw_mtx s) (wr_in (wpc s))"
proof -
  have "rw_inv s = rw_view (rdpc s 0) (rdpc s 1) (rmtx s) (readers_count s) (rw_mtx s) (wr_in (wpc s))"
    unfolding rw_inv_def rw_view_def both_readers by auto
  moreover have "r = 0 \<or> r = 1" using assms by auto
  ultimately show ?thesis
    using rw_view_swap [of "rdpc s 0" "rdpc s 1"] by auto
qed

text \<open>One reader's moves on that view.\<close>

lemma rw_view_moves:
  "rw_view RdFor q m c w wi \<Longrightarrow> rw_view RdRand q m c w wi \<and> rw_view RdReturn q m c w wi"
  "rw_view RdRand q m c w wi \<Longrightarrow> rw_view RdEnter q m c w wi"
  "rw_view RdEnter q m c w wi \<Longrightarrow> 0 < m \<Longrightarrow> rw_view RdInc q (m - 1) c w wi"
  "rw_view RdInc q m c w wi \<Longrightarrow> rw_view RdFirst q m (c + 1) w wi"
  "rw_view RdFirst q m c w wi \<Longrightarrow> if c = 1 then rw_view RdWaitRw q m c w wi else rw_view RdEntered q m c w wi"
  "rw_view RdWaitRw q m c w wi \<Longrightarrow> 0 < w \<Longrightarrow> rw_view RdEntered q m c (w - 1) wi"
  "rw_view RdEntered q m c w wi \<Longrightarrow> rw_view RdRead q (Suc m) c w wi"
  "rw_view RdRead q m c w wi \<Longrightarrow> rw_view RdLeave q m c w wi"
  "rw_view RdLeave q m c w wi \<Longrightarrow> 0 < m \<Longrightarrow> rw_view RdDec q (m - 1) c w wi"
  "rw_view RdDec q m c w wi \<Longrightarrow> rw_view RdLast q m (c - 1) w wi"
  "rw_view RdLast q m c w wi \<Longrightarrow> if c = 0 then rw_view RdPostRw q m c w wi else rw_view RdLeft q m c w wi"
  "rw_view RdPostRw q m c w wi \<Longrightarrow> rw_view RdLeft q m c (Suc w) wi"
  "rw_view RdLeft q m c w wi \<Longrightarrow> rw_view RdFor q (Suc m) c w wi"
  by (cases q; auto simp: rw_view_def)+

lemma rw_reader_inv:
  assumes inv: "rw_inv s" and r: "r < 2" and st: "rw_reader n again r s = Some s'"
  shows "rw_inv s'"
proof (cases again)
  case True
  with st inv show ?thesis by (simp add: rw_reader_def split: if_splits)
next
  case False
  have ne: "1 - r \<noteq> r" using r by presburger
  note v = inv [unfolded rw_inv_view [OF r]]
  show ?thesis
    unfolding rw_inv_view [OF r]
    using False st v ne
    by (cases "rdpc s r")
      (auto simp: rw_reader_def sem_wait_def sem_post_def dest: rw_view_moves split: if_splits)
qed

section \<open>Indices, measure, the whole program\<close>

fun wr_left :: "wr_pc \<Rightarrow> nat" where
  "wr_left WrNew = 5" | "wr_left WrFor = 4" | "wr_left WrWait = 3" | "wr_left WrWrite = 2" | "wr_left WrPost = 1"
| "wr_left WrReturn = 0"

fun rd_left :: "rd_pc \<Rightarrow> nat" where
  "rd_left RdNew = 15" | "rd_left RdFor = 14" | "rd_left RdRand = 13" | "rd_left RdEnter = 12" | "rd_left RdInc = 11"
| "rd_left RdFirst = 10" | "rd_left RdWaitRw = 9" | "rd_left RdEntered = 8" | "rd_left RdRead = 7"
| "rd_left RdLeave = 6" | "rd_left RdDec = 5" | "rd_left RdLast = 4" | "rd_left RdPostRw = 3" | "rd_left RdLeft = 2"
| "rd_left RdReturn = 0"

definition reader_left :: "nat \<Rightarrow> rwsys \<Rightarrow> nat \<Rightarrow> nat" where
  "reader_left n s r = 14 * (n - rd_i s r) + rd_left (rdpc s r)"

fun rw_main_left :: "rw_main \<Rightarrow> nat" where
  "rw_main_left RwInit = 7" | "rw_main_left RwCreateW = 6" | "rw_main_left RwCreate1 = 5" | "rw_main_left RwCreate2 = 4"
| "rw_main_left RwJoinW = 3" | "rw_main_left RwJoin1 = 2" | "rw_main_left RwJoin2 = 1" | "rw_main_left (RwExit c) = 0"

definition rw_left :: "nat \<Rightarrow> rwsys \<Rightarrow> nat" where
  "rw_left n s = rw_main_left (rw_at s) + (4 * (n - w_i s) + wr_left (wpc s)) + reader_left n s 0 + reader_left n s 1"

lemma rw_writer_idx:
  assumes "rw_idx_inv n s" and "rw_writer n s = Some s'"
  shows "rw_idx_inv n s'" and "rw_left n s' < rw_left n s"
  using assms(1) assms(2) [symmetric]
  by (cases "wpc s"; auto simp: rw_writer_def rw_idx_inv_def rw_left_def reader_left_def sem_wait_def split: if_splits)+

definition rd_idx_ok :: "nat \<Rightarrow> rd_pc \<Rightarrow> nat \<Rightarrow> bool" where
  "rd_idx_ok n p i \<longleftrightarrow> (if p = RdFor \<or> p = RdNew then i \<le> n else if p = RdReturn then i = n else i < n)"

lemma rw_idx_alt:
  "rw_idx_inv n s \<longleftrightarrow>
     (if wpc s = WrFor \<or> wpc s = WrNew then w_i s \<le> n else if wpc s = WrReturn then w_i s = n else w_i s < n)
     \<and> (\<forall>r < 2. rd_idx_ok n (rdpc s r) (rd_i s r)) \<and> rw_counter s = int (w_i s) + (if wpc s = WrPost then 1 else 0)"
  by (simp add: rw_idx_inv_def rd_idx_ok_def)

text \<open>What a reader's step does to what only it changes, and that it leaves the rest.\<close>

lemma rw_reader_frame:
  assumes "rw_reader n again r s = Some s'"
  shows "wpc s' = wpc s" "w_i s' = w_i s" "rw_counter s' = rw_counter s" "rw_at s' = rw_at s"
    "u \<noteq> r \<Longrightarrow> rdpc s' u = rdpc s u" "u \<noteq> r \<Longrightarrow> rd_i s' u = rd_i s u"
    "rdpc s r \<noteq> RdNew" "rdpc s r \<noteq> RdReturn" "rdpc s' r \<noteq> RdNew"
  using assms by (cases "rdpc s r"; auto simp: rw_reader_def sem_wait_def split: if_splits)+

lemma rw_reader_own:
  assumes "rw_reader n again r s = Some s'" and "rd_idx_ok n (rdpc s r) (rd_i s r)"
  shows "rd_idx_ok n (rdpc s' r) (rd_i s' r)"
    and "if again then s' = s else reader_left n s' r < reader_left n s r"
  using assms(2) assms(1) [symmetric]
  by (cases "rdpc s r"; auto simp: rw_reader_def sem_wait_def rd_idx_ok_def reader_left_def split: if_splits)+

lemma rw_reader_idx:
  assumes "rw_idx_inv n s" and r: "r < 2" and st: "rw_reader n again r s = Some s'"
  shows "rw_idx_inv n s'" and "if again then s' = s else rw_left n s' < rw_left n s"
proof -
  have ok: "rd_idx_ok n (rdpc s r) (rd_i s r)"
    using assms(1) r by (simp add: rw_idx_alt)
  note own = rw_reader_own [OF st ok] and fr = rw_reader_frame [OF st]
  have other: "u \<noteq> r \<Longrightarrow> reader_left n s' u = reader_left n s u" for u
    using fr(5,6) by (simp add: reader_left_def)
  have all: "rd_idx_ok n (rdpc s' u) (rd_i s' u)" if "u < 2" for u
    using own(1) fr(5,6) assms(1) that by (cases "u = r") (auto simp: rw_idx_alt)
  then show "rw_idx_inv n s'"
    using assms(1) fr(1-3) by (simp add: rw_idx_alt)
  have "r = 0 \<or> r = 1" using r by auto
  then show "if again then s' = s else rw_left n s' < rw_left n s"
    using own(2) fr(1,2,4) other [of 0] other [of 1] by (auto simp: rw_left_def)
qed

definition rw_stage_inv :: "rwsys \<Rightarrow> bool" where
  "rw_stage_inv s \<longleftrightarrow>
     (rw_at s = RwCreateW \<longrightarrow> wpc s = WrNew)
     \<and> (rw_at s \<in> {RwCreate1, RwCreate2} \<longrightarrow> wpc s \<noteq> WrNew)
     \<and> (rw_at s = RwCreate2 \<longrightarrow> rdpc s 0 \<noteq> RdNew)
     \<and> (rw_at s \<in> {RwCreateW, RwCreate1} \<longrightarrow> rdpc s 0 = RdNew)
     \<and> (rw_at s \<in> {RwCreateW, RwCreate1, RwCreate2} \<longrightarrow> rdpc s 1 = RdNew)
     \<and> (rw_at s \<in> {RwJoinW, RwJoin1, RwJoin2, RwExit 0} \<longrightarrow> wpc s \<noteq> WrNew \<and> rdpc s 0 \<noteq> RdNew \<and> rdpc s 1 \<noteq> RdNew)
     \<and> (rw_at s \<in> {RwJoin1, RwJoin2, RwExit 0} \<longrightarrow> wpc s = WrReturn)
     \<and> (rw_at s \<in> {RwJoin2, RwExit 0} \<longrightarrow> rdpc s 0 = RdReturn)
     \<and> (rw_at s = RwExit 0 \<longrightarrow> rdpc s 1 = RdReturn)
     \<and> (\<forall>c. rw_at s = RwExit c \<longrightarrow> c = 0 \<or> c = 1)"

definition rw_prog_inv :: "nat \<Rightarrow> rwsys \<Rightarrow> bool" where
  "rw_prog_inv n s \<longleftrightarrow> s = rw_start \<or> rw_at s \<noteq> RwInit \<and> rw_inv s \<and> rw_idx_inv n s \<and> rw_stage_inv s"

lemma rw_writer_frame:
  assumes "rw_writer n s = Some s'"
  shows "rw_at s' = rw_at s" "rdpc s' = rdpc s" "wpc s \<noteq> WrNew" "wpc s \<noteq> WrReturn" "wpc s' \<noteq> WrNew"
  using assms by (cases "wpc s"; auto simp: rw_writer_def split: if_splits)+

lemma rw_start_sel [simp]: "wpc rw_start = WrNew" "rdpc rw_start r = RdNew" "rw_at rw_start = RwInit"
  by (simp_all add: rw_start_def)

lemma rw_frame [simp]:
  "rw_inv (rw_say x s) = rw_inv s" "rw_inv (s\<lparr>rw_at := m\<rparr>) = rw_inv s"
  "rw_idx_inv n (rw_say x s) = rw_idx_inv n s" "rw_idx_inv n (s\<lparr>rw_at := m\<rparr>) = rw_idx_inv n s"
  "rw_at (rw_say x s) = rw_at s" "rdpc (rw_say x s) = rdpc s" "wpc (rw_say x s) = wpc s"
  "reader_left n (rw_say x s) r = reader_left n s r" "reader_left n (s\<lparr>rw_at := m\<rparr>) r = reader_left n s r"
  "w_i (rw_say x s) = w_i s"
  by (simp_all add: rw_say_def rw_inv_def rw_idx_inv_def reader_left_def)

lemma rw_new_threads:
  "wpc s = WrNew \<Longrightarrow> rw_inv s \<Longrightarrow> rw_inv (s\<lparr>wpc := WrFor, rw_at := m\<rparr>)"
  "wpc s = WrNew \<Longrightarrow> rw_idx_inv n s \<Longrightarrow> rw_idx_inv n (s\<lparr>wpc := WrFor, rw_at := m\<rparr>)"
  "r < 2 \<Longrightarrow> rdpc s r = RdNew \<Longrightarrow> rw_inv s \<Longrightarrow> rw_inv (rd_goto r RdFor s)"
  "r < 2 \<Longrightarrow> rdpc s r = RdNew \<Longrightarrow> rw_idx_inv n s \<Longrightarrow> rw_idx_inv n (rd_goto r RdFor s)"
  "reader_left n (s\<lparr>wpc := WrFor, rw_at := m\<rparr>) r = reader_left n s r"
  "rdpc s r = RdNew \<Longrightarrow> reader_left n (rd_goto r RdFor s) u < reader_left n s u + (if u = r then 0 else 1)"
  subgoal by (simp add: rw_inv_view [of 0])
  subgoal by (simp add: rw_idx_inv_def)
  subgoal
  proof -
    assume r: "r < 2" "rdpc s r = RdNew" "rw_inv s"
    moreover have "1 - r \<noteq> r" using r(1) by presburger
    ultimately show ?thesis by (simp add: rw_inv_view [OF r(1)] rw_view_def)
  qed
  subgoal by (simp add: rw_idx_alt rd_idx_ok_def)
  subgoal by (simp add: reader_left_def)
  subgoal by (simp add: reader_left_def)
  done

lemma rw_main_keeps:
  assumes inv: "rw_inv s" and idx: "rw_idx_inv n s" and stg: "rw_stage_inv s" and at: "rw_at s \<noteq> RwInit"
    and st: "rw_main_step ok s = Some s'"
  shows "rw_at s' \<noteq> RwInit \<and> rw_inv s' \<and> rw_idx_inv n s' \<and> rw_stage_inv s' \<and> rw_left n s' < rw_left n s"
proof (cases "ok")
  case False
  then have "rw_at s = RwCreateW \<or> rw_at s = RwCreate1 \<or> rw_at s = RwCreate2" "rw_create_fails s = Some s'"
    using st at by (cases "rw_at s"; simp add: rw_main_step_def)+
  then show ?thesis
    using inv idx stg by (elim disjE) (auto simp: rw_create_fails_def rw_stage_inv_def rw_left_def)
next
  case True
  show ?thesis
  proof (cases "rw_at s")
    case RwCreateW
    then show ?thesis
      using True st [symmetric] inv idx stg rw_new_threads(1,2) [of s] rw_new_threads(5)
      by (simp add: rw_main_step_def rw_stage_inv_def rw_left_def)
  next
    case RwCreate1
    have l: "reader_left n (rd_goto 0 RdFor s) 0 < reader_left n s 0" "reader_left n (rd_goto 0 RdFor s) 1 \<le> reader_left n s 1"
      using RwCreate1 stg rw_new_threads(6) [of s 0 n 0] rw_new_threads(6) [of s 0 n 1]
      by (simp_all add: rw_stage_inv_def)
    then show ?thesis
      using True RwCreate1 st [symmetric] inv idx stg rw_new_threads(3,4) [of 0 s]
      by (simp add: rw_main_step_def rw_stage_inv_def rw_left_def)
  next
    case RwCreate2
    have l: "reader_left n (rd_goto 1 RdFor s) 1 < reader_left n s 1" "reader_left n (rd_goto 1 RdFor s) 0 \<le> reader_left n s 0"
      using RwCreate2 stg rw_new_threads(6) [of s 1 n 0] rw_new_threads(6) [of s 1 n 1]
      by (simp_all add: rw_stage_inv_def)
    then show ?thesis
      using True RwCreate2 st [symmetric] inv idx stg rw_new_threads(3,4) [of 1 s]
      by (simp add: rw_main_step_def rw_stage_inv_def rw_left_def)
  next
    case RwInit
    with at show ?thesis by simp
  next
    case RwJoinW
    with True st inv idx stg show ?thesis
      by (auto simp: rw_main_step_def rw_stage_inv_def rw_left_def split: if_splits)
  next
    case RwJoin1
    with True st inv idx stg show ?thesis
      by (auto simp: rw_main_step_def rw_stage_inv_def rw_left_def split: if_splits)
  next
    case RwJoin2
    with True st inv idx stg show ?thesis
      by (auto simp: rw_main_step_def rw_stage_inv_def rw_left_def split: if_splits)
  next
    case (RwExit c)
    with st show ?thesis by (simp add: rw_main_step_def)
  qed
qed

lemma rw_main_first:
  assumes "rw_main_step ok rw_start = Some s'"
  shows "rw_prog_inv n s'" and "rw_left n s' < rw_left n rw_start"
  using assms [symmetric]
  by (auto simp: rw_main_step_def rw_prog_inv_def rw_say_def rw_start_def rw_inv_def rw_idx_inv_def
      rw_stage_inv_def rw_left_def reader_left_def split: if_splits)

definition moves :: "actor \<Rightarrow> bool" where
  "moves a \<longleftrightarrow> a \<noteq> Thr 3 \<and> a \<noteq> Thr 4"

lemma rw_program_cases:
  assumes "rw_program n a s = Some s'"
  shows "rw_writer n s = Some s' \<and> moves a \<or> rw_reader n False 0 s = Some s' \<and> moves a
      \<or> rw_reader n False 1 s = Some s' \<and> moves a \<or> rw_reader n True 0 s = Some s' \<and> \<not> moves a
      \<or> rw_reader n True 1 s = Some s' \<and> \<not> moves a \<or> (\<exists>ok. rw_main_step ok s = Some s' \<and> moves a)"
proof (cases a)
  case (Thr t)
  have "rw_program n a s = (if t = 0 then rw_writer n s else if t = 1 \<or> t = 2 then rw_reader n False (t - 1) s
      else if t = 3 \<or> t = 4 then rw_reader n True (t - 3) s else None)"
    using assms Thr by (cases "rw_at s") (simp_all add: rw_program_def)
  with assms Thr show ?thesis
    by (auto simp: moves_def split: if_splits)
qed (use assms in \<open>auto simp: rw_program_def moves_def split: rw_main.splits\<close>)

lemma rw_step_inv:
  assumes inv: "rw_prog_inv n s" and st: "rw_program n a s = Some s'"
  shows "rw_prog_inv n s' \<and> (if moves a then rw_left n s' < rw_left n s else rw_left n s' \<le> rw_left n s)"
proof -
  note rw_program_cases [OF st]
  then consider (wr) "rw_writer n s = Some s'" "moves a" | (rd) r where "r = 0 \<or> r = 1" "rw_reader n False r s = Some s'" "moves a"
    | (spin) r where "rw_reader n True r s = Some s'" "\<not> moves a" | (main) ok where "rw_main_step ok s = Some s'" "moves a"
    by blast
  then show ?thesis
  proof cases
    case wr
    note fr = rw_writer_frame [OF wr(1)]
    then have i: "rw_at s \<noteq> RwInit" "rw_inv s" "rw_idx_inv n s" "rw_stage_inv s"
      using inv by (auto simp: rw_prog_inv_def)
    have "rw_stage_inv s'"
      using i(4) fr by (auto simp: rw_stage_inv_def)
    with i fr(1) rw_writer_inv [OF i(2) wr(1)] rw_writer_idx [OF i(3) wr(1)] wr(2) show ?thesis
      by (simp add: rw_prog_inv_def)
  next
    case (rd r)
    have r: "r < 2" using rd(1) by auto
    note fr = rw_reader_frame [OF rd(2)]
    then have i: "rw_at s \<noteq> RwInit" "rw_inv s" "rw_idx_inv n s" "rw_stage_inv s"
      using inv by (auto simp: rw_prog_inv_def)
    have n: "rdpc s' u = RdNew \<longleftrightarrow> rdpc s u = RdNew" and e: "rdpc s u = RdReturn \<Longrightarrow> rdpc s' u = RdReturn" for u
      using fr(5,7,8,9) by (cases "u = r"; auto)+
    have "rw_stage_inv s'"
      using i(4) e [of 0] e [of 1] by (auto simp: rw_stage_inv_def fr(1,4) n)
    with i fr(4) rw_reader_inv [OF i(2) r rd(2)] rw_reader_idx [OF i(3) r rd(2)] rd(3) show ?thesis
      by (simp add: rw_prog_inv_def)
  next
    case (spin r)
    then have "s' = s" by (simp add: rw_reader_def split: if_splits)
    with inv spin(2) show ?thesis by simp
  next
    case (main ok)
    show ?thesis
    proof (cases "s = rw_start")
      case True
      with rw_main_first main show ?thesis by simp
    next
      case False
      then have i: "rw_inv s" "rw_idx_inv n s" "rw_stage_inv s" "rw_at s \<noteq> RwInit"
        using inv by (auto simp: rw_prog_inv_def)
      with rw_main_keeps [OF i main(1)] main(2) show ?thesis
        by (simp add: rw_prog_inv_def)
    qed
  qed
qed

lemma reachable_rw_inv:
  assumes "reachable (rw_program n) rw_start s"
  shows "rw_prog_inv n s"
  using assms
proof (rule reachable_invariant)
  show "rw_prog_inv n rw_start" by (simp add: rw_prog_inv_def)
next
  fix a s t
  assume "rw_prog_inv n s" "rw_program n a s = Some t"
  then show "rw_prog_inv n t" using rw_step_inv by blast
qed

lemma rw_reader_blocked:
  assumes "rw_reader n False r s = None"
  shows "rdpc s r \<in> {RdNew, RdReturn} \<or> rdpc s r \<in> {RdEnter, RdLeave} \<and> rmtx s = 0 \<or> rdpc s r = RdWaitRw \<and> rw_mtx s = 0"
  using assms by (cases "rdpc s r") (auto simp: rw_reader_def sem_wait_def split: if_splits)

lemma rw_writer_blocked:
  assumes "rw_writer n s = None"
  shows "wpc s \<in> {WrNew, WrReturn} \<or> wpc s = WrWait \<and> rw_mtx s = 0"
  using assms by (cases "wpc s") (auto simp: rw_writer_def sem_wait_def split: if_splits)

lemma rw_inv_facts:
  assumes "rw_inv s"
  shows "rmtx s + rd_in (rdpc s 0) + rd_in (rdpc s 1) = 1"
    and "rw_mtx s + wr_in (wpc s) + (if rd_group (rdpc s 0) \<or> rd_group (rdpc s 1) then 1 else 0) = 1"
  using assms unfolding rw_inv_def by blast+

text \<open>A reader that waits for \<open>rw_mtx\<close> waits for the writer, never for the other reader.\<close>

lemma waiting_reader:
  assumes inv: "rw_inv s" and r: "r < 2" and "rdpc s r = RdWaitRw" and "rw_mtx s = 0"
  shows "wr_in (wpc s) = 1"
proof -
  let ?q = "rdpc s (1 - r)"
  have v: "rw_view RdWaitRw ?q (rmtx s) (readers_count s) (rw_mtx s) (wr_in (wpc s))"
    using inv assms(3) unfolding rw_inv_view [OF r] by simp
  then have "rd_in ?q = 0" "rd_counted ?q = 0"
    by (simp_all add: rw_view_def)
  with reader_outside [of ?q] have "\<not> rd_group ?q"
    by (cases "rd_group ?q") simp_all
  with v assms(4) show ?thesis
    by (simp add: rw_view_def)
qed

text \<open>When neither the writer nor a reader can move, all three have returned.\<close>

lemma rw_threads_end:
  assumes inv: "rw_inv s" and ns: "wpc s \<noteq> WrNew" "rdpc s 0 \<noteq> RdNew" "rdpc s 1 \<noteq> RdNew"
    and stuck: "rw_writer n s = None" "rw_reader n False 0 s = None" "rw_reader n False 1 s = None"
  shows "wpc s = WrReturn \<and> rdpc s 0 = RdReturn \<and> rdpc s 1 = RdReturn"
proof -
  have w: "wpc s = WrReturn \<or> wpc s = WrWait \<and> rw_mtx s = 0"
    using rw_writer_blocked [OF stuck(1)] ns(1) by simp
  then have w0: "wr_in (wpc s) = 0"
    by (elim disjE conjE) simp_all
  have nw: "\<not> (rdpc s r = RdWaitRw \<and> rw_mtx s = 0)" if "r < 2" for r
    using waiting_reader [OF inv that] w0 by (metis zero_neq_one)
  have r0: "rdpc s 0 = RdReturn \<or> (rdpc s 0 = RdEnter \<or> rdpc s 0 = RdLeave) \<and> rmtx s = 0"
    using rw_reader_blocked [OF stuck(2)] ns(2) nw [of 0] by simp
  have r1: "rdpc s 1 = RdReturn \<or> (rdpc s 1 = RdEnter \<or> rdpc s 1 = RdLeave) \<and> rmtx s = 0"
    using rw_reader_blocked [OF stuck(3)] ns(3) nw [of 1] by auto
  have "rd_in (rdpc s 0) = 0" "rd_in (rdpc s 1) = 0"
    using r0 r1 by (elim disjE conjE; simp)+
  then have "rmtx s = 1"
    using rw_inv_facts(1) [OF inv] by linarith
  then have ret: "rdpc s 0 = RdReturn" "rdpc s 1 = RdReturn"
    using r0 r1 by simp_all
  then have "rw_mtx s = 1"
    using rw_inv_facts(2) [OF inv] w0 by simp
  with w ret show ?thesis by simp
qed

lemma rw_program_live:
  assumes "\<forall>c. rw_at s \<noteq> RwExit c"
  shows "rw_program n MainOk s = rw_main_step True s" and "rw_program n (Thr 0) s = rw_writer n s"
    and "rw_program n (Thr 1) s = rw_reader n False 0 s" and "rw_program n (Thr 2) s = rw_reader n False 1 s"
  using assms by (cases "rw_at s"; simp add: rw_program_def)+

lemma rw_stuck:
  assumes inv: "rw_prog_inv n s" and stuck: "\<forall>a. rw_program n a s = None"
  shows "rw_at s = RwExit 0 \<and> w_i s = n \<and> rw_counter s = int n \<or> rw_at s = RwExit 1"
proof (cases "\<exists>c. rw_at s = RwExit c")
  case True
  then obtain c where c: "rw_at s = RwExit c" by blast
  then have "s \<noteq> rw_start" by auto
  then have i: "rw_idx_inv n s" "rw_stage_inv s"
    using inv by (simp_all add: rw_prog_inv_def)
  then have "c = 0 \<or> c = 1" "c = 0 \<longrightarrow> wpc s = WrReturn"
    using c by (simp_all add: rw_stage_inv_def)
  then show ?thesis
    using c i(1) by (elim disjE) (simp_all add: rw_idx_inv_def)
next
  case False
  then have live: "\<forall>c. rw_at s \<noteq> RwExit c" by simp
  have b: "rw_main_step True s = None" "rw_writer n s = None" "rw_reader n False 0 s = None" "rw_reader n False 1 s = None"
    using stuck rw_program_live [OF live] by metis+
  have "s \<noteq> rw_start"
    using b(1) by (auto simp: rw_main_step_def)
  then have i: "rw_inv s" "rw_stage_inv s" "rw_at s \<noteq> RwInit"
    using inv by (simp_all add: rw_prog_inv_def)
  have j: "rw_at s = RwJoinW \<and> wpc s \<noteq> WrReturn \<or> rw_at s = RwJoin1 \<and> rdpc s 0 \<noteq> RdReturn
      \<or> rw_at s = RwJoin2 \<and> rdpc s 1 \<noteq> RdReturn"
    using live b(1) i(3) by (cases "rw_at s") (simp_all add: rw_main_step_def split: if_splits)
  then have "wpc s \<noteq> WrNew" "rdpc s 0 \<noteq> RdNew" "rdpc s 1 \<noteq> RdNew"
    using i(2) by (elim disjE conjE; simp add: rw_stage_inv_def)+
  from rw_threads_end [OF i(1) this b(2-4)] j show ?thesis by simp
qed

section \<open>Properties\<close>



text \<open>
  C14. \<open>09_reades_writers.c\<close>: no deadlock, and apart from the readers' random delay loop every
  schedule is bounded: at most 32 n + 42 other steps are made, and when nothing can move \<open>main\<close> has
  returned 0 after n writes, or 1 after a failed \<open>pthread_create\<close>.
\<close>

theorem rw_program_terminates:
  assumes "run (rw_program n) as rw_start = Some s"
  shows "length (filter moves as) \<le> 32 * n + 42
    \<and> ((\<forall>a. rw_program n a s = None) \<longrightarrow>
         rw_at s = RwExit 0 \<and> w_i s = n \<and> rw_counter s = int n \<or> rw_at s = RwExit 1)"
proof -
  have "length (filter moves as) + rw_left n s \<le> rw_left n rw_start"
    by (rule run_count_bound [where P = "rw_prog_inv n", OF _ assms rw_step_inv]) (simp_all add: rw_prog_inv_def)
  moreover have "rw_left n rw_start = 32 * n + 42"
    by (simp add: rw_left_def reader_left_def rw_start_def)
  ultimately show ?thesis
    using rw_stuck [OF reachable_rw_inv [OF run_reachable [OF assms]]] by simp
qed

lemma rw_program_terminates_witness:
  "\<exists>s. run (rw_program 1) [MainOk, MainFail] rw_start = Some s \<and> rw_at s = RwExit 1
    \<and> length (filter moves [MainOk, MainFail]) \<le> 32 * 1 + 42"
proof -
  obtain s where s: "run (rw_program 1) [MainOk, MainFail] rw_start = Some s" "rw_at s = RwExit 1"
    by (simp add: rw_program_def rw_main_step_def rw_start_def rw_create_fails_def rw_say_def)
  then show ?thesis
    using rw_program_terminates [OF s(1)] by (intro exI [of _ s]) simp
qed

end
