(* ===== verification/Sys.thy ===== *)
theory Sys
  imports Prelude
begin

text \<open>
  Sequential programs over system calls, for the client and server programs of the labs. A
  program is a function of the replies that the operating system will give; its result is an
  outcome, the history of calls and outputs, and the replies that are left. Quantifying over
  the replies is quantifying over everything the environment may do: errors, interrupted calls,
  short reads and writes, the order of ready descriptors. The rules for \<open>wp\<close> reduce a claim
  about all replies to one about each step of the code.
\<close>

section \<open>Calls, replies and outcomes\<close>

datatype errno = EINTR | EAGAIN | EPIPE | ENOENT | EINVAL | EACCES | EEXIST | OtherErrno int

text \<open>
  What a call reports: its non-negative result, the error that made it return -1, the bytes it
  read, the bytes and the sender of a datagram, the descriptors that are ready, or that it was
  interrupted (-1, EINTR) by a signal whose handler ran.
\<close>

datatype reply = Done int | Fail errno | Bytes "int list" | Datagram int "int list" | Ready "int list" | Caught int

datatype arg = I int | S string | B "int list"

datatype call =
  Socket | Bind | Listen | Connect | Accept | Getaddrinfo | Setsockopt | Fcntl | Unlink | Sigaction | Sigprocmask
| EpollCreate | EpollCtl | EpollWait | Read | Write | Close | Open | Recvfrom | Recv | Sendto | Setitimer | Fopen
| Fprintf | Time | Select | Fork | Wait | Kill | Pipe | Mkfifo | Getpid | Rand | Nanosleep | Sigsuspend
| MqOpen | MqSend | MqReceive | MqNotify | MqClose | MqUnlink | ShmOpen | Ftruncate | Mmap | Munmap | ShmUnlink
| Fgets | Malloc | Uninit | Send | Getsockname | Getchar | Getppid | Sleep | Sigwait | Fstat | MqGetattr
| MqTimedreceive | ClockGettime | Ftok | Msgget | Msgsnd | Msgrcv | Shmget | Shmat | Shmdt | Shutdown | Other string

text \<open>
  The history: a call with its reply (\<open>None\<close>: still waiting for it), a formatted output line
  with its arguments, an error message.
\<close>

datatype event = Sys call "arg list" "reply option" | Print string "arg list" | Complain string

text \<open>The program goes on with a value, has exited, or waits in a call for a reply.\<close>

datatype 'a outcome = Val 'a | Exits int | Waits

type_synonym 'a io = "reply list \<Rightarrow> 'a outcome \<times> event list \<times> reply list"

definition return :: "'a \<Rightarrow> 'a io" where
  "return a rs = (Val a, [], rs)"

definition bind :: "'a io \<Rightarrow> ('a \<Rightarrow> 'b io) \<Rightarrow> 'b io" where
  "bind m f rs =
     (case m rs of
        (Val a, tr, rs') \<Rightarrow> (case f a rs' of (x, tr', rs'') \<Rightarrow> (x, tr @ tr', rs''))
      | (Exits c, tr, rs') \<Rightarrow> (Exits c, tr, rs')
      | (Waits, tr, rs') \<Rightarrow> (Waits, tr, rs'))"

definition exit_with :: "int \<Rightarrow> 'a io" where
  "exit_with c rs = (Exits c, [], rs)"

definition tell :: "event \<Rightarrow> unit io" where
  "tell e rs = (Val (), [e], rs)"

text \<open>One call, and one inside \<open>TEMP_FAILURE_RETRY\<close>: repeated while it is interrupted.\<close>

fun sys :: "call \<Rightarrow> arg list \<Rightarrow> reply io" where
  "sys name args [] = (Waits, [Sys name args None], [])"
| "sys name args (r # rs) = (Val r, [Sys name args (Some r)], rs)"

fun interrupted :: "reply \<Rightarrow> bool" where
  "interrupted (Fail e) = (e = EINTR)"
| "interrupted (Caught sig) = True"
| "interrupted r = False"

fun retry :: "call \<Rightarrow> arg list \<Rightarrow> reply io" where
  "retry name args [] = (Waits, [Sys name args None], [])"
| "retry name args (r # rs) =
     (if interrupted r
      then (case retry name args rs of (x, tr, rs') \<Rightarrow> (x, Sys name args (Some r) # tr, rs'))
      else (Val r, [Sys name args (Some r)], rs))"

text \<open>\<open>result < 0\<close>\<close>

fun failed :: "reply \<Rightarrow> bool" where
  "failed (Fail e) = True"
| "failed (Caught sig) = True"
| "failed (Done v) = (v < 0)"
| "failed r = False"

fun val_of :: "reply \<Rightarrow> int" where
  "val_of (Done v) = v"
| "val_of (Bytes bs) = int (length bs)"
| "val_of (Datagram a bs) = int (length bs)"
| "val_of (Ready fds) = int (length fds)"
| "val_of (Fail e) = -1"
| "val_of (Caught sig) = -1"

text \<open>\<open>ERR(source)\<close>: \<open>perror\<close> and \<open>exit(EXIT_FAILURE)\<close>.\<close>

definition err :: "string \<Rightarrow> 'a io" where
  "err source = bind (tell (Complain source)) (\<lambda>_. exit_with 1)"

definition check :: "string \<Rightarrow> reply \<Rightarrow> int io" where
  "check source r = (if failed r then err source else return (val_of r))"

text \<open>An operation that C leaves undefined ends the model of the process with this code.\<close>

definition undefined_behaviour :: "'a io" where
  "undefined_behaviour = bind (tell (Complain ''undefined behaviour'')) (\<lambda>_. exit_with 136)"

text \<open>
  Loops: the body yields \<open>Inl\<close> the next state (\<open>continue\<close>) or \<open>Inr\<close> the result (\<open>break\<close>). A body
  that makes a call in every round uses up replies, so as many rounds as there are replies,
  and one, are enough: \<open>loop_unfold\<close> below is the equation of the unbounded loop.
\<close>

fun rounds :: "nat \<Rightarrow> ('s \<Rightarrow> ('s + 'a) io) \<Rightarrow> 's \<Rightarrow> 'a io" where
  "rounds 0 body s rs = (Waits, [], rs)"
| "rounds (Suc k) body s rs =
     bind (body s) (\<lambda>x. case x of Inl s' \<Rightarrow> rounds k body s' | Inr a \<Rightarrow> return a) rs"

definition loop :: "('s \<Rightarrow> ('s + 'a) io) \<Rightarrow> 's \<Rightarrow> 'a io" where
  "loop body s rs = rounds (Suc (length rs)) body s rs"

text \<open>\<open>for (i = 0; i < n; i++)\<close> over the elements of a list.\<close>

primrec for_each :: "'e list \<Rightarrow> ('e \<Rightarrow> 's \<Rightarrow> 's io) \<Rightarrow> 's \<Rightarrow> 's io" where
  "for_each [] body s = return s"
| "for_each (e # es) body s = bind (body e s) (for_each es body)"

section \<open>Loops and replies\<close>

text \<open>Programs never give replies back; consuming programs use one whenever they go on.\<close>

definition within :: "'a io \<Rightarrow> bool" where
  "within m \<longleftrightarrow> (\<forall>rs x tr rs'. m rs = (x, tr, rs') \<longrightarrow> length rs' \<le> length rs)"

definition consuming :: "'a io \<Rightarrow> bool" where
  "consuming m \<longleftrightarrow> (\<forall>rs x tr rs'. m rs = (x, tr, rs') \<longrightarrow> length rs' \<le> length rs \<and> ((\<exists>a. x = Val a) \<longrightarrow> length rs' < length rs))"

text \<open>What a loop needs of its body: a round that goes on has used a reply.\<close>

definition progressing :: "('s + 'a) io \<Rightarrow> bool" where
  "progressing m \<longleftrightarrow> (\<forall>rs x tr rs'. m rs = (x, tr, rs') \<longrightarrow>
     length rs' \<le> length rs \<and> (\<forall>s. x = Val (Inl s) \<longrightarrow> length rs' < length rs))"

named_theorems within_intros \<open>programs that give no replies back, and that use one\<close>

lemma within_return [within_intros]: "within (return a)"
  by (simp add: within_def return_def)

lemma within_exit [within_intros]: "within (exit_with c)" "consuming (exit_with c)"
  by (auto simp: within_def consuming_def exit_with_def)

lemma within_tell [within_intros]: "within (tell e)"
  by (simp add: within_def tell_def)

lemma consuming_sys [within_intros]: "consuming (sys name args)"
  unfolding consuming_def
proof (intro allI impI)
  fix rs x tr rs'
  assume "sys name args rs = (x, tr, rs')"
  then show "length rs' \<le> length rs \<and> ((\<exists>a. x = Val a) \<longrightarrow> length rs' < length rs)"
    by (cases rs) auto
qed

lemma consuming_retry [within_intros]: "consuming (retry name args)"
  unfolding consuming_def
proof (intro allI impI)
  fix rs x tr rs'
  assume "retry name args rs = (x, tr, rs')"
  then show "length rs' \<le> length rs \<and> ((\<exists>a. x = Val a) \<longrightarrow> length rs' < length rs)"
  proof (induction rs arbitrary: tr)
    case (Cons r rs)
    then show ?case by (fastforce split: if_splits prod.splits)
  qed simp
qed

lemma consuming_within: "consuming m \<Longrightarrow> within m"
  by (auto simp: consuming_def within_def)

lemma consuming_progressing: "consuming m \<Longrightarrow> progressing m"
  unfolding consuming_def progressing_def by blast

lemma progressing_return [within_intros]: "progressing (return (Inr a))"
  by (simp add: progressing_def return_def)

lemma progressing_exit [within_intros]: "progressing (exit_with c)"
  by (simp add: progressing_def exit_with_def)

lemma within_bind [within_intros]:
  assumes "within m" and "\<And>a. within (f a)"
  shows "within (bind m f)"
  unfolding within_def
proof (intro allI impI)
  fix rs x tr rs'
  assume b: "bind m f rs = (x, tr, rs')"
  obtain y tr1 rs1 where m: "m rs = (y, tr1, rs1)" by (cases "m rs") auto
  have le: "length rs1 \<le> length rs" using assms(1) m by (auto simp: within_def)
  show "length rs' \<le> length rs"
  proof (cases y)
    case (Val a)
    obtain z tr2 rs2 where f: "f a rs1 = (z, tr2, rs2)" by (cases "f a rs1") auto
    have "length rs2 \<le> length rs1" using assms(2) [of a] f by (auto simp: within_def)
    with b m Val f le show ?thesis by (simp add: bind_def)
  qed (use b m le in \<open>simp_all add: bind_def\<close>)
qed

lemma consuming_bind1 [within_intros]:
  assumes "consuming m" and "\<And>a. within (f a)"
  shows "consuming (bind m f)"
  unfolding consuming_def
proof (intro allI impI)
  fix rs x tr rs'
  assume b: "bind m f rs = (x, tr, rs')"
  obtain y tr1 rs1 where m: "m rs = (y, tr1, rs1)" by (cases "m rs") auto
  show "length rs' \<le> length rs \<and> ((\<exists>a. x = Val a) \<longrightarrow> length rs' < length rs)"
  proof (cases y)
    case (Val a)
    obtain z tr2 rs2 where f: "f a rs1 = (z, tr2, rs2)" by (cases "f a rs1") auto
    have "length rs2 \<le> length rs1" using assms(2) [of a] f by (auto simp: within_def)
    moreover have "length rs1 < length rs" using assms(1) m Val by (auto simp: consuming_def)
    ultimately show ?thesis using b m Val f by (simp add: bind_def)
  qed (use b m assms(1) in \<open>auto simp: bind_def consuming_def\<close>)
qed

lemma progressing_consume [within_intros]:
  "consuming m \<Longrightarrow> (\<And>a. within (f a)) \<Longrightarrow> progressing (bind m f)"
  by (intro consuming_progressing consuming_bind1)

lemma consuming_bind2:
  assumes "within m" and "\<And>a. consuming (f a)"
  shows "consuming (bind m f)"
  unfolding consuming_def
proof (intro allI impI)
  fix rs x tr rs'
  assume b: "bind m f rs = (x, tr, rs')"
  obtain y tr1 rs1 where m: "m rs = (y, tr1, rs1)" by (cases "m rs") auto
  have le: "length rs1 \<le> length rs" using assms(1) m by (auto simp: within_def)
  show "length rs' \<le> length rs \<and> ((\<exists>a. x = Val a) \<longrightarrow> length rs' < length rs)"
  proof (cases y)
    case (Val a)
    obtain z tr2 rs2 where f: "f a rs1 = (z, tr2, rs2)" by (cases "f a rs1") auto
    have "length rs2 \<le> length rs1 \<and> ((\<exists>v. z = Val v) \<longrightarrow> length rs2 < length rs1)"
      using assms(2) [of a] f by (auto simp: consuming_def)
    with b m Val f le show ?thesis by (auto simp: bind_def)
  qed (use b m le in \<open>auto simp: bind_def\<close>)
qed

lemma progressing_bind:
  assumes "within m" and "\<And>a. progressing (f a)"
  shows "progressing (bind m f)"
  unfolding progressing_def
proof (intro allI impI)
  fix rs x tr rs'
  assume b: "bind m f rs = (x, tr, rs')"
  obtain y tr1 rs1 where m: "m rs = (y, tr1, rs1)" by (cases "m rs") auto
  have le: "length rs1 \<le> length rs" using assms(1) m by (auto simp: within_def)
  show "length rs' \<le> length rs \<and> (\<forall>s. x = Val (Inl s) \<longrightarrow> length rs' < length rs)"
  proof (cases y)
    case (Val a)
    obtain z tr2 rs2 where f: "f a rs1 = (z, tr2, rs2)" by (cases "f a rs1") auto
    have "length rs2 \<le> length rs1 \<and> (\<forall>s. z = Val (Inl s) \<longrightarrow> length rs2 < length rs1)"
      using assms(2) [of a] f by (auto simp: progressing_def)
    with b m Val f le show ?thesis by (auto simp: bind_def)
  qed (use b m le in \<open>auto simp: bind_def\<close>)
qed

lemma within_err [within_intros]: "within (err src)"
  unfolding err_def by (intro within_intros)

lemma within_undefined [within_intros]: "within undefined_behaviour" "consuming undefined_behaviour"
  by (auto simp: undefined_behaviour_def bind_def tell_def exit_with_def within_def consuming_def)

lemma within_check [within_intros]: "within (check src r)"
  unfolding check_def by (simp add: within_err within_return)

lemma within_sys_retry [within_intros]: "within (sys name args)" "within (retry name args)"
  by (intro consuming_within within_intros)+

lemma within_cases [within_intros]:
  "(b \<Longrightarrow> within m) \<Longrightarrow> (\<not> b \<Longrightarrow> within m') \<Longrightarrow> within (if b then m else m')"
  "(b \<Longrightarrow> consuming m) \<Longrightarrow> (\<not> b \<Longrightarrow> consuming m') \<Longrightarrow> consuming (if b then m else m')"
  "(b \<Longrightarrow> progressing k) \<Longrightarrow> (\<not> b \<Longrightarrow> progressing k') \<Longrightarrow> progressing (if b then k else k')"
  "within (f a) \<Longrightarrow> within (let x = a in f x)"
  "(\<And>x y. within (g x y)) \<Longrightarrow> within (case p of (x, y) \<Rightarrow> g x y)"
  "(\<And>x y. consuming (g x y)) \<Longrightarrow> consuming (case p of (x, y) \<Rightarrow> g x y)"
  "(\<And>x y. progressing (d x y)) \<Longrightarrow> progressing (case p of (x, y) \<Rightarrow> d x y)"
  "(\<And>e. within (u e)) \<Longrightarrow> (\<And>v. within (w v)) \<Longrightarrow> within (case s of Inl e \<Rightarrow> u e | Inr v \<Rightarrow> w v)"
  "within n \<Longrightarrow> (\<And>v. within (w v)) \<Longrightarrow> within (case z of None \<Rightarrow> n | Some v \<Rightarrow> w v)"
  by (auto split: prod.splits sum.splits option.splits)

text \<open>Extra rounds change nothing once there are more rounds than replies.\<close>

lemma rounds_enough:
  assumes body: "\<And>s. progressing (body s)"
  shows "length rs < k \<Longrightarrow> length rs < k' \<Longrightarrow> rounds k body s rs = rounds k' body s rs"
proof (induction k arbitrary: k' s rs)
  case 0
  then show ?case by simp
next
  case (Suc k)
  then obtain j where j: "k' = Suc j" by (cases k') auto
  obtain y tr rs1 where m: "body s rs = (y, tr, rs1)" by (cases "body s rs") auto
  show ?case
  proof (cases "\<exists>s'. y = Val (Inl s')")
    case True
    then obtain s' where s': "y = Val (Inl s')" by blast
    then have "length rs1 < length rs" using body [of s] m by (auto simp: progressing_def)
    then have "rounds k body s' rs1 = rounds j body s' rs1"
      using Suc.prems j by (intro Suc.IH) auto
    then show ?thesis by (simp add: j bind_def m s')
  next
    case False
    then show ?thesis
      by (cases y) (auto simp: j bind_def m split: sum.splits)
  qed
qed

lemma loop_unfold:
  assumes "\<And>s. progressing (body s)"
  shows "loop body s = bind (body s) (\<lambda>x. case x of Inl s' \<Rightarrow> loop body s' | Inr a \<Rightarrow> return a)"
proof
  fix rs
  obtain y tr rs1 where m: "body s rs = (y, tr, rs1)" by (cases "body s rs") auto
  show "loop body s rs = bind (body s) (\<lambda>x. case x of Inl s' \<Rightarrow> loop body s' | Inr a \<Rightarrow> return a) rs"
  proof (cases "\<exists>s'. y = Val (Inl s')")
    case True
    then obtain s' where s': "y = Val (Inl s')" by blast
    then have "length rs1 < length rs" using assms [of s] m by (auto simp: progressing_def)
    then have "rounds (length rs) body s' rs1 = rounds (Suc (length rs1)) body s' rs1"
      by (intro rounds_enough assms) auto
    then show ?thesis by (simp add: loop_def bind_def m s')
  next
    case False
    then show ?thesis
      by (cases y) (auto simp: loop_def bind_def m split: sum.splits)
  qed
qed

lemma within_loop:
  assumes "\<And>s. progressing (body s)"
  shows "within (loop body s)"
proof -
  have "\<forall>x tr rs'. rounds k body s rs = (x, tr, rs') \<longrightarrow> length rs' \<le> length rs" for k rs
  proof (induction k arbitrary: s rs)
    case (Suc k)
    obtain y tr1 rs1 where m: "body s rs = (y, tr1, rs1)" by (cases "body s rs") auto
    have b: "length rs1 \<le> length rs"
      using assms [of s] m by (auto simp: progressing_def)
    show ?case
    proof (cases "\<exists>s'. y = Val (Inl s')")
      case True
      then obtain s' where s': "y = Val (Inl s')" by blast
      obtain x2 tr2 rs2 where r: "rounds k body s' rs1 = (x2, tr2, rs2)" by (cases "rounds k body s' rs1") auto
      from Suc.IH [of s' rs1] r have "length rs2 \<le> length rs1" by auto
      with b s' r m show ?thesis by (auto simp: bind_def)
    next
      case False
      with b m show ?thesis by (cases y) (auto simp: bind_def return_def split: sum.splits)
    qed
  qed simp
  then show ?thesis
    unfolding within_def loop_def by blast
qed

lemma consuming_loop:
  assumes "\<And>s. consuming (body s)"
  shows "consuming (loop body s)"
proof -
  have "\<forall>x tr rs'. rounds k body s rs = (x, tr, rs') \<longrightarrow>
      length rs' \<le> length rs \<and> ((\<exists>a. x = Val a) \<longrightarrow> length rs' < length rs)" for k rs
  proof (induction k arbitrary: s rs)
    case (Suc k)
    obtain y tr1 rs1 where m: "body s rs = (y, tr1, rs1)" by (cases "body s rs") auto
    have b: "length rs1 \<le> length rs" "(\<exists>a. y = Val a) \<Longrightarrow> length rs1 < length rs"
      using assms [of s] m by (auto simp: consuming_def)
    show ?case
    proof (cases y)
      case (Val z)
      show ?thesis
      proof (cases z)
        case (Inl s')
        obtain x2 tr2 rs2 where r: "rounds k body s' rs1 = (x2, tr2, rs2)" by (cases "rounds k body s' rs1") auto
        from Suc.IH [of s' rs1] r have "length rs2 \<le> length rs1" by auto
        with b Val Inl r m show ?thesis by (auto simp: bind_def)
      qed (use b Val m in \<open>auto simp: bind_def return_def\<close>)
    qed (use b m in \<open>auto simp: bind_def\<close>)
  qed simp
  then show ?thesis
    unfolding consuming_def loop_def by blast
qed

lemma within_for_each [within_intros]:
  "(\<And>e s. within (body e s)) \<Longrightarrow> within (for_each es body s)"
  by (induction es arbitrary: s) (auto intro: within_intros)

section \<open>Reasoning about all replies\<close>

text \<open>
  \<open>wp m Q E h\<close>: started with the history \<open>h\<close>, whatever the replies, \<open>m\<close> either returns with \<open>Q\<close>
  of its value and the history then, or has exited (\<open>Some\<close> code) or waits (\<open>None\<close>) with \<open>E\<close>.
\<close>

fun after :: "'a outcome \<Rightarrow> ('a \<Rightarrow> event list \<Rightarrow> bool) \<Rightarrow> (int option \<Rightarrow> event list \<Rightarrow> bool) \<Rightarrow> event list \<Rightarrow> bool" where
  "after (Val a) Q E h = Q a h"
| "after (Exits c) Q E h = E (Some c) h"
| "after Waits Q E h = E None h"

definition wp :: "'a io \<Rightarrow> ('a \<Rightarrow> event list \<Rightarrow> bool) \<Rightarrow> (int option \<Rightarrow> event list \<Rightarrow> bool) \<Rightarrow> event list \<Rightarrow> bool" where
  "wp m Q E h \<longleftrightarrow> (\<forall>rs x tr rs'. m rs = (x, tr, rs') \<longrightarrow> after x Q E (h @ tr))"

lemma wpI: "(\<And>rs x tr rs'. m rs = (x, tr, rs') \<Longrightarrow> after x Q E (h @ tr)) \<Longrightarrow> wp m Q E h"
  by (simp add: wp_def)

lemma wpD: "wp m Q E h \<Longrightarrow> m rs = (x, tr, rs') \<Longrightarrow> after x Q E (h @ tr)"
  unfolding wp_def by blast

lemma after_mono:
  "after x Q E h \<Longrightarrow> (\<And>a h. Q a h \<Longrightarrow> Q' a h) \<Longrightarrow> (\<And>c h. E c h \<Longrightarrow> E' c h) \<Longrightarrow> after x Q' E' h"
  by (cases x) auto

named_theorems wp_rules \<open>one rule per program construct, applied backwards\<close>

lemma wp_return [wp_rules]: "Q a h \<Longrightarrow> wp (return a) Q E h"
  by (simp add: wp_def return_def)

lemma wp_exit [wp_rules]: "E (Some c) h \<Longrightarrow> wp (exit_with c) Q E h"
  by (simp add: wp_def exit_with_def)

lemma wp_tell [wp_rules]: "Q () (h @ [e]) \<Longrightarrow> wp (tell e) Q E h"
  by (simp add: wp_def tell_def)

lemma wp_bind [wp_rules]:
  assumes "wp m (\<lambda>a. wp (f a) Q E) E h"
  shows "wp (bind m f) Q E h"
proof (rule wpI)
  fix rs x tr rs'
  assume b: "bind m f rs = (x, tr, rs')"
  obtain y tr1 rs1 where m: "m rs = (y, tr1, rs1)" by (cases "m rs") auto
  note y = wpD [OF assms m]
  show "after x Q E (h @ tr)"
  proof (cases y)
    case (Val a)
    obtain z tr2 rs2 where f: "f a rs1 = (z, tr2, rs2)" by (cases "f a rs1") auto
    with y Val have "after z Q E ((h @ tr1) @ tr2)" by (auto dest: wpD)
    with b m Val f show ?thesis by (simp add: bind_def)
  qed (use b m y in \<open>auto simp: bind_def\<close>)
qed

lemma wp_sys [wp_rules]:
  assumes "E None (h @ [Sys name args None])" and "\<And>r. Q r (h @ [Sys name args (Some r)])"
  shows "wp (sys name args) Q E h"
proof (rule wpI)
  fix rs x tr rs'
  assume "sys name args rs = (x, tr, rs')"
  then show "after x Q E (h @ tr)"
    using assms by (cases rs) auto
qed

text \<open>Calls that a predicate of the history does not notice.\<close>

lemma wp_sys_quiet:
  assumes "J h" and "\<And>r. J h \<Longrightarrow> J (h @ [Sys name args r])"
    and "\<And>h. J h \<Longrightarrow> E None h" and "\<And>r h. J h \<Longrightarrow> Q r h"
  shows "wp (sys name args) Q E h"
  by (rule wp_sys) (use assms in blast)+

text \<open>A history that differs from \<open>h\<close> by interrupted attempts of one call.\<close>

definition attempts :: "call \<Rightarrow> arg list \<Rightarrow> event list \<Rightarrow> bool" where
  "attempts name args tr \<longleftrightarrow> (\<forall>e \<in> set tr. \<exists>r. e = Sys name args (Some r) \<and> interrupted r)"

lemma wp_retry [wp_rules]:
  assumes "\<And>tr. attempts name args tr \<Longrightarrow> E None (h @ tr @ [Sys name args None])"
    and "\<And>tr r. attempts name args tr \<Longrightarrow> \<not> interrupted r \<Longrightarrow> Q r (h @ tr @ [Sys name args (Some r)])"
  shows "wp (retry name args) Q E h"
proof (rule wpI)
  fix rs x tr rs'
  assume "retry name args rs = (x, tr, rs')"
  then have "\<exists>us. attempts name args us \<and>
      (x = Waits \<and> tr = us @ [Sys name args None]
       \<or> (\<exists>r. x = Val r \<and> \<not> interrupted r \<and> tr = us @ [Sys name args (Some r)]))"
  proof (induction rs arbitrary: tr)
    case Nil
    then show ?case by (auto simp: attempts_def)
  next
    case (Cons r rs)
    show ?case
    proof (cases "interrupted r")
      case True
      then obtain tr' where e: "retry name args rs = (x, tr', rs')" "tr = Sys name args (Some r) # tr'"
        using Cons.prems by (auto split: prod.splits)
      from Cons.IH [OF e(1)] obtain us where us: "attempts name args us"
          "x = Waits \<and> tr' = us @ [Sys name args None] \<or> (\<exists>r. x = Val r \<and> \<not> interrupted r \<and> tr' = us @ [Sys name args (Some r)])"
        by auto
      then have "attempts name args (Sys name args (Some r) # us)"
        using True by (auto simp: attempts_def)
      with us(2) e(2) show ?thesis
        by (intro exI [of _ "Sys name args (Some r) # us"]) auto
    next
      case False
      with Cons.prems show ?thesis
        by (intro exI [of _ "[]"]) (auto simp: attempts_def)
    qed
  qed
  then show "after x Q E (h @ tr)"
    using assms by auto
qed

lemma wp_err [wp_rules]: "E (Some 1) (h @ [Complain source]) \<Longrightarrow> wp (err source) Q E h"
  unfolding err_def by (intro wp_rules)

lemma wp_undefined [wp_rules]: "E (Some 136) (h @ [Complain ''undefined behaviour'']) \<Longrightarrow> wp undefined_behaviour Q E h"
  unfolding undefined_behaviour_def by (intro wp_rules)

lemma wp_check [wp_rules]:
  assumes "failed r \<Longrightarrow> E (Some 1) (h @ [Complain source])" and "\<not> failed r \<Longrightarrow> Q (val_of r) h"
  shows "wp (check source r) Q E h"
  using assms unfolding check_def by (auto intro: wp_rules)

lemma wp_if [wp_rules]:
  "(b \<Longrightarrow> wp m Q E h) \<Longrightarrow> (\<not> b \<Longrightarrow> wp m' Q E h) \<Longrightarrow> wp (if b then m else m') Q E h"
  by simp

lemma wp_mono:
  assumes "wp m Q E h" and "\<And>a h. Q a h \<Longrightarrow> Q' a h" and "\<And>c h. E c h \<Longrightarrow> E' c h"
  shows "wp m Q' E' h"
  using assms by (auto intro!: wpI elim!: after_mono dest: wpD)

lemma wp_then:
  assumes "wp m R E h" and "\<And>a h. R a h \<Longrightarrow> wp (f a) Q E h"
  shows "wp (bind m f) Q E h"
  by (rule wp_bind, rule wp_mono [OF assms(1)]) (use assms(2) in auto)

text \<open>The invariant rule for loops: \<open>J\<close> holds at the start of every round.\<close>

lemma wp_loop:
  assumes body: "\<And>s. progressing (body s)" and "J s h"
    and step: "\<And>s h. J s h \<Longrightarrow> wp (body s) (\<lambda>x h'. case x of Inl s' \<Rightarrow> J s' h' | Inr a \<Rightarrow> Q a h') E h"
  shows "wp (loop body s) Q E h"
proof -
  have "after x Q E (h @ tr)" if "length rs < k" "J s h" "rounds k body s rs = (x, tr, rs')" for k rs s h x tr rs'
    using that
  proof (induction k arbitrary: rs s h tr)
    case (Suc k)
    obtain y tr1 rs1 where m: "body s rs = (y, tr1, rs1)" by (cases "body s rs") auto
    note st = wpD [OF step [OF Suc.prems(2)] m]
    show ?case
    proof (cases "\<exists>s'. y = Val (Inl s')")
      case True
      then obtain s' where s': "y = Val (Inl s')" by blast
      then have "length rs1 < length rs" using body [of s] m by (auto simp: progressing_def)
      with Suc.prems(1) have lt: "length rs1 < k" by simp
      obtain x2 tr2 rs2 where r: "rounds k body s' rs1 = (x2, tr2, rs2)" by (cases "rounds k body s' rs1") auto
      have "x2 = x" "tr = tr1 @ tr2" "rs2 = rs'"
        using Suc.prems(3) m s' r by (auto simp: bind_def)
      then have "rounds k body s' rs1 = (x, tr2, rs')" using r by simp
      with Suc.IH [OF lt _ this, of "h @ tr1"] st s' \<open>tr = tr1 @ tr2\<close> show ?thesis by simp
    next
      case False
      with st Suc.prems(3) show ?thesis
        by (cases y) (auto simp: bind_def m return_def split: sum.splits)
    qed
  qed simp
  note all = this
  show ?thesis
  proof (rule wpI)
    fix rs x tr rs'
    assume "loop body s rs = (x, tr, rs')"
    then show "after x Q E (h @ tr)"
      unfolding loop_def by (rule all [OF lessI assms(2)])
  qed
qed

lemma wp_for_each:
  assumes "J es s h"
    and step: "\<And>e es s h. J (e # es) s h \<Longrightarrow> wp (body e s) (\<lambda>s' h'. J es s' h') E h"
    and stop: "\<And>s h. J [] s h \<Longrightarrow> Q s h"
  shows "wp (for_each es body s) Q E h"
  using assms(1)
proof (induction es arbitrary: s h)
  case Nil
  then show ?case using stop by (simp add: wp_return)
next
  case (Cons e es)
  have "wp (body e s) (\<lambda>s'. wp (for_each es body s') Q E) E h"
    by (rule wp_mono [OF step [OF Cons.prems]]) (use Cons.IH in auto)
  then show ?case by (simp add: wp_bind)
qed

text \<open>From \<open>wp\<close> to a run.\<close>

lemma wp_runs: "wp m Q E [] \<Longrightarrow> m rs = (x, h, rs') \<Longrightarrow> after x Q E h"
  using wpD [of m Q E "[]"] by simp

section \<open>Observations on histories\<close>

text \<open>What a history shows: the concatenation of what each event shows.\<close>

definition seen :: "(event \<Rightarrow> 'b list) \<Rightarrow> event list \<Rightarrow> 'b list" where
  "seen f h = concat (map f h)"

lemma seen_simps [simp]:
  "seen f [] = []" "seen f (e # h) = f e @ seen f h" "seen f (h @ h') = seen f h @ seen f h'"
  by (simp_all add: seen_def)

lemma seen_attempts:
  assumes "attempts name args tr" and "\<And>r. interrupted r \<Longrightarrow> f (Sys name args (Some r)) = []"
  shows "seen f tr = []"
  using assms by (induction tr) (auto simp: attempts_def)

text \<open>A condition on every event and the history before it.\<close>

primrec always_from :: "event list \<Rightarrow> (event list \<Rightarrow> event \<Rightarrow> bool) \<Rightarrow> event list \<Rightarrow> bool" where
  "always_from us P [] = True"
| "always_from us P (e # h) = (P us e \<and> always_from (us @ [e]) P h)"

definition always :: "(event list \<Rightarrow> event \<Rightarrow> bool) \<Rightarrow> event list \<Rightarrow> bool" where
  "always P h = always_from [] P h"

lemma always_from_append: "always_from us P (h @ h') \<longleftrightarrow> always_from us P h \<and> always_from (us @ h) P h'"
  by (induction h arbitrary: us) auto

lemma always_Nil [simp]: "always P []"
  by (simp add: always_def)

lemma always_snoc: "always P (h @ [e]) \<longleftrightarrow> always P h \<and> P h e"
  by (simp add: always_def always_from_append)

lemma always_at: "always P (us @ e # vs) \<Longrightarrow> P us e"
  by (simp add: always_def always_from_append)

end
