(* ===== verification/Sockets.thy ===== *)
theory Sockets
  imports Sys
begin

text \<open>
  \<open>Lab - 8/common.h\<close>, which the client and server programs of the lab include: opening sockets,
  \<open>bulk_read\<close> and \<open>bulk_write\<close>. Addresses are strings and ports numbers, as the calls get them;
  \<open>memset\<close> and the conversions of a port (\<open>htons\<close>) only prepare the arguments of the calls.
\<close>

section \<open>Numbers in arguments\<close>

text \<open>\<open>atoi\<close>: white space, a sign, decimal digits up to the first other character.\<close>

fun digits_value :: "int \<Rightarrow> string \<Rightarrow> int" where
  "digits_value v [] = v"
| "digits_value v (c # cs) =
     (let d = int (of_char c) - 48 in if 0 \<le> d \<and> d \<le> 9 then digits_value (10 * v + d) cs else v)"

fun atoi :: "string \<Rightarrow> int" where
  "atoi [] = 0"
| "atoi (c # cs) =
     (let k = (of_char c :: nat) in
      if k = 32 \<or> 9 \<le> k \<and> k \<le> 13 then atoi cs
      else if k = 45 then - digits_value 0 cs
      else if k = 43 then digits_value 0 cs
      else digits_value 0 (c # cs))"

section \<open>Opening sockets\<close>

definition PF_UNIX :: int where "PF_UNIX = 1"
definition PF_INET :: int where "PF_INET = 2"
definition SOCK_STREAM :: int where "SOCK_STREAM = 1"
definition SOCK_DGRAM :: int where "SOCK_DGRAM = 2"

fun errno_of :: "reply \<Rightarrow> errno" where
  "errno_of (Fail e) = e"
| "errno_of (Caught sig) = EINTR"
| "errno_of r = OtherErrno 0"

definition sethandler :: "string \<Rightarrow> int \<Rightarrow> int io" where
  "sethandler f sigNo = bind (sys Sigaction [I sigNo, S f]) (\<lambda>r. return (if val_of r = -1 then -1 else 0))"

text \<open>\<open>sizeof(addr->sun_path) - 1\<close> is 107.\<close>

definition make_local_socket :: "string \<Rightarrow> (int \<times> string) io" where
  "make_local_socket name =
     bind (sys Socket [I PF_UNIX, I SOCK_STREAM]) (\<lambda>r.
     bind (check ''socket'' r) (\<lambda>socketfd. return (socketfd, take 107 name)))"

definition connect_local_socket :: "string \<Rightarrow> int io" where
  "connect_local_socket name =
     bind (make_local_socket name) (\<lambda>(socketfd, addr).
     bind (sys Connect [I socketfd, S addr]) (\<lambda>r.
     bind (check ''connect'' r) (\<lambda>_. return socketfd)))"

definition bind_local_socket :: "string \<Rightarrow> int \<Rightarrow> int io" where
  "bind_local_socket name backlog_size =
     bind (sys Unlink [S name]) (\<lambda>r.
     bind (if failed r \<and> errno_of r \<noteq> ENOENT then err ''unlink'' else return ()) (\<lambda>_.
     bind (make_local_socket name) (\<lambda>(socketfd, addr).
     bind (sys Bind [I socketfd, S addr]) (\<lambda>r. bind (check ''bind'' r) (\<lambda>_.
     bind (sys Listen [I socketfd, I backlog_size]) (\<lambda>r. bind (check ''listen'' r) (\<lambda>_.
     return socketfd)))))))"

definition make_tcp_socket :: "int io" where
  "make_tcp_socket = bind (sys Socket [I PF_INET, I SOCK_STREAM]) (check ''socket'')"

text \<open>A reply \<open>Done 0\<close> of \<open>getaddrinfo\<close> is success, any other its error code.\<close>

definition make_address :: "string \<Rightarrow> string \<Rightarrow> (string \<times> string) io" where
  "make_address address port =
     bind (sys Getaddrinfo [S address, S port, I PF_INET]) (\<lambda>r.
     if r \<noteq> Done 0 then bind (tell (Complain ''getaddrinfo'')) (\<lambda>_. exit_with 1)
     else return (address, port))"

definition connect_tcp_socket :: "string \<Rightarrow> string \<Rightarrow> int io" where
  "connect_tcp_socket name port =
     bind make_tcp_socket (\<lambda>socketfd.
     bind (make_address name port) (\<lambda>(host, prt).
     bind (sys Connect [I socketfd, S host, S prt]) (\<lambda>r.
     bind (check ''connect'' r) (\<lambda>_. return socketfd))))"

definition bind_tcp_socket :: "int \<Rightarrow> int \<Rightarrow> int io" where
  "bind_tcp_socket port backlog_size =
     bind make_tcp_socket (\<lambda>socketfd.
     bind (sys Setsockopt [I socketfd]) (\<lambda>r.
     bind (if val_of r \<noteq> 0 then err ''setsockopt'' else return ()) (\<lambda>_.
     bind (sys Bind [I socketfd, I (port mod 65536)]) (\<lambda>r. bind (check ''bind'' r) (\<lambda>_.
     bind (sys Listen [I socketfd, I backlog_size]) (\<lambda>r. bind (check ''listen'' r) (\<lambda>_.
     return socketfd)))))))"

text \<open>\<open>EAGAIN\<close> and \<open>EWOULDBLOCK\<close> are one value on Linux.\<close>

definition add_new_client :: "int \<Rightarrow> int io" where
  "add_new_client sfd =
     bind (retry Accept [I sfd]) (\<lambda>r.
     if failed r then (if errno_of r = EAGAIN then return (-1) else err ''accept'')
     else return (val_of r))"

section \<open>bulk_read and bulk_write\<close>

text \<open>
  What a read delivered, never more than was asked for; how much a write took. The results are
  \<open>Inl\<close> the error (the return value -1) or \<open>Inr\<close> the bytes read, respectively the count.
\<close>

fun bytes_of :: "nat \<Rightarrow> reply \<Rightarrow> int list" where
  "bytes_of n (Bytes bs) = take n bs"
| "bytes_of n r = []"

definition taken :: "int list \<Rightarrow> reply \<Rightarrow> nat" where
  "taken buf r = min (nat (val_of r)) (length buf)"

definition bulk_read :: "int \<Rightarrow> nat \<Rightarrow> (errno + int list) io" where
  "bulk_read fd count =
     loop (\<lambda>(buf, count).
       bind (retry Read [I fd, I (int count)]) (\<lambda>r.
         if failed r then return (Inr (Inl (errno_of r)))
         else let bs = bytes_of count r in
           if bs = [] then return (Inr (Inr buf))
           else if 0 < count - length bs then return (Inl (buf @ bs, count - length bs))
           else return (Inr (Inr (buf @ bs))))) ([], count)"

definition bulk_write :: "int \<Rightarrow> int list \<Rightarrow> (errno + nat) io" where
  "bulk_write fd buf =
     loop (\<lambda>(buf, len).
       bind (retry Write [I fd, B buf]) (\<lambda>r.
         if failed r then return (Inr (Inl (errno_of r)))
         else let c = taken buf r in
           if drop c buf \<noteq> [] then return (Inl (drop c buf, len + c))
           else return (Inr (Inr (len + c))))) (buf, 0)"

text \<open>What a history shows of a descriptor: the bytes that came in and the bytes that went out.\<close>

fun came_in :: "int \<Rightarrow> event \<Rightarrow> int list" where
  "came_in fd (Sys Read [I f, I n] (Some r)) = (if f = fd then bytes_of (nat n) r else [])"
| "came_in fd e = []"

fun went_out :: "int \<Rightarrow> event \<Rightarrow> int list" where
  "went_out fd (Sys Write [I f, B bs] (Some r)) = (if f = fd \<and> \<not> failed r then take (taken bs r) bs else [])"
| "went_out fd e = []"

lemma interrupted_nothing [simp]:
  "interrupted r \<Longrightarrow> bytes_of n r = []" "interrupted r \<Longrightarrow> failed r"
  by (cases r; simp)+

lemma attempts_in_out [simp]:
  "attempts c args tr \<Longrightarrow> seen (came_in fd) tr = []" "attempts c args tr \<Longrightarrow> seen (went_out fd) tr = []"
proof -
  have r: "came_in fd (Sys c args (Some r)) = []" "went_out fd (Sys c args (Some r)) = []" if "interrupted r" for r
    using that
    by (cases "(fd, Sys c args (Some r))" rule: came_in.cases, auto)
      (cases "(fd, Sys c args (Some r))" rule: went_out.cases, auto)
  show "attempts c args tr \<Longrightarrow> seen (came_in fd) tr = []" "attempts c args tr \<Longrightarrow> seen (went_out fd) tr = []"
    using r by (auto intro: seen_attempts)
qed

lemma bulk_consuming [within_intros]: "consuming (bulk_read fd n)" "consuming (bulk_write fd bs)"
  unfolding bulk_read_def bulk_write_def
  by (rule consuming_loop, intro within_intros)+

lemma bulk_within [within_intros]: "within (bulk_read fd n)" "within (bulk_write fd bs)"
  by (intro consuming_within within_intros)+

lemma sockets_within [within_intros]:
  "within (sethandler f sg)" "within (make_local_socket name)" "within (connect_local_socket name)"
  "within (bind_local_socket name k)" "within make_tcp_socket" "within (make_address a p)"
  "within (connect_tcp_socket name p)" "within (bind_tcp_socket pt k)" "within (add_new_client fd)"
  unfolding sethandler_def make_local_socket_def connect_local_socket_def bind_local_socket_def make_tcp_socket_def
    make_address_def connect_tcp_socket_def bind_tcp_socket_def add_new_client_def
  by (intro within_intros)+

text \<open>Calls of one kind on one descriptor: what the bulk operations add to a history.\<close>

definition calls_on :: "call \<Rightarrow> int \<Rightarrow> event list \<Rightarrow> bool" where
  "calls_on c fd tr \<longleftrightarrow> (\<forall>e \<in> set tr. \<exists>args r. e = Sys c (I fd # args) r)"

lemma calls_on_simps [simp]:
  "calls_on c fd []" "calls_on c fd (tr @ tr') \<longleftrightarrow> calls_on c fd tr \<and> calls_on c fd tr'"
  "calls_on c fd (Sys c (I fd # args) r # tr) \<longleftrightarrow> calls_on c fd tr"
  by (auto simp: calls_on_def)

lemma attempts_calls_on [simp]: "attempts c (I fd # args) tr \<Longrightarrow> calls_on c fd tr"
  by (auto simp: attempts_def calls_on_def)

lemma seen_calls_on:
  assumes "calls_on c fd tr" and "\<And>args r. f (Sys c (I fd # args) r) = []"
  shows "seen f tr = []"
  using assms by (induction tr) (auto simp: calls_on_def)

text \<open>The last call, on \<open>fd\<close>, failed with \<open>e\<close>.\<close>

definition broke :: "call \<Rightarrow> int \<Rightarrow> errno \<Rightarrow> event list \<Rightarrow> bool" where
  "broke c fd e tr \<longleftrightarrow> (\<exists>us args r. tr = us @ [Sys c (I fd # args) (Some r)] \<and> failed r \<and> errno_of r = e)"

lemma broke_last: "failed r \<Longrightarrow> broke c fd (errno_of r) (tr @ us @ [Sys c (I fd # args) (Some r)])"
  unfolding broke_def by (metis append.assoc)

text \<open>
  \<open>bulk_write\<close>: whatever the sizes of the single writes, success means that exactly the buffer
  went out, in order, and the count is its length; on an error a prefix went out.
\<close>

lemma wp_bulk_write:
  assumes wait: "\<And>tr. calls_on Write fd tr \<Longrightarrow> prefix (seen (went_out fd) tr) bs \<Longrightarrow> E None (h @ tr)"
    and fail: "\<And>tr e. calls_on Write fd tr \<Longrightarrow> prefix (seen (went_out fd) tr) bs \<Longrightarrow> broke Write fd e tr \<Longrightarrow>
        Q (Inl e) (h @ tr)"
    and ok: "\<And>tr. calls_on Write fd tr \<Longrightarrow> seen (went_out fd) tr = bs \<Longrightarrow> Q (Inr (length bs)) (h @ tr)"
  shows "wp (bulk_write fd bs) Q E h"
  unfolding bulk_write_def
proof (rule wp_loop [where J = "\<lambda>(rest, len) h'. \<exists>tr. h' = h @ tr \<and> calls_on Write fd tr
    \<and> seen (went_out fd) tr @ rest = bs \<and> len = length (seen (went_out fd) tr)"], goal_cases body start step)
  case (body s)
  show ?case
    by (intro consuming_progressing within_intros)
next
  case start
  show ?case by (auto intro: exI [of _ "[]"])
next
  case (step s h')
  obtain rest len where s: "s = (rest, len)" by (cases s)
  from step s obtain tr where tr: "h' = h @ tr" "calls_on Write fd tr" "seen (went_out fd) tr @ rest = bs"
      "len = length (seen (went_out fd) tr)" by auto
  have pre: "prefix (seen (went_out fd) tr @ take k rest) bs" for k
    using tr(3) by (metis append.assoc append_take_drop_id prefixI)
  show ?case
    unfolding s prod.case
  proof (rule wp_bind, rule wp_retry)
    fix us
    assume us: "attempts Write [I fd, B rest] us"
    then show "E None (h' @ us @ [Sys Write [I fd, B rest] None])"
      using wait [of "tr @ us @ [Sys Write [I fd, B rest] None]"] pre [of 0] tr(1,2) by simp
  next
    fix us r
    assume us: "attempts Write [I fd, B rest] us" "\<not> interrupted r"
    let ?tr = "tr @ us @ [Sys Write [I fd, B rest] (Some r)]"
    have t: "h' @ us @ [Sys Write [I fd, B rest] (Some r)] = h @ ?tr" "calls_on Write fd ?tr"
      "seen (went_out fd) ?tr = seen (went_out fd) tr @ (if failed r then [] else take (taken rest r) rest)"
      using us tr(1,2) by simp_all
    show "wp (if failed r then return (Inr (Inl (errno_of r)))
        else let c = taken rest r in
          if drop c rest \<noteq> [] then return (Inl (drop c rest, len + c)) else return (Inr (Inr (len + c))))
        (\<lambda>x h'. case x of Inl s' \<Rightarrow> (case s' of (rest, len) \<Rightarrow> \<lambda>h'. \<exists>tr. h' = h @ tr \<and> calls_on Write fd tr
            \<and> seen (went_out fd) tr @ rest = bs \<and> len = length (seen (went_out fd) tr)) h' | Inr a \<Rightarrow> Q a h') E
        (h' @ us @ [Sys Write [I fd, B rest] (Some r)])"
    proof (cases "failed r")
      case True
      with fail [OF t(2) _ broke_last [OF True]] t(1,3) pre [of 0] show ?thesis
        by (simp add: wp_return)
    next
      case False
      let ?c = "taken rest r"
      have c: "?c \<le> length rest" by (simp add: taken_def)
      show ?thesis
      proof (cases "drop ?c rest = []")
        case True
        with c have "?c = length rest" by simp
        with True False ok [OF t(2)] t tr(3,4) show ?thesis
          by (auto simp: Let_def intro!: wp_return)
      next
        case more: False
        with False c t tr(3,4) show ?thesis
          by (auto simp: Let_def intro!: wp_return exI [of _ ?tr])
      qed
    qed
  qed
qed

text \<open>
  \<open>bulk_read\<close>: it returns exactly what came in, in order and never more than was asked for; less
  only when the stream ended.
\<close>

definition stream_ended :: "int \<Rightarrow> event list \<Rightarrow> bool" where
  "stream_ended fd tr \<longleftrightarrow> (\<exists>us n r. tr = us @ [Sys Read [I fd, I (int n)] (Some r)] \<and> \<not> failed r \<and> bytes_of n r = [])"

lemma wp_bulk_read:
  assumes wait: "\<And>tr. calls_on Read fd tr \<Longrightarrow> length (seen (came_in fd) tr) \<le> n \<Longrightarrow> E None (h @ tr)"
    and fail: "\<And>tr e. calls_on Read fd tr \<Longrightarrow> length (seen (came_in fd) tr) \<le> n \<Longrightarrow> broke Read fd e tr \<Longrightarrow>
        Q (Inl e) (h @ tr)"
    and ok: "\<And>tr bs. calls_on Read fd tr \<Longrightarrow> seen (came_in fd) tr = bs \<Longrightarrow> length bs \<le> n \<Longrightarrow>
        (length bs < n \<Longrightarrow> stream_ended fd tr) \<Longrightarrow> Q (Inr bs) (h @ tr)"
  shows "wp (bulk_read fd n) Q E h"
  unfolding bulk_read_def
proof (rule wp_loop [where J = "\<lambda>(buf, count) h'. \<exists>tr. h' = h @ tr \<and> calls_on Read fd tr
    \<and> seen (came_in fd) tr = buf \<and> length buf + count = n"], goal_cases body start step)
  case (body s)
  show ?case
    by (intro consuming_progressing within_intros)
next
  case start
  show ?case by (auto intro: exI [of _ "[]"])
next
  case (step s h')
  obtain buf count where s: "s = (buf, count)" by (cases s)
  from step s obtain tr where tr: "h' = h @ tr" "calls_on Read fd tr" "seen (came_in fd) tr = buf"
      "length buf + count = n" by auto
  let ?ev = "\<lambda>r. Sys Read [I fd, I (int count)] (Some r)"
  have len: "length (bytes_of count r) \<le> count" for r
    by (cases r) simp_all
  show ?case
    unfolding s prod.case
  proof (rule wp_bind, rule wp_retry)
    fix us
    assume "attempts Read [I fd, I (int count)] us"
    then show "E None (h' @ us @ [Sys Read [I fd, I (int count)] None])"
      using wait [of "tr @ us @ [Sys Read [I fd, I (int count)] None]"] tr by simp
  next
    fix us r
    assume us: "attempts Read [I fd, I (int count)] us" "\<not> interrupted r"
    let ?tr = "tr @ us @ [?ev r]" and ?bs = "bytes_of count r"
    have t: "h' @ us @ [?ev r] = h @ ?tr" "calls_on Read fd ?tr" "seen (came_in fd) ?tr = buf @ ?bs"
      using us tr(1-3) by simp_all
    have nil: "failed r \<Longrightarrow> ?bs = []"
      by (cases r) simp_all
    show "wp (if failed r then return (Inr (Inl (errno_of r)))
        else let bs = ?bs in
          if bs = [] then return (Inr (Inr buf))
          else if 0 < count - length bs then return (Inl (buf @ bs, count - length bs))
          else return (Inr (Inr (buf @ bs))))
        (\<lambda>x h'. case x of Inl s' \<Rightarrow> (case s' of (buf, count) \<Rightarrow> \<lambda>h'. \<exists>tr. h' = h @ tr \<and> calls_on Read fd tr
            \<and> seen (came_in fd) tr = buf \<and> length buf + count = n) h' | Inr a \<Rightarrow> Q a h') E
        (h' @ us @ [?ev r])"
    proof (cases "failed r")
      case True
      have "length (seen (came_in fd) ?tr) \<le> n"
        unfolding t(3) using nil [OF True] tr(4) by simp
      from fail [OF t(2) this broke_last [OF True]] have "Q (Inl (errno_of r)) (h' @ us @ [?ev r])"
        unfolding t(1) .
      with True show ?thesis
        by (simp add: wp_return)
    next
      case False
      show ?thesis
      proof (cases "?bs = []")
        case True
        with False have "stream_ended fd ?tr"
          unfolding stream_ended_def by (intro exI [of _ "tr @ us"] exI [of _ count] exI [of _ r]) simp
        with True False ok [OF t(2,3)] t(1) tr(4) show ?thesis
          by (auto simp: Let_def intro!: wp_return)
      next
        case some: False
        show ?thesis
        proof (cases "0 < count - length ?bs")
          case True
          have "length (buf @ ?bs) + (count - length ?bs) = n"
            using len [of r] tr(4) by simp
          with True some False t show ?thesis
            by (auto simp: Let_def intro!: wp_return exI [of _ ?tr])
        next
          case full: False
          then have "length (buf @ ?bs) = n"
            using len [of r] tr(4) by simp
          with full some False ok [OF t(2,3)] t(1) show ?thesis
            by (auto simp: Let_def intro!: wp_return)
        qed
      qed
    qed
  qed
qed

lemma wp_add_new_client:
  assumes wait: "\<And>tr. calls_on Accept sfd tr \<Longrightarrow> E None (h @ tr)"
    and fail: "\<And>tr m. calls_on Accept sfd tr \<Longrightarrow> E (Some 1) (h @ tr @ [Complain m])"
    and ok: "\<And>tr fd. calls_on Accept sfd tr \<Longrightarrow> Q fd (h @ tr)"
  shows "wp (add_new_client sfd) Q E h"
  unfolding add_new_client_def
proof (rule wp_bind, rule wp_retry)
  fix us
  assume us: "attempts Accept [I sfd] us"
  then show "E None (h @ us @ [Sys Accept [I sfd] None])"
    by (intro wait) simp
  fix r
  let ?tr = "us @ [Sys Accept [I sfd] (Some r)]"
  have "calls_on Accept sfd ?tr" using us by simp
  then show "wp (if failed r then (if errno_of r = EAGAIN then return (-1) else err ''accept'') else return (val_of r)) Q E (h @ ?tr)"
    using ok [of ?tr] fail [of ?tr] by (auto intro!: wp_return wp_err)
qed

text \<open>The descriptor is the result of the last \<open>accept\<close>, -1 included.\<close>

lemma wp_accept:
  assumes wait: "\<And>us. attempts Accept [I sfd] us \<Longrightarrow> E None (h @ us @ [Sys Accept [I sfd] None])"
    and fail: "\<And>us r. attempts Accept [I sfd] us \<Longrightarrow> E (Some 1) (h @ us @ [Sys Accept [I sfd] (Some r), Complain ''accept''])"
    and ok: "\<And>us r. attempts Accept [I sfd] us \<Longrightarrow> Q (val_of r) (h @ us @ [Sys Accept [I sfd] (Some r)])"
  shows "wp (add_new_client sfd) Q E h"
  unfolding add_new_client_def
proof (rule wp_bind, rule wp_retry)
  fix us
  assume us: "attempts Accept [I sfd] us"
  then show "E None (h @ us @ [Sys Accept [I sfd] None])" by (rule wait)
  fix r
  have "val_of r = -1" if "failed r" "errno_of r = EAGAIN"
    using that by (cases r) auto
  then show "wp (if failed r then (if errno_of r = EAGAIN then return (-1) else err ''accept'') else return (val_of r)) Q E
      (h @ us @ [Sys Accept [I sfd] (Some r)])"
    using ok [OF us, of r] fail [OF us, of r] by (auto intro!: wp_return wp_err)
qed

lemma wp_close:
  assumes wait: "\<And>tr. calls_on Close fd tr \<Longrightarrow> E None (h @ tr)"
    and fail: "\<And>tr m. calls_on Close fd tr \<Longrightarrow> E (Some 1) (h @ tr @ [Complain m])"
    and ok: "\<And>tr. calls_on Close fd tr \<Longrightarrow> tr \<noteq> [] \<Longrightarrow> wp (f ()) Q E (h @ tr)"
  shows "wp (bind (retry Close [I fd]) (\<lambda>r. bind (check src r) (\<lambda>_. f ()))) Q E h"
proof (rule wp_bind, rule wp_retry)
  fix us
  assume us: "attempts Close [I fd] us"
  then show "E None (h @ us @ [Sys Close [I fd] None])"
    by (intro wait) simp
  fix r
  let ?tr = "us @ [Sys Close [I fd] (Some r)]"
  have "calls_on Close fd ?tr" using us by simp
  then show "wp (bind (check src r) (\<lambda>_. f ())) Q E (h @ ?tr)"
    using ok [of ?tr] fail [of ?tr] by (auto intro!: wp_bind wp_check)
qed

text \<open>Opening a listening socket, seen by a predicate that does not notice these calls.\<close>

lemma wp_bind_tcp_socket:
  assumes J: "J h" and quiet: "\<And>h c args r. c \<in> {Socket, Setsockopt, Bind, Listen} \<Longrightarrow> J h \<Longrightarrow> J (h @ [Sys c args r])"
    and complain: "\<And>h m. J h \<Longrightarrow> J (h @ [Complain m])"
    and E: "\<And>h c. c \<in> {None, Some 1} \<Longrightarrow> J h \<Longrightarrow> E c h" and Q: "\<And>fd h. J h \<Longrightarrow> Q fd h"
  shows "wp (bind_tcp_socket port backlog) Q E h"
proof -
  have s: "wp (sys c args) R E h" if "c \<in> {Socket, Setsockopt, Bind, Listen}" "J h" "\<And>r h. J h \<Longrightarrow> R r h" for c args R h
    by (rule wp_sys_quiet [where J = J]) (use that quiet E in auto)
  have c: "wp (check m r) R E h" if "J h" "R (val_of r) h" for m r R h
    by (rule wp_check) (use that complain E in auto)
  have e: "wp (err m) R E h" if "J h" for m R h
    by (rule wp_err) (use that complain E in auto)
  show ?thesis
    unfolding bind_tcp_socket_def make_tcp_socket_def
    by (intro wp_bind s c wp_if e J Q wp_return; simp)
qed

section \<open>Properties of the bulk operations\<close>

text \<open>
  C17. \<open>bulk_write\<close> on one side and \<open>bulk_read\<close> on the other (\<open>common.h\<close>): when the bytes that
  come in are those that went out, as on a stream socket, and the stream does not end early, the
  reader gets exactly the writer's buffer, whatever the sizes of the single reads and writes and
  however often they are interrupted; the writer reports its length.
\<close>

theorem bulk_transfer:
  assumes "bulk_write fd bs ws = (Val (Inr n), hw, ws')"
    and "bulk_read fd' (length bs) rs = (Val (Inr buf), hr, rs')"
    and stream: "prefix (seen (came_in fd') hr) (seen (went_out fd) hw)"
    and open_end: "\<not> stream_ended fd' hr"
  shows "buf = bs \<and> n = length bs"
proof -
  have "wp (bulk_write fd bs) (\<lambda>r h. r = Inr n \<longrightarrow> n = length bs \<and> seen (went_out fd) h = bs) (\<lambda>_ _. True) []"
    by (rule wp_bulk_write) auto
  from wp_runs [OF this assms(1)] have w: "n = length bs" "seen (went_out fd) hw = bs" by simp_all
  have "wp (bulk_read fd' (length bs))
      (\<lambda>r h. r = Inr buf \<longrightarrow> seen (came_in fd') h = buf \<and> (length buf < length bs \<longrightarrow> stream_ended fd' h)
        \<and> length buf \<le> length bs) (\<lambda>_ _. True) []"
    by (rule wp_bulk_read) auto
  from wp_runs [OF this assms(2)] open_end have "seen (came_in fd') hr = buf" "length buf = length bs"
    by auto
  moreover from this stream w(2) have "prefix buf bs" by simp
  ultimately show ?thesis
    using w(1) by (auto simp: prefix_def)
qed

lemma bulk_transfer_witness:
  "\<exists>hw hr. bulk_write 4 [1, 2, 3] [Done 1, Fail EINTR, Done 2] = (Val (Inr 3), hw, [])
    \<and> bulk_read 7 (length [1, 2, 3 :: int]) [Bytes [1, 2], Caught 2, Bytes [3]] = (Val (Inr [1, 2, 3]), hr, [])
    \<and> prefix (seen (came_in 7) hr) (seen (went_out 4) hw) \<and> ([1, 2, 3] :: int list) = [1, 2, 3]"
proof -
  let ?hw = "[Sys Write [I 4, B [1, 2, 3]] (Some (Done 1)), Sys Write [I 4, B [2, 3]] (Some (Fail EINTR)),
    Sys Write [I 4, B [2, 3]] (Some (Done 2))]"
  let ?hr = "[Sys Read [I 7, I 3] (Some (Bytes [1, 2])), Sys Read [I 7, I 1] (Some (Caught 2)),
    Sys Read [I 7, I 1] (Some (Bytes [3]))]"
  have w: "bulk_write 4 [1, 2, 3] [Done 1, Fail EINTR, Done 2] = (Val (Inr 3), ?hw, [])" by code_simp
  have r: "bulk_read 7 (length [1, 2, 3 :: int]) [Bytes [1, 2], Caught 2, Bytes [3]] = (Val (Inr [1, 2, 3]), ?hr, [])"
    by code_simp
  have p: "prefix (seen (came_in 7) ?hr) (seen (went_out 4) ?hw)" by code_simp
  have n: "\<not> stream_ended 7 ?hr"
    by (auto simp: stream_ended_def Cons_eq_append_conv append_eq_Cons_conv)
  from bulk_transfer [OF w r p n] w r p show ?thesis by blast
qed

text \<open>Every write takes at least a byte: the descriptor makes progress.\<close>

fun takes_some :: "reply \<Rightarrow> bool" where
  "takes_some (Done v) = (0 < v)"
| "takes_some r = False"

definition write_round :: "int \<Rightarrow> int list \<times> nat \<Rightarrow> ((int list \<times> nat) + (errno + nat)) io" where
  "write_round fd = (\<lambda>(buf, len).
     bind (retry Write [I fd, B buf]) (\<lambda>r.
       if failed r then return (Inr (Inl (errno_of r)))
       else let c = taken buf r in
         if drop c buf \<noteq> [] then return (Inl (drop c buf, len + c))
         else return (Inr (Inr (len + c)))))"

lemma bulk_write_round: "bulk_write fd bs rs = rounds (Suc (length rs)) (write_round fd) (bs, 0) rs"
  unfolding bulk_write_def loop_def write_round_def ..

lemma write_round_takes:
  assumes "0 < v"
  shows "write_round fd (buf, len) (Done v # rs) =
    (Val (if drop (min (nat v) (length buf)) buf \<noteq> []
          then Inl (drop (min (nat v) (length buf)) buf, len + min (nat v) (length buf))
          else Inr (Inr (len + min (nat v) (length buf)))), [Sys Write [I fd, B buf] (Some (Done v))], rs)"
  using assms by (simp add: write_round_def bind_def return_def taken_def Let_def)

text \<open>
  \<open>bulk_write\<close> returns: on a descriptor where every write takes at least one byte, it needs at
  most one call for each byte of the buffer (one call when the buffer is empty) and then reports
  the whole length. With \<open>bulk_transfer\<close> this is total correctness of the loop.
\<close>

theorem bulk_write_terminates:
  assumes "\<forall>r \<in> set ws. takes_some r" and "max 1 (length bs) \<le> length ws"
  shows "\<exists>h ws'. bulk_write fd bs ws = (Val (Inr (length bs)), h, ws') \<and> length ws \<le> length ws' + max 1 (length bs)"
proof -
  have "\<exists>h ws'. rounds k (write_round fd) (buf, len) ws = (Val (Inr (len + length buf)), h, ws')
      \<and> length ws \<le> length ws' + max 1 (length buf)"
    if "length ws < k" "\<forall>r \<in> set ws. takes_some r" "max 1 (length buf) \<le> length ws" for k buf len ws
    using that
  proof (induction k arbitrary: buf len ws)
    case (Suc k)
    then obtain r rs where ws: "ws = r # rs" by (cases ws) auto
    then obtain v where r: "r = Done v" "0 < v" using Suc.prems(2) by (cases r) auto
    define c where "c = min (nat v) (length buf)"
    note round = write_round_takes [OF r(2), of fd buf len rs, folded c_def]
    show ?case
    proof (cases "drop c buf = []")
      case True
      then have "c = length buf" by (simp add: c_def)
      with True show ?thesis
        by (simp add: ws r(1) bind_def return_def round)
    next
      case False
      then have less: "length (drop c buf) < length buf" using r by (cases buf) (auto simp: c_def)
      with False have two: "2 \<le> length buf" by auto
      have len: "len + c + length (drop c buf) = len + length buf" by (simp add: c_def)
      have "\<exists>h ws'. rounds k (write_round fd) (drop c buf, len + c) rs = (Val (Inr (len + c + length (drop c buf))), h, ws')
          \<and> length rs \<le> length ws' + max 1 (length (drop c buf))"
        by (rule Suc.IH) (use Suc.prems less two ws in auto)
      then obtain h ws' where
        R: "rounds k (write_round fd) (drop c buf, len + c) rs = (Val (Inr (len + length buf)), h, ws')"
          "length rs \<le> length ws' + max 1 (length (drop c buf))" unfolding len by blast
      have "Suc (length rs) \<le> length ws' + max 1 (length buf)"
        using R(2) less two by simp
      with R(1) False show ?thesis
        by (simp add: ws r(1) bind_def return_def round)
    qed
  qed simp
  from this [of ws "Suc (length ws)" bs 0] assms show ?thesis
    by (simp add: bulk_write_round)
qed

lemma bulk_write_terminates_witness:
  "\<exists>h ws'. bulk_write 4 [1, 2, 3] [Done 2, Done 9, Done 1] = (Val (Inr (length [1, 2, 3 :: int])), h, ws')"
  using bulk_write_terminates [of "[Done 2, Done 9, Done 1]" "[1, 2, 3]" 4] by auto

end
