(* ===== verification/EventLoop.thy ===== *)
theory EventLoop
  imports Sockets
begin

text \<open>
  The loop around \<open>epoll_wait\<close> that the servers share: wait, handle every descriptor that is ready,
  wait again. The locale \<open>event_server\<close> is the contract between this loop and a server's handler:
  an invariant of the server's state and the history, kept by the handler, is kept by the loop.
\<close>

text \<open>The bytes of a string, without its terminating zero.\<close>

definition ascii :: "string \<Rightarrow> int list" where
  "ascii s = map of_char s"

text \<open>\<open>sprintf("%d")\<close> of a number that is not negative.\<close>

fun decimal :: "nat \<Rightarrow> int list" where
  "decimal n = (if n < 10 then [48 + int n] else decimal (n div 10) @ [48 + int (n mod 10)])"

declare decimal.simps [simp del]

lemma decimal_nonzero: "0 \<notin> set (decimal n)" "decimal n \<noteq> []"
proof (induction n rule: decimal.induct)
  case (1 n)
  {
    case 1 then show ?case using "1.IH" by (subst decimal.simps) auto
  next
    case 2 then show ?case by (subst decimal.simps) simp
  }
qed

definition SIGINT :: int where "SIGINT = 2"
definition SIGPIPE :: int where "SIGPIPE = 13"

text \<open>The descriptors that a successful wait reports, at most as many as there is room for.\<close>

fun ready_fds :: "nat \<Rightarrow> reply \<Rightarrow> int list" where
  "ready_fds n (Ready fds) = take n fds"
| "ready_fds n r = []"

definition event_loop :: "int \<Rightarrow> nat \<Rightarrow> (int \<Rightarrow> 's \<Rightarrow> 's io) \<Rightarrow> (reply \<Rightarrow> 's \<Rightarrow> ('s + 'a) io) \<Rightarrow> 's \<Rightarrow> 'a io" where
  "event_loop ep n handle on_error =
     loop (\<lambda>s. bind (sys EpollWait [I ep, I (int n)]) (\<lambda>r.
       if failed r then on_error r s
       else bind (for_each (ready_fds n r) handle s) (\<lambda>s. return (Inl s))))"

locale event_server =
  fixes handle :: "int \<Rightarrow> 's \<Rightarrow> 's io"
    and on_error :: "reply \<Rightarrow> 's \<Rightarrow> ('s + 'a) io"
    and J :: "'s \<Rightarrow> event list \<Rightarrow> bool"
    and Q :: "'a \<Rightarrow> event list \<Rightarrow> bool"
    and E :: "int option \<Rightarrow> event list \<Rightarrow> bool"
  assumes waits: "J s h \<Longrightarrow> E None (h @ [Sys EpollWait args None])"
    and reported: "J s h \<Longrightarrow> J s (h @ [Sys EpollWait args (Some r)])"
    and handled: "J s h \<Longrightarrow> wp (handle fd s) J E h"
    and stopped: "J s h \<Longrightarrow> failed r \<Longrightarrow>
      wp (on_error r s) (\<lambda>x h'. case x of Inl s' \<Rightarrow> J s' h' | Inr a \<Rightarrow> Q a h') E h"
    and handle_within: "within (handle fd s)"
    and error_within: "within (on_error r s)"
begin

lemma body_progressing:
  "progressing (bind (sys EpollWait [I ep, I (int n)]) (\<lambda>r.
     if failed r then on_error r s else bind (for_each (ready_fds n r) handle s) (\<lambda>s. return (Inl s))))"
  by (intro within_intros handle_within error_within)

theorem loop_keeps: "J s h \<Longrightarrow> wp (event_loop ep n handle on_error s) Q E h"
  unfolding event_loop_def
proof (erule wp_loop [where J = J, OF body_progressing])
  fix s h
  assume J: "J s h"
  show "wp (bind (sys EpollWait [I ep, I (int n)]) (\<lambda>r.
      if failed r then on_error r s else bind (for_each (ready_fds n r) handle s) (\<lambda>s. return (Inl s))))
    (\<lambda>x h'. case x of Inl s' \<Rightarrow> J s' h' | Inr a \<Rightarrow> Q a h') E h"
  proof (rule wp_bind, rule wp_sys, rule waits [OF J], rule wp_if, rule stopped [OF reported [OF J]], assumption)
    fix r
    show "wp (bind (for_each (ready_fds n r) handle s) (\<lambda>s. return (Inl s)))
      (\<lambda>x h'. case x of Inl s' \<Rightarrow> J s' h' | Inr a \<Rightarrow> Q a h') E (h @ [Sys EpollWait [I ep, I (int n)] (Some r)])"
      by (rule wp_bind, rule wp_for_each [where J = "\<lambda>_. J", OF reported [OF J]])
        (use handled in \<open>auto intro: wp_return\<close>)
  qed
qed

lemma loop_within: "within (event_loop ep n handle on_error s)"
  unfolding event_loop_def by (rule within_loop) (rule body_progressing)

end

section \<open>Memory without initial value\<close>

text \<open>
  The contents of a local array that the code does not initialise are whatever the environment
  chooses: a pseudo-call \<open>Uninit\<close> asks for them.
\<close>

definition uninit :: "nat \<Rightarrow> int list io" where
  "uninit n = bind (sys Uninit [I (int n)]) (\<lambda>r. let bs = bytes_of n r in return (bs @ replicate (n - length bs) 0))"

definition overwrite :: "int list \<Rightarrow> int list \<Rightarrow> int list" where
  "overwrite buf bs = bs @ drop (length bs) buf"

text \<open>
  What \<open>printf("%s")\<close> prints from a position of a buffer: the bytes before the first zero. Where
  the buffer has none, C goes on into the memory behind it; \<open>past\<close> stands for what it finds there
  before a zero byte.
\<close>

definition c_text :: "int list \<Rightarrow> int list \<Rightarrow> int list" where
  "c_text past buf = (if 0 \<in> set buf then takeWhile (\<lambda>b. b \<noteq> 0) buf else buf @ past)"

lemma within_uninit [within_intros]: "within (uninit n)"
  unfolding uninit_def by (simp add: Let_def) (intro within_intros)

lemma wp_uninit:
  assumes "E None (h @ [Sys Uninit [I (int n)] None])"
    and "\<And>r buf. length buf = n \<Longrightarrow> Q buf (h @ [Sys Uninit [I (int n)] (Some r)])"
  shows "wp (uninit n) Q E h"
proof -
  have "length (bytes_of n r) \<le> n" for r by (cases r) auto
  with assms show ?thesis
    unfolding uninit_def by (auto intro!: wp_bind wp_sys wp_return simp: Let_def)
qed

end
