(* ===== verification/Calculator.thy ===== *)
theory Calculator
  imports EventLoop
begin

text \<open>
  The calculator of \<open>Lab - 8\<close>: the server \<open>1_server.c\<close>, which listens on a local and on a TCP
  socket, and the clients \<open>1_client_local.c\<close> and \<open>1_client_tcp.c\<close>. A request and its answer are
  five 32-bit integers in network byte order.
\<close>

section \<open>Byte order\<close>

text \<open>An \<open>int32_t\<close> in the memory of a little-endian host, and \<open>htonl\<close>, which is also \<open>ntohl\<close>.\<close>

definition bytes_le :: "32 word \<Rightarrow> int list" where
  "bytes_le w = (let u = uint w in [u mod 256, u div 256 mod 256, u div 256 div 256 mod 256, u div 256 div 256 div 256 mod 256])"

fun word_le :: "int list \<Rightarrow> 32 word" where
  "word_le [a, b, c, d] = word_of_int (a + 256 * (b + 256 * (c + 256 * d)))"
| "word_le bs = 0"

definition htonl :: "32 word \<Rightarrow> 32 word" where
  "htonl w = word_le (rev (bytes_le w))"

fun words_le :: "int list \<Rightarrow> 32 word list" where
  "words_le (a # b # c # d # bs) = word_le [a, b, c, d] # words_le bs"
| "words_le bs = []"

definition mem_of :: "32 word list \<Rightarrow> int list" where
  "mem_of ws = concat (map bytes_le ws)"

definition byte :: "int \<Rightarrow> bool" where
  "byte b \<longleftrightarrow> 0 \<le> b \<and> b < 256"

lemma low_byte: "byte a \<Longrightarrow> (a + 256 * x) mod 256 = a" "byte a \<Longrightarrow> (a + 256 * x) div 256 = x" for a x :: int
  by (simp_all add: byte_def)

lemma mod_byte [simp]: "byte (u mod 256)"
  by (simp add: byte_def)

lemma low_high: "u mod 256 + 256 * (u div 256) = u" for u :: int
  by simp

lemma uint_in_range: "0 \<le> k \<Longrightarrow> k < 4294967296 \<Longrightarrow> uint (word_of_int k :: 32 word) = k"
  by (simp add: uint_word_of_int take_bit_int_eq_self)

lemma bytes_sum_range:
  assumes "byte a" "byte b" "byte c" "byte d"
  shows "0 \<le> a + 256 * (b + 256 * (c + 256 * d))" "a + 256 * (b + 256 * (c + 256 * d)) < 4294967296"
  subgoal using assms by (simp add: byte_def)
  subgoal
  proof -
    have "a \<le> 255" "b \<le> 255" "c \<le> 255" "d \<le> 255" using assms by (simp_all add: byte_def)
    then show ?thesis by simp
  qed
  done

lemma word_bytes_le [simp]: "word_le (bytes_le w) = w"
proof -
  define u where "u = uint w"
  have "u < 4294967296" "0 \<le> u"
    using uint_lt2p [of w] by (simp_all add: u_def)
  then have "u div 256 div 256 div 256 mod 256 = u div 256 div 256 div 256"
    by (intro mod_pos_pos_trivial) (simp_all add: pos_imp_zdiv_nonneg_iff zdiv_zmult2_eq [symmetric])
  then have "u mod 256 + 256 * (u div 256 mod 256 + 256 * (u div 256 div 256 mod 256
      + 256 * (u div 256 div 256 div 256 mod 256))) = u"
    by (simp only: low_high)
  then show ?thesis
    by (simp only: bytes_le_def Let_def word_le.simps u_def [symmetric]) (simp add: u_def)
qed

lemma bytes_word_le:
  assumes "byte a" "byte b" "byte c" "byte d"
  shows "bytes_le (word_le [a, b, c, d]) = [a, b, c, d]"
proof -
  have u: "uint (word_of_int (a + 256 * (b + 256 * (c + 256 * d))) :: 32 word) = a + 256 * (b + 256 * (c + 256 * d))"
    using bytes_sum_range [OF assms] by (rule uint_in_range)
  have d: "d mod 256 = d"
    using assms(4) by (simp add: byte_def)
  show ?thesis
    by (simp only: bytes_le_def Let_def word_le.simps u low_byte [OF assms(1)] low_byte [OF assms(2)]
        low_byte [OF assms(3)] d)
qed

lemma bytes_le_bytes: "\<forall>b \<in> set (bytes_le w). byte b" "length (bytes_le w) = 4"
  by (simp_all add: bytes_le_def Let_def byte_def)

lemma htonl_htonl [simp]: "htonl (htonl w) = w"
proof -
  obtain a b c d where e: "bytes_le w = [a, b, c, d]"
    by (simp add: bytes_le_def Let_def)
  then have bb: "byte a" "byte b" "byte c" "byte d"
    using bytes_le_bytes(1) [of w] by auto
  have "bytes_le (htonl w) = [d, c, b, a]"
    using bytes_word_le [of d c b a] bb e by (simp add: htonl_def)
  then have "htonl (htonl w) = word_le (bytes_le w)"
    using e by (simp add: htonl_def)
  then show ?thesis by simp
qed

lemma words_mem [simp]: "words_le (mem_of ws) = ws"
proof (induction ws)
  case (Cons w ws)
  obtain a b c d where e: "bytes_le w = [a, b, c, d]"
    by (simp add: bytes_le_def Let_def)
  have "word_le [a, b, c, d] = w" using word_bytes_le [of w] by (simp only: e)
  with Cons e show ?case by (simp add: mem_of_def)
qed (simp add: mem_of_def)

lemma length_mem [simp]: "length (mem_of ws) = 4 * length ws"
  by (induction ws) (simp_all add: mem_of_def bytes_le_bytes)

section \<open>The server's answer\<close>

definition ntohl :: "32 word \<Rightarrow> 32 word" where
  "ntohl w = htonl w"

text \<open>
  \<open>calculate\<close>: \<open>None\<close> where C leaves the result undefined, that is when a signed operation
  overflows (\<open>INT_MIN / -1\<close> among them).
\<close>

definition int32 :: "int \<Rightarrow> bool" where
  "int32 v \<longleftrightarrow> - 2147483648 \<le> v \<and> v \<le> 2147483647"

definition calculate :: "32 word list \<Rightarrow> 32 word list option" where
  "calculate data =
     (let op1 = sint (ntohl (data ! 0)); op2 = sint (ntohl (data ! 1)); c = uint (ntohl (data ! 3)) mod 256;
          (result, status) =
            (if c = 43 then (op1 + op2, 1)
             else if c = 45 then (op1 - op2, 1)
             else if c = 42 then (op1 * op2, 1)
             else if c = 47 then (if op2 = 0 then (-1, 0) else (c_div op1 op2, 1))
             else (-1, 0))
      in if int32 result then Some (data[4 := htonl (word_of_int status), 2 := htonl (word_of_int result)])
         else None)"

section \<open>The server\<close>

definition BACKLOG :: int where "BACKLOG = 3"
definition MAX_EVENTS :: nat where "MAX_EVENTS = 16"

text \<open>The answer to a full request, which the client may not wait for (EPIPE).\<close>

definition answer_request :: "int \<Rightarrow> int list \<Rightarrow> unit io" where
  "answer_request client_socket buf =
     (if length buf = 20
      then (case calculate (words_le buf) of
              None \<Rightarrow> undefined_behaviour
            | Some data \<Rightarrow>
                bind (bulk_write client_socket (mem_of data)) (\<lambda>w.
                case w of Inl e \<Rightarrow> if e \<noteq> EPIPE then err ''write:'' else return () | Inr n \<Rightarrow> return ()))
      else return ())"

text \<open>One connection: the body of the loop over the ready listening sockets.\<close>

definition serve_connection :: "int \<Rightarrow> unit io" where
  "serve_connection lfd =
     bind (add_new_client lfd) (\<lambda>client_socket.
     bind (bulk_read client_socket 20) (\<lambda>size.
     case size of
       Inl e \<Rightarrow> err ''read:''
     | Inr buf \<Rightarrow>
         bind (answer_request client_socket buf) (\<lambda>_.
         bind (retry Close [I client_socket]) (\<lambda>r. bind (check ''close'' r) (\<lambda>_. return ())))))"

text \<open>
  \<open>doServer\<close>. SIGINT is blocked but during \<open>epoll_pwait\<close>; its handler clears \<open>do_work\<close>, here the
  state of the loop. With an infinite time-out the call never reports zero descriptors.
\<close>

definition serve_loop :: "int \<Rightarrow> unit io" where
  "serve_loop epoll_descriptor =
     loop (\<lambda>do_work.
       if \<not> do_work then return (Inr ())
       else bind (sys EpollWait [I epoll_descriptor, I (int MAX_EVENTS)]) (\<lambda>r.
         if 0 < val_of r
         then bind (for_each (ready_fds MAX_EVENTS r) (\<lambda>fd s. serve_connection fd) ()) (\<lambda>_. return (Inl True))
         else if errno_of r = EINTR then return (Inl (r \<noteq> Caught SIGINT))
         else err ''epoll_pwait'')) True"

definition doServer :: "int \<Rightarrow> int \<Rightarrow> unit io" where
  "doServer local_listen_socket tcp_listen_socket =
     bind (sys EpollCreate []) (\<lambda>r. bind (check ''epoll_create:'' r) (\<lambda>epoll_descriptor.
     bind (sys EpollCtl [I epoll_descriptor, S ''ADD'', I local_listen_socket]) (\<lambda>r.
     bind (check ''epoll_ctl: listen_sock'' r) (\<lambda>_.
     bind (sys EpollCtl [I epoll_descriptor, S ''ADD'', I tcp_listen_socket]) (\<lambda>r.
     bind (check ''epoll_ctl: listen_sock'' r) (\<lambda>_.
     bind (sys Sigprocmask [S ''SIG_BLOCK'', I SIGINT]) (\<lambda>_.
     bind (serve_loop epoll_descriptor) (\<lambda>_.
     bind (retry Close [I epoll_descriptor]) (\<lambda>r. bind (check ''close'' r) (\<lambda>_.
     bind (sys Sigprocmask [S ''SIG_UNBLOCK'', I SIGINT]) (\<lambda>_. return ())))))))))))"

definition set_nonblocking :: "int \<Rightarrow> unit io" where
  "set_nonblocking fd =
     bind (sys Fcntl [I fd, S ''F_GETFL'']) (\<lambda>r.
     bind (sys Fcntl [I fd, S ''F_SETFL'', I (or (val_of r) 2048)]) (\<lambda>_. return ()))"

definition calc_server_main :: "string list \<Rightarrow> int io" where
  "calc_server_main argv =
     (if length argv \<noteq> 3 then bind (tell (Complain ''USAGE: %s socket port'')) (\<lambda>_. return 1)
      else
        bind (sethandler ''SIG_IGN'' SIGPIPE) (\<lambda>r. bind (if r \<noteq> 0 then err ''Seting SIGIGN:'' else return ()) (\<lambda>_.
        bind (sethandler ''sigint_handler'' SIGINT) (\<lambda>r. bind (if r \<noteq> 0 then err ''Seting SIGINT:'' else return ()) (\<lambda>_.
        bind (bind_local_socket (argv ! 1) BACKLOG) (\<lambda>local_listen_socket.
        bind (set_nonblocking local_listen_socket) (\<lambda>_.
        bind (bind_tcp_socket (atoi (argv ! 2)) BACKLOG) (\<lambda>tcp_listen_socket.
        bind (set_nonblocking tcp_listen_socket) (\<lambda>_.
        bind (doServer local_listen_socket tcp_listen_socket) (\<lambda>_.
        bind (retry Close [I local_listen_socket]) (\<lambda>r. bind (check ''close'' r) (\<lambda>_.
        bind (sys Unlink [S (argv ! 1)]) (\<lambda>r. bind (check ''unlink'' r) (\<lambda>_.
        bind (retry Close [I tcp_listen_socket]) (\<lambda>r. bind (check ''close'' r) (\<lambda>_.
        bind (tell (Complain ''Server has terminated.'')) (\<lambda>_. return 0)))))))))))))))))"

section \<open>The clients\<close>

text \<open>A \<open>char\<close> is signed; the first character of an empty string is its terminating zero.\<close>

definition signed_char :: "char \<Rightarrow> int" where
  "signed_char c = (let k = of_char c in if k < 128 then k else k - 256)"

definition prepare_request :: "string \<Rightarrow> string \<Rightarrow> string \<Rightarrow> 32 word list" where
  "prepare_request a b operation =
     [htonl (word_of_int (atoi a)), htonl (word_of_int (atoi b)), htonl 0,
      htonl (word_of_int (case operation of [] \<Rightarrow> 0 | c # cs \<Rightarrow> signed_char c)), htonl 1]"

definition print_answer :: "32 word list \<Rightarrow> event" where
  "print_answer data =
     (if ntohl (data ! 4) \<noteq> 0
      then Print ''%d %c %d = %d'' [I (sint (ntohl (data ! 0))), I (uint (ntohl (data ! 3)) mod 256),
             I (sint (ntohl (data ! 1))), I (sint (ntohl (data ! 2)))]
      else Print ''Operation impossible'' [])"

text \<open>The clients differ in how they connect; the rest of \<open>main\<close> is the same.\<close>

definition ask :: "int \<Rightarrow> 32 word list \<Rightarrow> int io" where
  "ask fd data =
     bind (bulk_write fd (mem_of data)) (\<lambda>w.
     bind (case w of Inl e \<Rightarrow> err ''write:'' | Inr n \<Rightarrow> return ()) (\<lambda>_.
     bind (bulk_read fd 20) (\<lambda>r.
     bind (case r of Inl e \<Rightarrow> err ''read:'' | Inr buf \<Rightarrow> if length buf < 20 then err ''read:'' else return buf) (\<lambda>buf.
     bind (tell (print_answer (words_le buf))) (\<lambda>_.
     bind (retry Close [I fd]) (\<lambda>r. bind (check ''close'' r) (\<lambda>_. return 0)))))))"

text \<open>\<open>1_client_local.c\<close> has its own copies of two functions of \<open>common.h\<close>.\<close>

definition client_make_socket :: "string \<Rightarrow> (int \<times> string) io" where
  "client_make_socket name =
     bind (sys Socket [I PF_UNIX, I SOCK_STREAM]) (\<lambda>r.
     bind (check ''socket'' r) (\<lambda>socketfd. return (socketfd, take 107 name)))"

definition connect_socket :: "string \<Rightarrow> int io" where
  "connect_socket name =
     bind (client_make_socket name) (\<lambda>(socketfd, addr).
     bind (sys Connect [I socketfd, S addr]) (\<lambda>r.
     bind (check ''connect'' r) (\<lambda>_. return socketfd)))"

definition local_client_main :: "string list \<Rightarrow> int io" where
  "local_client_main argv =
     (if length argv \<noteq> 5
      then bind (tell (Complain ''USAGE: %s socket operand1 operand2 operation'')) (\<lambda>_. return 1)
      else bind (connect_socket (argv ! 1)) (\<lambda>fd.
           ask fd (prepare_request (argv ! 2) (argv ! 3) (argv ! 4))))"

definition tcp_client_main :: "string list \<Rightarrow> int io" where
  "tcp_client_main argv =
     (if length argv \<noteq> 6
      then bind (tell (Complain ''USAGE: %s domain port  operand1 operand2 operation'')) (\<lambda>_. return 1)
      else bind (connect_tcp_socket (argv ! 1) (argv ! 2)) (\<lambda>fd.
           ask fd (prepare_request (argv ! 3) (argv ! 4) (argv ! 5))))"

section \<open>What the server does to its clients\<close>

definition answer_to :: "int list \<Rightarrow> int list" where
  "answer_to req =
     (if length req = 20 then (case calculate (words_le req) of Some data \<Rightarrow> mem_of data | None \<Rightarrow> []) else [])"

text \<open>
  The history of one connection, cut off anywhere: it is accepted, a request is read, its answer
  or part of it is written, the connection is closed, error messages may follow.
\<close>

definition serving :: "int \<Rightarrow> event list \<Rightarrow> bool" where
  "serving lfd tr \<longleftrightarrow> (\<exists>fd as rd wr cl msgs. tr = as @ rd @ wr @ cl @ map Complain msgs
     \<and> calls_on Accept lfd as \<and> calls_on Read fd rd \<and> calls_on Write fd wr \<and> calls_on Close fd cl
     \<and> prefix (seen (went_out fd) wr) (answer_to (seen (came_in fd) rd)))"

text \<open>A whole connection: closed, and answered in full unless the client had gone away.\<close>

definition served :: "int \<Rightarrow> event list \<Rightarrow> bool" where
  "served lfd tr \<longleftrightarrow> (\<exists>fd as rd wr cl. tr = as @ rd @ wr @ cl
     \<and> calls_on Accept lfd as \<and> calls_on Read fd rd \<and> calls_on Write fd wr \<and> calls_on Close fd cl \<and> cl \<noteq> []
     \<and> prefix (seen (went_out fd) wr) (answer_to (seen (came_in fd) rd))
     \<and> (seen (went_out fd) wr = answer_to (seen (came_in fd) rd) \<or> broke Write fd EPIPE wr))"

lemma servingI:
  "calls_on Accept lfd as \<Longrightarrow> calls_on Read fd rd \<Longrightarrow> calls_on Write fd wr \<Longrightarrow> calls_on Close fd cl \<Longrightarrow>
   prefix (seen (went_out fd) wr) (answer_to (seen (came_in fd) rd)) \<Longrightarrow> serving lfd (as @ rd @ wr @ cl @ map Complain msgs)"
  unfolding serving_def by blast

lemma servedI:
  "calls_on Accept lfd as \<Longrightarrow> calls_on Read fd rd \<Longrightarrow> calls_on Write fd wr \<Longrightarrow> calls_on Close fd cl \<Longrightarrow> cl \<noteq> [] \<Longrightarrow>
   prefix (seen (went_out fd) wr) (answer_to (seen (came_in fd) rd)) \<Longrightarrow>
   seen (went_out fd) wr = answer_to (seen (came_in fd) rd) \<or> broke Write fd EPIPE wr \<Longrightarrow> served lfd (as @ rd @ wr @ cl)"
  unfolding served_def by blast

lemma answer_to_some: "length buf = 20 \<Longrightarrow> calculate (words_le buf) = Some data \<Longrightarrow> answer_to buf = mem_of data"
  by (simp add: answer_to_def)

lemma wp_answer_request:
  assumes stop: "\<And>wr c msgs. calls_on Write fd wr \<Longrightarrow> prefix (seen (went_out fd) wr) (answer_to buf) \<Longrightarrow>
        E c (h @ wr @ map Complain msgs)"
    and ok: "\<And>wr. calls_on Write fd wr \<Longrightarrow> prefix (seen (went_out fd) wr) (answer_to buf) \<Longrightarrow>
        seen (went_out fd) wr = answer_to buf \<or> broke Write fd EPIPE wr \<Longrightarrow> Q () (h @ wr)"
  shows "wp (answer_request fd buf) Q E h"
proof (cases "length buf = 20")
  case False
  with ok [of "[]"] show ?thesis
    by (simp add: answer_request_def answer_to_def wp_return)
next
  case len: True
  show ?thesis
  proof (cases "calculate (words_le buf)")
    case None
    with len stop [of "[]" "Some 136" "[''undefined behaviour'']"] show ?thesis
      by (simp add: answer_request_def wp_rules)
  next
    case (Some data)
    note ans = answer_to_some [OF len Some]
    have "wp (bind (bulk_write fd (mem_of data)) (\<lambda>w.
        case w of Inl e \<Rightarrow> if e \<noteq> EPIPE then err ''write:'' else return () | Inr n \<Rightarrow> return ())) Q E h"
    proof (rule wp_bind, rule wp_bulk_write, goal_cases wait fail ok)
      case (wait wr)
      with stop [of wr None "[]"] ans show ?case by simp
    next
      case (fail wr e)
      with stop [of wr "Some 1" "[''write:'']"] ok [of wr] ans show ?case
        by (auto intro!: wp_return wp_err)
    next
      case (ok wr)
      with assms(2) [of wr] ans show ?case
        by (simp add: wp_return)
    qed
    with len Some show ?thesis by (simp add: answer_request_def)
  qed
qed

lemma wp_serve_connection:
  "wp (serve_connection lfd) (\<lambda>_ h'. \<exists>tr. h' = h @ tr \<and> served lfd tr) (\<lambda>c h'. \<exists>tr. h' = h @ tr \<and> serving lfd tr) h"
proof -
  let ?E = "\<lambda>(c :: int option) h'. \<exists>tr. h' = h @ tr \<and> serving lfd tr"
  have ex: "?E None (h @ as @ rd @ wr @ cl @ map Complain msgs)"
    if "calls_on Accept lfd as" "calls_on Read fd rd" "calls_on Write fd wr" "calls_on Close fd cl"
      "prefix (seen (went_out fd) wr) (answer_to (seen (came_in fd) rd))" for as rd wr cl fd msgs
    using servingI [OF that] by blast
  show ?thesis
    unfolding serve_connection_def
  proof (rule wp_bind, rule wp_add_new_client, goal_cases wait fail ok)
    case (wait as)
    with ex [of as 0 "[]" "[]" "[]" "[]"] show ?case by simp
  next
    case (fail as m)
    with ex [of as 0 "[]" "[]" "[]" "[m]"] show ?case by simp
  next
    case (ok as fd)
    then have as: "calls_on Accept lfd as" .
    show ?case
    proof (rule wp_bind, rule wp_bulk_read, goal_cases wait fail ok)
      case (wait rd)
      with ex [OF as, of fd rd "[]" "[]" "[]"] show ?case by simp
    next
      case (fail rd e)
      with ex [OF as, of fd rd "[]" "[]" "[''read:'']"] show ?case by (simp add: wp_err)
    next
      case (ok rd buf)
      then have rd: "calls_on Read fd rd" "seen (came_in fd) rd = buf" by simp_all
      show ?case
        unfolding sum.case
      proof (rule wp_bind, rule wp_answer_request, goal_cases stop ok)
        case (stop wr c msgs)
        with ex [OF as rd(1), of wr "[]" msgs] rd(2) show ?case by simp
      next
        case (ok wr)
        then have wr: "calls_on Write fd wr" "prefix (seen (went_out fd) wr) (answer_to (seen (came_in fd) rd))"
          "seen (went_out fd) wr = answer_to (seen (came_in fd) rd) \<or> broke Write fd EPIPE wr"
          using rd(2) by simp_all
        show ?case
        proof (rule wp_close, goal_cases wait fail ok)
          case (wait cl)
          with ex [OF as rd(1) wr(1), of cl "[]"] wr(2) show ?case by simp
        next
          case (fail cl m)
          with ex [OF as rd(1) wr(1), of cl "[m]"] wr(2) show ?case by simp
        next
          case (ok cl)
          from servedI [OF as rd(1) wr(1) ok wr(2,3)] show ?case
            by (intro wp_return) auto
        qed
      qed
    qed
  qed
qed

text \<open>The history of the server's loop: waits for events, and whole connections.\<close>

inductive sessions :: "event list \<Rightarrow> bool" where
  nothing: "sessions []"
| waited: "sessions h \<Longrightarrow> sessions (h @ [Sys EpollWait args r])"
| connection: "sessions h \<Longrightarrow> served lfd tr \<Longrightarrow> sessions (h @ tr)"

lemma serving_nothing [simp]: "serving lfd []" "serving lfd [Complain m]"
  using servingI [of lfd "[]" 0 "[]" "[]" "[]" "[]"] servingI [of lfd "[]" 0 "[]" "[]" "[]" "[m]"] by simp_all

lemma within_calc [within_intros]: "within (serve_connection lfd)" "consuming (serve_connection lfd)"
proof -
  show "consuming (serve_connection lfd)"
    unfolding serve_connection_def answer_request_def add_new_client_def
    by (intro within_intros)
  then show "within (serve_connection lfd)" by (rule consuming_within)
qed

lemma wp_serve_loop:
  "wp (serve_loop ep)
     (\<lambda>_ h'. \<exists>tr args. h' = h @ tr @ [Sys EpollWait args (Some (Caught SIGINT))] \<and> sessions tr)
     (\<lambda>c h'. \<exists>tr us lfd. h' = h @ tr @ us \<and> sessions tr \<and> serving lfd us) h"
  unfolding serve_loop_def
proof (rule wp_loop [where J = "\<lambda>do_work h'. \<exists>tr. h' = h @ tr \<and> sessions tr
    \<and> (\<not> do_work \<longrightarrow> (\<exists>tr' args. tr = tr' @ [Sys EpollWait args (Some (Caught SIGINT))] \<and> sessions tr'))"],
    goal_cases body start step)
  case (body s)
  show ?case by (intro within_intros)
next
  case start
  show ?case using sessions.nothing by auto
next
  case (step do_work h')
  then obtain tr where tr: "h' = h @ tr" "sessions tr"
    "\<not> do_work \<longrightarrow> (\<exists>tr' args. tr = tr' @ [Sys EpollWait args (Some (Caught SIGINT))] \<and> sessions tr')"
    by blast
  let ?args = "[I ep, I (int MAX_EVENTS)]"
  show ?case
  proof (rule wp_if, goal_cases stopped working)
    case stopped
    with tr show ?case by (auto intro!: wp_return)
  next
    case working
    show ?case
    proof (rule wp_bind, rule wp_sys, goal_cases wait reply)
      case wait
      have "sessions (tr @ [Sys EpollWait ?args None])" using tr(2) by (rule sessions.waited)
      with tr(1) show ?case
        by (intro exI [of _ "tr @ [Sys EpollWait ?args None]"] exI [of _ "[]"]) simp
    next
      case (reply r)
      let ?tr = "tr @ [Sys EpollWait ?args (Some r)]"
      have s: "sessions ?tr" using tr(2) by (rule sessions.waited)
      show ?case
      proof (rule wp_if, goal_cases ready other)
        case ready
        show ?case
        proof (rule wp_bind, rule wp_for_each [where J = "\<lambda>fds s h'. \<exists>tr. h' = h @ tr \<and> sessions tr"], goal_cases start step stop)
          case start
          with s tr(1) show ?case by auto
        next
          case (step fd fds u h')
          then obtain t1 where t1: "h' = h @ t1" "sessions t1" by blast
          show ?case
            by (rule wp_mono [OF wp_serve_connection])
              (use t1 in \<open>auto intro: sessions.connection\<close>)
        next
          case (stop u h')
          then show ?case by (auto intro!: wp_return)
        qed
      next
        case other
        show ?case
        proof (rule wp_if, goal_cases intr fail)
          case intr
          have "r = Caught SIGINT \<Longrightarrow> \<exists>tr' args. ?tr = tr' @ [Sys EpollWait args (Some (Caught SIGINT))] \<and> sessions tr'"
            using tr(2) by blast
          with s tr(1) show ?case
            by (intro wp_return) auto
        next
          case fail
          with s tr(1) show ?case
            by (intro wp_err exI [of _ ?tr] exI [of _ "[Complain ''epoll_pwait'']"] exI [of _ 0]) simp
        qed
      qed
    qed
  qed
qed

section \<open>Arithmetic from end to end\<close>

text \<open>The operation over the integers, as the client's user means it.\<close>

definition arith :: "int \<Rightarrow> char \<Rightarrow> int \<Rightarrow> int option" where
  "arith a c b =
     (if c = CHR ''+'' then Some (a + b) else if c = CHR ''-'' then Some (a - b)
      else if c = CHR ''*'' then Some (a * b)
      else if c = CHR ''/'' \<and> b \<noteq> 0 then Some (c_div a b) else None)"

lemma sint_int32: "int32 v \<Longrightarrow> sint (word_of_int v :: 32 word) = v"
  by (simp add: int32_def signed_of_int signed_take_bit_int_eq_self)

lemma char_range: "(0 :: int) \<le> of_char c" "(of_char c :: int) < 256"
  using nat_of_char_less_256 [of c] by (simp_all only: of_nat_of_char [symmetric, where 'a = int])

lemma uint_char: "uint (word_of_int (signed_char c) :: 32 word) mod 256 = of_char c"
proof -
  have "uint (word_of_int k :: 32 word) mod 256 = k mod 256" for k
    by (simp add: uint_word_of_int take_bit_eq_mod mod_mod_cancel)
  then show ?thesis
    using char_range [of c] by (simp add: signed_char_def Let_def mod_diff_right_eq [of _ 256, symmetric])
qed

lemma op_code:
  "(of_char c :: int) = 43 \<longleftrightarrow> c = CHR ''+''" "(of_char c :: int) = 45 \<longleftrightarrow> c = CHR ''-''"
  "(of_char c :: int) = 42 \<longleftrightarrow> c = CHR ''*''" "(of_char c :: int) = 47 \<longleftrightarrow> c = CHR ''/''"
  using of_char_eq_iff [of c "CHR ''+''", where 'a = int] of_char_eq_iff [of c "CHR ''-''", where 'a = int]
    of_char_eq_iff [of c "CHR ''*''", where 'a = int] of_char_eq_iff [of c "CHR ''/''", where 'a = int]
  by simp_all

lemma calculate_request:
  assumes "int32 (atoi a)" and "int32 (atoi b)"
  shows "calculate (prepare_request a b (c # cs)) =
    (case arith (atoi a) c (atoi b) of
       Some v \<Rightarrow> if int32 v then Some ((prepare_request a b (c # cs))[4 := htonl 1, 2 := htonl (word_of_int v)]) else None
     | None \<Rightarrow> Some ((prepare_request a b (c # cs))[4 := htonl 0, 2 := htonl (word_of_int (-1))]))"
  using assms
  by (simp add: calculate_def prepare_request_def Let_def ntohl_def sint_int32 uint_char op_code arith_def int32_def)

lemma answer_mem: "length ws = 5 \<Longrightarrow> answer_to (mem_of ws) = (case calculate ws of Some d \<Rightarrow> mem_of d | None \<Rightarrow> [])"
  by (simp add: answer_to_def)

section \<open>Properties\<close>

text \<open>
  C8. \<open>1_client_local.c\<close>, \<open>1_client_tcp.c\<close> and \<open>calculate\<close> of \<open>1_server.c\<close> end to end, through
  \<open>htonl\<close>, the twenty bytes on the wire and back: for operands that fit an \<open>int32_t\<close>, and an exact
  result that does, the client prints both operands, the operator and that result; for a
  division by zero or an unknown operator it prints ``Operation impossible''.
\<close>

theorem calculator_round_trip:
  assumes "int32 (atoi a)" and "int32 (atoi b)" and "\<forall>v. arith (atoi a) c (atoi b) = Some v \<longrightarrow> int32 v"
  shows "print_answer (words_le (answer_to (mem_of (prepare_request a b (c # cs))))) =
    (case arith (atoi a) c (atoi b) of
       Some v \<Rightarrow> Print ''%d %c %d = %d'' [I (atoi a), I (of_char c), I (atoi b), I v]
     | None \<Rightarrow> Print ''Operation impossible'' [])"
proof -
  have len: "length (prepare_request a b (c # cs)) = 5"
    by (simp add: prepare_request_def)
  show ?thesis
  proof (cases "arith (atoi a) c (atoi b)")
    case None
    then show ?thesis
      unfolding answer_mem [OF len] calculate_request [OF assms(1,2)]
      by (simp add: prepare_request_def print_answer_def ntohl_def)
  next
    case (Some v)
    with assms(3) have "int32 v" by simp
    with Some assms(1,2) show ?thesis
      unfolding answer_mem [OF len] calculate_request [OF assms(1,2)]
      by (simp add: prepare_request_def print_answer_def ntohl_def sint_int32 uint_char)
  qed
qed

lemma calculator_round_trip_witness:
  "print_answer (words_le (answer_to (mem_of (prepare_request ''-7'' ''2'' ''/''))))
    = Print ''%d %c %d = %d'' [I (-7), I 47, I 2, I (-3)]"
proof -
  have a: "atoi ''-7'' = -7" "atoi ''2'' = 2" by code_simp+
  show ?thesis
    using calculator_round_trip [of "''-7''" "''2''" "CHR ''/''" "[]"]
    by (simp add: a int32_def arith_def c_div_def)
qed

text \<open>
  \<open>1_server.c\<close>, the loop of \<open>doServer\<close>, whatever the operating system answers: up to the
  place where it is cut off, its history consists of waits for events and of whole connections.
  In each connection what goes out is a prefix of the answer to the twenty bytes that came in on
  the same socket, nothing when fewer came; it is the whole answer unless the client had gone
  away (EPIPE), and the socket is then closed. The loop only returns after SIGINT.
\<close>

theorem server_answers_every_request:
  assumes "serve_loop ep rs = (x, h, rs')"
  shows "\<exists>tr us lfd. h = tr @ us \<and> sessions tr \<and> serving lfd us
    \<and> (x = Val () \<longrightarrow> (\<exists>args. us = [] \<and> last tr = Sys EpollWait args (Some (Caught SIGINT))))"
proof -
  note w = wp_runs [OF wp_serve_loop assms]
  show ?thesis
  proof (cases x)
    case (Val u)
    with w obtain tr args where "h = tr @ [Sys EpollWait args (Some (Caught SIGINT))]" "sessions tr" by auto
    then show ?thesis
      using sessions.waited [of tr args] by (intro exI [of _ h] exI [of _ "[]"] exI [of _ 0]) auto
  qed (use w in auto)
qed

definition one_connection :: "reply list" where
  "one_connection = [Ready [4], Fail EINTR, Done 7, Bytes (mem_of (prepare_request ''6'' ''7'' ''*'')), Done 13, Done 20,
     Done 0, Caught SIGINT]"

lemma server_answers_every_request_witness:
  "\<exists>h tr us lfd. serve_loop 5 one_connection = (Val (), h, []) \<and> seen (went_out 7) h = answer_to (seen (came_in 7) h)
    \<and> h = tr @ us \<and> sessions tr \<and> serving lfd us"
proof -
  define h where "h = fst (snd (serve_loop 5 one_connection))"
  have r: "serve_loop 5 one_connection = (Val (), h, [])"
  proof -
    have "(case serve_loop 5 one_connection of (x, h, rs) \<Rightarrow> x = Val () \<and> rs = [])"
      by code_simp
    then show ?thesis by (auto simp: h_def split: prod.splits)
  qed
  have "(case serve_loop 5 one_connection of (x, h, rs) \<Rightarrow> seen (went_out 7) h = answer_to (seen (came_in 7) h))"
    by code_simp
  then have "seen (went_out 7) h = answer_to (seen (came_in 7) h)"
    by (simp add: r)
  with r server_answers_every_request [OF r] show ?thesis by blast
qed

end
