(* ===== verification/FileTransfer.thy ===== *)
theory FileTransfer
  imports Calculator
begin

text \<open>
  The file transfer over datagrams of \<open>Lab - 8\<close>: \<open>2_server.c\<close>, which keeps a table of at most five
  senders and prints the chunks it gets from each in order, and \<open>2_client.c\<close>, which sends a file
  chunk by chunk, each up to six times until it is confirmed. The address of a sender is a number.
\<close>

section \<open>Buffers\<close>

definition MAXBUF :: nat where "MAXBUF = 576"
definition MAXADDR :: nat where "MAXADDR = 5"
definition SIGALRM :: int where "SIGALRM = 14"

text \<open>The two 32-bit integers in network order at the start of a datagram.\<close>

definition word_at :: "int list \<Rightarrow> nat \<Rightarrow> 32 word" where
  "word_at buf i = ntohl (word_le (take 4 (drop (4 * i) buf)))"

section \<open>The server's table\<close>

record connections =
  free :: bool
  chunkNo :: int
  addr :: int

text \<open>The loop of \<open>findIndex\<close>: the index of the last free entry so far, and of the sender's entry.\<close>

fun scan :: "int \<Rightarrow> connections list \<Rightarrow> int \<Rightarrow> int \<Rightarrow> int \<times> int" where
  "scan a [] i vacant = (vacant, -1)"
| "scan a (c # cs) i vacant =
     (if free c then scan a cs (i + 1) i
      else if a = addr c then (vacant, i)
      else scan a cs (i + 1) vacant)"

definition findIndex :: "int \<Rightarrow> connections list \<Rightarrow> connections list \<times> int" where
  "findIndex a con =
     (let (vacant, pos) = scan a con 0 (-1) in
      if pos = -1 \<and> vacant \<noteq> -1
      then (con[nat vacant := \<lparr>free = False, chunkNo = 0, addr = a\<rparr>], vacant)
      else (con, pos))"

definition set_free :: "nat \<Rightarrow> connections list \<Rightarrow> connections list" where
  "set_free i con = con[i := (con ! i)\<lparr>free := True\<rparr>]"

definition chunk_text :: "int list \<Rightarrow> int \<Rightarrow> bool \<Rightarrow> int list \<Rightarrow> event" where
  "chunk_text past k fin buf =
     Print (if fin then ''Last Part %d %s'' else ''Part %d %s'') [I k, B (c_text past (drop 8 buf))]"

text \<open>
  The body of \<open>doServer\<close> between \<open>recvfrom\<close> and \<open>sendto\<close>: the new table, the sender's index, what is
  printed and whether the datagram is confirmed; \<open>None\<close> when \<open>con[i].chunkNo + 1\<close> overflows.
\<close>

definition receive :: "int list \<Rightarrow> int \<Rightarrow> int list \<Rightarrow> connections list \<Rightarrow>
    (connections list \<times> int \<times> event option \<times> bool) option" where
  "receive past a buf con =
     (let (con, i) = findIndex a con in
      if 0 \<le> i then
        let k = sint (word_at buf 0); last = word_at buf 1; c = con ! nat i in
        if chunkNo c = 2147483647 then None
        else if k > chunkNo c + 1 then Some (con, i, None, False)
        else if k = chunkNo c + 1
        then let con' = (if last \<noteq> 0 then set_free (nat i) con else con) in
             Some (con'[nat i := (con' ! nat i)\<lparr>chunkNo := chunkNo c + 1\<rparr>], i,
               Some (chunk_text past k (last \<noteq> 0) buf), True)
        else Some (con, i, None, True)
      else Some (con, i, None, False))"

fun datagram_of :: "nat \<Rightarrow> reply \<Rightarrow> int \<times> int list" where
  "datagram_of n (Datagram a bs) = (a, take n bs)"
| "datagram_of n r = (0, [])"

definition confirm :: "int \<Rightarrow> int \<Rightarrow> int list \<Rightarrow> nat \<Rightarrow> connections list \<Rightarrow> connections list io" where
  "confirm fd a buf i con =
     bind (retry Sendto [I fd, B buf, I a]) (\<lambda>r.
     if failed r then (if errno_of r = EPIPE then return (set_free i con) else err ''send:'')
     else return con)"

text \<open>
  \<open>TEMP_FAILURE_RETRY(recvfrom(...) < 0)\<close> has its parenthesis in the wrong place: the repeated
  expression is 0 or 1, never -1, so an interrupted call is not repeated but ends the server.
\<close>

definition receive_round :: "int list \<Rightarrow> int \<Rightarrow> connections list \<times> int list \<Rightarrow> ((connections list \<times> int list) + unit) io" where
  "receive_round past fd = (\<lambda>(con, buf).
     bind (sys Recvfrom [I fd, I (int MAXBUF)]) (\<lambda>r.
     if failed r then err ''read:''
     else let (a, bs) = datagram_of MAXBUF r; buf = overwrite buf bs in
       case receive past a buf con of
         None \<Rightarrow> undefined_behaviour
       | Some (con, i, out, answered) \<Rightarrow>
           bind (case out of None \<Rightarrow> return () | Some e \<Rightarrow> tell e) (\<lambda>_.
           bind (if answered then confirm fd a buf (nat i) con else return con) (\<lambda>con.
           return (Inl (con, buf))))))"

text \<open>The arrays \<open>con\<close> and \<open>buf\<close> are not initialised, except for \<open>free\<close>: their contents are parameters.\<close>

definition chunk_server :: "int list \<Rightarrow> connections list \<Rightarrow> int list \<Rightarrow> int \<Rightarrow> unit io" where
  "chunk_server past con buf fd =
     loop (receive_round past fd) (map (\<lambda>c. c\<lparr>free := True\<rparr>) con, buf)"

definition make_socket :: "int \<Rightarrow> int \<Rightarrow> int io" where
  "make_socket domain type = bind (sys Socket [I domain, I type]) (check ''socket'')"

definition bind_inet_socket :: "int \<Rightarrow> int \<Rightarrow> int io" where
  "bind_inet_socket port type =
     bind (make_socket PF_INET type) (\<lambda>socketfd.
     bind (sys Setsockopt [I socketfd]) (\<lambda>r.
     bind (if val_of r \<noteq> 0 then err ''setsockopt'' else return ()) (\<lambda>_.
     bind (sys Bind [I socketfd, I (port mod 65536)]) (\<lambda>r. bind (check ''bind'' r) (\<lambda>_.
     bind (if SOCK_STREAM = type
           then bind (sys Listen [I socketfd, I BACKLOG]) (\<lambda>r. bind (check ''listen'' r) (\<lambda>_. return ()))
           else return ()) (\<lambda>_.
     return socketfd))))))"

definition chunk_server_main :: "int list \<Rightarrow> connections list \<Rightarrow> int list \<Rightarrow> string list \<Rightarrow> int io" where
  "chunk_server_main past con buf argv =
     (if length argv \<noteq> 2 then bind (tell (Complain ''USAGE: %s port'')) (\<lambda>_. return 1)
      else
        bind (sethandler ''SIG_IGN'' SIGPIPE) (\<lambda>r. bind (if r \<noteq> 0 then err ''Seting SIGPIPE:'' else return ()) (\<lambda>_.
        bind (bind_inet_socket (atoi (argv ! 1)) SOCK_DGRAM) (\<lambda>fd.
        bind (chunk_server past con buf fd) (\<lambda>_.
        bind (retry Close [I fd]) (\<lambda>r. bind (check ''close'' r) (\<lambda>_.
        bind (tell (Complain ''Server has terminated.'')) (\<lambda>_. return 0))))))))"

section \<open>The client\<close>

text \<open>
  \<open>sendAndConfirm\<close>: one transmission, then half a second for an answer, which is put into \<open>buf2\<close>.
  \<open>last_signal\<close> is cleared before the wait; a \<open>recv\<close> interrupted by the alarm ends it. Signals are
  delivered in blocking calls only: the alarm that strikes before \<open>recv\<close> is entered is left out.
\<close>

definition sendAndConfirm :: "int \<Rightarrow> string \<times> string \<Rightarrow> int list \<Rightarrow> int list \<Rightarrow> nat \<Rightarrow> int list io" where
  "sendAndConfirm fd dest buf1 buf2 sz =
     bind (retry Sendto [I fd, B (take sz buf1), S (fst dest), S (snd dest)]) (\<lambda>r. bind (check ''sendto:'' r) (\<lambda>_.
     bind (sys Setitimer [I 500000]) (\<lambda>_.
     loop (\<lambda>u. bind (sys Recv [I fd, I (int sz)]) (\<lambda>r.
       if failed r
       then (if errno_of r \<noteq> EINTR then err ''recv:''
             else if r = Caught SIGALRM then return (Inr buf2)
             else return (Inl ()))
       else return (Inr (overwrite buf2 (bytes_of sz r))))) ())))"

definition confirmed :: "int list \<Rightarrow> int \<Rightarrow> bool" where
  "confirmed buf2 k \<longleftrightarrow> word_le (take 4 buf2) = htonl (word_of_int k)"

text \<open>The inner loop of \<open>doClient\<close>: up to six transmissions of one chunk.\<close>

definition send_chunk :: "int \<Rightarrow> string \<times> string \<Rightarrow> int list \<Rightarrow> int \<Rightarrow> (int list \<times> int) io" where
  "send_chunk fd dest buf k =
     loop (\<lambda>(buf2, counter).
       bind (sendAndConfirm fd dest buf buf2 MAXBUF) (\<lambda>buf2.
       if \<not> confirmed buf2 k \<and> counter + 1 \<le> 5 then return (Inl (buf2, counter + 1))
       else return (Inr (buf2, counter + 1)))) (replicate MAXBUF 0, 0)"

definition datagram :: "int \<Rightarrow> int \<Rightarrow> int list \<Rightarrow> int list" where
  "datagram k fin data =
     mem_of [htonl (word_of_int k), htonl (word_of_int fin)] @ data @ replicate (MAXBUF - 8 - length data) 0"

definition doClient :: "int \<Rightarrow> string \<times> string \<Rightarrow> int \<Rightarrow> unit io" where
  "doClient fd dest file =
     loop (\<lambda>(k, last).
       bind (bulk_read file (MAXBUF - 8)) (\<lambda>r.
       case r of
         Inl e \<Rightarrow> err ''read from file:''
       | Inr data \<Rightarrow>
           if k = 2147483647 then undefined_behaviour
           else let k = k + 1; last = (if length data < MAXBUF - 8 then 1 else last) in
             bind (send_chunk fd dest (datagram k last data) k) (\<lambda>(buf2, counter).
             if \<not> confirmed buf2 k \<and> counter > 5 then return (Inr ())
             else if length data = MAXBUF - 8 then return (Inl (k, last))
             else return (Inr ())))) (0, 0)"

definition chunk_client_main :: "string list \<Rightarrow> int io" where
  "chunk_client_main argv =
     (if length argv \<noteq> 4 then bind (tell (Complain ''USAGE: %s domain port file'')) (\<lambda>_. return 1)
      else
        bind (sethandler ''SIG_IGN'' SIGPIPE) (\<lambda>r. bind (if r \<noteq> 0 then err ''Seting SIGPIPE:'' else return ()) (\<lambda>_.
        bind (sethandler ''sigalrm_handler'' SIGALRM) (\<lambda>r. bind (if r \<noteq> 0 then err ''Seting SIGALRM:'' else return ()) (\<lambda>_.
        bind (retry Open [S (argv ! 3), S ''O_RDONLY'']) (\<lambda>r. bind (check ''open:'' r) (\<lambda>file.
        bind (make_socket PF_INET SOCK_DGRAM) (\<lambda>fd.
        bind (make_address (argv ! 1) (argv ! 2)) (\<lambda>dest.
        bind (doClient fd dest file) (\<lambda>_.
        bind (retry Close [I fd]) (\<lambda>r. bind (check ''close'' r) (\<lambda>_.
        bind (retry Close [I file]) (\<lambda>r. bind (check ''close'' r) (\<lambda>_. return 0))))))))))))))"

section \<open>The table of senders\<close>

text \<open>Five entries, and no sender in two taken ones.\<close>

definition table :: "connections list \<Rightarrow> bool" where
  "table con \<longleftrightarrow> length con = MAXADDR
     \<and> (\<forall>i < MAXADDR. \<forall>j < MAXADDR. \<not> free (con ! i) \<and> \<not> free (con ! j) \<and> addr (con ! i) = addr (con ! j) \<longrightarrow> i = j)"

text \<open>The abstract table: which senders are connected and the last chunk printed for each.\<close>

definition view :: "connections list \<Rightarrow> int \<rightharpoonup> int" where
  "view con a = map_option chunkNo (find (\<lambda>c. \<not> free c \<and> addr c = a) con)"

definition full :: "connections list \<Rightarrow> bool" where
  "full con \<longleftrightarrow> (\<forall>c \<in> set con. \<not> free c)"

lemma tableD: "table con \<Longrightarrow> length con = MAXADDR"
  by (simp add: table_def)

lemma table_unique:
  "table con \<Longrightarrow> i < MAXADDR \<Longrightarrow> j < MAXADDR \<Longrightarrow> \<not> free (con ! i) \<Longrightarrow> \<not> free (con ! j) \<Longrightarrow>
   addr (con ! i) = addr (con ! j) \<Longrightarrow> i = j"
  unfolding table_def by blast

definition holds :: "connections \<Rightarrow> int \<Rightarrow> bool" where
  "holds c a \<longleftrightarrow> \<not> free c \<and> addr c = a"

lemma table_holds:
  "table con \<longleftrightarrow> length con = MAXADDR \<and> (\<forall>i < MAXADDR. \<forall>j < MAXADDR. \<forall>a. holds (con ! i) a \<longrightarrow> holds (con ! j) a \<longrightarrow> i = j)"
  unfolding table_def holds_def by metis

lemma table_unique':
  "table con \<Longrightarrow> i < MAXADDR \<Longrightarrow> j < MAXADDR \<Longrightarrow> holds (con ! i) a \<Longrightarrow> holds (con ! j) a \<Longrightarrow> i = j"
  unfolding table_holds by blast

lemma view_Some:
  assumes "table con"
  shows "view con a = Some n \<longleftrightarrow> (\<exists>i < MAXADDR. holds (con ! i) a \<and> chunkNo (con ! i) = n)"
proof
  assume "view con a = Some n"
  then obtain c where "find (\<lambda>c. \<not> free c \<and> addr c = a) con = Some c" "chunkNo c = n"
    by (auto simp: view_def)
  then show "\<exists>i < MAXADDR. holds (con ! i) a \<and> chunkNo (con ! i) = n"
    using tableD [OF assms] by (auto simp: find_Some_iff holds_def)
next
  assume "\<exists>i < MAXADDR. holds (con ! i) a \<and> chunkNo (con ! i) = n"
  then obtain i where i: "i < MAXADDR" "holds (con ! i) a" "chunkNo (con ! i) = n" by blast
  have "\<not> holds (con ! j) a" if "j < i" for j
    using table_unique' [OF assms, of j i a] i that by auto
  then have "find (\<lambda>c. \<not> free c \<and> addr c = a) con = Some (con ! i)"
    unfolding find_Some_iff using tableD [OF assms] i
    by (intro exI [of _ i]) (simp add: holds_def)
  with i show "view con a = Some n" by (simp add: view_def)
qed

lemma view_None: "view con a = None \<longleftrightarrow> (\<forall>c \<in> set con. \<not> holds c a)"
  by (auto simp: view_def find_None_iff holds_def)

lemma view_nth: "table con \<Longrightarrow> i < MAXADDR \<Longrightarrow> holds (con ! i) a \<Longrightarrow> view con a = Some (chunkNo (con ! i))"
  using view_Some by blast

lemma map_eqI: "(\<And>a n. m a = Some n \<longleftrightarrow> m' a = Some n) \<Longrightarrow> m = m'"
  by (rule ext) (metis not_None_eq)

text \<open>Changing one entry, to one that holds no sender of another entry.\<close>

lemma nth_entry: "table con \<Longrightarrow> i < MAXADDR \<Longrightarrow> con[i := c] ! j = (if j = i then c else con ! j)"
  by (simp add: nth_list_update tableD)

lemma table_entry:
  assumes "table con" and "i < MAXADDR" and "\<And>a j. holds c a \<Longrightarrow> j < MAXADDR \<Longrightarrow> j \<noteq> i \<Longrightarrow> \<not> holds (con ! j) a"
  shows "table (con[i := c])"
  unfolding table_holds nth_entry [OF assms(1,2)]
  using assms(3) table_unique' [OF assms(1)] tableD [OF assms(1)] by auto

lemma view_entry:
  assumes "table con" and "i < MAXADDR" and "table (con[i := c])"
  shows "view (con[i := c]) a = Some n \<longleftrightarrow>
    (holds c a \<and> chunkNo c = n) \<or> (\<not> holds (con ! i) a \<and> \<not> holds c a \<and> view con a = Some n)"
proof -
  have other: "j = i" if "holds c a" "j < MAXADDR" "holds (con ! j) a" for j
    using table_unique' [OF assms(3), of i j a] that assms(2)
    by (cases "j = i") (simp_all add: nth_entry [OF assms(1,2)])
  have same: "j = i" if "holds (con ! i) a" "j < MAXADDR" "holds (con ! j) a" for j
    using table_unique' [OF assms(1), of j i a] that assms(2) by simp
  show ?thesis
    unfolding view_Some [OF assms(1)] view_Some [OF assms(3)] nth_entry [OF assms(1,2)]
    using other same assms(2) by (auto split: if_splits)
qed

lemma entry_number:
  assumes "table con" and "i < MAXADDR" and "holds (con ! i) a"
  shows "table (con[i := (con ! i)\<lparr>chunkNo := n\<rparr>])" "view (con[i := (con ! i)\<lparr>chunkNo := n\<rparr>]) = (view con)(a \<mapsto> n)"
proof -
  have h: "holds ((con ! i)\<lparr>chunkNo := n\<rparr>) b \<longleftrightarrow> b = a" for b
    using assms(3) by (auto simp: holds_def)
  show t: "table (con[i := (con ! i)\<lparr>chunkNo := n\<rparr>])"
    using table_unique' [OF assms(1)] assms(2,3) by (intro table_entry [OF assms(1,2)]) (auto simp: h)
  show "view (con[i := (con ! i)\<lparr>chunkNo := n\<rparr>]) = (view con)(a \<mapsto> n)"
    by (rule map_eqI) (use assms(3) in \<open>auto simp: view_entry [OF assms(1,2) t] h holds_def\<close>)
qed

lemma entry_taken:
  assumes "table con" and "i < MAXADDR" and "free (con ! i)" and "view con a = None"
  shows "table (con[i := \<lparr>free = False, chunkNo = n, addr = a\<rparr>])"
    "view (con[i := \<lparr>free = False, chunkNo = n, addr = a\<rparr>]) = (view con)(a \<mapsto> n)"
proof -
  let ?c = "\<lparr>free = False, chunkNo = n, addr = a\<rparr>"
  have h: "holds ?c b \<longleftrightarrow> b = a" for b by (auto simp: holds_def)
  have none: "\<not> holds (con ! j) a" if "j < MAXADDR" for j
    using assms(4) tableD [OF assms(1)] that by (auto simp: view_None)
  show t: "table (con[i := ?c])"
    by (intro table_entry [OF assms(1,2)]) (auto simp: h none)
  show "view (con[i := ?c]) = (view con)(a \<mapsto> n)"
    by (rule map_eqI) (use assms(3) in \<open>auto simp: view_entry [OF assms(1,2) t] h holds_def\<close>)
qed

lemma entry_freed:
  assumes "table con" and "i < MAXADDR" and "free c" and "holds (con ! i) a"
  shows "table (con[i := c])" "view (con[i := c]) = (view con)(a := None)"
proof -
  have h: "\<not> holds c b" for b using assms(3) by (simp add: holds_def)
  have e: "holds (con ! i) b \<longleftrightarrow> b = a" for b using assms(4) by (auto simp: holds_def)
  show t: "table (con[i := c])"
    by (intro table_entry [OF assms(1,2)]) (auto simp: h)
  show "view (con[i := c]) = (view con)(a := None)"
    by (rule map_eqI) (auto simp: view_entry [OF assms(1,2) t] h e)
qed

text \<open>\<open>findIndex\<close>: the sender's entry, or else a free one, which it takes, or else -1.\<close>

lemma scan_cases:
  "scan a cs i e = (e', p) \<Longrightarrow>
   (p = -1 \<and> (\<forall>c \<in> set cs. \<not> holds c a)
      \<and> (e' = e \<and> (\<forall>c \<in> set cs. \<not> free c) \<or> (\<exists>j < length cs. free (cs ! j) \<and> e' = i + int j)))
   \<or> (\<exists>j < length cs. holds (cs ! j) a \<and> p = i + int j)"
proof (induction cs arbitrary: i e)
  case (Cons c cs)
  show ?case
  proof (cases "\<not> free c \<and> a = addr c")
    case True
    with Cons.prems show ?thesis
      by (intro disjI2 exI [of _ 0]) (simp add: holds_def)
  next
    case False
    then have nh: "\<not> holds c a" by (auto simp: holds_def)
    from False Cons.prems have "scan a cs (i + 1) (if free c then i else e) = (e', p)"
      by (auto split: if_splits)
    from Cons.IH [OF this] show ?thesis
    proof (elim disjE conjE exE)
      fix j assume "j < length cs" "holds (cs ! j) a" "p = i + 1 + int j"
      then show ?thesis by (intro disjI2 exI [of _ "Suc j"]) simp
    next
      fix j assume "p = -1" "\<forall>c \<in> set cs. \<not> holds c a" "j < length cs" "free (cs ! j)" "e' = i + 1 + int j"
      with nh show ?thesis by (intro disjI1 conjI disjI2 exI [of _ "Suc j"]) simp_all
    next
      assume *: "p = -1" "\<forall>c \<in> set cs. \<not> holds c a" "e' = (if free c then i else e)" "\<forall>c \<in> set cs. \<not> free c"
      show ?thesis
      proof (cases "free c")
        case True
        with * nh show ?thesis by (intro disjI1 conjI disjI2 exI [of _ 0]) simp_all
      qed (use * nh in auto)
    qed
  qed
qed auto

lemma findIndex_cases:
  assumes "table con"
  obtains (known) i where "i < MAXADDR" "holds (con ! i) a" "findIndex a con = (con, int i)"
  | (fresh) i where "i < MAXADDR" "free (con ! i)" "view con a = None"
      "findIndex a con = (con[i := \<lparr>free = False, chunkNo = 0, addr = a\<rparr>], int i)"
  | (refused) "full con" "view con a = None" "findIndex a con = (con, -1)"
proof -
  obtain e p where sc: "scan a con 0 (-1) = (e, p)" by (cases "scan a con 0 (-1)")
  note len = tableD [OF assms]
  from scan_cases [OF sc] show thesis
  proof (elim disjE conjE exE)
    fix j assume "j < length con" "holds (con ! j) a" "p = 0 + int j"
    with sc len show thesis by (intro known [of j]) (auto simp: findIndex_def)
  next
    fix j assume "p = -1" "\<forall>c \<in> set con. \<not> holds c a" "j < length con" "free (con ! j)" "e = 0 + int j"
    with sc len show thesis by (intro fresh [of j]) (auto simp: findIndex_def view_None)
  next
    assume "p = -1" "\<forall>c \<in> set con. \<not> holds c a" "e = -1" "\<forall>c \<in> set con. \<not> free c"
    with sc show thesis by (intro refused) (auto simp: findIndex_def view_None full_def)
  qed
qed

section \<open>What the table promises\<close>

lemma full_view:
  assumes "table con"
  shows "full con \<longleftrightarrow> card (dom (view con)) = MAXADDR"
proof -
  let ?I = "{i. i < MAXADDR \<and> \<not> free (con ! i)}"
  have dom: "dom (view con) = (\<lambda>i. addr (con ! i)) ` ?I"
    by (auto simp: dom_def view_Some [OF assms] holds_def)
  have "inj_on (\<lambda>i. addr (con ! i)) ?I"
    using assms by (auto simp: inj_on_def table_def)
  then have card: "card (dom (view con)) = card ?I"
    unfolding dom by (rule card_image)
  have fin: "?I \<subseteq> {..<MAXADDR}" by auto
  have "full con \<longleftrightarrow> (\<forall>i < MAXADDR. \<not> free (con ! i))"
    using tableD [OF assms] by (simp add: full_def all_set_conv_all_nth)
  also have "\<dots> \<longleftrightarrow> ?I = {..<MAXADDR}"
    by blast
  also have "\<dots> \<longleftrightarrow> card ?I = card {..<MAXADDR}"
    using card_subset_eq [OF _ fin] by fastforce
  finally show ?thesis by (simp add: card)
qed

text \<open>
  The contract of the server for one datagram: chunk \<open>k\<close> from the sender \<open>a\<close>, the last one or not.
  The state says which senders are connected and up to which chunk; the result adds the chunk to be
  printed, if any, and whether it is confirmed.
\<close>

definition spec_receive :: "(int \<rightharpoonup> int) \<Rightarrow> int \<Rightarrow> int \<Rightarrow> bool \<Rightarrow> (int \<rightharpoonup> int) \<times> int option \<times> bool" where
  "spec_receive m a k fin =
     (if m a = None \<and> card (dom m) = MAXADDR then (m, None, False)
      else let n = (case m a of None \<Rightarrow> 0 | Some n \<Rightarrow> n) in
        if k > n + 1 then (m(a \<mapsto> n), None, False)
        else if k = n + 1 then (if fin then m(a := None) else m(a \<mapsto> k), Some k, True)
        else (m(a \<mapsto> n), None, True))"

text \<open>After \<open>findIndex\<close> the sender has the entry \<open>i\<close>.\<close>

lemma receive_entry:
  assumes "table con" and "i < MAXADDR" and "holds (con ! i) a" and "findIndex a con0 = (con, int i)"
    and "chunkNo (con ! i) \<noteq> 2147483647"
  shows "\<exists>con' out ans. receive past a buf con0 = Some (con', int i, out, ans) \<and> table con'
    \<and> (let n = chunkNo (con ! i); k = sint (word_at buf 0); fin = (word_at buf 1 \<noteq> 0) in
       (view con', map_option (\<lambda>e. k) out, ans) =
         (if k > n + 1 then (view con, None, False)
          else if k = n + 1 then (if fin then (view con)(a := None) else (view con)(a \<mapsto> k), Some k, True)
          else (view con, None, True))
       \<and> (out = None \<or> out = Some (chunk_text past k fin buf)))"
proof -
  define n where "n = chunkNo (con ! i)"
  define k where "k = sint (word_at buf 0)"
  note len = tableD [OF assms(1)]
  show ?thesis
  proof (cases "k = n + 1")
    case False
    with assms(4,5) show ?thesis
      by (cases "k > n + 1") (auto simp: receive_def Let_def k_def [symmetric] n_def [symmetric] assms(1))
  next
    case True
    note num = entry_number [OF assms(1-3), of k]
    show ?thesis
    proof (cases "word_at buf 1 = 0")
      case more: True
      with True assms(4,5) num show ?thesis
        by (auto simp: receive_def Let_def k_def [symmetric] n_def [symmetric])
    next
      case fin: False
      have "(set_free i con)[i := (set_free i con ! i)\<lparr>chunkNo := k\<rparr>] = con[i := (con ! i)\<lparr>free := True, chunkNo := k\<rparr>]"
        using len assms(2) by (simp add: set_free_def)
      with fin True assms(4,5) entry_freed [OF assms(1,2) _ assms(3), of "(con ! i)\<lparr>free := True, chunkNo := k\<rparr>"] show ?thesis
        by (auto simp: receive_def Let_def k_def [symmetric] n_def [symmetric])
    qed
  qed
qed

text \<open>
  C7. The server of \<open>2_server.c\<close> implements the contract \<open>spec_receive\<close>: for every table in which
  no sender has two entries, \<open>findIndex\<close> and the code between \<open>recvfrom\<close> and \<open>sendto\<close> lead to the
  table, the printed chunk and the confirmation that the contract says, and the new table has the
  invariant again. The only exception is a sender that has reached chunk 2147483647, where
  \<open>con[i].chunkNo + 1\<close> overflows.
\<close>

theorem receive_refines:
  assumes "table con"
  shows "case receive past a buf con of
      None \<Rightarrow> view con a = Some 2147483647
    | Some (con', i, out, ans) \<Rightarrow>
        table con' \<and> spec_receive (view con) a (sint (word_at buf 0)) (word_at buf 1 \<noteq> 0)
          = (view con', map_option (\<lambda>e. sint (word_at buf 0)) out, ans)
        \<and> (out = None \<or> out = Some (chunk_text past (sint (word_at buf 0)) (word_at buf 1 \<noteq> 0) buf))"
proof (rule findIndex_cases [OF assms, of a], goal_cases known fresh refused)
  case (known i)
  have v: "view con a = Some (chunkNo (con ! i))" by (rule view_nth [OF assms known(1,2)])
  then have u: "(view con)(a \<mapsto> chunkNo (con ! i)) = view con" by auto
  show ?thesis
  proof (cases "chunkNo (con ! i) = 2147483647")
    case True
    with known(3) v show ?thesis by (simp add: receive_def)
  next
    case False
    from receive_entry [OF assms known this, of past buf] show ?thesis
      by (auto simp: v u spec_receive_def Let_def)
  qed
next
  case (fresh i)
  let ?c = "\<lparr>free = False, chunkNo = 0, addr = a\<rparr>"
  note t = entry_taken [OF assms fresh(1-3), of 0]
  have h: "holds (con[i := ?c] ! i) a" and z: "chunkNo (con[i := ?c] ! i) = 0"
    using tableD [OF assms] fresh(1) by (simp_all add: holds_def)
  have "\<not> full con" using fresh(1,2) tableD [OF assms] by (auto simp: full_def)
  with fresh(3) receive_entry [OF t(1) fresh(1) h fresh(4), of past buf] z t(2) show ?thesis
    by (auto simp: spec_receive_def Let_def full_view [OF assms])
next
  case refused
  then show ?thesis
    using assms by (simp add: receive_def spec_receive_def full_view)
qed

definition two_senders :: "connections list" where
  "two_senders = [\<lparr>free = True, chunkNo = 9, addr = 0\<rparr>, \<lparr>free = False, chunkNo = 2, addr = 11\<rparr>,
     \<lparr>free = True, chunkNo = 0, addr = 11\<rparr>, \<lparr>free = False, chunkNo = 5, addr = 12\<rparr>, \<lparr>free = True, chunkNo = 0, addr = 0\<rparr>]"

lemma table_two_senders: "table two_senders"
  by (simp add: table_def two_senders_def MAXADDR_def eval_nat_numeral All_less_Suc)

lemma receive_refines_witness:
  "\<exists>con' i out ans. receive [] 11 (datagram 3 1 [72, 105]) two_senders = Some (con', i, out, ans) \<and> table con'
    \<and> out = Some (Print ''Last Part %d %s'' [I 3, B [72, 105]]) \<and> ans \<and> view con' 11 = None"
proof -
  have r: "receive [] 11 (datagram 3 1 [72, 105]) two_senders =
      Some (two_senders[1 := \<lparr>free = True, chunkNo = 3, addr = 11\<rparr>], 1, Some (Print ''Last Part %d %s'' [I 3, B [72, 105]]), True)"
    by code_simp
  have "view (two_senders[1 := \<lparr>free = True, chunkNo = 3, addr = 11\<rparr>]) 11 = None" by code_simp
  with r receive_refines [OF table_two_senders, where past = "[]" and a = 11 and buf = "datagram 3 1 [72, 105]"] show ?thesis by auto
qed

section \<open>What the server prints\<close>

text \<open>
  The history sender by sender: the printed chunks, and the answers that failed with EPIPE, after
  which the server forgets the sender. A chunk belongs to the sender of the last datagram.
\<close>

fun jot :: "int \<times> (int \<times> event) list \<Rightarrow> event \<Rightarrow> int \<times> (int \<times> event) list" where
  "jot (a, l) (Sys c args (Some r)) =
     (if c = Recvfrom then (fst (datagram_of MAXBUF r), l)
      else if c = Sendto \<and> failed r \<and> errno_of r = EPIPE then (a, l @ [(a, Sys c args (Some r))])
      else (a, l))"
| "jot (a, l) (Print f args) = (a, l @ [(a, Print f args)])"
| "jot (a, l) e = (a, l)"

definition notes_from :: "int \<Rightarrow> event list \<Rightarrow> event list" where
  "notes_from a h = map snd (filter (\<lambda>p. fst p = a) (snd (foldl jot (0, []) h)))"

text \<open>
  The chunk that a sender has reached, \<open>None\<close> once the order 1, 2, 3, ... is broken: it starts
  again only after a last part or a failed answer.
\<close>

fun advance :: "int option \<Rightarrow> event \<Rightarrow> int option" where
  "advance (Some n) (Print f [I k, B t]) =
     (if k = n + 1 then Some (if f = ''Last Part %d %s'' then 0 else k) else None)"
| "advance (Some n) (Sys c args r) = Some 0"
| "advance m e = None"

definition reached :: "event list \<Rightarrow> int option" where
  "reached es = foldl advance (Some 0) es"

definition level :: "connections list \<Rightarrow> int \<Rightarrow> int" where
  "level con a = (case view con a of None \<Rightarrow> 0 | Some n \<Rightarrow> n)"

definition sender :: "event list \<Rightarrow> int" where
  "sender h = fst (foldl jot (0, []) h)"

lemma jot_attempts: "attempts Sendto args us \<Longrightarrow> foldl jot s us = s"
proof (induction us arbitrary: s)
  case (Cons e us)
  then obtain r where e: "e = Sys Sendto args (Some r)" "interrupted r" "attempts Sendto args us"
    by (auto simp: attempts_def)
  then have "jot s e = s" by (cases s; cases r) auto
  with Cons.IH e(3) show ?case by simp
qed simp

lemma sender_notes [simp]:
  "sender (h @ [Sys Recvfrom args (Some r)]) = fst (datagram_of MAXBUF r)"
  "notes_from a (h @ [Sys Recvfrom args r']) = notes_from a h"
  "sender (h @ [Print f args]) = sender h"
  "notes_from a (h @ [Print f args]) = notes_from a h @ (if sender h = a then [Print f args] else [])"
  "notes_from a (h @ [Complain m]) = notes_from a h"
  by (cases "foldl jot (0, []) h"; cases r'; simp add: sender_def notes_from_def)+

lemma notes_sendto [simp]:
  "attempts Sendto args us \<Longrightarrow> notes_from a (h @ us @ [Sys Sendto args None]) = notes_from a h"
  "attempts Sendto args us \<Longrightarrow> notes_from a (h @ us @ [Sys Sendto args (Some r)]) =
     notes_from a h @ (if sender h = a \<and> failed r \<and> errno_of r = EPIPE then [Sys Sendto args (Some r)] else [])"
  by (cases "foldl jot (0, []) h"; simp add: sender_def notes_from_def jot_attempts)+

lemma reached_simps [simp]:
  "reached [] = Some 0" "reached (es @ [e]) = advance (reached es) e"
  by (simp_all add: reached_def)

text \<open>What one datagram does to the level of every sender.\<close>

lemma receive_levels:
  assumes "table con" and "receive past a buf con = Some (con', i, out, ans)"
  shows "table con'" and "b \<noteq> a \<Longrightarrow> level con' b = level con b"
    and "case out of None \<Rightarrow> level con' a = level con a
         | Some e \<Rightarrow> advance (Some (level con a)) e = Some (level con' a) \<and> e = chunk_text past (sint (word_at buf 0)) (word_at buf 1 \<noteq> 0) buf"
proof -
  note r = receive_refines [OF assms(1), where past = past and a = a and buf = buf, unfolded assms(2) option.case prod.case]
  from r show "table con'" by simp
  from r have sp: "spec_receive (view con) a (sint (word_at buf 0)) (word_at buf 1 \<noteq> 0)
      = (view con', map_option (\<lambda>e. sint (word_at buf 0)) out, ans)" by simp
  then have v: "view con' = fst (spec_receive (view con) a (sint (word_at buf 0)) (word_at buf 1 \<noteq> 0))" by simp
  show "level con' b = level con b" if "b \<noteq> a"
    using that unfolding level_def v spec_receive_def by (simp add: Let_def)
  show "case out of None \<Rightarrow> level con' a = level con a
         | Some e \<Rightarrow> advance (Some (level con a)) e = Some (level con' a) \<and> e = chunk_text past (sint (word_at buf 0)) (word_at buf 1 \<noteq> 0) buf"
  proof (cases out)
    case None
    with sp have "fst (snd (spec_receive (view con) a (sint (word_at buf 0)) (word_at buf 1 \<noteq> 0))) = None" by simp
    then show ?thesis
      unfolding None level_def v spec_receive_def by (auto simp: Let_def split: if_splits)
  next
    case (Some e)
    with r have e: "e = chunk_text past (sint (word_at buf 0)) (word_at buf 1 \<noteq> 0) buf" by simp
    from sp Some have "fst (snd (spec_receive (view con) a (sint (word_at buf 0)) (word_at buf 1 \<noteq> 0))) \<noteq> None" by simp
    then have "sint (word_at buf 0) = level con a + 1"
      "level con' a = (if word_at buf 1 \<noteq> 0 then 0 else sint (word_at buf 0))"
      unfolding level_def v spec_receive_def by (auto simp: Let_def split: if_splits)
    with Some e show ?thesis by (simp add: chunk_text_def)
  qed
qed

text \<open>Freeing the sender's entry after a failed answer.\<close>

lemma receive_index:
  assumes "table con" and "receive past a buf con = Some (con', i, out, True)"
  shows "\<exists>j < MAXADDR. i = int j \<and> addr (con' ! j) = a \<and> (free (con' ! j) \<longrightarrow> word_at buf 1 \<noteq> 0 \<and> out \<noteq> None)"
proof (rule findIndex_cases [OF assms(1), of a], goal_cases known fresh refused)
  case (known j)
  with assms tableD [OF assms(1)] show ?case
    by (auto simp: receive_def Let_def holds_def set_free_def split: if_splits)
next
  case (fresh j)
  with assms tableD [OF assms(1)] show ?case
    by (auto simp: receive_def Let_def set_free_def split: if_splits)
next
  case refused
  with assms show ?case by (simp add: receive_def)
qed

lemma freed_levels:
  assumes con0: "table con0" "receive past a buf con0 = Some (con, i, out, True)"
  shows "table (set_free (nat i) con)" "level (set_free (nat i) con) = (level con)(a := 0)"
proof -
  from receive_index [OF assms] obtain j where
    j: "j < MAXADDR" "i = int j" "addr (con ! j) = a" "free (con ! j) \<Longrightarrow> word_at buf 1 \<noteq> 0 \<and> out \<noteq> None" by blast
  note r = receive_refines [OF assms(1), where past = past and a = a and buf = buf, unfolded assms(2) option.case prod.case]
  then have t: "table con" by simp
  have "table (set_free j con) \<and> view (set_free j con) = (view con)(a := None)"
  proof (cases "free (con ! j)")
    case False
    with j(3) have "holds (con ! j) a" by (simp add: holds_def)
    from entry_freed [OF t j(1) _ this] show ?thesis by (simp add: set_free_def)
  next
    case True
    then have "(con ! j)\<lparr>free := True\<rparr> = con ! j" by simp
    then have same: "set_free j con = con" by (simp add: set_free_def del: connections.surjective)
    from r obtain m where sp: "spec_receive (view con0) a (sint (word_at buf 0)) (word_at buf 1 \<noteq> 0) = (view con, m, True)"
        "m \<noteq> None" using j(4) [OF True] by auto
    then have v: "view con = fst (spec_receive (view con0) a (sint (word_at buf 0)) (word_at buf 1 \<noteq> 0))"
        and "fst (snd (spec_receive (view con0) a (sint (word_at buf 0)) (word_at buf 1 \<noteq> 0))) \<noteq> None" by simp_all
    then have "view con a = None"
      using j(4) [OF True] unfolding v spec_receive_def by (auto simp: Let_def split: if_splits)
    with t same show ?thesis by auto
  qed
  then show "table (set_free (nat i) con)" "level (set_free (nat i) con) = (level con)(a := 0)"
    by (auto simp: level_def j(2))
qed

text \<open>The datagrams that came from a sender, and the chunks they may lead to.\<close>

fun came_from :: "int \<Rightarrow> event \<Rightarrow> int list list" where
  "came_from a (Sys Recvfrom args (Some r)) = (case datagram_of MAXBUF r of (b, bs) \<Rightarrow> if b = a then [bs] else [])"
| "came_from a e = []"

definition genuine :: "int list \<Rightarrow> int list list \<Rightarrow> event \<Rightarrow> bool" where
  "genuine past ds e \<longleftrightarrow> (\<exists>args r. e = Sys Sendto args r)
     \<or> (\<exists>bs \<in> set ds. \<exists>buf. length buf \<le> MAXBUF \<and> (let buf = overwrite buf bs in
          e = chunk_text past (sint (word_at buf 0)) (word_at buf 1 \<noteq> 0) buf))"

definition in_order :: "int list \<Rightarrow> event list \<Rightarrow> bool" where
  "in_order past h \<longleftrightarrow> (\<forall>a. reached (notes_from a h) \<noteq> None
     \<and> (\<forall>e \<in> set (notes_from a h). genuine past (seen (came_from a) h) e))"

definition table_shows :: "int list \<Rightarrow> connections list \<Rightarrow> event list \<Rightarrow> bool" where
  "table_shows past con h \<longleftrightarrow> table con \<and> (\<forall>a. reached (notes_from a h) = Some (level con a)
     \<and> (\<forall>e \<in> set (notes_from a h). genuine past (seen (came_from a) h) e))"

lemma shows_in_order: "table_shows past con h \<Longrightarrow> in_order past h"
  by (simp add: table_shows_def in_order_def)

lemma in_order_complain [simp]:
  "in_order past (h @ [Complain m]) = in_order past h"
  "in_order past (h @ [x, Complain m]) = in_order past (h @ [x])"
  "in_order past (h @ us @ [x, Complain m]) = in_order past (h @ us @ [x])"
proof -
  show c: "in_order past (h @ [Complain m]) = in_order past h" for h
    by (simp add: in_order_def)
  show "in_order past (h @ [x, Complain m]) = in_order past (h @ [x])"
    "in_order past (h @ us @ [x, Complain m]) = in_order past (h @ us @ [x])"
    using c [of "h @ [x]"] c [of "h @ us @ [x]"] by simp_all
qed

lemma genuine_more: "genuine past ds e \<Longrightarrow> set ds \<subseteq> set ds' \<Longrightarrow> genuine past ds' e"
  unfolding genuine_def by blast

lemma shows_received:
  assumes "table_shows past con h" and "datagram_of MAXBUF r = (a, bs)"
  shows "table_shows past con (h @ [Sys Recvfrom args (Some r)])" "in_order past (h @ [Sys Recvfrom args None])"
proof -
  have g: "genuine past (seen (came_from b) h) e \<Longrightarrow> genuine past (seen (came_from b) (h @ [Sys Recvfrom args (Some r)])) e" for b e
    by (erule genuine_more) auto
  show "table_shows past con (h @ [Sys Recvfrom args (Some r)])"
    using assms(1) g unfolding table_shows_def by simp
  show "in_order past (h @ [Sys Recvfrom args None])"
    using shows_in_order [OF assms(1)] by (simp add: in_order_def)
qed

lemma shows_step:
  assumes "table_shows past con h" and "table con'"
    and "\<And>b. notes_from b h' = notes_from b h @ (if a = b then es else [])"
    and "\<And>b. seen (came_from b) h' = seen (came_from b) h"
    and "\<And>b. b \<noteq> a \<Longrightarrow> level con' b = level con b"
    and "foldl advance (Some (level con a)) es = Some (level con' a)"
    and "\<forall>e \<in> set es. genuine past (seen (came_from a) h) e"
  shows "table_shows past con' h'"
proof -
  have "reached (notes_from b h') = Some (level con' b)
      \<and> (\<forall>e \<in> set (notes_from b h'). genuine past (seen (came_from b) h') e)" for b
  proof -
    from assms(1) have b: "reached (notes_from b h) = Some (level con b)"
      "\<forall>e \<in> set (notes_from b h). genuine past (seen (came_from b) h) e" by (auto simp: table_shows_def)
    show ?thesis
    proof (cases "a = b")
      case True
      with b assms(3) [of b] assms(4) [of b] assms(6,7) show ?thesis
        by (simp add: reached_def ball_Un)
    next
      case False
      with b assms(3) [of b] assms(4) [of b] assms(5) [of b] show ?thesis by simp
    qed
  qed
  with assms(2) show ?thesis by (simp add: table_shows_def)
qed

lemma attempts_came_from [simp]: "attempts Sendto args us \<Longrightarrow> seen (came_from a) us = []"
  by (erule seen_attempts) simp

text \<open>One datagram: the printed chunk, then the answer.\<close>

lemma shows_printed:
  assumes tab: "table_shows past con h" and s: "sender h = a" "bs \<in> set (seen (came_from a) h)"
    and rec: "receive past a (overwrite buf bs) con = Some (con', i, out, ans)" and len: "length buf \<le> MAXBUF"
  shows "table_shows past con' (h @ (case out of None \<Rightarrow> [] | Some e \<Rightarrow> [e]))"
    "sender (h @ (case out of None \<Rightarrow> [] | Some e \<Rightarrow> [e])) = a"
proof -
  let ?buf = "overwrite buf bs"
  have t: "table con" using tab by (simp add: table_shows_def)
  note lv = receive_levels [OF t rec]
  show "sender (h @ (case out of None \<Rightarrow> [] | Some e \<Rightarrow> [e])) = a"
    using s(1) lv(3) by (cases out) (auto simp: chunk_text_def)
  show "table_shows past con' (h @ (case out of None \<Rightarrow> [] | Some e \<Rightarrow> [e]))"
  proof (cases out)
    case None
    with lv(3) show ?thesis
      by (intro shows_step [OF tab lv(1), where a = a and es = "[]"] lv(2)) simp_all
  next
    case (Some e)
    note e = lv(3) [unfolded Some option.case, THEN conjunct1] lv(3) [unfolded Some option.case, THEN conjunct2]
    have n: "notes_from b (h @ [e]) = notes_from b h @ (if a = b then [e] else [])"
      "came_from b e = []" for b
      using s(1) unfolding e(2) by (simp_all add: chunk_text_def)
    have g: "genuine past (seen (came_from a) h) e"
      unfolding genuine_def Let_def using s(2) e(2) len by blast
    with Some e(1) show ?thesis
      by (intro shows_step [OF tab lv(1), where a = a and es = "[e]"] lv(2)) (simp_all add: n)
  qed
qed

lemma wp_confirm:
  assumes t: "table con0" and rec: "receive past a buf con0 = Some (con, i, out, True)"
    and sh: "table_shows past con h" and s: "sender h = a"
    and Q: "\<And>con h. table_shows past con h \<Longrightarrow> Q con h" and E: "\<And>c h. in_order past h \<Longrightarrow> E c h"
  shows "wp (confirm fd a buf (nat i) con) Q E h"
  unfolding confirm_def
proof (rule wp_bind, rule wp_retry)
  let ?args = "[I fd, B buf, I a]"
  note fr = freed_levels [OF t rec]
  fix us
  assume us: "attempts Sendto ?args us"
  then show "E None (h @ us @ [Sys Sendto ?args None])"
    using shows_in_order [OF sh] by (intro E) (simp add: in_order_def)
  fix r
  let ?h' = "h @ us @ [Sys Sendto ?args (Some r)]"
  have same: "table_shows past con ?h'" if "\<not> (failed r \<and> errno_of r = EPIPE)"
    using that us s shows_step [OF sh, of con ?h' a "[]"] sh
    by (auto simp: table_shows_def [of _ con h])
  have freed: "table_shows past (set_free (nat i) con) ?h'" if "failed r" "errno_of r = EPIPE"
    using that us s fr by (intro shows_step [OF sh, where a = a and es = "[Sys Sendto ?args (Some r)]"])
      (simp_all add: genuine_def)
  show "wp (if failed r then if errno_of r = EPIPE then return (set_free (nat i) con) else err ''send:'' else return con)
      Q E ?h'"
    using same freed by (auto intro!: wp_return wp_err Q E intro: shows_in_order)
qed

lemma length_overwrite: "length (overwrite buf bs) = max (length buf) (length bs)"
  by (simp add: overwrite_def)

lemma length_datagram_of: "datagram_of n r = (a, bs) \<Longrightarrow> length bs \<le> n"
  by (cases r) auto

lemma wp_receive_round:
  assumes "table_shows past con h" and "length buf \<le> MAXBUF"
  shows "wp (receive_round past fd (con, buf))
    (\<lambda>x h'. case x of Inl (con', buf') \<Rightarrow> table_shows past con' h' \<and> length buf' \<le> MAXBUF | Inr a \<Rightarrow> False) (\<lambda>c h'. in_order past h') h"
  unfolding receive_round_def prod.case
proof (rule wp_bind, rule wp_sys, goal_cases wait reply)
  case wait
  show ?case using shows_received(2) [OF assms(1)] by (metis surj_pair)
next
  case (reply r)
  obtain a bs where d: "datagram_of MAXBUF r = (a, bs)" by (cases "datagram_of MAXBUF r")
  let ?h = "h @ [Sys Recvfrom [I fd, I (int MAXBUF)] (Some r)]"
  have sh: "table_shows past con ?h" by (rule shows_received(1) [OF assms(1) d])
  then have t: "table con" by (simp add: table_shows_def)
  have s: "sender ?h = a" "bs \<in> set (seen (came_from a) ?h)" by (simp_all add: d)
  show ?case
  proof (rule wp_if, goal_cases failure received)
    case failure
    show ?case using shows_in_order [OF sh] by (intro wp_err) simp
  next
    case received
    show ?case
    proof (cases "receive past a (overwrite buf bs) con")
      case None
      then show ?thesis
        using shows_in_order [OF sh] by (auto simp: d Let_def intro!: wp_rules)
    next
      case (Some z)
      obtain con' i out ans where rec: "receive past a (overwrite buf bs) con = Some (con', i, out, ans)"
        using Some by (cases z) auto
      note pr = shows_printed [OF sh s rec assms(2)]
      have len: "length (overwrite buf bs) \<le> MAXBUF"
        using assms(2) length_datagram_of [OF d] by (simp add: length_overwrite)
      let ?Q = "\<lambda>x h'. case x of Inl (con', buf') \<Rightarrow> table_shows past con' h' \<and> length buf' \<le> MAXBUF | Inr a \<Rightarrow> False"
      have cont: "wp (if ans then confirm fd a (overwrite buf bs) (nat i) con' else return con')
          (\<lambda>con. wp (return (Inl (con, overwrite buf bs))) ?Q (\<lambda>c h'. in_order past h')) (\<lambda>c h'. in_order past h')
          (?h @ (case out of None \<Rightarrow> [] | Some e \<Rightarrow> [e]))"
      proof (rule wp_if, goal_cases answer silent)
        case answer
        show ?case
          by (rule wp_confirm [OF t rec [unfolded eqTrueI [OF answer]] pr]) (simp_all add: wp_return len)
      next
        case silent
        with pr(1) len show ?case by (simp add: wp_return)
      qed
      show ?thesis
      proof (cases out)
        case None
        show ?thesis
          unfolding d Let_def prod.case rec option.case None
          by (rule wp_bind, rule wp_return, rule wp_bind, rule cont [unfolded None option.case append_Nil2])
      next
        case (Some e)
        show ?thesis
          unfolding d Let_def prod.case rec option.case Some
          by (rule wp_bind, rule wp_tell, rule wp_bind, rule cont [unfolded Some option.case])
      qed
    qed
  qed
qed

lemma progressing_receive: "progressing (receive_round past fd s)"
  unfolding receive_round_def confirm_def
  by (cases s) (simp add: Let_def, intro within_intros)

lemma wp_chunk_server:
  assumes "length con = MAXADDR" and "length buf \<le> MAXBUF"
  shows "wp (chunk_server past con buf fd) (\<lambda>_ _. False) (\<lambda>_. in_order past) []"
  unfolding chunk_server_def
proof (rule wp_loop [where J = "\<lambda>(con, buf) h. table_shows past con h \<and> length buf \<le> MAXBUF"], goal_cases body start step)
  case start
  have n: "view (map (\<lambda>c. c\<lparr>free := True\<rparr>) con) a = None" for a
    by (simp add: view_None holds_def)
  show ?case
    using assms by (simp add: table_shows_def table_def level_def n notes_from_def)
next
  case (step s h)
  then show ?case
    by (cases s, simp) (rule wp_mono [OF wp_receive_round], auto split: sum.splits)
qed (rule progressing_receive)

text \<open>
  The server of \<open>2_server.c\<close> over a whole run, whatever datagrams come from whatever senders,
  and wherever the run is cut off: it never returns, and for every sender the chunks it prints are
  numbered 1, 2, 3, ... without a gap or a repetition, starting again at 1 only after a last part
  or a failed answer; every printed chunk is the number and the text of a datagram that came from
  that sender (laid over an older one where it was shorter than the buffer).
\<close>

theorem chunks_in_order:
  assumes "chunk_server past con buf fd rs = (x, h, rs')" and "length con = MAXADDR" and "length buf \<le> MAXBUF"
  shows "x \<noteq> Val () \<and> (\<forall>a. reached (notes_from a h) \<noteq> None
    \<and> (\<forall>e \<in> set (notes_from a h). genuine past (seen (came_from a) h) e))"
  using wp_runs [OF wp_chunk_server [OF assms(2,3)] assms(1)]
  by (cases x) (auto simp: in_order_def)

definition two_clients :: "reply list" where
  "two_clients = [Datagram 11 [0, 0, 0, 1, 0, 0, 0, 0, 65, 0], Done 576, Datagram 12 [0, 0, 0, 1, 0, 0, 0, 1, 66, 0], Done 576,
     Datagram 11 [0, 0, 0, 1, 0, 0, 0, 0, 65, 0], Done 576, Datagram 11 [0, 0, 0, 3, 0, 0, 0, 1, 68, 0],
     Datagram 11 [0, 0, 0, 2, 0, 0, 0, 0, 67, 0], Done 576]"

lemma chunks_in_order_witness:
  "\<exists>h. chunk_server [] two_senders [] 3 two_clients = (Waits, h, [])
    \<and> notes_from 11 h = [Print ''Part %d %s'' [I 1, B [65]], Print ''Part %d %s'' [I 2, B [67]]]
    \<and> reached (notes_from 11 h) \<noteq> None"
proof -
  define h where "h = fst (snd (chunk_server [] two_senders [] 3 two_clients))"
  have "(case chunk_server [] two_senders [] 3 two_clients of (x, h, rs) \<Rightarrow> x = Waits \<and> rs = []
      \<and> notes_from 11 h = [Print ''Part %d %s'' [I 1, B [65]], Print ''Part %d %s'' [I 2, B [67]]])"
    by code_simp
  then have r: "chunk_server [] two_senders [] 3 two_clients = (Waits, h, [])"
    and n: "notes_from 11 h = [Print ''Part %d %s'' [I 1, B [65]], Print ''Part %d %s'' [I 2, B [67]]]"
    by (auto simp: h_def split: prod.splits)
  have "length two_senders = MAXADDR" by (simp add: two_senders_def MAXADDR_def)
  from chunks_in_order [OF r this] have "reached (notes_from 11 h) \<noteq> None" by simp
  with r n show ?thesis by blast
qed

section \<open>What the client sends\<close>

fun sent :: "int \<Rightarrow> event \<Rightarrow> int list list" where
  "sent fd (Sys Sendto [I f, B b, S host, S port] (Some r)) = (if f = fd \<and> \<not> failed r then [b] else [])"
| "sent fd e = []"

definition CHUNK :: nat where "CHUNK = MAXBUF - 8"

definition chunk :: "int list \<Rightarrow> nat \<Rightarrow> int list" where
  "chunk data i = take CHUNK (drop (CHUNK * i) data)"

definition last_chunk :: "int list \<Rightarrow> nat \<Rightarrow> bool" where
  "last_chunk data i \<longleftrightarrow> length (chunk data i) < CHUNK"

definition file_datagram :: "int list \<Rightarrow> nat \<Rightarrow> int list" where
  "file_datagram data i = datagram (int i + 1) (of_bool (last_chunk data i)) (chunk data i)"

text \<open>The transmissions of the first \<open>m\<close> chunks, each one to six times.\<close>

definition transmitted :: "int list \<Rightarrow> nat \<Rightarrow> (nat \<Rightarrow> nat) \<Rightarrow> int list list" where
  "transmitted data m ns = concat (map (\<lambda>i. replicate (ns i) (file_datagram data i)) [0..<m])"

text \<open>Events between two reads of the file that send nothing, or only \<open>b\<close>, \<open>n\<close> times.\<close>

definition sending :: "int \<Rightarrow> int \<Rightarrow> int list \<Rightarrow> nat \<Rightarrow> event list \<Rightarrow> bool" where
  "sending fd file b n tr \<longleftrightarrow> seen (sent fd) tr = replicate n b \<and> seen (came_in file) tr = []"

lemma sending_simps [simp]:
  "sending fd file b 0 []" "sending fd file b n (tr @ [Complain m]) = sending fd file b n tr"
  "c \<noteq> Sendto \<Longrightarrow> c \<noteq> Read \<Longrightarrow> sending fd file b n (tr @ [Sys c args r]) = sending fd file b n tr"
proof -
  show "sending fd file b n (tr @ [Sys c args r]) = sending fd file b n tr" if "c \<noteq> Sendto" "c \<noteq> Read"
  proof -
    have "sent fd (Sys c args r) = []"
      using that by (cases "(fd, Sys c args r)" rule: sent.cases) auto
    moreover have "came_in file (Sys c args r) = []"
      using that by (cases "(file, Sys c args r)" rule: came_in.cases) auto
    ultimately show ?thesis by (simp add: sending_def)
  qed
qed (simp_all add: sending_def)

lemma sending_append: "sending fd file b n tr \<Longrightarrow> sending fd file b k us \<Longrightarrow> sending fd file b (n + k) (tr @ us)"
  by (simp add: sending_def replicate_add)

lemma wp_sendAndConfirm:
  assumes len: "length b = sz"
    and E: "\<And>n us c. n \<le> 1 \<Longrightarrow> sending fd file b n us \<Longrightarrow> E c (h @ us)"
    and Q: "\<And>buf us. sending fd file b 1 us \<Longrightarrow> Q buf (h @ us)"
  shows "wp (sendAndConfirm fd dest b buf2 sz) Q E h"
proof -
  let ?args = "[I fd, B b, S (fst dest), S (snd dest)]"
  have att: "sending fd file b 0 us" if "attempts Sendto ?args us" for us
    using that by (auto simp: sending_def intro: seen_attempts)
  have one: "sending fd file b (if failed r then 0 else 1) (us @ [Sys Sendto ?args (Some r)])" if "attempts Sendto ?args us" for us r
    using att [OF that] by (simp add: sending_def)
  show ?thesis
    unfolding sendAndConfirm_def len [symmetric] take_all [OF order_refl]
  proof (rule wp_bind, rule wp_retry, goal_cases wait reply)
    case (wait us)
    then have "sending fd file b 0 (us @ [Sys Sendto ?args None])"
      using att [of us] by (simp add: sending_def)
    from E [OF _ this] show ?case by simp
  next
    case (reply us r)
    note one = one [OF reply(1), of r]
    show ?case
    proof (rule wp_bind, rule wp_check, goal_cases failure okay)
      case failure
      with one have "sending fd file b 0 (us @ [Sys Sendto ?args (Some r)] @ [Complain ''sendto:''])"
        by (simp add: sending_def)
      from E [OF _ this] show ?case by simp
    next
      case okay
      let ?us = "us @ [Sys Sendto ?args (Some r)]"
      have s: "sending fd file b 1 ?us" using one okay by simp
      have t: "sending fd file b 1 (?us @ [Sys Setitimer [I 500000] q])" for q
        using s by (simp add: sending_def)
      show ?case
      proof (rule wp_bind, rule wp_sys, goal_cases wait reply)
        case wait
        from E [OF _ t] show ?case by simp
      next
        case (reply q)
        show ?case
        proof (rule wp_loop [where J = "\<lambda>_ h'. \<exists>us. h' = h @ us \<and> sending fd file b 1 us"], goal_cases body start step)
          case (body u)
          show ?case by (intro within_intros)
        next
          case start
          from t [of "Some q"] show ?case by (intro exI [of _ "?us @ [Sys Setitimer [I 500000] (Some q)]"]) simp
        next
          case (step u h')
          then obtain us where us: "h' = h @ us" "sending fd file b 1 us" by blast
          have e: "sending fd file b 1 (us @ [Sys Recv args q])" for args q
            using us(2) by simp
          have c: "E c (h @ us @ [Sys Recv args q] @ [Complain m])" for args q c m
            using E [of 1 "us @ [Sys Recv args q] @ [Complain m]" c] e [of args q]
            by (simp add: sending_def)
          show ?case
            unfolding us(1)
            using e E [OF _ e] Q [OF e] c
            by (auto intro!: wp_bind wp_sys wp_if wp_return wp_err)
        qed
      qed
    qed
  qed
qed

lemma consuming_send [within_intros]: "consuming (sendAndConfirm fd dest b buf2 sz)" "consuming (send_chunk fd dest b k)"
proof -
  show c: "consuming (sendAndConfirm fd dest b buf2 sz)" for buf2 sz
    unfolding sendAndConfirm_def by (intro within_intros within_loop)
  show "consuming (send_chunk fd dest b k)"
    unfolding send_chunk_def
    by (rule consuming_loop) (simp add: case_prod_unfold, intro within_intros c)
qed

lemma within_send [within_intros]: "within (sendAndConfirm fd dest b buf2 sz)" "within (send_chunk fd dest b k)"
  by (intro consuming_within within_intros)+

lemma wp_send_chunk:
  assumes len: "length b = MAXBUF"
    and E: "\<And>n us c. n \<le> 6 \<Longrightarrow> sending fd file b n us \<Longrightarrow> E c (h @ us)"
    and Q: "\<And>buf2 n us. 1 \<le> n \<Longrightarrow> n \<le> 6 \<Longrightarrow> sending fd file b n us \<Longrightarrow> confirmed buf2 k \<or> n = 6 \<Longrightarrow>
        Q (buf2, int n) (h @ us)"
  shows "wp (send_chunk fd dest b k) Q E h"
  unfolding send_chunk_def
proof (rule wp_loop [where J = "\<lambda>(buf2, counter) h'. \<exists>us n. h' = h @ us \<and> counter = int n \<and> n \<le> 5 \<and> sending fd file b n us"],
    goal_cases body start step)
  case (body s)
  show ?case
    by (cases s) (simp, intro within_intros consuming_progressing)
next
  case start
  show ?case by (auto intro: exI [of _ "[]"])
next
  case (step s h')
  then obtain buf2 us n where s: "s = (buf2, int n)" "h' = h @ us" "n \<le> 5" "sending fd file b n us"
    by (cases s) auto
  show ?case
    unfolding s(1,2) prod.case
  proof (rule wp_bind, rule wp_sendAndConfirm [of b MAXBUF fd "file"], rule len, goal_cases E Q)
    case (E m vs c)
    then have "sending fd file b (n + m) (us @ vs)" "n + m \<le> 6"
      using sending_append [OF s(4)] s(3) by auto
    from assms(2) [OF this(2,1)] show ?case by simp
  next
    case (Q buf vs)
    then have r: "sending fd file b (n + 1) (us @ vs)" using sending_append [OF s(4)] by blast
    show ?case
    proof (rule wp_if, goal_cases again stop)
      case again
      with r show ?case by (intro wp_return) (auto intro!: exI [of _ "us @ vs"] exI [of _ "n + 1"])
    next
      case stop
      with r s(3) assms(3) [of "n + 1" "us @ vs" buf] show ?case
        by (intro wp_return) (auto simp: add.commute)
    qed
  qed
qed

lemma length_datagram: "length data \<le> CHUNK \<Longrightarrow> length (datagram k fin data) = MAXBUF"
  by (simp add: datagram_def CHUNK_def MAXBUF_def)

lemma length_chunk: "length (chunk data i) \<le> CHUNK"
  by (simp add: chunk_def)

lemma chunk_more: "CHUNK * (i + 1) \<le> length data \<Longrightarrow> chunk (data @ x) i = chunk data i"
  by (simp add: chunk_def)

lemma transmitted_cong:
  "(\<And>i. i < m \<Longrightarrow> ns i = ns' i) \<Longrightarrow> (\<And>i. i < m \<Longrightarrow> chunk data i = chunk data' i) \<Longrightarrow>
   transmitted data m ns = transmitted data' m ns'"
  unfolding transmitted_def file_datagram_def last_chunk_def by (auto intro!: arg_cong [of _ _ concat])

lemma transmitted_Suc: "transmitted data (Suc m) ns = transmitted data m ns @ replicate (ns m) (file_datagram data m)"
  by (simp add: transmitted_def)

text \<open>How far the client has come: all chunks before \<open>m\<close> are whole and sent, chunk \<open>m\<close> is perhaps read and sent.\<close>

definition progress :: "int \<Rightarrow> int \<Rightarrow> nat \<Rightarrow> (nat \<Rightarrow> nat) \<Rightarrow> event list \<Rightarrow> bool" where
  "progress fd file m ns h \<longleftrightarrow> seen (sent fd) h = transmitted (seen (came_in file) h) m ns
     \<and> (\<forall>i < m. 1 \<le> ns i \<and> ns i \<le> 6) \<and> m \<le> 2147483647"

definition delivered :: "int \<Rightarrow> int \<Rightarrow> event list \<Rightarrow> bool" where
  "delivered fd file h \<longleftrightarrow> (\<exists>m ns. progress fd file m ns h \<and> m \<le> length (seen (came_in file) h) div CHUNK + 1)"

lemma CHUNK_pos [simp]: "0 < CHUNK"
  by (simp add: CHUNK_def MAXBUF_def)

lemma reading_sends: "calls_on Read file tr \<Longrightarrow> seen (sent fd) tr = []"
  by (erule seen_calls_on) simp

lemma progress_read:
  assumes p: "progress fd file m ns h" and len: "length (seen (came_in file) h) = CHUNK * m"
    and tr: "calls_on Read file tr"
  shows "progress fd file m ns (h @ tr)" "delivered fd file (h @ tr)" "delivered fd file (h @ tr @ [Complain c])"
proof -
  have ch: "chunk (seen (came_in file) h @ x) i = chunk (seen (came_in file) h) i" if "i < m" for i x
  proof (rule chunk_more)
    have "CHUNK * (i + 1) \<le> CHUNK * m" using that by (intro mult_le_mono2) simp
    then show "CHUNK * (i + 1) \<le> length (seen (came_in file) h)" by (simp only: len)
  qed
  show pr: "progress fd file m ns (h @ tr)"
    using p ch unfolding progress_def by (auto simp: reading_sends [OF tr] intro: transmitted_cong)
  have le: "m \<le> length (seen (came_in file) (h @ tr)) div CHUNK + 1"
    using len by (simp add: trans_le_add1 div_add1_eq)
  with pr show "delivered fd file (h @ tr)" unfolding delivered_def by blast
  with pr le show "delivered fd file (h @ tr @ [Complain c])"
    unfolding delivered_def progress_def by auto
qed

lemma progress_send:
  assumes p: "progress fd file m ns h" and len: "length (seen (came_in file) h) div CHUNK = m \<or> length (seen (came_in file) h) = CHUNK * (m + 1)"
    and s: "sending fd file (file_datagram (seen (came_in file) h) m) n us" "n \<le> 6" and bound: "m \<noteq> 2147483647"
  shows "delivered fd file (h @ us)" "1 \<le> n \<Longrightarrow> progress fd file (Suc m) (ns(m := n)) (h @ us)"
proof -
  have m: "m \<le> length (seen (came_in file) h) div CHUNK" using len by auto
  have t: "transmitted data m (ns(m := n)) = transmitted data m ns" for data
    by (rule transmitted_cong) auto
  show more: "progress fd file (Suc m) (ns(m := n)) (h @ us)" if "1 \<le> n"
    using p s that bound by (auto simp: progress_def sending_def transmitted_Suc t less_Suc_eq)
  show "delivered fd file (h @ us)"
  proof (cases "1 \<le> n")
    case True
    from more [OF this] m s show ?thesis
      unfolding delivered_def by (intro exI [of _ "Suc m"] exI [of _ "ns(m := n)"]) (simp add: sending_def)
  next
    case False
    then have "progress fd file m ns (h @ us)" using p s by (simp add: progress_def sending_def)
    with m s show ?thesis
      unfolding delivered_def by (intro exI [of _ m] exI [of _ ns]) (simp add: sending_def)
  qed
qed

lemma wp_doClient: "wp (doClient fd dest file) (\<lambda>_. delivered fd file) (\<lambda>_. delivered fd file) []"
  unfolding doClient_def CHUNK_def [symmetric]
proof (rule wp_loop [where J = "\<lambda>(k, fin) h. \<exists>m ns. k = int m \<and> fin = 0 \<and> progress fd file m ns h
    \<and> length (seen (came_in file) h) = CHUNK * m"], goal_cases body start step)
  case (body s)
  show ?case
    by (cases s) (simp add: Let_def, intro within_intros)
next
  case start
  show ?case by (simp add: progress_def transmitted_def)
next
  case (step s h)
  then obtain m ns where s: "s = (int m, 0)" and p: "progress fd file m ns h" and len: "length (seen (came_in file) h) = CHUNK * m"
    by (cases s) auto
  note rd = progress_read [OF p len]
  show ?case
    unfolding s prod.case
  proof (rule wp_bind, rule wp_bulk_read, goal_cases wait fail ok)
    case (wait tr)
    then show ?case by (intro rd)
  next
    case (fail tr e)
    then show ?case by (auto intro!: wp_err rd)
  next
    case (ok tr bs)
    let ?data = "seen (came_in file) (h @ tr)"
    have ch: "chunk ?data m = bs"
      using ok(2,3) len by (simp add: chunk_def)
    have dl: "length ?data = CHUNK * m + length bs" using ok(2) len by simp
    have lc: "last_chunk ?data m \<longleftrightarrow> length bs < CHUNK" unfolding last_chunk_def ch ..
    have dg: "datagram (int m + 1) (if length bs < CHUNK then 1 else 0) bs = file_datagram ?data m"
      unfolding file_datagram_def ch lc by simp
    have L: "length ?data div CHUNK = m \<or> length ?data = CHUNK * (m + 1)"
      using dl ok(3) by (cases "length bs = CHUNK") simp_all
    have ld: "length (file_datagram ?data m) = MAXBUF"
      unfolding file_datagram_def by (intro length_datagram length_chunk)
    note snd = progress_send [OF rd(1) [OF ok(1)] L]
    show ?case
      unfolding sum.case Let_def dg
    proof (rule wp_if, goal_cases overflow fine)
      case overflow
      show ?case
        using rd(3) [OF ok(1)] by (auto intro!: wp_undefined)
    next
      case fine
      then have "m \<noteq> 2147483647" by auto
      note snd = snd [OF _ _ this]
      show ?case
      proof (rule wp_bind, rule wp_send_chunk [of _ fd "file"], rule ld, goal_cases E Q)
        case (E n us c)
        then show ?case using snd(1) by blast
      next
        case (Q buf2 n us)
        note d = snd(1) [OF Q(3,2)] and pr = snd(2) [OF Q(3,2,1)]
        have same: "seen (came_in file) us = []" using Q(3) by (simp add: sending_def)
        show ?case
          unfolding prod.case
        proof (rule wp_if, goal_cases giveup okay)
          case giveup
          with d show ?case by (auto intro: wp_return)
        next
          case okay
          show ?case
          proof (rule wp_if, goal_cases more over)
            case more
            then have "length (seen (came_in file) ((h @ tr) @ us)) = CHUNK * Suc m"
              using dl same by simp
            with pr more show ?case
              by (intro wp_return) (auto intro!: exI [of _ "Suc m"] exI [of _ "ns(m := n)"])
          next
            case over
            with d show ?case by (auto intro: wp_return)
          qed
        qed
      qed
    qed
  qed
qed

text \<open>
  C18. The client of \<open>2_client.c\<close>: whatever the network and the file system answer, the datagrams it
  has sent, up to wherever its run is cut off, are those of the file's chunks 1, 2, ..., m in this
  order, each at least once and at most six times, with number, last mark, the bytes read from the
  file and zeros behind a short last chunk; it sends no chunk beyond the file.
\<close>

theorem client_sends_file:
  assumes "doClient fd dest file rs = (x, h, rs')"
  shows "\<exists>m ns. seen (sent fd) h = transmitted (seen (came_in file) h) m ns \<and> (\<forall>i < m. 1 \<le> ns i \<and> ns i \<le> 6)
    \<and> m \<le> length (seen (came_in file) h) div CHUNK + 1 \<and> m \<le> 2147483647"
proof -
  have "delivered fd file h"
    using wp_runs [OF wp_doClient assms] by (cases x) auto
  then show ?thesis by (auto simp: delivered_def progress_def)
qed

definition lossy_network :: "reply list" where
  "lossy_network = [Bytes [72, 105], Bytes [], Done 576, Done 0, Caught 14, Done 576, Done 0, Bytes [0, 0, 0, 1]]"

lemma client_sends_file_witness:
  "\<exists>h m ns. doClient 3 (''localhost'', ''2000'') 4 lossy_network = (Val (), h, [])
    \<and> length (seen (sent 3) h) = 2 \<and> seen (sent 3) h = transmitted (seen (came_in 4) h) m ns"
proof -
  define h where "h = fst (snd (doClient 3 (''localhost'', ''2000'') 4 lossy_network))"
  have "(case doClient 3 (''localhost'', ''2000'') 4 lossy_network of (x, h, rs) \<Rightarrow> x = Val () \<and> rs = []
      \<and> length (seen (sent 3) h) = 2)"
    by code_simp
  then have r: "doClient 3 (''localhost'', ''2000'') 4 lossy_network = (Val (), h, [])" "length (seen (sent 3) h) = 2"
    by (auto simp: h_def split: prod.splits)
  from client_sends_file [OF r(1)] r show ?thesis by blast
qed

section \<open>Client and server together\<close>

lemma words_of_datagram:
  "word_at (datagram k fin data) 0 = word_of_int k" "word_at (datagram k fin data) 1 = word_of_int fin"
  "drop 8 (datagram k fin data) = data @ replicate (MAXBUF - 8 - length data) 0"
proof -
  have m: "mem_of [htonl a, htonl b] = bytes_le (htonl a) @ bytes_le (htonl b)" for a b
    by (simp add: mem_of_def)
  show "word_at (datagram k fin data) 0 = word_of_int k" "word_at (datagram k fin data) 1 = word_of_int fin"
    "drop 8 (datagram k fin data) = data @ replicate (MAXBUF - 8 - length data) 0"
    unfolding datagram_def m word_at_def by (simp_all add: bytes_le_bytes ntohl_def)
qed

lemma chunk_text_datagram:
  assumes "i < 2147483647"
  shows "chunk_text past (sint (word_at (file_datagram data i) 0)) (word_at (file_datagram data i) 1 \<noteq> 0) (file_datagram data i)
    = Print (if last_chunk data i then ''Last Part %d %s'' else ''Part %d %s'')
        [I (int i + 1), B (c_text past (chunk data i @ replicate (CHUNK - length (chunk data i)) 0))]"
proof -
  have "int32 (int i + 1)" using assms by (simp add: int32_def)
  then show ?thesis
    unfolding chunk_text_def file_datagram_def words_of_datagram CHUNK_def
    by (simp only: sint_int32) simp
qed





end
