(* ===== verification/Chat.thy ===== *)
theory Chat
  imports EventLoop
begin

text \<open>
  The chat server of \<open>Lab - 8\<close> (\<open>sop-chat (1).c\<close>): clients that present the key get one of four
  places; what one of them sends goes to all the others. A message has 64 bytes of name and 448
  bytes of text.
\<close>

section \<open>The program\<close>

definition BACKLOG_SIZE :: int where "BACKLOG_SIZE = 10"
definition MAX_CLIENT_COUNT :: nat where "MAX_CLIENT_COUNT = 4"
definition MAX_EVENTS :: nat where "MAX_EVENTS = 10"
definition NAME_SIZE :: nat where "NAME_SIZE = 64"
definition MESSAGE_SIZE :: nat where "MESSAGE_SIZE = 448"
definition BUFF_SIZE :: nat where "BUFF_SIZE = NAME_SIZE + MESSAGE_SIZE"

record client_t =
  sock :: int
  username :: "int list"

text \<open>\<open>strncpy\<close> of \<open>n\<close> bytes and a zero in the last place: the string that is then there.\<close>

definition string_at :: "nat \<Rightarrow> int list \<Rightarrow> int list" where
  "string_at n buf = takeWhile (\<lambda>b. b \<noteq> 0) (take (n - 1) buf)"

definition bytes_of_string :: "string \<Rightarrow> int list" where
  "bytes_of_string s = map of_char s"

fun first_free :: "client_t list \<Rightarrow> nat option" where
  "first_free [] = None"
| "first_free (c # cs) = (if sock c = -1 then Some 0 else map_option Suc (first_free cs))"

fun slot_of :: "int \<Rightarrow> client_t list \<Rightarrow> nat option" where
  "slot_of fd [] = None"
| "slot_of fd (c # cs) = (if sock c = fd then Some 0 else map_option Suc (slot_of fd cs))"

text \<open>The result of \<open>close\<close> is not looked at here.\<close>

definition close_quietly :: "int \<Rightarrow> unit io" where
  "close_quietly fd = bind (sys Close [I fd]) (\<lambda>_. return ())"

definition add_authorized_user :: "int \<Rightarrow> string \<Rightarrow> client_t list \<Rightarrow> (client_t list \<times> int) io" where
  "add_authorized_user server_fd key clients =
     bind (add_new_client server_fd) (\<lambda>client_fd.
     bind (uninit BUFF_SIZE) (\<lambda>buf.
     bind (bulk_read client_fd BUFF_SIZE) (\<lambda>r.
     case r of
       Inl e \<Rightarrow> err ''read''
     | Inr bs \<Rightarrow>
         let buf = overwrite buf bs; client_name = string_at NAME_SIZE buf;
             message = string_at MESSAGE_SIZE (drop NAME_SIZE buf) in
         bind (tell (Print ''User:%s Key:%s'' [B client_name, B message])) (\<lambda>_.
         if message \<noteq> bytes_of_string key
         then bind (tell (Print ''Not authorized, closing connection'' [])) (\<lambda>_.
              bind (close_quietly client_fd) (\<lambda>_. return (clients, -1)))
         else
           bind (tell (Print ''%s has successfully connected'' [B client_name])) (\<lambda>_.
           case first_free clients of
             None \<Rightarrow> bind (close_quietly client_fd) (\<lambda>_. return (clients, -1))
           | Some i \<Rightarrow>
               let clients = clients[i := \<lparr>sock = client_fd, username = client_name\<rparr>] in
               bind (bulk_write client_fd buf) (\<lambda>w.
               case w of Inl e \<Rightarrow> err ''write'' | Inr n \<Rightarrow> return (clients, client_fd)))))))"

text \<open>The inner loop of \<open>do_server\<close>: to every connected client but the sender.\<close>

definition broadcast :: "int \<Rightarrow> int list \<Rightarrow> client_t list \<Rightarrow> unit io" where
  "broadcast fd buf clients =
     for_each clients (\<lambda>c u.
       if sock c \<noteq> -1 \<and> sock c \<noteq> fd
       then bind (bulk_write (sock c) buf) (\<lambda>w. case w of Inl e \<Rightarrow> err ''write'' | Inr n \<Rightarrow> return ())
       else return ()) ()"

definition disconnect :: "int \<Rightarrow> client_t list \<Rightarrow> client_t list io" where
  "disconnect fd clients =
     (case slot_of fd clients of
        None \<Rightarrow> return clients
      | Some j \<Rightarrow>
          bind (close_quietly fd) (\<lambda>_.
          bind (tell (Print ''%s has disconnected'' [B (username (clients ! j))])) (\<lambda>_.
          return (clients[j := (clients ! j)\<lparr>sock := -1\<rparr>]))))"

definition from_client :: "int list \<Rightarrow> int \<Rightarrow> int \<Rightarrow> client_t list \<Rightarrow> client_t list io" where
  "from_client past epoll_fd fd clients =
     bind (uninit BUFF_SIZE) (\<lambda>buf.
     bind (bulk_read fd BUFF_SIZE) (\<lambda>ret.
     case ret of
       Inl e \<Rightarrow> if e \<noteq> EAGAIN then err ''recv'' else return clients
     | Inr bs \<Rightarrow>
         if bs \<noteq> []
         then let buf = overwrite buf bs in
              bind (tell (Print ''%.*s: %s'' [B (takeWhile (\<lambda>b. b \<noteq> 0) (take NAME_SIZE buf)), B (c_text past (drop NAME_SIZE buf))])) (\<lambda>_.
              bind (broadcast fd buf clients) (\<lambda>_. return clients))
         else bind (sys EpollCtl [I epoll_fd, S ''DEL'', I fd]) (\<lambda>r.
              bind (check ''epoll_ctl'' r) (\<lambda>_. disconnect fd clients))))"

definition chat_event :: "int list \<Rightarrow> int \<Rightarrow> int \<Rightarrow> string \<Rightarrow> int \<Rightarrow> client_t list \<Rightarrow> client_t list io" where
  "chat_event past epoll_fd server_fd key fd clients =
     (if fd = server_fd
      then bind (add_authorized_user server_fd key clients) (\<lambda>(clients, client_fd).
           if 0 \<le> client_fd
           then bind (sys EpollCtl [I epoll_fd, S ''ADD'', I client_fd]) (\<lambda>r.
                bind (check ''epoll_ctl'' r) (\<lambda>_. return clients))
           else return clients)
      else from_client past epoll_fd fd clients)"

text \<open>SIGINT is blocked but for the wait; it sets \<open>interrupted\<close>, which ends the loop.\<close>

definition chat_error :: "reply \<Rightarrow> client_t list \<Rightarrow> (client_t list + client_t list) io" where
  "chat_error r clients = (if errno_of r = EINTR \<and> r = Caught SIGINT then return (Inr clients) else err ''epoll_pwait'')"

definition do_server :: "int list \<Rightarrow> client_t list \<Rightarrow> int \<Rightarrow> string \<Rightarrow> unit io" where
  "do_server past clients server_fd key =
     bind (sys Sigaction [I SIGINT, S ''signal_handler'']) (\<lambda>r. bind (check ''sigaction'' r) (\<lambda>_.
     bind (sys Sigprocmask [S ''SIG_BLOCK'', I SIGINT]) (\<lambda>_.
     bind (sys EpollCreate []) (\<lambda>r. let epoll_fd = val_of r in
     bind (sys EpollCtl [I epoll_fd, S ''ADD'', I server_fd]) (\<lambda>r.
     bind (if val_of r \<noteq> 0 then err ''epoll_ctl'' else return ()) (\<lambda>_.
     bind (event_loop epoll_fd MAX_EVENTS (chat_event past epoll_fd server_fd key) chat_error
             (map (\<lambda>c. c\<lparr>sock := -1\<rparr>) clients)) (\<lambda>clients.
     for_each clients (\<lambda>c u. if sock c \<noteq> -1 then close_quietly (sock c) else return ()) ())))))))"

definition chat_usage :: "'a io" where
  "chat_usage = bind (tell (Complain ''USAGE: %s port key'')) (\<lambda>_. exit_with 1)"

definition chat_main :: "int list \<Rightarrow> client_t list \<Rightarrow> string list \<Rightarrow> int io" where
  "chat_main past clients argv =
     bind (if length argv \<noteq> 3 then chat_usage else return ()) (\<lambda>_.
     let port = atoi (argv ! 1) mod 65536 in
     bind (if port = 0 then chat_usage else return ()) (\<lambda>_.
     bind (bind_tcp_socket port BACKLOG_SIZE) (\<lambda>server_fd.
     bind (do_server past clients server_fd (argv ! 2)) (\<lambda>_.
     bind (close_quietly server_fd) (\<lambda>_. return 0)))))"

section \<open>Who may be written to\<close>

text \<open>
  An observer of the history: the descriptor accepted last, the open descriptors that presented the
  key, whether every write went to one of these, and whether the kernel kept its word that a newly
  accepted descriptor is not one of the open ones.
\<close>

record watch =
  accepted :: int
  members :: "int set"
  all_members :: bool
  kernel_sound :: bool

fun watch_event :: "string \<Rightarrow> watch \<Rightarrow> event \<Rightarrow> watch" where
  "watch_event key w (Sys c (I fd # args) (Some r)) =
     (if c = Accept
      then w\<lparr>accepted := val_of r, kernel_sound := kernel_sound w \<and> (val_of r = -1 \<or> val_of r \<notin> members w)\<rparr>
      else if c = Write then w\<lparr>all_members := all_members w \<and> fd \<in> members w\<rparr>
      else if c = Close then w\<lparr>members := members w - {fd}\<rparr>
      else w)"
| "watch_event key w (Print f [B name, B k]) =
     (if f = ''User:%s Key:%s'' \<and> k = bytes_of_string key then w\<lparr>members := insert (accepted w) (members w)\<rparr> else w)"
| "watch_event key w e = w"

definition watched :: "string \<Rightarrow> event list \<Rightarrow> watch" where
  "watched key h = foldl (watch_event key) \<lparr>accepted = 0, members = {}, all_members = True, kernel_sound = True\<rparr> h"

definition okay :: "string \<Rightarrow> event list \<Rightarrow> bool" where
  "okay key h \<longleftrightarrow> kernel_sound (watched key h) \<longrightarrow> all_members (watched key h)"

definition socks :: "client_t list \<Rightarrow> int list" where
  "socks clients = filter (\<lambda>s. s \<noteq> -1) (map sock clients)"

definition chat_inv :: "string \<Rightarrow> client_t list \<Rightarrow> event list \<Rightarrow> bool" where
  "chat_inv key clients h \<longleftrightarrow> (kernel_sound (watched key h) \<longrightarrow>
     all_members (watched key h) \<and> distinct (socks clients) \<and> set (socks clients) \<subseteq> members (watched key h))"

lemma inv_okay: "chat_inv key clients h \<Longrightarrow> okay key h"
  by (simp add: chat_inv_def okay_def)

lemma watched_snoc: "watched key (h @ [e]) = watch_event key (watched key h) e"
  by (simp add: watched_def)

lemma watched_quiet [simp]:
  "watched key (h @ [Complain m]) = watched key h"
  "c \<notin> {Accept, Write, Close} \<Longrightarrow> watched key (h @ [Sys c args r]) = watched key h"
  "watched key (h @ [Sys c args None]) = watched key h"
  "f \<noteq> ''User:%s Key:%s'' \<Longrightarrow> watched key (h @ [Print f args']) = watched key h"
proof -
  show "c \<notin> {Accept, Write, Close} \<Longrightarrow> watched key (h @ [Sys c args r]) = watched key h"
    unfolding watched_snoc by (cases "(key, watched key h, Sys c args r)" rule: watch_event.cases) auto
  show "watched key (h @ [Sys c args None]) = watched key h"
    unfolding watched_snoc by (cases "(key, watched key h, Sys c args None)" rule: watch_event.cases) auto
  show "f \<noteq> ''User:%s Key:%s'' \<Longrightarrow> watched key (h @ [Print f args']) = watched key h"
    unfolding watched_snoc by (cases "(key, watched key h, Print f args')" rule: watch_event.cases) auto
qed (simp add: watched_snoc)

lemma watched_reads: "calls_on Read fd tr \<Longrightarrow> watched key (h @ tr) = watched key h"
proof (induction tr rule: rev_induct)
  case (snoc e tr)
  then obtain args r where "e = Sys Read (I fd # args) r" by (auto simp: calls_on_def)
  with snoc show ?case by (simp add: append_assoc [symmetric] del: append_assoc)
qed simp

lemma watched_writes:
  "calls_on Write fd tr \<Longrightarrow> fd \<in> members (watched key h) \<Longrightarrow> watched key (h @ tr) = watched key h"
proof (induction tr rule: rev_induct)
  case (snoc e tr)
  then obtain args r where "e = Sys Write (I fd # args) r" by (auto simp: calls_on_def)
  with snoc show ?case
    by (cases r) (simp_all add: append_assoc [symmetric] watched_snoc del: append_assoc)
qed simp

lemma watched_sound_writes:
  "calls_on Write fd tr \<Longrightarrow> kernel_sound (watched key (h @ tr)) = kernel_sound (watched key h)"
proof (induction tr rule: rev_induct)
  case (snoc e tr)
  then obtain args r where "e = Sys Write (I fd # args) r" by (auto simp: calls_on_def)
  with snoc show ?case
    by (cases r) (simp_all add: append_assoc [symmetric] watched_snoc del: append_assoc)
qed simp

lemma watched_attempts: "attempts Accept [I fd] us \<Longrightarrow> kernel_sound (watched key (h @ us)) \<Longrightarrow>
    kernel_sound (watched key h) \<and> members (watched key (h @ us)) = members (watched key h)
    \<and> all_members (watched key (h @ us)) = all_members (watched key h)"
proof (induction us rule: rev_induct)
  case (snoc e us)
  then obtain r where "e = Sys Accept [I fd] (Some r)" by (auto simp: attempts_def)
  with snoc show ?case by (simp add: append_assoc [symmetric] watched_snoc attempts_def del: append_assoc)
qed simp

text \<open>A piece of the history that the observer does not notice, while the kernel keeps its word.\<close>

definition unnoticed :: "string \<Rightarrow> event list \<Rightarrow> event list \<Rightarrow> bool" where
  "unnoticed key h h' \<longleftrightarrow> (kernel_sound (watched key h') \<longrightarrow> watched key h' = watched key h)"

lemma unnoticed_keeps: "unnoticed key h h' \<Longrightarrow> chat_inv key clients h \<Longrightarrow> chat_inv key clients h'"
  unfolding unnoticed_def chat_inv_def by (cases "kernel_sound (watched key h')") simp_all

lemma unnoticed_okay: "unnoticed key h h' \<Longrightarrow> okay key h \<Longrightarrow> okay key h'"
  unfolding unnoticed_def okay_def by (cases "kernel_sound (watched key h')") simp_all

lemma member_writes:
  assumes "calls_on Write fd tr" and "kernel_sound (watched key h) \<longrightarrow> fd \<in> members (watched key h)"
  shows "unnoticed key h (h @ tr)"
  using assms watched_writes [OF assms(1)] watched_sound_writes [OF assms(1)] unfolding unnoticed_def by auto

lemma okay_quiet [simp]:
  "okay key (h @ [Complain m]) = okay key h"
  "okay key ((h @ tr) @ [Complain m]) = okay key (h @ tr)"
  "okay key (h @ [Sys c args None]) = okay key h"
  by (simp_all add: okay_def append_assoc [symmetric] del: append_assoc)

lemma chat_quiet [simp]:
  "chat_inv key clients (h @ [Complain m]) = chat_inv key clients h"
  "c \<notin> {Accept, Write, Close} \<Longrightarrow> chat_inv key clients (h @ [Sys c args r]) = chat_inv key clients h"
  "f \<noteq> ''User:%s Key:%s'' \<Longrightarrow> chat_inv key clients (h @ [Print f args']) = chat_inv key clients h"
  by (simp_all add: chat_inv_def)

lemma wp_write_member:
  assumes ok: "okay key h" and m: "kernel_sound (watched key h) \<longrightarrow> fd \<in> members (watched key h)"
    and Q: "\<And>n h'. unnoticed key h h' \<Longrightarrow> wp (f n) Q (\<lambda>_. okay key) h'"
  shows "wp (bind (bulk_write fd buf) (\<lambda>w. case w of Inl e \<Rightarrow> err msg | Inr n \<Rightarrow> f n)) Q (\<lambda>_. okay key) h"
proof (rule wp_bind, rule wp_bulk_write, goal_cases wait failure okay)
  case (wait tr)
  show ?case using unnoticed_okay [OF member_writes [OF wait(1) m] ok] .
next
  case (failure tr e)
  then show ?case using unnoticed_okay [OF member_writes [OF failure(1) m] ok]
    unfolding sum.case by (intro wp_err) (simp only: okay_quiet)
next
  case (okay tr)
  show ?case using Q [OF member_writes [OF okay(1) m]] by simp
qed

lemma wp_broadcast:
  assumes "chat_inv key clients h"
  shows "wp (broadcast fd buf clients) (\<lambda>_. chat_inv key clients) (\<lambda>_. okay key) h"
  unfolding broadcast_def
proof (rule wp_for_each [where J = "\<lambda>cs u h'. chat_inv key clients h' \<and> set cs \<subseteq> set clients"], goal_cases start step stop)
  case (step c cs u h')
  show ?case
  proof (rule wp_if, goal_cases other skip)
    case other
    have "kernel_sound (watched key h') \<longrightarrow> sock c \<in> members (watched key h')"
      using step other by (auto simp: chat_inv_def socks_def)
    then show ?case
    proof (rule wp_write_member [rotated])
      show "okay key h'" using step by (intro inv_okay [of key clients]) simp
      show "wp (return ()) (\<lambda>_ h'. chat_inv key clients h' \<and> set cs \<subseteq> set clients) (\<lambda>_. okay key) h''"
        if "unnoticed key h' h''" for h''
        using unnoticed_keeps [OF that] step by (intro wp_return) simp
    qed
  qed (use step in \<open>auto intro: wp_return\<close>)
qed (use assms in auto)

lemma slot_of_Some: "slot_of fd cs = Some j \<Longrightarrow> j < length cs \<and> sock (cs ! j) = fd"
  by (induction cs arbitrary: j) (auto split: if_splits)

lemma first_free_Some: "first_free cs = Some j \<Longrightarrow> j < length cs \<and> sock (cs ! j) = -1"
  by (induction cs arbitrary: j) (auto split: if_splits)

lemma socks_append: "socks (cs @ ds) = socks cs @ socks ds" "socks (c # cs) = (if sock c = -1 then [] else [sock c]) @ socks cs"
  by (simp_all add: socks_def)

lemma socks_update:
  assumes "j < length cs"
  shows "\<exists>xs ys. socks cs = xs @ (if sock (cs ! j) = -1 then [] else [sock (cs ! j)]) @ ys
     \<and> (\<forall>c. socks (cs[j := c]) = xs @ (if sock c = -1 then [] else [sock c]) @ ys)"
proof (rule exI [of _ "socks (take j cs)"], rule exI [of _ "socks (drop (Suc j) cs)"], intro conjI allI)
  show "socks cs = socks (take j cs) @ (if sock (cs ! j) = -1 then [] else [sock (cs ! j)]) @ socks (drop (Suc j) cs)"
    using arg_cong [OF id_take_nth_drop [OF assms], of socks] by (simp only: socks_append)
  show "socks (cs[j := c]) = socks (take j cs) @ (if sock c = -1 then [] else [sock c]) @ socks (drop (Suc j) cs)" for c
    by (simp only: upd_conv_take_nth_drop [OF assms] socks_append)
qed

lemma wp_disconnect:
  assumes "chat_inv key clients h"
  shows "wp (disconnect fd clients) (chat_inv key) (\<lambda>_. okay key) h"
proof (cases "slot_of fd clients")
  case None
  with assms show ?thesis by (simp add: disconnect_def wp_return)
next
  case (Some j)
  note j = slot_of_Some [OF Some]
  from socks_update [OF conjunct1 [OF j]] obtain xs ys where
    xy: "socks clients = xs @ (if sock (clients ! j) = -1 then [] else [sock (clients ! j)]) @ ys"
      "\<And>c. socks (clients[j := c]) = xs @ (if sock c = -1 then [] else [sock c]) @ ys" by blast
  have fd: "fd \<notin> set (xs @ ys)" if "distinct (socks clients)"
  proof (cases "fd = -1")
    case True
    have "-1 \<notin> set (socks clients)" by (simp add: socks_def)
    with True xy(1) show ?thesis by auto
  next
    case False
    with that xy(1) j show ?thesis by auto
  qed
  have "chat_inv key (clients[j := (clients ! j)\<lparr>sock := -1\<rparr>]) (h @ [Sys Close [I fd] (Some r), Print ''%s has disconnected'' [B b]])" for r b
  proof -
    have w: "watched key (h @ [Sys Close [I fd] (Some r), Print ''%s has disconnected'' [B b]])
        = (watched key h)\<lparr>members := members (watched key h) - {fd}\<rparr>"
      using watched_quiet(4) [of "''%s has disconnected''" key "h @ [Sys Close [I fd] (Some r)]" "[B b]"]
      by (simp add: watched_snoc)
    have "distinct (xs @ ys)" "set (xs @ ys) \<subseteq> members (watched key h) - {fd}"
      if "distinct (socks clients)" "set (socks clients) \<subseteq> members (watched key h)"
      using that fd [OF that(1)] xy(1) by auto
    with assms show ?thesis
      by (simp add: chat_inv_def w xy(2))
  qed
  with Some inv_okay [OF assms] show ?thesis
    by (auto simp: disconnect_def close_quietly_def intro!: wp_bind wp_sys wp_return wp_tell)
qed

text \<open>A new client: the observer counts it in when it presents the key, and out when it is closed.\<close>

definition pending :: "string \<Rightarrow> int \<Rightarrow> client_t list \<Rightarrow> event list \<Rightarrow> bool" where
  "pending key v clients h \<longleftrightarrow> chat_inv key clients h \<and> accepted (watched key h) = v
     \<and> (kernel_sound (watched key h) \<longrightarrow> v = -1 \<or> v \<notin> set (socks clients))"

lemma pending_quiet [simp]:
  "pending key v clients (h @ [Complain m]) = pending key v clients h"
  "c \<notin> {Accept, Write, Close} \<Longrightarrow> pending key v clients (h @ [Sys c args r]) = pending key v clients h"
  "f \<noteq> ''User:%s Key:%s'' \<Longrightarrow> pending key v clients (h @ [Print f args']) = pending key v clients h"
  by (simp_all add: pending_def)

lemma pending_reads: "calls_on Read fd tr \<Longrightarrow> pending key v clients (h @ tr) = pending key v clients h"
  by (simp add: pending_def chat_inv_def watched_reads)

lemma pending_okay: "pending key v clients h \<Longrightarrow> okay key h"
  by (auto simp: pending_def intro: inv_okay)

lemma accepts_pending:
  assumes "chat_inv key clients h" and "attempts Accept [I fd] us"
  shows "okay key (h @ us @ [Sys Accept [I fd] None])"
    and "pending key (val_of r) clients (h @ us @ [Sys Accept [I fd] (Some r)])"
proof -
  note at = watched_attempts [OF assms(2), of key h]
  have "okay key (h @ us)"
    using at assms(1) by (auto simp: okay_def chat_inv_def)
  then show "okay key (h @ us @ [Sys Accept [I fd] None])"
    using okay_quiet(3) [of key "h @ us" Accept "[I fd]"] by simp
  have w: "watched key (h @ us @ [Sys Accept [I fd] (Some r)]) = watch_event key (watched key (h @ us)) (Sys Accept [I fd] (Some r))"
    using watched_snoc [of key "h @ us"] by simp
  show "pending key (val_of r) clients (h @ us @ [Sys Accept [I fd] (Some r)])"
    using at assms(1) unfolding pending_def chat_inv_def w by auto
qed

lemma pending_closed:
  assumes "pending key v clients h"
  shows "chat_inv key clients (h @ [Sys Close [I v] (Some r)])"
proof -
  have "-1 \<notin> set (socks clients)" by (simp add: socks_def)
  with assms show ?thesis
    by (auto simp: pending_def chat_inv_def watched_snoc)
qed

text \<open>After the key has been presented: counted in, and still in no place of the table.\<close>

lemma pending_presents:
  assumes "pending key v clients h"
  shows "pending key v clients (h @ [Print ''User:%s Key:%s'' [B n, B m]])"
    and "m = bytes_of_string key \<Longrightarrow> kernel_sound (watched key (h @ [Print ''User:%s Key:%s'' [B n, B m]])) \<Longrightarrow>
      v \<in> members (watched key (h @ [Print ''User:%s Key:%s'' [B n, B m]]))"
  using assms by (auto simp: pending_def chat_inv_def watched_snoc)

lemma wp_add_authorized_user:
  assumes inv: "chat_inv key clients h"
  shows "wp (add_authorized_user server_fd key clients) (\<lambda>(clients', fd). chat_inv key clients') (\<lambda>_. okay key) h"
  unfolding add_authorized_user_def
proof (rule wp_bind, rule wp_accept, goal_cases wait fail ok)
  case (wait us)
  show ?case by (rule accepts_pending(1) [OF inv wait])
next
  case (fail us r)
  have "okay key (h @ us @ [Sys Accept [I server_fd] (Some r)])"
    by (rule pending_okay [OF accepts_pending(2) [OF inv fail]])
  then show ?case using okay_quiet(1) [of key "h @ us @ [Sys Accept [I server_fd] (Some r)]"] by simp
next
  case (ok us r)
  define v where "v = val_of r"
  define h1 where "h1 = h @ us @ [Sys Accept [I server_fd] (Some r)]"
  have p1: "pending key v clients h1"
    unfolding v_def h1_def by (rule accepts_pending(2) [OF inv ok])
  show ?case
    unfolding v_def [symmetric] h1_def [symmetric]
  proof (rule wp_bind, rule wp_uninit, goal_cases wait ok)
    case wait
    show ?case using pending_okay [OF p1] by simp
  next
    case (ok r0 buf)
    define h2 where "h2 = h1 @ [Sys Uninit [I (int BUFF_SIZE)] (Some r0)]"
    have p2: "pending key v clients h2" unfolding h2_def using p1 by simp
    show ?case
      unfolding h2_def [symmetric]
    proof (rule wp_bind, rule wp_bulk_read, goal_cases wait fail ok)
      case (wait tr)
      then show ?case using p2 by (simp add: pending_reads pending_okay [of key v clients])
    next
      case (fail tr e)
      have "okay key (h2 @ tr)" using p2 fail(1) by (intro pending_okay [of key v clients]) (simp add: pending_reads)
      then show ?case unfolding sum.case by (intro wp_err) (simp only: okay_quiet)
    next
      case (ok tr bs)
      let ?buf = "overwrite buf bs"
      let ?name = "string_at NAME_SIZE ?buf" and ?msg = "string_at MESSAGE_SIZE (drop NAME_SIZE ?buf)"
      define h3 where "h3 = (h2 @ tr) @ [Print ''User:%s Key:%s'' [B ?name, B ?msg]]"
      have p3: "pending key v clients (h2 @ tr)" using p2 ok(1) by (simp add: pending_reads)
      note pr = pending_presents [OF p3, where n = ?name and m = ?msg, folded h3_def]
      have closes: "wp (bind (close_quietly v) (\<lambda>_. return (clients, -1))) (\<lambda>(clients', fd). chat_inv key clients') (\<lambda>_. okay key) h'"
        if "pending key v clients h'" for h'
        using pending_closed [OF that] pending_okay [OF that]
        by (auto simp: close_quietly_def intro!: wp_bind wp_sys wp_return)
      show ?case
        unfolding sum.case Let_def
      proof (rule wp_bind, rule wp_tell, fold h3_def, rule wp_if, goal_cases refused presented)
        case refused
        show ?case
          by (rule wp_bind, rule wp_tell, rule closes) (simp add: pr(1))
      next
        case presented
        define h4 where "h4 = h3 @ [Print ''%s has successfully connected'' [B ?name]]"
        have p4: "pending key v clients h4" unfolding h4_def using pr(1) by simp
        have m4: "kernel_sound (watched key h4) \<longrightarrow> v \<in> members (watched key h4)"
          unfolding h4_def using pr(2) presented by simp
        show ?case
        proof (rule wp_bind, rule wp_tell, fold h4_def, cases "first_free clients")
          case None
          show "wp (case first_free clients of
              None \<Rightarrow> bind (close_quietly v) (\<lambda>_. return (clients, - 1))
            | Some i \<Rightarrow> bind (bulk_write v ?buf) (\<lambda>w. case w of Inl e \<Rightarrow> err ''write''
                | Inr n \<Rightarrow> return (clients[i := \<lparr>sock = v, username = ?name\<rparr>], v)))
              (\<lambda>(clients', fd). chat_inv key clients') (\<lambda>_. okay key) h4"
            unfolding None option.case by (rule closes [OF p4])
        next
          case (Some i)
          note i = first_free_Some [OF Some]
          from socks_update [OF conjunct1 [OF i]] obtain xs ys where
            xy: "socks clients = xs @ (if sock (clients ! i) = -1 then [] else [sock (clients ! i)]) @ ys"
              "\<And>c. socks (clients[i := c]) = xs @ (if sock c = -1 then [] else [sock c]) @ ys" by blast
          have "chat_inv key (clients[i := \<lparr>sock = v, username = ?name\<rparr>]) h4"
            using p4 m4 i by (auto simp: pending_def chat_inv_def xy)
          then show "wp (case first_free clients of
              None \<Rightarrow> bind (close_quietly v) (\<lambda>_. return (clients, - 1))
            | Some i \<Rightarrow> bind (bulk_write v ?buf) (\<lambda>w. case w of Inl e \<Rightarrow> err ''write''
                | Inr n \<Rightarrow> return (clients[i := \<lparr>sock = v, username = ?name\<rparr>], v)))
              (\<lambda>(clients', fd). chat_inv key clients') (\<lambda>_. okay key) h4"
            unfolding Some option.case
            by (intro wp_write_member inv_okay m4) (auto intro: wp_return unnoticed_keeps)
        qed
      qed
    qed
  qed
qed

lemma wp_from_client:
  assumes inv: "chat_inv key clients h"
  shows "wp (from_client past epoll_fd fd clients) (chat_inv key) (\<lambda>_. okay key) h"
  unfolding from_client_def
proof (rule wp_bind, rule wp_uninit, goal_cases wait ok)
  case wait
  show ?case using inv_okay [OF inv] by simp
next
  case (ok r buf)
  define h1 where "h1 = h @ [Sys Uninit [I (int BUFF_SIZE)] (Some r)]"
  have i1: "chat_inv key clients h1" unfolding h1_def using inv by simp
  have rd: "chat_inv key clients (h1 @ tr)" if "calls_on Read fd tr" for tr
    using i1 that by (simp add: chat_inv_def watched_reads)
  show ?case
    unfolding h1_def [symmetric]
  proof (rule wp_bind, rule wp_bulk_read, goal_cases wait fail ok)
    case (wait tr)
    show ?case by (rule inv_okay [OF rd [OF wait(1)]])
  next
    case (fail tr e)
    have "okay key (h1 @ tr)" by (rule inv_okay [OF rd [OF fail(1)]])
    with rd [OF fail(1)] show ?case
      unfolding sum.case by (intro wp_if wp_err wp_return) (simp_all only: okay_quiet)
  next
    case (ok tr bs)
    note i2 = rd [OF ok(1)]
    show ?case
      unfolding sum.case
    proof (rule wp_if, goal_cases message ended)
      case message
      show ?case
        unfolding Let_def
      proof (rule wp_bind, rule wp_tell, rule wp_bind, rule wp_mono, rule wp_broadcast [of key], goal_cases inv okay error)
        case inv
        show ?case using i2 by (subst chat_quiet(3)) simp_all
      qed (auto intro: wp_return)
    next
      case ended
      have i3: "chat_inv key clients ((h1 @ tr) @ [Sys EpollCtl [I epoll_fd, S ''DEL'', I fd] q])" for q
        using i2 by (subst chat_quiet(2)) simp_all
      show ?case
      proof (rule wp_bind, rule wp_sys, goal_cases wait reply)
        case wait
        show ?case by (rule inv_okay [OF i3])
      next
        case (reply q)
        show ?case
          using inv_okay [OF i3 [of "Some q"]]
          by (intro wp_bind wp_check wp_disconnect i3) (simp only: okay_quiet)
      qed
    qed
  qed
qed

lemma wp_chat_event:
  assumes inv: "chat_inv key clients h"
  shows "wp (chat_event past epoll_fd server_fd key fd clients) (chat_inv key) (\<lambda>_. okay key) h"
  unfolding chat_event_def
proof (rule wp_if, goal_cases listening client)
  case listening
  show ?case
  proof (rule wp_bind, rule wp_mono, rule wp_add_authorized_user [OF inv], goal_cases added error)
    case (added a h')
    obtain clients' cfd where a: "a = (clients', cfd)" by (cases a)
    with added have i: "chat_inv key clients' h'" by simp
    have i': "chat_inv key clients' (h' @ [Sys EpollCtl [I epoll_fd, S ''ADD'', I cfd] q])" for q
      using i by simp
    show ?case
      unfolding a prod.case
    proof (rule wp_if, goal_cases new none)
      case new
      show ?case
      proof (rule wp_bind, rule wp_sys, goal_cases wait reply)
        case wait
        show ?case by (rule inv_okay [OF i'])
      next
        case (reply q)
        show ?case
          using inv_okay [OF i' [of "Some q"]]
          by (intro wp_bind wp_check wp_return i') (simp only: okay_quiet)
      qed
    qed (use i in \<open>rule wp_return\<close>)
  qed simp
next
  case client
  show ?case by (rule wp_from_client [OF inv])
qed

lemma chat_within [within_intros]: "within (chat_event past epoll_fd server_fd key fd clients)" "within (chat_error r clients)"
  unfolding chat_event_def chat_error_def add_authorized_user_def from_client_def broadcast_def disconnect_def close_quietly_def Let_def
  by (intro within_intros)+

interpretation chat: event_server "chat_event past epoll_fd server_fd key" chat_error "chat_inv key" "chat_inv key" "\<lambda>_. okay key"
  for past epoll_fd server_fd key
proof (unfold_locales, goal_cases waits reported handled stopped)
  case (waits clients h args)
  then show ?case by (simp add: inv_okay)
next
  case (reported clients h args r)
  then show ?case by simp
next
  case (handled clients h fd)
  then show ?case by (rule wp_chat_event)
next
  case (stopped clients h r)
  then show ?case
    by (auto simp: chat_error_def inv_okay intro!: wp_return wp_err)
qed (intro within_intros)+

section \<open>The whole server\<close>

text \<open>The loop at the end closes every descriptor of the table; there is no write after it.\<close>

lemma wp_close_all:
  assumes "okay key h"
  shows "wp (for_each cs (\<lambda>c u. if sock c \<noteq> -1 then close_quietly (sock c) else return ()) ()) (\<lambda>_. okay key) (\<lambda>_. okay key) h"
proof (rule wp_for_each [where J = "\<lambda>cs u. okay key"], goal_cases start step stop)
  case (step c cs u h)
  have "okay key (h @ [Sys Close [I (sock c)] (Some r)])" for r
    using step by (simp add: okay_def watched_snoc)
  with step show ?case
    by (auto simp: close_quietly_def intro!: wp_if wp_bind wp_sys wp_return)
qed (use assms in auto)

lemma wp_do_server: "wp (do_server past clients server_fd key) (\<lambda>_. okay key) (\<lambda>_. okay key) []"
proof -
  let ?J = "chat_inv key (map (\<lambda>c. c\<lparr>sock := -1\<rparr>) clients)"
  have start: "?J []"
    by (simp add: chat_inv_def watched_def socks_def filter_map comp_def)
  have sys: "wp (bind (sys c args) f) Q (\<lambda>_. okay key) h"
    if "?J h" "c \<notin> {Accept, Write, Close}" "\<And>r h. ?J h \<Longrightarrow> wp (f r) Q (\<lambda>_. okay key) h"
    for c args f h and Q :: "unit \<Rightarrow> event list \<Rightarrow> bool"
    by (rule wp_bind, rule wp_sys_quiet [where J = ?J]) (use that inv_okay in \<open>simp_all add: chat_quiet(2)\<close>)
  have checked: "wp (bind (check m r) f) Q (\<lambda>_. okay key) h"
    if "?J h" "\<And>v. wp (f v) Q (\<lambda>_. okay key) h" for m r f h and Q :: "unit \<Rightarrow> event list \<Rightarrow> bool"
    by (rule wp_bind, rule wp_check) (use that inv_okay in simp_all)
  have loop: "wp (bind (event_loop ep n (chat_event past ep server_fd key) chat_error (map (\<lambda>c. c\<lparr>sock := -1\<rparr>) clients))
      (\<lambda>clients. for_each clients (\<lambda>c u. if sock c \<noteq> -1 then close_quietly (sock c) else return ()) ()))
      (\<lambda>_. okay key) (\<lambda>_. okay key) h" if "?J h" for ep n h
    by (rule wp_bind, rule wp_mono, rule chat.loop_keeps, rule that) (auto intro: wp_close_all inv_okay)
  have stop: "wp (bind (if b then err m else return ()) f) Q (\<lambda>_. okay key) h"
    if "?J h" "wp (f ()) Q (\<lambda>_. okay key) h" for b m f h and Q :: "unit \<Rightarrow> event list \<Rightarrow> bool"
    by (rule wp_bind, rule wp_if) (use that inv_okay in \<open>simp_all add: wp_err wp_return\<close>)
  show ?thesis
    unfolding do_server_def Let_def
    by (intro sys start checked stop loop) simp_all
qed

text \<open>
  C20. The chat server of \<open>sop-chat\<close>, whatever clients and network do: as long as the kernel never
  hands out a descriptor that is still open, every write of the server goes to a descriptor that was
  accepted, has presented exactly the key, and has not been closed since; clients without the key
  get nothing at all.
\<close>

theorem chat_only_members:
  assumes "do_server past clients server_fd key rs = (x, h, rs')" and "kernel_sound (watched key h)"
  shows "all_members (watched key h)"
proof -
  have "okay key h"
    using wp_runs [OF wp_do_server assms(1)] by (cases x) auto
  with assms(2) show ?thesis by (simp add: okay_def)
qed

definition hello :: "reply" where
  "hello = Bytes (97 # replicate 63 0 @ bytes_of_string ''k'')"

text \<open>Two clients with the key \<open>k\<close>, one without it, then a message of the first one.\<close>

definition three_clients :: "reply list" where
  "three_clients =
     [Done 0, Done 0, Done 5, Done 0,
      Ready [3], Done 7, Bytes [], hello, Bytes [], Done 512, Done 0,
      Ready [3], Done 8, Bytes [], hello, Bytes [], Done 512, Done 0,
      Ready [3], Done 9, Bytes [], Bytes [1], Bytes [], Done 0,
      Ready [7], Bytes [], hello, Bytes [], Done 512,
      Caught 2, Done 0, Done 0]"

lemma chat_only_members_witness:
  "\<exists>h. do_server [] (replicate 4 \<lparr>sock = 0, username = []\<rparr>) 3 ''k'' three_clients = (Val (), h, [])
    \<and> kernel_sound (watched ''k'' h) \<and> all_members (watched ''k'' h) \<and> length (seen (went_out 8) h) = 1024 \<and> seen (went_out 9) h = []"
proof -
  let ?run = "do_server [] (replicate 4 \<lparr>sock = 0, username = []\<rparr>) 3 ''k'' three_clients"
  define h where "h = fst (snd ?run)"
  have "(case ?run of (x, h, rs) \<Rightarrow> x = Val () \<and> rs = [] \<and> kernel_sound (watched ''k'' h)
      \<and> length (seen (went_out 8) h) = 1024 \<and> seen (went_out 9) h = [])"
    by code_simp
  then have r: "?run = (Val (), h, [])" "kernel_sound (watched ''k'' h)" "length (seen (went_out 8) h) = 1024" "seen (went_out 9) h = []"
    by (auto simp: h_def split: prod.splits)
  from chat_only_members [OF r(1,2)] r show ?thesis by blast
qed

lemma written_only: "calls_on Write fd tr \<Longrightarrow> seen (went_out s) tr = (if s = fd then seen (went_out fd) tr else [])"
proof (cases "s = fd")
  case False
  assume "calls_on Write fd tr"
  then have "seen (went_out s) tr = []"
  proof (rule seen_calls_on)
    fix args r
    show "went_out s (Sys Write (I fd # args) r) = []"
      using False by (cases "(s, Sys Write (I fd # args) r)" rule: went_out.cases) auto
  qed
  with False show ?thesis by simp
qed simp

text \<open>
  C21. \<open>sop-chat\<close>, the relay of a message: when the inner loop of \<open>do_server\<close> returns, every connected
  client but the sender has got exactly the message, in full, and nobody else has got anything,
  whatever the sizes of the single writes.
\<close>

theorem broadcast_reaches_all_others:
  assumes "broadcast fd buf clients rs = (Val (), h, rs')" and "distinct (socks clients)"
  shows "seen (went_out s) h = (if s \<in> set (socks clients) \<and> s \<noteq> fd then buf else [])"
proof -
  let ?J = "\<lambda>cs (u :: unit) h. \<exists>ds. clients = ds @ cs
    \<and> (\<forall>s. seen (went_out s) h = (if s \<in> set (socks ds) \<and> s \<noteq> fd then buf else []))"
  have "wp (broadcast fd buf clients)
      (\<lambda>_ h. \<forall>s. seen (went_out s) h = (if s \<in> set (socks clients) \<and> s \<noteq> fd then buf else [])) (\<lambda>_ _. True) []"
    unfolding broadcast_def
  proof (rule wp_for_each [where J = ?J], goal_cases start step stop)
    case start
    show ?case by (intro exI [of _ "[]"]) (simp add: socks_def)
  next
    case (step c cs u h)
    then obtain ds where ds: "clients = ds @ c # cs"
      "\<And>s. seen (went_out s) h = (if s \<in> set (socks ds) \<and> s \<noteq> fd then buf else [])" by blast
    have so: "socks (ds @ [c]) = socks ds @ (if sock c = -1 then [] else [sock c])" by (simp add: socks_append socks_def)
    show ?case
    proof (rule wp_if, goal_cases other skip)
      case other
      have new: "sock c \<notin> set (socks ds)" using assms(2) other ds(1) by (auto simp: socks_append)
      show ?case
      proof (rule wp_bind, rule wp_bulk_write, goal_cases wait fail ok)
        case (ok tr)
        have "seen (went_out s) tr = (if s = sock c then buf else [])" for s
          using written_only [OF ok(1), of s] ok(2) by simp
        then have "\<forall>s. seen (went_out s) (h @ tr) = (if s \<in> set (socks (ds @ [c])) \<and> s \<noteq> fd then buf else [])"
          using ds(2) new other by (auto simp: so)
        then show ?case
          unfolding sum.case by (intro wp_return exI [of _ "ds @ [c]"]) (simp add: ds(1))
      qed (simp_all add: wp_err)
    next
      case skip
      then have "\<forall>s. seen (went_out s) h = (if s \<in> set (socks (ds @ [c])) \<and> s \<noteq> fd then buf else [])"
        using ds(2) by (auto simp: so)
      then show ?case by (intro wp_return exI [of _ "ds @ [c]"]) (simp add: ds(1))
    qed
  next
    case (stop u h)
    then show ?case by auto
  qed
  from wp_runs [OF this assms(1)] show ?thesis by simp
qed

lemma broadcast_reaches_all_others_witness:
  "\<exists>h. broadcast 7 [1, 2, 3] [\<lparr>sock = 7, username = []\<rparr>, \<lparr>sock = -1, username = []\<rparr>, \<lparr>sock = 8, username = []\<rparr>] [Done 1, Done 2]
      = (Val (), h, []) \<and> seen (went_out 8) h = [1, 2, 3] \<and> seen (went_out 7) h = []"
proof -
  let ?cs = "[\<lparr>sock = 7, username = []\<rparr>, \<lparr>sock = -1, username = []\<rparr>, \<lparr>sock = 8, username = []\<rparr>]"
  have r: "broadcast 7 [1, 2, 3] ?cs [Done 1, Done 2]
      = (Val (), [Sys Write [I 8, B [1, 2, 3]] (Some (Done 1)), Sys Write [I 8, B [2, 3]] (Some (Done 2))], [])"
    by code_simp
  have "distinct (socks ?cs)" by (simp add: socks_def)
  from broadcast_reaches_all_others [OF r this, of 8] broadcast_reaches_all_others [OF r this, of 7] r show ?thesis
    by (simp add: socks_def)
qed

end
