(* ===== verification/EchoServers.thy ===== *)
theory EchoServers
  imports EventLoop
begin

text \<open>
  The two echo servers of \<open>Lab - 8\<close>. In \<open>l4a.c\<close> a client first announces an address from 1 to 8 and
  then gets back what it sends; \<open>l4b.c\<close> writes what it gets to a log and sends it back without the
  first byte. Both wait in an endless \<open>epoll\<close> loop.
\<close>

section \<open>l4a\<close>

definition MAX_CLIENTS :: nat where "MAX_CLIENTS = 8"

text \<open>The \<open>bulk_read\<close> of \<open>l4a.c\<close> also stops behind a dollar sign at the end of a read.\<close>

definition l4a_bulk_read :: "int \<Rightarrow> nat \<Rightarrow> (errno + int list) io" where
  "l4a_bulk_read fd count =
     loop (\<lambda>(buf, count).
       bind (retry Read [I fd, I (int count)]) (\<lambda>r.
         if failed r then return (Inr (Inl (errno_of r)))
         else let bs = bytes_of count r in
           if bs = [] then return (Inr (Inr buf))
           else if 0 < count - length bs \<and> last bs \<noteq> 36 then return (Inl (buf @ bs, count - length bs))
           else return (Inr (Inr (buf @ bs))))) ([], count)"

text \<open>A byte as a \<open>char\<close>, which is signed, and back.\<close>

definition to_char :: "int \<Rightarrow> int" where
  "to_char v = (let k = v mod 256 in if k < 128 then k else k - 256)"

definition l4a_add_new_client :: "int \<Rightarrow> int list \<Rightarrow> (int list \<times> int) io" where
  "l4a_add_new_client sfd clients =
     bind (retry Accept [I sfd]) (\<lambda>r.
     if failed r then (if errno_of r = EAGAIN then return (clients, -1) else err ''accept'')
     else let nfd = val_of r in
       bind (l4a_bulk_read nfd 1) (\<lambda>r.
       case r of
         Inl e \<Rightarrow> err ''read''
       | Inr bs \<Rightarrow>
           if length bs \<noteq> 1 then err ''read''
           else let address = to_char (hd bs - 48) in
             bind (tell (Print ''Client %d connected'' [I address])) (\<lambda>_.
             if address < 1 \<or> address > int MAX_CLIENTS \<or> clients ! nat (address - 1) \<noteq> 0
             then bind (bulk_write nfd (ascii ''Wrong address'')) (\<lambda>_.
                  bind (sys Close [I nfd]) (\<lambda>_. return (clients, -1)))
             else bind (bulk_write nfd [(address + 48) mod 256]) (\<lambda>_.
                  return (clients[nat (address - 1) := nfd], nfd)))))"

definition l4a_data :: "int \<Rightarrow> unit io" where
  "l4a_data fd =
     bind (sys Read [I fd, I 1023]) (\<lambda>r.
     if failed r then (if errno_of r \<noteq> EAGAIN then tell (Complain ''read'') else return ())
     else let buffer = bytes_of 1023 r in
       if buffer = [] then return ()
       else bind (tell (Print ''Received data from client %d: %s'' [I fd, B (takeWhile (\<lambda>b. b \<noteq> 0) buffer)])) (\<lambda>_.
            bind (sys Write [I fd, B buffer]) (\<lambda>_. return ())))"

definition l4a_event :: "int \<Rightarrow> int \<Rightarrow> int \<Rightarrow> int list \<Rightarrow> int list io" where
  "l4a_event efd sfd fd clients =
     (if fd = sfd
      then bind (l4a_add_new_client sfd clients) (\<lambda>(clients, cfd).
           bind (sys EpollCtl [I efd, S ''ADD'', I cfd]) (\<lambda>r.
           bind (check ''epoll_ctl'' r) (\<lambda>_. return clients)))
      else bind (l4a_data fd) (\<lambda>_. return clients))"

text \<open>A failed \<open>epoll_wait\<close> yields -1 descriptors, so none is handled and the loop goes on.\<close>

definition ignore_error :: "reply \<Rightarrow> 's \<Rightarrow> ('s + int) io" where
  "ignore_error r s = return (Inl s)"

definition l4a_main :: "string list \<Rightarrow> int io" where
  "l4a_main argv =
     (if length argv \<noteq> 3 then bind (tell (Complain ''Usage: %s <ip> <port>'')) (\<lambda>_. return 1)
      else
        bind (bind_tcp_socket (atoi (argv ! 2) mod 65536) (int MAX_CLIENTS)) (\<lambda>sfd.
        bind (sys EpollCreate []) (\<lambda>r. bind (check ''epoll_create1'' r) (\<lambda>efd.
        bind (sys EpollCtl [I efd, S ''ADD'', I sfd]) (\<lambda>r. bind (check ''epoll_ctl'' r) (\<lambda>_.
        event_loop efd 10 (l4a_event efd sfd) ignore_error (replicate MAX_CLIENTS 0)))))))"

section \<open>l4b\<close>

text \<open>\<open>ctime\<close> makes a text of the time; its conversion is left to a parameter.\<close>

definition l4b_data :: "(int \<Rightarrow> string) \<Rightarrow> int \<Rightarrow> int \<Rightarrow> unit io" where
  "l4b_data ctime log fd =
     bind (sys Read [I fd, I 1023]) (\<lambda>r.
     if failed r then (if errno_of r \<noteq> EAGAIN then tell (Complain ''read'') else return ())
     else let buffer = bytes_of 1023 r; text = takeWhile (\<lambda>b. b \<noteq> 0) (tl buffer) in
       if buffer = [] then return ()
       else bind (tell (Print ''Received data from client %d: %s'' [I fd, B text])) (\<lambda>_.
            bind (sys Time []) (\<lambda>now.
            bind (tell (Print ''Buffer: %s'' [B text])) (\<lambda>_.
            bind (sys Fprintf [I log, S ''[%s] Received data from client %d: %s'', S (butlast (ctime (val_of now))), I fd, B text]) (\<lambda>_.
            bind (sys Write [I fd, B (tl buffer)]) (\<lambda>_. return ()))))))"

definition l4b_event :: "(int \<Rightarrow> string) \<Rightarrow> int \<Rightarrow> int \<Rightarrow> int \<Rightarrow> int \<Rightarrow> unit \<Rightarrow> unit io" where
  "l4b_event ctime log efd sfd fd u =
     (if fd = sfd
      then bind (add_new_client sfd) (\<lambda>cfd.
           bind (sys EpollCtl [I efd, S ''ADD'', I cfd]) (\<lambda>r.
           bind (check ''epoll_ctl'' r) (\<lambda>_. return ())))
      else l4b_data ctime log fd)"

definition l4b_main :: "(int \<Rightarrow> string) \<Rightarrow> string list \<Rightarrow> int io" where
  "l4b_main ctime argv =
     (if length argv \<noteq> 4 then bind (tell (Complain ''Usage: %s <ip> <port>'')) (\<lambda>_. return 1)
      else
        bind (sys Fopen [S (argv ! 1), S ''a'']) (\<lambda>r. bind (check ''fopen'' r) (\<lambda>log.
        bind (bind_tcp_socket (atoi (argv ! 3) mod 65536) 10) (\<lambda>sfd.
        bind (sys EpollCreate []) (\<lambda>r. bind (check ''epoll_create1'' r) (\<lambda>efd.
        bind (sys EpollCtl [I efd, S ''ADD'', I sfd]) (\<lambda>r. bind (check ''epoll_ctl'' r) (\<lambda>_.
        event_loop efd 10 (l4b_event ctime log efd sfd) ignore_error ()))))))))"

section \<open>What may be written\<close>

text \<open>
  An observer of the history: the descriptor and the bytes of the last read, and whether every write
  so far went to that descriptor with a text that \<open>P\<close> allows for these bytes.
\<close>

fun echo_step :: "(int list \<Rightarrow> int list \<Rightarrow> bool) \<Rightarrow> (int \<times> int list) \<times> bool \<Rightarrow> event \<Rightarrow> (int \<times> int list) \<times> bool" where
  "echo_step P (io, ok) (Sys c [I fd, I n] (Some r)) = (if c = Read then (fd, bytes_of (nat n) r) else io, ok)"
| "echo_step P (io, ok) (Sys c [I fd, B bs] r) = (io, ok \<and> (c = Write \<longrightarrow> fd = fst io \<and> P (snd io) bs))"
| "echo_step P s e = s"

definition echoed :: "(int list \<Rightarrow> int list \<Rightarrow> bool) \<Rightarrow> event list \<Rightarrow> (int \<times> int list) \<times> bool" where
  "echoed P h = foldl (echo_step P) ((0, []), True) h"

definition only_echo :: "(int list \<Rightarrow> int list \<Rightarrow> bool) \<Rightarrow> event list \<Rightarrow> bool" where
  "only_echo P h \<longleftrightarrow> snd (echoed P h)"

text \<open>\<open>l4a.c\<close>: the bytes as they came, or the refusal; \<open>l4b.c\<close>: all but the first one.\<close>

definition as_is :: "int list \<Rightarrow> int list \<Rightarrow> bool" where
  "as_is bs out \<longleftrightarrow> map (\<lambda>b. b mod 256) out = map (\<lambda>b. b mod 256) bs \<or> suffix out (ascii ''Wrong address'')"

definition all_but_first :: "int list \<Rightarrow> int list \<Rightarrow> bool" where
  "all_but_first bs out \<longleftrightarrow> out = tl bs"

lemma echoed_snoc: "echoed P (h @ [e]) = echo_step P (echoed P h) e"
  by (simp add: echoed_def)

lemma echoed_sys:
  "c \<notin> {Read, Write} \<Longrightarrow> echoed P (h @ [Sys c args r]) = echoed P h"
  "echoed P (h @ [Sys Read args None]) = echoed P h"
  "echoed P (h @ [Complain m]) = echoed P h"
  "echoed P (h @ [Print f args]) = echoed P h"
proof -
  show "c \<notin> {Read, Write} \<Longrightarrow> echoed P (h @ [Sys c args r]) = echoed P h"
    unfolding echoed_snoc by (cases "(P, echoed P h, Sys c args r)" rule: echo_step.cases) auto
  show "echoed P (h @ [Sys Read args None]) = echoed P h"
    unfolding echoed_snoc by (cases "(P, echoed P h, Sys Read args None)" rule: echo_step.cases) auto
qed (cases "echoed P h"; simp add: echoed_snoc)+

lemma only_echo_snoc:
  "c \<noteq> Write \<Longrightarrow> only_echo P (h @ [Sys c args r]) = only_echo P h"
  "only_echo P (h @ [Complain m]) = only_echo P h"
  "only_echo P (h @ [Print f args]) = only_echo P h"
proof -
  show "c \<noteq> Write \<Longrightarrow> only_echo P (h @ [Sys c args r]) = only_echo P h"
    unfolding only_echo_def echoed_snoc
    by (cases "(P, echoed P h, Sys c args r)" rule: echo_step.cases) auto
qed (simp_all add: only_echo_def echoed_sys)

lemma echoed_read: "fst (echoed P (h @ [Sys Read [I fd, I n] (Some r)])) = (fd, bytes_of (nat n) r)"
  unfolding echoed_snoc by (cases "echoed P h") simp

text \<open>A call that is not a write, whatever it replies.\<close>

lemma wp_not_write:
  assumes "only_echo P h" and "c \<noteq> Write"
    and "\<And>r h'. only_echo P h' \<Longrightarrow> fst (echoed P h') = (if c = Read then fst (echoed P h') else fst (echoed P h)) \<Longrightarrow> wp (f r) Q E h'"
    and "\<And>h. only_echo P h \<Longrightarrow> E None h"
  shows "wp (bind (sys c args) f) Q E h"
proof (rule wp_bind, rule wp_sys)
  show "E None (h @ [Sys c args None])"
    using assms by (simp add: only_echo_snoc)
  show "wp (f r) Q E (h @ [Sys c args (Some r)])" for r
    by (rule assms(3)) (use assms(1,2) in \<open>simp_all add: only_echo_snoc echoed_sys\<close>)
qed

text \<open>Every single write of \<open>bulk_write\<close> offers a suffix of the buffer.\<close>

definition writes_of :: "int \<Rightarrow> int list \<Rightarrow> event list \<Rightarrow> bool" where
  "writes_of fd buf tr \<longleftrightarrow> (\<forall>e \<in> set tr. \<exists>b r. e = Sys Write [I fd, B b] r \<and> suffix b buf \<and> b \<noteq> [])"

lemma wp_bulk_suffixes:
  assumes buf: "buf \<noteq> []"
    and E: "\<And>tr c. writes_of fd buf tr \<Longrightarrow> E c (h @ tr)" and Q: "\<And>tr r. writes_of fd buf tr \<Longrightarrow> Q r (h @ tr)"
  shows "wp (bulk_write fd buf) Q E h"
  unfolding bulk_write_def
proof (rule wp_loop [where J = "\<lambda>(rest, len) h'. \<exists>tr. h' = h @ tr \<and> writes_of fd buf tr \<and> suffix rest buf \<and> rest \<noteq> []"],
    goal_cases body start step)
  case (body s)
  show ?case by (intro consuming_progressing within_intros)
next
  case start
  show ?case using buf by (auto intro: exI [of _ "[]"] simp: writes_of_def)
next
  case (step s h')
  then obtain rest len tr where s: "s = (rest, len)" "h' = h @ tr" "writes_of fd buf tr" "suffix rest buf" "rest \<noteq> []"
    by (cases s) auto
  have more: "writes_of fd buf (tr @ us @ [Sys Write [I fd, B rest] q])" if "attempts Write [I fd, B rest] us" for us q
    using that s by (auto simp: writes_of_def attempts_def)
  have sfx: "suffix (drop k rest) buf" for k
    using s(4) suffix_drop suffix_order.trans by blast
  show ?case
    unfolding s(1,2) prod.case
  proof (rule wp_bind, rule wp_retry, goal_cases wait reply)
    case (wait us)
    show ?case using E [OF more [OF wait]] by simp
  next
    case (reply us r)
    note m = more [OF reply(1), of "Some r"]
    show ?case
      using m Q [OF m] sfx by (auto simp: Let_def intro!: wp_if wp_return)
  qed
qed

lemma echoes_writes:
  "writes_of fd buf tr \<Longrightarrow> only_echo P h \<Longrightarrow> fst (echoed P h) = (fd, bs) \<Longrightarrow> (\<And>b. suffix b buf \<Longrightarrow> b \<noteq> [] \<Longrightarrow> P bs b) \<Longrightarrow>
   only_echo P (h @ tr) \<and> fst (echoed P (h @ tr)) = (fd, bs)"
proof (induction tr rule: rev_induct)
  case (snoc e tr)
  then obtain b r where e: "e = Sys Write [I fd, B b] r" "suffix b buf" "b \<noteq> []"
    by (auto simp: writes_of_def)
  from snoc have "only_echo P (h @ tr)" "fst (echoed P (h @ tr)) = (fd, bs)" "P bs b"
    using e by (auto simp: writes_of_def)
  then show ?case
    unfolding append_assoc [symmetric] only_echo_def echoed_snoc e(1)
    by (cases "echoed P (h @ tr)") simp
qed simp

text \<open>\<open>l4a_bulk_read\<close> of one byte: one read that is not interrupted.\<close>

lemma l4a_read_progress: "progressing (case s of (buf, count) \<Rightarrow>
       bind (retry Read [I fd, I (int count)]) (\<lambda>r.
         if failed r then return (Inr (Inl (errno_of r)))
         else let bs = bytes_of count r in
           if bs = [] then return (Inr (Inr buf))
           else if 0 < count - length bs \<and> last bs \<noteq> 36 then return (Inl (buf @ bs, count - length bs))
           else return (Inr (Inr (buf @ bs)))))"
  by (cases s) (simp add: Let_def, intro within_intros consuming_progressing)

lemma within_l4a_read [within_intros]: "within (l4a_bulk_read fd n)"
  unfolding l4a_bulk_read_def by (rule within_loop) (rule l4a_read_progress)

lemma wp_l4a_read_one:
  assumes h: "only_echo P h"
    and E: "\<And>h. only_echo P h \<Longrightarrow> E None h"
    and Q: "\<And>r h'. only_echo P h' \<Longrightarrow> (\<And>b. r = Inr [b] \<Longrightarrow> fst (echoed P h') = (fd, [b])) \<Longrightarrow> Q r h'"
  shows "wp (l4a_bulk_read fd 1) Q E h"
proof -
  have att: "only_echo P (h @ us)" if "attempts Read [I fd, I 1] us" for us
    using that
  proof (induction us rule: rev_induct)
    case (snoc e us)
    then obtain r where "e = Sys Read [I fd, I 1] (Some r)" "attempts Read [I fd, I 1] us" by (auto simp: attempts_def)
    with snoc.IH show ?case by (simp add: append_assoc [symmetric] only_echo_snoc del: append_assoc)
  qed (use h in simp)
  have len: "length (bytes_of 1 r) \<le> 1" for r by (cases r) auto
  show ?thesis
    unfolding l4a_bulk_read_def
  proof (subst loop_unfold, rule l4a_read_progress, unfold prod.case, rule wp_bind, rule wp_bind, rule wp_retry, goal_cases wait reply)
    case (wait us)
    have "only_echo P ((h @ us) @ [Sys Read [I fd, I 1] None])"
      using att [of us] wait by (simp add: only_echo_snoc del: append_assoc)
    from E [OF this] show ?case by simp
  next
    case (reply us r)
    let ?h = "(h @ us) @ [Sys Read [I fd, I 1] (Some r)]"
    have o: "only_echo P ?h" using att [of us] reply(1) by (simp add: only_echo_snoc del: append_assoc)
    have f: "fst (echoed P ?h) = (fd, bytes_of 1 r)" unfolding echoed_read by simp
    have Q': "Q x ?h" if "\<And>b. x = Inr [b] \<Longrightarrow> bytes_of 1 r = [b]" for x
      by (rule Q [OF o]) (use that f in auto)
    show ?case
    proof (cases "failed r \<or> bytes_of 1 r = []")
      case True
      then show ?thesis
        using Q' [of "Inl (errno_of r)"] Q' [of "Inr []"] by (auto simp: Let_def intro!: wp_return)
    next
      case False
      then have "length (bytes_of 1 r) = 1" using len [of r] by (cases "bytes_of 1 r") auto
      with False show ?thesis
        using Q' [of "Inr (bytes_of 1 r)"] by (auto simp: Let_def intro!: wp_return)
    qed
  qed
qed

text \<open>Reading and echoing.\<close>

lemma only_echo_read: "only_echo P h \<Longrightarrow> only_echo P (h @ [Sys Read [I fd, I n] r])"
  by (simp add: only_echo_snoc)

lemma wp_l4a_data:
  assumes h: "only_echo as_is h"
  shows "wp (l4a_data fd) (\<lambda>_. only_echo as_is) (\<lambda>_. only_echo as_is) h"
  unfolding l4a_data_def
proof (rule wp_bind, rule wp_sys, rule only_echo_read [OF h])
  fix r
  let ?h = "h @ [Sys Read [I fd, I 1023] (Some r)]"
  let ?bs = "bytes_of 1023 r"
  let ?p = "Print ''Received data from client %d: %s'' [I fd, B (takeWhile (\<lambda>b. b \<noteq> 0) ?bs)]"
  have o: "only_echo as_is ?h" by (rule only_echo_read [OF h])
  have o': "only_echo as_is (?h @ [?p])" "fst (echoed as_is (?h @ [?p])) = (fd, ?bs)"
    using o by (simp_all add: only_echo_snoc echoed_sys echoed_read del: append_assoc)
  have w: "only_echo as_is ((?h @ [?p]) @ [Sys Write [I fd, B ?bs] q])" for q
    using o' unfolding only_echo_def echoed_snoc [of _ "?h @ [?p]"]
    by (cases "echoed as_is (?h @ [?p])") (simp add: as_is_def)
  have c: "only_echo as_is (?h @ [Complain ''read''])" using o by (simp add: only_echo_snoc del: append_assoc)
  show "wp (if failed r then if errno_of r \<noteq> EAGAIN then tell (Complain ''read'') else return ()
     else let buffer = ?bs in
       if buffer = [] then return ()
       else bind (tell (Print ''Received data from client %d: %s'' [I fd, B (takeWhile (\<lambda>b. b \<noteq> 0) buffer)]))
             (\<lambda>_. bind (sys Write [I fd, B buffer]) (\<lambda>_. return ()))) (\<lambda>_. only_echo as_is) (\<lambda>_. only_echo as_is) ?h"
    unfolding Let_def
    by (intro wp_if wp_bind wp_tell wp_sys wp_return c o w)
qed

lemma wp_l4b_data:
  assumes h: "only_echo all_but_first h"
  shows "wp (l4b_data ctime log fd) (\<lambda>_. only_echo all_but_first) (\<lambda>_. only_echo all_but_first) h"
  unfolding l4b_data_def
proof (rule wp_bind, rule wp_sys, rule only_echo_read [OF h])
  fix r
  let ?h = "h @ [Sys Read [I fd, I 1023] (Some r)]"
  let ?bs = "bytes_of 1023 r"
  let ?t = "takeWhile (\<lambda>b. b \<noteq> 0) (tl ?bs)"
  let ?K = "\<lambda>h. only_echo all_but_first h \<and> fst (echoed all_but_first h) = (fd, ?bs)"
  have o: "only_echo all_but_first ?h" by (rule only_echo_read [OF h])
  have k: "?K ?h" using o echoed_read [of all_but_first h fd 1023 r] by simp
  have p: "?K (h @ [Print f args])" "c \<notin> {Read, Write} \<Longrightarrow> ?K (h @ [Sys c args q])" if "?K h" for h f c args q
    using that by (simp_all add: only_echo_snoc echoed_sys)
  have w: "only_echo all_but_first (h @ [Sys Write [I fd, B (tl ?bs)] q])" if "?K h" for h q
    using that unfolding only_echo_def echoed_snoc by (cases "echoed all_but_first h") (simp add: all_but_first_def)
  have body: "wp (bind (tell (Print ''Received data from client %d: %s'' [I fd, B ?t])) (\<lambda>_.
            bind (sys Time []) (\<lambda>now.
            bind (tell (Print ''Buffer: %s'' [B ?t])) (\<lambda>_.
            bind (sys Fprintf [I log, S ''[%s] Received data from client %d: %s'', S (butlast (ctime (val_of now))), I fd, B ?t]) (\<lambda>_.
            bind (sys Write [I fd, B (tl ?bs)]) (\<lambda>_. return ()))))))
      (\<lambda>_. only_echo all_but_first) (\<lambda>_. only_echo all_but_first) ?h"
    by (rule wp_bind, rule wp_tell, rule wp_bind, rule wp_sys_quiet [where J = ?K], rule p(1) [OF k], rule p(2), assumption,
        simp, simp, rule wp_bind, rule wp_tell, rule wp_bind, rule wp_sys_quiet [where J = ?K], rule p(1), assumption,
        rule p(2), assumption, simp, simp, rule wp_bind, rule wp_sys, erule w, rule wp_return, erule w)
  have c: "only_echo all_but_first (?h @ [Complain ''read''])" using o by (simp add: only_echo_snoc del: append_assoc)
  show "wp (if failed r then if errno_of r \<noteq> EAGAIN then tell (Complain ''read'') else return ()
     else let buffer = ?bs; text = takeWhile (\<lambda>b. b \<noteq> 0) (tl buffer) in
       if buffer = [] then return ()
       else bind (tell (Print ''Received data from client %d: %s'' [I fd, B text])) (\<lambda>_.
            bind (sys Time []) (\<lambda>now.
            bind (tell (Print ''Buffer: %s'' [B text])) (\<lambda>_.
            bind (sys Fprintf [I log, S ''[%s] Received data from client %d: %s'', S (butlast (ctime (val_of now))), I fd, B text]) (\<lambda>_.
            bind (sys Write [I fd, B (tl buffer)]) (\<lambda>_. return ()))))))
      (\<lambda>_. only_echo all_but_first) (\<lambda>_. only_echo all_but_first) ?h"
    unfolding Let_def by (intro wp_if wp_tell wp_return c o body)
qed

text \<open>The announcement of an address is answered by the same byte or by the refusal.\<close>

lemma address_byte: "(to_char (b - 48) + 48) mod 256 = b mod 256"
proof -
  have "to_char v mod 256 = v mod 256" for v
    by (simp add: to_char_def Let_def mod_diff_right_eq [of _ 256, symmetric])
  then have "(to_char (b - 48) mod 256 + 48) mod 256 = ((b - 48) mod 256 + 48) mod 256" by simp
  then show ?thesis by (simp add: mod_simps)
qed

definition l4a_inv :: "int list \<Rightarrow> event list \<Rightarrow> bool" where
  "l4a_inv clients h \<longleftrightarrow> length clients = MAX_CLIENTS \<and> only_echo as_is h"

lemma only_echo_attempts:
  "attempts c args us \<Longrightarrow> c \<noteq> Write \<Longrightarrow> only_echo P h \<Longrightarrow> only_echo P (h @ us)"
proof (induction us rule: rev_induct)
  case (snoc e us)
  then obtain r where "e = Sys c args (Some r)" "attempts c args us" by (auto simp: attempts_def)
  with snoc show ?case by (simp add: append_assoc [symmetric] only_echo_snoc del: append_assoc)
qed simp

lemma wp_l4a_add_new_client:
  assumes h: "l4a_inv clients h"
  shows "wp (l4a_add_new_client sfd clients) (\<lambda>(clients', fd). l4a_inv clients') (\<lambda>_. only_echo as_is) h"
  unfolding l4a_add_new_client_def
proof (rule wp_bind, rule wp_retry, goal_cases wait reply)
  case (wait us)
  have "only_echo as_is ((h @ us) @ [Sys Accept [I sfd] None])"
    using only_echo_attempts [OF wait] h by (simp add: l4a_inv_def only_echo_snoc del: append_assoc)
  then show ?case by simp
next
  case (reply us r)
  define h1 where "h1 = h @ us @ [Sys Accept [I sfd] (Some r)]"
  have o1: "only_echo as_is h1"
    unfolding h1_def using only_echo_attempts [OF reply(1)] h only_echo_snoc(1) [of Accept as_is "h @ us"]
    by (simp add: l4a_inv_def)
  have len: "length clients = MAX_CLIENTS" using h by (simp add: l4a_inv_def)
  let ?fd = "val_of r"
  show ?case
    unfolding h1_def [symmetric] Let_def
  proof (rule wp_if, goal_cases failure accepted)
    case failure
    show ?case
      using o1 len by (auto simp: l4a_inv_def only_echo_snoc intro!: wp_if wp_return wp_err)
  next
    case accepted
    show ?case
    proof (rule wp_bind, rule wp_l4a_read_one [OF o1], goal_cases E Q)
      case (Q x h2)
      show ?case
      proof (cases "\<exists>b. x = Inr [b]")
        case False
        with Q(1) show ?thesis
          by (cases x) (auto simp: only_echo_snoc length_Suc_conv intro!: wp_if wp_err)
      next
        case True
        then obtain b where x: "x = Inr [b]" by blast
        define a where "a = to_char (b - 48)"
        define h3 where "h3 = h2 @ [Print ''Client %d connected'' [I a]]"
        have o3: "only_echo as_is h3" "fst (echoed as_is h3) = (?fd, [b])"
          unfolding h3_def using Q x by (simp_all add: only_echo_snoc echoed_sys)
        have w: "wp (bulk_write ?fd buf) (\<lambda>_. only_echo as_is) (\<lambda>_. only_echo as_is) h3"
          if "buf \<noteq> []" "\<And>s. suffix s buf \<Longrightarrow> s \<noteq> [] \<Longrightarrow> as_is [b] s" for buf
          by (rule wp_bulk_suffixes [OF that(1)])
            (use echoes_writes [OF _ o3] that(2) in blast)+
        have refuse: "wp (bulk_write ?fd (ascii ''Wrong address'')) (\<lambda>_. only_echo as_is) (\<lambda>_. only_echo as_is) h3"
          by (rule w) (simp_all add: ascii_def as_is_def)
        have confirm: "wp (bulk_write ?fd [(a + 48) mod 256]) (\<lambda>_. only_echo as_is) (\<lambda>_. only_echo as_is) h3"
        proof (rule w)
          fix s assume "suffix s [(a + 48) mod 256]" "s \<noteq> []"
          then have "s = [(a + 48) mod 256]" by (auto simp: suffix_Cons)
          then show "as_is [b] s" by (simp add: as_is_def a_def address_byte)
        qed simp
        have fin: "wp (bind (sys Close [I ?fd]) (\<lambda>_. return (clients, -1))) (\<lambda>(clients', fd). l4a_inv clients') (\<lambda>_. only_echo as_is) h4"
          if "only_echo as_is h4" for h4
          using that len by (auto simp: l4a_inv_def only_echo_snoc intro!: wp_bind wp_sys wp_return)
        show ?thesis
          unfolding x sum.case
          apply (rule wp_if, simp)
          apply (rule wp_bind, rule wp_tell)
          apply (simp only: list.sel a_def [symmetric])
          apply (fold h3_def)
          apply (rule wp_if)
          subgoal by (rule wp_bind, rule wp_mono, rule refuse) (auto intro: fin)
          subgoal by (rule wp_bind, rule wp_mono, rule confirm) (auto intro: wp_return simp: l4a_inv_def len)
          done
      qed
    qed
  qed
qed

section \<open>The servers\<close>

lemma registers:
  assumes "only_echo P h" and "\<And>h. only_echo P h \<Longrightarrow> Q x h"
  shows "wp (bind (sys EpollCtl args) (\<lambda>r. bind (check m r) (\<lambda>_. return x))) Q (\<lambda>_. only_echo P) h"
  by (rule wp_bind, rule wp_sys_quiet [where J = "only_echo P"])
    (use assms in \<open>auto simp: only_echo_snoc intro!: wp_bind wp_check wp_return\<close>)

lemma wp_l4a_event:
  assumes "l4a_inv clients h"
  shows "wp (l4a_event efd sfd fd clients) l4a_inv (\<lambda>_. only_echo as_is) h"
  unfolding l4a_event_def
proof (rule wp_if, goal_cases listening client)
  case listening
  show ?case
    by (rule wp_bind, rule wp_mono, rule wp_l4a_add_new_client [OF assms])
      (auto simp: l4a_inv_def intro!: registers)
next
  case client
  show ?case
    by (rule wp_bind, rule wp_mono, rule wp_l4a_data) (use assms in \<open>auto simp: l4a_inv_def intro: wp_return\<close>)
qed

lemma wp_l4b_event:
  assumes "only_echo all_but_first h"
  shows "wp (l4b_event ctime log efd sfd fd u) (\<lambda>_. only_echo all_but_first) (\<lambda>_. only_echo all_but_first) h"
  unfolding l4b_event_def
proof (rule wp_if, goal_cases listening client)
  case listening
  have q: "only_echo all_but_first (h @ tr)" if "calls_on Accept sfd tr" for tr
    using that
  proof (induction tr rule: rev_induct)
    case (snoc e tr)
    then obtain args r where "e = Sys Accept (I sfd # args) r" "calls_on Accept sfd tr" by (auto simp: calls_on_def)
    with snoc.IH show ?case by (simp add: append_assoc [symmetric] only_echo_snoc del: append_assoc)
  qed (use assms in simp)
  show ?case
  proof (rule wp_bind, rule wp_add_new_client, goal_cases wait fail ok)
    case (fail tr m)
    then show ?case using q [OF fail] by (simp add: append_assoc [symmetric] only_echo_snoc del: append_assoc)
  next
    case (ok tr fd)
    show ?case by (rule registers [OF q [OF ok]])
  qed (rule q)
next
  case client
  show ?case by (rule wp_l4b_data [OF assms])
qed

lemma echo_within [within_intros]:
  "within (l4a_event efd sfd fd clients)" "within (l4b_event ctime log efd sfd fd u)" "within (ignore_error r s)"
  unfolding l4a_event_def l4b_event_def l4a_add_new_client_def l4a_data_def l4b_data_def ignore_error_def Let_def
  by (intro within_intros)+

interpretation l4a: event_server "l4a_event efd sfd" "ignore_error" l4a_inv "\<lambda>_. only_echo as_is" "\<lambda>_. only_echo as_is"
  for efd sfd
proof (unfold_locales, goal_cases waits reported handled stopped)
  case (handled clients h fd)
  then show ?case by (rule wp_l4a_event)
qed (auto simp: l4a_inv_def only_echo_snoc ignore_error_def intro: wp_return within_intros)

interpretation l4b: event_server "l4b_event ctime log efd sfd" "ignore_error" "\<lambda>_. only_echo all_but_first"
    "\<lambda>_. only_echo all_but_first" "\<lambda>_. only_echo all_but_first"
  for ctime log efd sfd
proof (unfold_locales, goal_cases waits reported handled stopped)
  case (handled u h fd)
  then show ?case by (rule wp_l4b_event)
qed (auto simp: only_echo_snoc ignore_error_def intro: wp_return within_intros)

text \<open>The calls of \<open>main\<close> before the loop.\<close>

lemma wp_set_up:
  assumes "only_echo P h" and "\<And>sfd efd h. only_echo P h \<Longrightarrow> wp (f sfd efd) Q (\<lambda>_. only_echo P) h"
  shows "wp (bind (bind_tcp_socket port backlog) (\<lambda>sfd.
        bind (sys EpollCreate []) (\<lambda>r. bind (check ''epoll_create1'' r) (\<lambda>efd.
        bind (sys EpollCtl [I efd, S ''ADD'', I sfd]) (\<lambda>r. bind (check ''epoll_ctl'' r) (\<lambda>_. f sfd efd)))))) Q (\<lambda>_. only_echo P) h"
proof -
  have sys: "wp (bind (sys c args) g) Q (\<lambda>_. only_echo P) h" if "only_echo P h" "c \<noteq> Write" "\<And>r h. only_echo P h \<Longrightarrow> wp (g r) Q (\<lambda>_. only_echo P) h"
    for c args g h
    by (rule wp_bind, rule wp_sys_quiet [where J = "only_echo P"]) (use that in \<open>auto simp: only_echo_snoc\<close>)
  have chk: "wp (bind (check m r) g) Q (\<lambda>_. only_echo P) h" if "only_echo P h" "\<And>v. wp (g v) Q (\<lambda>_. only_echo P) h" for m r g h
    by (rule wp_bind, rule wp_check) (use that in \<open>auto simp: only_echo_snoc\<close>)
  show ?thesis
  proof (rule wp_bind, rule wp_bind_tcp_socket [where J = "only_echo P"], goal_cases start quiet complain E Q)
    case (Q fd h)
    then show ?case by (intro sys chk assms(2)) simp_all
  qed (use assms in \<open>auto simp: only_echo_snoc\<close>)
qed

lemma only_echo_Nil: "only_echo P []"
  by (simp add: only_echo_def echoed_def)

text \<open>
  \<open>l4a.c\<close>, whatever clients and network do: every write of the server goes to the descriptor it
  has just read from, and offers the bytes of that read unchanged (the echo, and the confirmation of
  an address) or the rest of the text ``Wrong address''. No client ever gets another client's bytes.
\<close>

theorem l4a_only_echoes:
  assumes "l4a_main argv rs = (x, h, rs')"
  shows "only_echo as_is h"
proof -
  have "wp (l4a_main argv) (\<lambda>_. only_echo as_is) (\<lambda>_. only_echo as_is) []"
    unfolding l4a_main_def
  proof (rule wp_if, goal_cases usage run)
    case usage
    have "only_echo as_is [Complain m]" for m
      using only_echo_snoc(2) [of as_is "[]"] by (simp add: only_echo_Nil)
    then show ?case by (auto intro!: wp_bind wp_tell wp_return)
  next
    case run
    show ?case
      by (rule wp_set_up [OF only_echo_Nil], rule l4a.loop_keeps) (simp add: l4a_inv_def)
  qed
  from wp_runs [OF this assms] show ?thesis by (cases x) auto
qed

definition two_addresses :: "reply list" where
  "two_addresses = [Done 3, Done 0, Done 0, Done 0, Done 5, Done 0,
     Ready [3], Done 7, Bytes [50], Done 1, Done 0, Fail EINTR, Ready [7], Bytes [104, 105], Done 2]"

lemma l4a_only_echoes_witness:
  "\<exists>h. l4a_main [''l4a'', ''0.0.0.0'', ''8888''] two_addresses = (Waits, h, []) \<and> only_echo as_is h \<and> seen (went_out 7) h = [50, 104, 105]"
proof -
  let ?run = "l4a_main [''l4a'', ''0.0.0.0'', ''8888''] two_addresses"
  define h where "h = fst (snd ?run)"
  have "(case ?run of (x, h, rs) \<Rightarrow> x = Waits \<and> rs = [] \<and> seen (went_out 7) h = [50, 104, 105])"
    by code_simp
  then have r: "?run = (Waits, h, [])" "seen (went_out 7) h = [50, 104, 105]"
    by (auto simp: h_def split: prod.splits)
  from l4a_only_echoes [OF r(1)] r show ?thesis by blast
qed

text \<open>
  \<open>l4b.c\<close>, whatever clients and network do: every write of the server goes to the descriptor it
  has just read from and offers the bytes of that read without the first one.
\<close>

theorem l4b_skips_first_byte:
  assumes "l4b_main ctime argv rs = (x, h, rs')"
  shows "only_echo all_but_first h"
proof -
  let ?E = "\<lambda>_. only_echo all_but_first"
  have "wp (l4b_main ctime argv) ?E ?E []"
    unfolding l4b_main_def
  proof (rule wp_if, goal_cases usage run)
    case usage
    have "only_echo all_but_first [Complain m]" for m
      using only_echo_snoc(2) [of all_but_first "[]"] by (simp add: only_echo_Nil)
    then show ?case by (auto intro!: wp_bind wp_tell wp_return)
  next
    case run
    show ?case
    proof (rule wp_bind, rule wp_sys_quiet [where J = "only_echo all_but_first"], rule only_echo_Nil, goal_cases q E Q)
      case (Q r h)
      show ?case
        by (rule wp_bind, rule wp_check, use Q only_echo_snoc in simp, rule wp_set_up [OF Q], rule l4b.loop_keeps)
    qed (use only_echo_snoc(1) [of Fopen all_but_first "[]"] in \<open>simp_all add: only_echo_Nil\<close>)
  qed
  from wp_runs [OF this assms] show ?thesis by (cases x) auto
qed

definition one_message :: "reply list" where
  "one_message = [Done 9, Done 3, Done 0, Done 0, Done 0, Done 5, Done 0,
     Ready [3], Done 7, Done 0, Ready [7], Bytes [104, 105, 33], Done 1000, Done 20, Done 2]"

lemma l4b_skips_first_byte_witness:
  "\<exists>h. l4b_main (\<lambda>t. ''now'') [''l4b'', ''log'', ''0.0.0.0'', ''8888''] one_message = (Waits, h, [])
    \<and> only_echo all_but_first h \<and> seen (went_out 7) h = [105, 33]"
proof -
  let ?run = "l4b_main (\<lambda>t. ''now'') [''l4b'', ''log'', ''0.0.0.0'', ''8888''] one_message"
  define h where "h = fst (snd ?run)"
  have "(case ?run of (x, h, rs) \<Rightarrow> x = Waits \<and> rs = [] \<and> seen (went_out 7) h = [105, 33])"
    by code_simp
  then have r: "?run = (Waits, h, [])" "seen (went_out 7) h = [105, 33]"
    by (auto simp: h_def split: prod.splits)
  from l4b_skips_first_byte [OF r(1)] r show ?thesis by blast
qed

text \<open>
  What \<open>l4a.c\<close> does to a client with a wrong or a taken address: it is refused and closed, and
  then \<open>main\<close> registers descriptor -1 with \<open>epoll\<close>, which fails, so that the server itself exits
  and all other clients lose their connection.
\<close>

theorem l4a_wrong_address_ends_server:
  assumes "l4a_event efd sfd sfd clients (Done v # Bytes [b] # Done 13 # c # Fail e # rs) = (x, h, rs')"
    and "0 \<le> v" and "length clients = MAX_CLIENTS"
    and "to_char (b - 48) < 1 \<or> 8 < to_char (b - 48) \<or> clients ! nat (to_char (b - 48) - 1) \<noteq> 0"
  shows "x = Exits 1 \<and> rs' = rs \<and> last h = Complain ''epoll_ctl''"
proof -
  have rd: "l4a_bulk_read v 1 (Bytes [b] # ws) = (Val (Inr [b]), [Sys Read [I v, I 1] (Some (Bytes [b]))], ws)" for ws
    unfolding l4a_bulk_read_def by (subst loop_unfold, rule l4a_read_progress) (simp add: bind_def return_def)
  have wr: "bulk_write v (ascii ''Wrong address'') (Done 13 # ws)
      = (Val (Inr 13), [Sys Write [I v, B (ascii ''Wrong address'')] (Some (Done 13))], ws)" for ws
    using bulk_write_round [of v "ascii ''Wrong address''" "Done 13 # ws"] write_round_takes [of 13 v "ascii ''Wrong address''" 0 ws]
    by (simp add: bind_def return_def ascii_def)
  have "l4a_add_new_client sfd clients (Done v # Bytes [b] # Done 13 # c # Fail e # rs)
      = (Val (clients, -1), [Sys Accept [I sfd] (Some (Done v)), Sys Read [I v, I 1] (Some (Bytes [b])),
          Print ''Client %d connected'' [I (to_char (b - 48))],
          Sys Write [I v, B (ascii ''Wrong address'')] (Some (Done 13)), Sys Close [I v] (Some c)], Fail e # rs)"
    using assms(2,4) unfolding l4a_add_new_client_def bind_def [of "retry Accept [I sfd]"]
    by (simp add: bind_def rd [unfolded One_nat_def] wr return_def tell_def Let_def MAX_CLIENTS_def)
  with assms(1) show ?thesis
    by (auto simp: l4a_event_def bind_def check_def err_def tell_def exit_with_def)
qed

lemma l4a_wrong_address_ends_server_witness:
  "\<exists>h. l4a_event 5 3 3 (replicate 8 0) [Done 7, Bytes [57], Done 13, Done 0, Fail (OtherErrno 9)] = (Exits 1, h, [])"
proof -
  obtain x h rs' where r: "l4a_event 5 3 3 (replicate 8 0) (Done 7 # Bytes [57] # Done 13 # Done 0 # Fail (OtherErrno 9) # [])
      = (x, h, rs')" by (cases "l4a_event 5 3 3 (replicate 8 0) (Done 7 # Bytes [57] # Done 13 # Done 0 # Fail (OtherErrno 9) # [])") auto
  from l4a_wrong_address_ends_server [OF r] have "x = Exits 1 \<and> rs' = []"
    by (simp add: MAX_CLIENTS_def to_char_def)
  with r show ?thesis by blast
qed

end
