(* ===== verification/Website.thy ===== *)
theory Website
  imports EchoServers
begin

text \<open>
  The ``website'' of \<open>Lab - 8\<close>: \<open>website_client.c\<close> sends the decimal digits of its process number,
  \<open>website_server.c\<close> adds up the digits it gets from each client and remembers the largest sum, which
  its SIGINT handler prints.
\<close>

section \<open>Signal handlers that end the process\<close>

text \<open>
  \<open>on_signal sig handler m\<close>: the calls of \<open>m\<close>, but the first one interrupted by the signal is the last,
  and then the handler runs, which exits. Signals are delivered in calls only.
\<close>

definition is_caught :: "int \<Rightarrow> event \<Rightarrow> bool" where
  "is_caught sig e = (case e of Sys c args r \<Rightarrow> r = Some (Caught sig) | _ \<Rightarrow> False)"

definition answered :: "event \<Rightarrow> bool" where
  "answered e = (case e of Sys c args r \<Rightarrow> r \<noteq> None | _ \<Rightarrow> False)"

definition on_signal :: "int \<Rightarrow> event list \<Rightarrow> int \<Rightarrow> 'a io \<Rightarrow> 'a io" where
  "on_signal sig output code m rs =
     (case m rs of (x, tr, rs') \<Rightarrow>
        (case dropWhile (\<lambda>e. \<not> is_caught sig e) tr of
           [] \<Rightarrow> (x, tr, rs')
         | e # _ \<Rightarrow>
             let seen = takeWhile (\<lambda>e. \<not> is_caught sig e) tr @ [e] in
             (Exits code, seen @ output, drop (length (filter answered seen)) rs)))"

section \<open>The server\<close>

definition SERVER_EVENTS :: nat where "SERVER_EVENTS = 10"

definition handle_sigint :: "int \<Rightarrow> event list" where
  "handle_sigint max_sum = [Print ''Max sum: %d'' [I max_sum]]"

text \<open>The sum is an \<open>int16_t\<close>: each addition is cut to 16 bits.\<close>

definition digit_sum :: "int list \<Rightarrow> 16 word" where
  "digit_sum text = foldl (\<lambda>sum b. sum + word_of_int (to_char b - 48)) 0 text"

text \<open>
  One client. \<open>buffer\<close> is an array of \<open>main\<close>, so it still holds what earlier clients have sent
  behind the bytes that were read; \<open>strlen\<close> goes on behind its end if it has no zero byte.
\<close>

definition website_data :: "int list \<Rightarrow> int \<Rightarrow> int \<Rightarrow> int \<times> int list \<Rightarrow> (int \<times> int list) io" where
  "website_data past epollfd fd = (\<lambda>(max_sum, buffer).
     bind (on_signal SIGINT (handle_sigint max_sum) 0 (bulk_read fd 1023)) (\<lambda>r.
     case r of
       Inl e \<Rightarrow> err ''bulk_read''
     | Inr bs \<Rightarrow>
         let buffer = overwrite buffer bs; sum = sint (digit_sum (c_text past buffer));
             max_sum = (if sum > max_sum then sum else max_sum) in
         bind (tell (Print ''Sum: %d'' [I sum])) (\<lambda>_.
         bind (sys EpollCtl [I epollfd, S ''DEL'', I fd]) (\<lambda>r.
         bind (check ''epoll_ctl: client_fd'' r) (\<lambda>_.
         bind (sys Close [I fd]) (\<lambda>_. return (max_sum, buffer)))))))"

definition website_event :: "int list \<Rightarrow> int \<Rightarrow> int \<Rightarrow> int \<Rightarrow> int \<times> int list \<Rightarrow> (int \<times> int list) io" where
  "website_event past epollfd server_fd fd s =
     (if fd = server_fd
      then bind (on_signal SIGINT (handle_sigint (fst s)) 0 (add_new_client server_fd)) (\<lambda>client_fd.
           bind (tell (Print ''New client connected'' [])) (\<lambda>_.
           bind (if client_fd < 0 then err ''add_new_client'' else return ()) (\<lambda>_.
           bind (sys EpollCtl [I epollfd, S ''ADD'', I client_fd]) (\<lambda>r.
           bind (check ''epoll_ctl: client_fd'' r) (\<lambda>_. return s)))))
      else website_data past epollfd fd s)"

text \<open>
  The handler exits, so that \<open>interrupted\<close> is never seen to be 1: any other failure of the wait is
  an error.
\<close>

definition website_error :: "reply \<Rightarrow> int \<times> int list \<Rightarrow> ((int \<times> int list) + int) io" where
  "website_error r s =
     (if r = Caught SIGINT
      then bind (for_each (handle_sigint (fst s)) (\<lambda>e u. tell e) ()) (\<lambda>_. exit_with 0)
      else err ''epoll_wait'')"

definition website_main :: "int list \<Rightarrow> int list \<Rightarrow> string list \<Rightarrow> int io" where
  "website_main past buffer argv =
     bind (if length argv < 2 then err ''Usage:  <port>'' else return ()) (\<lambda>_.
     bind (bind_tcp_socket (atoi (argv ! 1) mod 65536) 1) (\<lambda>server_fd.
     bind (sethandler ''handle_sigint'' SIGINT) (\<lambda>_.
     bind (sys EpollCreate []) (\<lambda>r. bind (check ''epoll_create1'' r) (\<lambda>epollfd.
     bind (sys EpollCtl [I epollfd, S ''ADD'', I server_fd]) (\<lambda>r. bind (check ''epoll_ctl: server_fd'' r) (\<lambda>_.
     event_loop epollfd SERVER_EVENTS (website_event past epollfd server_fd) website_error (0, buffer))))))))"

section \<open>The client\<close>

definition website_client_main :: "string list \<Rightarrow> int io" where
  "website_client_main argv =
     bind (if length argv < 2 then err ''Usage: <port>'' else return ()) (\<lambda>_.
     bind (connect_tcp_socket ''127.0.0.1'' (argv ! 1)) (\<lambda>client_fd.
     bind (sys Getpid []) (\<lambda>pid.
     bind (bulk_write client_fd (decimal (nat (val_of pid)))) (\<lambda>w.
     case w of
       Inl e \<Rightarrow> err ''bulk_write''
     | Inr n \<Rightarrow> bind (sys Close [I client_fd]) (\<lambda>r. bind (check ''close'' r) (\<lambda>_. return 0))))))"

section \<open>The sum of digits\<close>

fun sum_of_digits :: "nat \<Rightarrow> nat" where
  "sum_of_digits n = (if n < 10 then n else sum_of_digits (n div 10) + n mod 10)"

declare sum_of_digits.simps [simp del]

definition int_sum :: "int list \<Rightarrow> int" where
  "int_sum ds = sum_list (map (\<lambda>b. to_char b - 48) ds)"

lemma digit_sum_int: "digit_sum ds = word_of_int (int_sum ds)"
proof -
  have "foldl (\<lambda>sum b. sum + word_of_int (to_char b - 48)) a ds = a + word_of_int (int_sum ds)" for a :: "16 word"
    by (induction ds arbitrary: a) (simp_all add: int_sum_def algebra_simps)
  then show ?thesis by (simp add: digit_sum_def)
qed

lemma sint_int16: "- 32768 \<le> v \<Longrightarrow> v \<le> 32767 \<Longrightarrow> sint (word_of_int v :: 16 word) = v"
  by (simp add: signed_of_int signed_take_bit_int_eq_self)

lemma int_sum_decimal: "int_sum (decimal n) = int (sum_of_digits n)"
proof (induction n rule: decimal.induct)
  case (1 n)
  have c: "to_char (48 + int (k mod 10)) = 48 + int (k mod 10)" "k < 10 \<Longrightarrow> to_char (48 + int k) = 48 + int k" for k
    by (simp_all add: to_char_def Let_def)
  show ?case
  proof (cases "n < 10")
    case True
    then show ?thesis by (simp add: decimal.simps [of n] sum_of_digits.simps [of n] int_sum_def c)
  next
    case False
    with 1 [OF False] show ?thesis
      by (subst decimal.simps, subst sum_of_digits.simps) (simp add: int_sum_def c)
  qed
qed

lemma sum_of_digits_bound: "sum_of_digits n \<le> n"
proof (induction n rule: sum_of_digits.induct)
  case (1 n)
  show ?case
  proof (cases "n < 10")
    case False
    from 1 [OF False] have "sum_of_digits (n div 10) + n mod 10 \<le> n div 10 + n mod 10" by simp
    also have "\<dots> \<le> n" using div_mult_mod_eq [of n 10] by linarith
    finally show ?thesis using False by (subst sum_of_digits.simps) simp
  qed (simp add: sum_of_digits.simps [of n])
qed

lemma sum_of_digits_step: "sum_of_digits n \<le> sum_of_digits (n div 10) + 9"
proof -
  have "n mod 10 < 10" by simp
  then have "n mod 10 \<le> 9" by linarith
  then show ?thesis by (subst sum_of_digits.simps) simp
qed

lemma sum_of_digits_small: "n < 4194304 \<Longrightarrow> sum_of_digits n \<le> 4194 + 27"
  using sum_of_digits_step [of n] sum_of_digits_step [of "n div 10"] sum_of_digits_step [of "n div 10 div 10"]
    sum_of_digits_bound [of "n div 10 div 10 div 10"] div_le_mono [of n 4194304 1000]
  by (simp add: div_mult2_eq [symmetric])

lemma length_decimal: "length (decimal n) \<le> n + 1"
proof (induction n rule: decimal.induct)
  case (1 n)
  show ?case
  proof (cases "n < 10")
    case False
    with 1 [OF False] show ?thesis by (subst decimal.simps) simp
  qed (simp add: decimal.simps [of n])
qed

section \<open>Properties\<close>

lemma takeWhile_text: "0 \<notin> set a \<Longrightarrow> 0 < k \<Longrightarrow> c_text past (a @ replicate k 0) = a"
  by (cases k) (simp_all add: c_text_def takeWhile_append)

text \<open>The printed sum as a function of what was read and of what the buffer held.\<close>

lemma website_data_reads:
  assumes "website_data past ep fd (m, buffer) rs = (Val s, h, rs')"
  shows "\<exists>bs. seen (came_in fd) h = bs \<and> length bs \<le> 1023 \<and> s = (max m (sint (digit_sum (c_text past (overwrite buffer bs)))), overwrite buffer bs)
    \<and> Print ''Sum: %d'' [I (sint (digit_sum (c_text past (overwrite buffer bs))))] \<in> set h"
proof -
  let ?sum = "\<lambda>bs. sint (digit_sum (c_text past (overwrite buffer bs)))"
  let ?Q = "\<lambda>s h. \<exists>bs. seen (came_in fd) h = bs \<and> length bs \<le> 1023 \<and> s = (max m (?sum bs), overwrite buffer bs) \<and> Print ''Sum: %d'' [I (?sum bs)] \<in> set h"
  let ?R = "\<lambda>r h. \<forall>bs. r = Inr bs \<longrightarrow> seen (came_in fd) h = bs \<and> length bs \<le> 1023"
  have rd: "wp (bulk_read fd 1023) ?R (\<lambda>_ _. True) []"
    by (rule wp_bulk_read) auto
  have "wp (on_signal SIGINT (handle_sigint m) 0 (bulk_read fd 1023)) ?R (\<lambda>_ _. True) []"
  proof (rule wpI)
    fix rs x tr rs'
    assume o: "on_signal SIGINT (handle_sigint m) 0 (bulk_read fd 1023) rs = (x, tr, rs')"
    obtain y us ws where b: "bulk_read fd 1023 rs = (y, us, ws)" by (cases "bulk_read fd 1023 rs") auto
    from wp_runs [OF rd b] o b show "after x ?R (\<lambda>_ _. True) ([] @ tr)"
      by (cases y) (auto simp: on_signal_def Let_def split: list.splits)
  qed
  then have "wp (website_data past ep fd (m, buffer)) ?Q (\<lambda>_ _. True) []"
    unfolding website_data_def prod.case
  proof (rule wp_bind [OF wp_mono])
    fix r h
    assume r: "\<forall>bs. r = Inr bs \<longrightarrow> seen (came_in fd) h = bs \<and> length bs \<le> 1023"
    show "wp (case r of Inl e \<Rightarrow> err ''bulk_read'' | Inr bs \<Rightarrow>
         let buffer = overwrite buffer bs; sum = sint (digit_sum (c_text past buffer)); max_sum = (if sum > m then sum else m) in
         bind (tell (Print ''Sum: %d'' [I sum])) (\<lambda>_. bind (sys EpollCtl [I ep, S ''DEL'', I fd]) (\<lambda>r.
         bind (check ''epoll_ctl: client_fd'' r) (\<lambda>_. bind (sys Close [I fd]) (\<lambda>_. return (max_sum, buffer)))))) ?Q (\<lambda>_ _. True) h"
      using r by (cases r) (auto simp: Let_def intro!: wp_bind wp_tell wp_sys wp_check wp_return wp_err)
  qed simp
  from wp_runs [OF this assms] show ?thesis by simp
qed

text \<open>
  \<open>website_client.c\<close> and \<open>website_server.c\<close> together: for a client with process number \<open>n\<close>
  the server prints the sum of the decimal digits of \<open>n\<close>, plus those digits of earlier, longer
  messages (\<open>old\<close>) that its buffer still holds behind the client's: nothing is added when the
  buffer was still zero. The remembered maximum becomes the larger of the two.
\<close>

theorem website_sum:
  assumes "website_data past ep fd (m, old @ replicate k 0) rs = (Val s, h, rs')"
    and "seen (came_in fd) h = decimal n" and "n < 4194304" and "0 \<notin> set old" and "length (decimal n) < length old + k" and "0 < k"
    and "0 \<le> int_sum (drop (length (decimal n)) old)" and "int_sum (drop (length (decimal n)) old) \<le> 20000"
  shows "let sum = int (sum_of_digits n) + int_sum (drop (length (decimal n)) old) in
    Print ''Sum: %d'' [I sum] \<in> set h \<and> fst s = max m sum"
proof -
  from website_data_reads [OF assms(1)] assms(2) have s:
    "fst s = max m (sint (digit_sum (c_text past (overwrite (old @ replicate k 0) (decimal n)))))"
    "Print ''Sum: %d'' [I (sint (digit_sum (c_text past (overwrite (old @ replicate k 0) (decimal n)))))] \<in> set h"
    by auto
  let ?rest = "drop (length (decimal n)) old" and ?k = "k - (length (decimal n) - length old)"
  have "overwrite (old @ replicate k 0) (decimal n) = (decimal n @ ?rest) @ replicate ?k 0"
    by (simp add: overwrite_def)
  moreover have "0 \<notin> set (decimal n @ ?rest)"
    using assms(4) decimal_nonzero(1) [of n] by (auto dest: in_set_dropD)
  ultimately have "c_text past (overwrite (old @ replicate k 0) (decimal n)) = decimal n @ ?rest"
    using takeWhile_text [of "decimal n @ ?rest" ?k past] assms(5,6) by simp
  moreover have i: "int_sum (decimal n @ ?rest) = int (sum_of_digits n) + int_sum ?rest"
    using int_sum_decimal [of n] by (simp add: int_sum_def)
  moreover have "sint (digit_sum (decimal n @ ?rest)) = int_sum (decimal n @ ?rest)"
    unfolding digit_sum_int i using sum_of_digits_small [OF assms(3)] assms(7,8)
    by (intro sint_int16) simp_all
  ultimately have "sint (digit_sum (c_text past (overwrite (old @ replicate k 0) (decimal n)))) = int (sum_of_digits n) + int_sum ?rest"
    by (simp only:)
  with s show ?thesis unfolding Let_def by (simp only:)
qed

lemma website_sum_witness:
  "\<exists>h. website_data [] 5 7 (3, decimal 999 @ replicate 4 0) [Bytes (decimal 12), Bytes [], Done 0, Done 0]
      = (Val (12, decimal 129 @ replicate 4 0), h, [])
    \<and> Print ''Sum: %d'' [I (int (sum_of_digits 12) + 9)] \<in> set h"
proof -
  let ?run = "website_data [] 5 7 (3, decimal 999 @ replicate 4 0) [Bytes (decimal 12), Bytes [], Done 0, Done 0]"
  define h where "h = fst (snd ?run)"
  have "(case ?run of (x, h, rs) \<Rightarrow> x = Val (12, decimal 129 @ replicate 4 0) \<and> rs = [] \<and> seen (came_in 7) h = decimal 12)"
    by code_simp
  then have r: "?run = (Val (12, decimal 129 @ replicate 4 0), h, [])" "seen (came_in 7) h = decimal 12"
    by (auto simp: h_def split: prod.splits)
  have d: "0 \<notin> set (decimal 999)" "length (decimal 12) < length (decimal 999) + 4" "int_sum (drop (length (decimal 12)) (decimal 999)) = 9"
    by code_simp+
  from website_sum [OF r(1,2) _ d(1,2)] d(3) r(1) show ?thesis
    by (auto simp: Let_def)
qed

section \<open>The largest sum\<close>

fun shown_sum :: "event \<Rightarrow> int list" where
  "shown_sum (Print f [I v]) = (if f = ''Sum: %d'' then [v] else [])"
| "shown_sum e = []"

definition best :: "event list \<Rightarrow> int" where
  "best h = foldl max 0 (seen shown_sum h)"

lemma best_append [simp]: "best (h @ tr) = foldl max (best h) (seen shown_sum tr)"
  by (simp add: best_def)

lemma best_silent: "seen shown_sum tr = [] \<Longrightarrow> best (h @ tr) = best h"
  by (simp add: best_def)

text \<open>What an exit with status 0 has printed last.\<close>

definition farewell :: "int option \<Rightarrow> event list \<Rightarrow> bool" where
  "farewell c h \<longleftrightarrow> (c = Some 0 \<longrightarrow> (\<exists>h'. h = h' @ [Print ''Max sum: %d'' [I (best h)]]))"

lemma farewell_simps [simp]:
  "farewell None h" "k \<noteq> 0 \<Longrightarrow> farewell (Some k) h" "farewell (Some 0) (h @ [Print ''Max sum: %d'' [I v]]) \<longleftrightarrow> v = best h"
  by (auto simp: farewell_def)

definition website_inv :: "int \<times> int list \<Rightarrow> event list \<Rightarrow> bool" where
  "website_inv s h \<longleftrightarrow> fst s = best h"

lemma wp_on_sigint:
  assumes m: "wp m (\<lambda>a h'. \<exists>tr. h' = h @ tr \<and> seen shown_sum tr = []) (\<lambda>c h'. c \<noteq> Some 0 \<and> (\<exists>tr. h' = h @ tr \<and> seen shown_sum tr = [])) h"
    and Q: "\<And>a h'. best h' = best h \<Longrightarrow> Q a h'"
  shows "wp (on_signal SIGINT (handle_sigint (best h)) 0 m) Q farewell h"
proof (rule wpI)
  fix rs x tr rs'
  assume o: "on_signal SIGINT (handle_sigint (best h)) 0 m rs = (x, tr, rs')"
  obtain y us ws where b: "m rs = (y, us, ws)" by (cases "m rs") auto
  have silent: "seen shown_sum us = []"
    using wpD [OF m b] by (cases y) auto
  show "after x Q farewell (h @ tr)"
  proof (cases "dropWhile (\<lambda>e. \<not> is_caught SIGINT e) us")
    case Nil
    with o b have "x = y" "tr = us" by (auto simp: on_signal_def)
    with wpD [OF m b] silent show ?thesis by (cases y) (auto simp: best_silent farewell_def intro: Q)
  next
    case (Cons e es)
    let ?t = "takeWhile (\<lambda>e. \<not> is_caught SIGINT e) us"
    from Cons o b have x: "x = Exits 0" "tr = (?t @ [e]) @ handle_sigint (best h)"
      by (auto simp: on_signal_def Let_def)
    have "us = (?t @ [e]) @ es" using Cons takeWhile_dropWhile_id [of "\<lambda>e. \<not> is_caught SIGINT e" us] by simp
    with silent have "seen shown_sum (?t @ [e]) = []" by (metis append_is_Nil_conv seen_simps(3))
    from best_silent [OF this, of h] show ?thesis
      unfolding x handle_sigint_def using farewell_simps(3) [of "h @ ?t @ [e]"] by simp
  qed
qed

lemma silent_calls: "calls_on c fd tr \<Longrightarrow> seen shown_sum tr = []"
  by (erule seen_calls_on) simp

lemma wp_website_data:
  assumes "website_inv s h"
  shows "wp (website_data past ep fd s) website_inv farewell h"
proof -
  obtain m buffer where s: "s = (m, buffer)" "m = best h" using assms by (cases s) (auto simp: website_inv_def)
  show ?thesis
    unfolding website_data_def s prod.case
  proof (rule wp_bind, rule wp_on_sigint, goal_cases read after)
    case read
    show ?case
      by (rule wp_bulk_read) (auto dest: silent_calls)
  next
    case (after r h')
    then show ?case
      by (cases r) (auto simp: Let_def website_inv_def max_def intro!: wp_bind wp_tell wp_sys wp_check wp_return wp_err)
  qed
qed

lemma wp_website_event:
  assumes "website_inv s h"
  shows "wp (website_event past ep server_fd fd s) website_inv farewell h"
  unfolding website_event_def
proof (rule wp_if, goal_cases listening client)
  case listening
  have m: "fst s = best h" using assms by (simp add: website_inv_def)
  show ?case
    unfolding m
  proof (rule wp_bind, rule wp_on_sigint, goal_cases accept after)
    case accept
    show ?case
      by (rule wp_add_new_client) (auto dest: silent_calls)
  next
    case (after r h')
    then show ?case
      by (auto simp: website_inv_def m intro!: wp_bind wp_tell wp_if wp_sys wp_check wp_return wp_err)
  qed
next
  case client
  show ?case by (rule wp_website_data [OF assms])
qed

lemma website_within [within_intros]:
  "within (website_event past ep server_fd fd s)" "within (website_error r s)"
proof -
  have o: "within (on_signal sig out c m)" if "within m" for sig out c and m :: "'b io"
    unfolding within_def
  proof (intro allI impI)
    fix rs x tr rs'
    assume "on_signal sig out c m rs = (x, tr, rs')"
    then show "length rs' \<le> length rs"
      using that unfolding on_signal_def within_def
      by (cases "m rs") (auto simp: Let_def split: list.splits)
  qed
  show "within (website_event past ep server_fd fd s)"
    unfolding website_event_def website_data_def Let_def by (cases s) (auto intro!: within_intros o)
  show "within (website_error r s)"
    unfolding website_error_def by (intro within_intros)
qed

interpretation website: event_server "website_event past ep server_fd" website_error website_inv "\<lambda>(_ :: int) _. False" farewell
  for past ep server_fd
proof (unfold_locales, goal_cases waits reported handled stopped)
  case (handled s h fd)
  then show ?case by (rule wp_website_event)
next
  case (stopped s h r)
  then show ?case
    by (auto simp: website_error_def website_inv_def handle_sigint_def intro!: wp_if wp_bind wp_tell wp_return wp_exit wp_err)
qed (auto simp: website_inv_def intro: within_intros)

text \<open>
  \<open>website_server.c\<close> over a whole run, whatever the clients send: it never returns from \<open>main\<close>;
  when it exits with status 0 the last line it prints is the largest sum it has printed for any
  client (0 if none was positive), wherever the SIGINT strikes.
\<close>

theorem website_prints_maximum:
  assumes "website_main past buffer argv rs = (x, h, rs')"
  shows "(\<forall>v. x \<noteq> Val v) \<and> (x = Exits 0 \<longrightarrow> (\<exists>h'. h = h' @ [Print ''Max sum: %d'' [I (best h)]]))"
proof -
  let ?J = "\<lambda>h. best h = 0"
  have sys: "wp (bind (sys c args) f) (\<lambda>_ _. False) farewell h" if "?J h" "\<And>r h. ?J h \<Longrightarrow> wp (f r) (\<lambda>_ _. False) farewell h"
    for c args f h by (rule wp_bind, rule wp_sys_quiet [where J = ?J]) (use that in simp_all)
  have chk: "wp (bind (check m r) f) (\<lambda>_ _. False) farewell h" if "?J h" "\<And>v. wp (f v) (\<lambda>_ _. False) farewell h" for m r f h
    by (rule wp_bind, rule wp_check) (use that in simp_all)
  have b: "wp (bind (if b then err m else return ()) f) (\<lambda>_ _. False) farewell h" if "?J h" "wp (f ()) (\<lambda>_ _. False) farewell h" for b m f h
    by (rule wp_bind, rule wp_if) (use that in \<open>auto intro: wp_err wp_return\<close>)
  have "wp (website_main past buffer argv) (\<lambda>_ _. False) farewell []"
    unfolding website_main_def sethandler_def
  proof (rule b, simp add: best_def, rule wp_bind, rule wp_bind_tcp_socket [where J = ?J], goal_cases start quiet complain E Q)
    case (E h c)
    then show ?case by (auto simp: farewell_def)
  next
    case (Q fd h)
    have loop: "wp (event_loop ep n (website_event past ep fd) website_error (0, buffer)) (\<lambda>_ _. False) farewell h"
      if "?J h" for ep n h
      by (rule website.loop_keeps) (use that in \<open>simp add: website_inv_def\<close>)
    show ?case
    proof (rule wp_bind, rule wp_bind, rule wp_sys_quiet [where J = ?J], rule Q, goal_cases quiet wait go)
      case (go r h)
      then show ?case by (intro wp_return sys chk loop) simp_all
    qed simp_all
  qed (simp_all add: best_def)
  from wp_runs [OF this assms] show ?thesis
    by (cases x) (auto simp: farewell_def)
qed

definition two_pids :: "reply list" where
  "two_pids = [Done 3, Done 0, Done 0, Done 0, Done 0, Done 5, Done 0,
     Ready [3], Done 7, Done 0, Ready [7], Bytes (decimal 99), Bytes [], Done 0, Done 0,
     Ready [3], Done 8, Done 0, Ready [8], Bytes (decimal 12), Caught 2]"

lemma website_prints_maximum_witness:
  "\<exists>h h'. website_main [] (replicate 1024 0) [''s'', ''80''] two_pids = (Exits 0, h, [])
    \<and> h = h' @ [Print ''Max sum: %d'' [I 18]]"
proof -
  let ?run = "website_main [] (replicate 1024 0) [''s'', ''80''] two_pids"
  define h where "h = fst (snd ?run)"
  have "(case ?run of (x, h, rs) \<Rightarrow> x = Exits 0 \<and> rs = [] \<and> best h = 18)"
    by code_simp
  then have r: "?run = (Exits 0, h, [])" "best h = 18"
    by (auto simp: h_def split: prod.splits)
  from website_prints_maximum [OF r(1)] r show ?thesis by auto
qed

end
