(* ===== verification/Pipes.thy ===== *)
theory Pipes
  imports EventLoop
begin

text \<open>
  The pipe and FIFO examples of the lecture (\<open>Lecture Codes/01_pipes\<close>), and the FIFO programs of
  \<open>Lab - 5/Tutorial/FIFOs\<close>. A program that forks is one program here too: the reply of \<open>fork\<close> says
  in which of the two processes it goes on.
\<close>

section \<open>Common steps\<close>

text \<open>\<open>if (... < 0) { perror(source); return 1; }\<close>\<close>

definition or_return :: "string \<Rightarrow> reply \<Rightarrow> (int \<Rightarrow> int io) \<Rightarrow> int io" where
  "or_return source r f = (if failed r then bind (tell (Complain source)) (\<lambda>_. return 1) else f (val_of r))"

text \<open>\<open>pipe\<close> reports two descriptors, the read end and the write end.\<close>

fun pipe_ends :: "reply \<Rightarrow> int \<times> int" where
  "pipe_ends (Ready [r, w]) = (r, w)"
| "pipe_ends r = (0, 0)"

definition with_pipe :: "(int \<Rightarrow> int \<Rightarrow> int io) \<Rightarrow> int io" where
  "with_pipe f =
     bind (sys Pipe []) (\<lambda>r. or_return ''pipe(): '' r (\<lambda>_. case pipe_ends r of (rd, wr) \<Rightarrow> f rd wr))"

text \<open>A \<open>switch (fork())\<close> with an error, a child and a parent case.\<close>

definition fork_switch :: "int io \<Rightarrow> int io \<Rightarrow> int io" where
  "fork_switch child parent =
     bind (sys Fork []) (\<lambda>r.
     if val_of r = -1 then bind (tell (Complain ''fork(): '')) (\<lambda>_. return 1)
     else if val_of r = 0 then child
     else parent)"

definition close_fd :: "int \<Rightarrow> unit io" where
  "close_fd fd = bind (sys Close [I fd]) (\<lambda>_. return ())"

text \<open>\<open>while (wait(NULL) > 0);\<close>\<close>

definition wait_all :: "unit io" where
  "wait_all = loop (\<lambda>u. bind (sys Wait []) (\<lambda>r. return (if val_of r > 0 then Inl () else Inr ()))) ()"

text \<open>The string \<open>"text"\<close> with its terminating zero.\<close>

definition TEXT :: "int list" where
  "TEXT = [116, 101, 120, 116, 0]"

definition say :: "string \<Rightarrow> arg list \<Rightarrow> unit io" where
  "say f args = tell (Print f args)"

definition getpid_say :: "string \<Rightarrow> arg list \<Rightarrow> unit io" where
  "getpid_say f args = bind (sys Getpid []) (\<lambda>p. say f (I (val_of p) # args))"

section \<open>The lecture's programs\<close>

definition pipe_creation :: "int list \<Rightarrow> int io" where
  "pipe_creation past =
     with_pipe (\<lambda>rd wr.
     bind (sys Write [I wr, B TEXT]) (\<lambda>r. or_return ''write(): '' r (\<lambda>_.
     bind (uninit 16) (\<lambda>buf.
     bind (sys Read [I rd, I 16]) (\<lambda>r. or_return ''write(): '' r (\<lambda>_.
     let bs = bytes_of 16 r in
     bind (say ''read() returned %ld bytes: %s'' [I (int (length bs)), B (c_text past (overwrite buf bs))]) (\<lambda>_.
     bind (close_fd rd) (\<lambda>_.
     bind (close_fd wr) (\<lambda>_. return 0)))))))))"

definition reader_side :: "int list \<Rightarrow> int \<Rightarrow> int \<Rightarrow> int io \<Rightarrow> int io" where
  "reader_side past rd wr finish =
     bind (close_fd wr) (\<lambda>_.
     bind (uninit 16) (\<lambda>buf.
     bind (sys Read [I rd, I 16]) (\<lambda>r. or_return ''read(): '' r (\<lambda>_.
     let bs = bytes_of 16 r in
     bind (getpid_say ''[%d] read() returned %ld bytes: %s'' [I (int (length bs)), B (c_text past (overwrite buf bs))]) (\<lambda>_.
     bind (close_fd rd) (\<lambda>_. finish))))))"

definition writer_side :: "int \<Rightarrow> int \<Rightarrow> int io \<Rightarrow> int io" where
  "writer_side rd wr finish =
     bind (close_fd rd) (\<lambda>_.
     bind (sys Write [I wr, B TEXT]) (\<lambda>r. or_return ''write(): '' r (\<lambda>ret.
     bind (getpid_say ''[%d] write() returned %ld bytes'' [I ret]) (\<lambda>_.
     bind (close_fd wr) (\<lambda>_. finish)))))"

definition pipe_to_child :: "int list \<Rightarrow> int io" where
  "pipe_to_child past =
     with_pipe (\<lambda>rd wr. fork_switch (reader_side past rd wr (return 0)) (writer_side rd wr (bind wait_all (\<lambda>_. return 0))))"

definition pipe_to_parent :: "int list \<Rightarrow> int io" where
  "pipe_to_parent past =
     with_pipe (\<lambda>rd wr. fork_switch (writer_side rd wr (return 0)) (reader_side past rd wr (bind wait_all (\<lambda>_. return 0))))"

text \<open>\<open>05_epipe.c\<close> and, with a handler for SIGPIPE, \<open>06_epipe_with_handler.c\<close>.\<close>

definition write_to_nobody :: "int io" where
  "write_to_nobody =
     with_pipe (\<lambda>rd wr.
     bind (close_fd rd) (\<lambda>_.
     bind (sys Write [I wr, B TEXT]) (\<lambda>r. or_return ''write(): '' r (\<lambda>_.
     bind (close_fd wr) (\<lambda>_. return 0)))))"

definition epipe_with_handler :: "int io" where
  "epipe_with_handler =
     bind (sys Sigaction [I SIGPIPE, S ''signal_handler'']) (\<lambda>r. or_return ''sigaction(): '' r (\<lambda>_.
     with_pipe (\<lambda>rd wr.
     bind (close_fd rd) (\<lambda>_.
     bind (sys Write [I wr, B TEXT]) (\<lambda>r.
     bind (if failed r \<and> errno_of r = EPIPE then say ''Received signal %d'' [I SIGPIPE] else return ()) (\<lambda>_.
     or_return ''write(): '' r (\<lambda>_.
     bind (close_fd wr) (\<lambda>_. return 0))))))))"

text \<open>\<open>07_read_close.c\<close>\<close>

definition read_until_end :: "int \<Rightarrow> int io" where
  "read_until_end rd =
     loop (\<lambda>u. bind (sys Read [I rd, I 16]) (\<lambda>r.
       if failed r then bind (tell (Complain ''read(): '')) (\<lambda>_. return (Inr 1))
       else let bs = bytes_of 16 r in
         bind (getpid_say ''[%d] read() returned %ld bytes'' [I (int (length bs))]) (\<lambda>_.
         if bs = [] then bind (close_fd rd) (\<lambda>_. return (Inr 0)) else return (Inl ())))) ()"

fun write_times :: "nat \<Rightarrow> int list \<Rightarrow> bool \<Rightarrow> int \<Rightarrow> int io \<Rightarrow> int io" where
  "write_times 0 msg slow wr finish = finish"
| "write_times (Suc n) msg slow wr finish =
     bind (sys Write [I wr, B msg]) (\<lambda>r. or_return ''write(): '' r (\<lambda>ret.
     bind (getpid_say ''[%d] write() returned %ld bytes'' [I ret]) (\<lambda>_.
     bind (if slow then bind (sys Nanosleep [I 1]) (\<lambda>_. return ()) else return ()) (\<lambda>_.
     write_times n msg slow wr finish))))"

definition read_close :: "int io" where
  "read_close =
     with_pipe (\<lambda>rd wr. fork_switch
       (bind (close_fd wr) (\<lambda>_. read_until_end rd))
       (bind (close_fd rd) (\<lambda>_. write_times 5 TEXT True wr
          (bind (getpid_say ''[%d] closing pipe'' []) (\<lambda>_. bind (close_fd wr) (\<lambda>_. bind wait_all (\<lambda>_. return 0)))))))"

text \<open>\<open>08_write_sticking.c\<close>, where \<open>PIPE_BUF\<close> is 4096\<close>

definition PIPE_BUF :: nat where "PIPE_BUF = 4096"

definition write_sticking :: "int io" where
  "write_sticking =
     with_pipe (\<lambda>rd wr.
     bind (say ''PIPE_BUF = %d'' [I (int PIPE_BUF)]) (\<lambda>_.
     fork_switch
       (bind (close_fd wr) (\<lambda>_.
        bind (loop (\<lambda>u. bind (sys Read [I rd, I (int PIPE_BUF)]) (\<lambda>r.
          if failed r then bind (tell (Complain ''read(): '')) (\<lambda>_. return (Inr 1))
          else let bs = bytes_of PIPE_BUF r in
            if bs = [] then return (Inr 0)
            else bind (getpid_say ''[%d] read() returned %ld bytes'' [I (int (length bs))]) (\<lambda>_. return (Inl ())))) ()) (\<lambda>status.
        if status = 0 then bind (close_fd rd) (\<lambda>_. return 0) else return status)))
       (bind (close_fd rd) (\<lambda>_. write_times 10 (replicate 10 0) False wr
          (bind (close_fd wr) (\<lambda>_. bind wait_all (\<lambda>_. return 0)))))))"

text \<open>\<open>09_pipe_capacity.c\<close> and \<open>10_pipebuf.c\<close>\<close>

definition pipe_capacity :: "int io" where
  "pipe_capacity =
     with_pipe (\<lambda>rd wr.
     loop (\<lambda>total. bind (sys Write [I wr, B [120]]) (\<lambda>r.
       if failed r then bind (tell (Complain ''write(): '')) (\<lambda>_. return (Inr 1))
       else let total = total + val_of r in
         bind (say ''Total bytes written: %ld'' [I total]) (\<lambda>_. return (Inl total)))) 0)"

definition set_nonblock :: "int \<Rightarrow> int io" where
  "set_nonblock desc =
     bind (sys Fcntl [I desc, S ''F_GETFL'']) (\<lambda>r.
     if val_of r = -1 then return (-1)
     else bind (sys Fcntl [I desc, S ''F_SETFL'', I (or (val_of r) 2048)]) (\<lambda>r. return (val_of r)))"

definition PIPE_CAP :: nat where "PIPE_CAP = 65536"

fun fill_pipe :: "nat \<Rightarrow> int \<Rightarrow> int \<Rightarrow> int io \<Rightarrow> int io" where
  "fill_pipe 0 written wr finish = finish"
| "fill_pipe (Suc n) written wr finish =
     bind (sys Write [I wr, B (replicate (PIPE_BUF div 2) 0)]) (\<lambda>r. or_return ''write(): '' r (\<lambda>ret.
     bind (say ''Total bytes written: %ld'' [I (written + ret)]) (\<lambda>_. fill_pipe n (written + ret) wr finish)))"

definition pipebuf :: "int io" where
  "pipebuf =
     with_pipe (\<lambda>rd wr.
     bind (set_nonblock wr) (\<lambda>_.
     fill_pipe (PIPE_CAP div (PIPE_BUF div 2) - 1) 0 wr
       (bind (say ''Trying to write more bytes'' []) (\<lambda>_.
        bind (sys Write [I wr, B (replicate (PIPE_BUF + 1) 0)]) (\<lambda>r. or_return ''write(): '' r (\<lambda>ret.
        bind (say ''Done! Written %ld bytes'' [I ret]) (\<lambda>_. return 0)))))))"

text \<open>\<open>11_fifo_creation.c\<close> and \<open>12_fifo_communication.c\<close>\<close>

definition FIFO_NAME :: string where "FIFO_NAME = ''my.fifo''"

definition make_fifo :: "string \<Rightarrow> (unit \<Rightarrow> int io) \<Rightarrow> int io" where
  "make_fifo name f = bind (sys Mkfifo [S name, I 438]) (\<lambda>r. or_return ''mkfifo(): '' r (\<lambda>_. f ()))"

definition fifo_creation :: "int io" where
  "fifo_creation =
     bind (sys Unlink [S FIFO_NAME]) (\<lambda>_.
     make_fifo FIFO_NAME (\<lambda>_.
     bind (say ''Trying to open FIFO %s'' [S FIFO_NAME]) (\<lambda>_.
     bind (sys Open [S FIFO_NAME, S ''O_RDONLY'']) (\<lambda>r. or_return ''open(): '' r (\<lambda>fd.
     bind (say ''Done'' []) (\<lambda>_.
     bind (close_fd fd) (\<lambda>_. return 0)))))))"

definition fifo_communication :: "int io" where
  "fifo_communication =
     bind (sys Unlink [S FIFO_NAME]) (\<lambda>_.
     make_fifo FIFO_NAME (\<lambda>_.
     fork_switch
       (bind (say ''Trying to open FIFO %s for reading'' [S FIFO_NAME]) (\<lambda>_.
        bind (sys Open [S FIFO_NAME, S ''O_RDONLY'']) (\<lambda>r. or_return ''open(): '' r (\<lambda>fd.
        bind (sys Read [I fd, I 16]) (\<lambda>r. or_return ''write()'' r (\<lambda>ret.
        bind (say ''read() returned %ld bytes'' [I ret]) (\<lambda>_.
        bind (close_fd fd) (\<lambda>_. return 0))))))))
       (bind (say ''Trying to open FIFO %s for writing'' [S FIFO_NAME]) (\<lambda>_.
        bind (sys Open [S FIFO_NAME, S ''O_WRONLY'']) (\<lambda>r. or_return ''open(): '' r (\<lambda>fd.
        bind (sys Write [I fd, B TEXT]) (\<lambda>r. or_return ''write()'' r (\<lambda>_.
        bind (close_fd fd) (\<lambda>_.
        bind wait_all (\<lambda>_. return 0))))))))))"

section \<open>Two FIFOs opened in opposite order\<close>

text \<open>
  \<open>13_fifo_deadlock.c\<close> as two processes that move in turns. Opening a FIFO for reading (writing)
  returns once the other process has it open, or is opening it, for writing (reading); until then
  the process waits in \<open>open\<close>. Each process stands before one of its steps, given as a list: the
  FIFO it opens next and what it prints and closes then.
\<close>

datatype fifo_name = FIFO1 | FIFO2

datatype fifo_step = Announce string fifo_name | Opens fifo_name bool | Says string | Closes fifo_name | Waits_child | Leaves int

definition fifo_child :: "fifo_step list" where
  "fifo_child =
     [Announce ''Trying to open FIFO %s for reading'' FIFO1, Opens FIFO1 True,
      Announce ''Trying to open FIFO %s for reading'' FIFO2, Opens FIFO2 True,
      Says ''Child done!'', Closes FIFO1, Closes FIFO2, Leaves 0]"

definition fifo_parent :: "fifo_step list" where
  "fifo_parent =
     [Announce ''Trying to open FIFO %s for writing'' FIFO2, Opens FIFO2 False,
      Announce ''Trying to open FIFO %s for writing'' FIFO1, Opens FIFO1 False,
      Says ''Parent done!'', Closes FIFO1, Closes FIFO2, Waits_child, Leaves 0]"

record fifo_sys =
  child :: "fifo_step list"
  parent :: "fifo_step list"
  opened :: "(fifo_name \<times> bool) list"
  said :: "string list"

text \<open>\<open>open\<close> can return: the other side is open already, or the other process is just opening it.\<close>

definition can_open :: "fifo_sys \<Rightarrow> fifo_step list \<Rightarrow> fifo_name \<Rightarrow> bool \<Rightarrow> bool" where
  "can_open s other f reading \<longleftrightarrow>
     (f, \<not> reading) \<in> set (opened s) \<or> (case other of st # _ \<Rightarrow> st = Opens f (\<not> reading) | [] \<Rightarrow> False)"

inductive fifo_move :: "fifo_sys \<Rightarrow> fifo_sys \<Rightarrow> bool" where
  child_says: "child s = Announce t f # rest \<Longrightarrow> fifo_move s (s\<lparr>child := rest, said := said s @ [t]\<rparr>)"
| child_opens: "child s = Opens f m # rest \<Longrightarrow> can_open s (parent s) f m \<Longrightarrow>
    fifo_move s (s\<lparr>child := rest, opened := (f, m) # opened s\<rparr>)"
| child_fails: "child s = Opens f m # rest \<Longrightarrow> fifo_move s (s\<lparr>child := [Leaves 1]\<rparr>)"
| child_prints: "child s = Says t # rest \<Longrightarrow> fifo_move s (s\<lparr>child := rest, said := said s @ [t]\<rparr>)"
| child_closes: "child s = Closes f # rest \<Longrightarrow> fifo_move s (s\<lparr>child := rest, opened := filter (\<lambda>p. p \<noteq> (f, True)) (opened s)\<rparr>)"
| parent_says: "parent s = Announce t f # rest \<Longrightarrow> fifo_move s (s\<lparr>parent := rest, said := said s @ [t]\<rparr>)"
| parent_opens: "parent s = Opens f m # rest \<Longrightarrow> can_open s (child s) f m \<Longrightarrow>
    fifo_move s (s\<lparr>parent := rest, opened := (f, m) # opened s\<rparr>)"
| parent_fails: "parent s = Opens f m # rest \<Longrightarrow> fifo_move s (s\<lparr>parent := [Leaves 1]\<rparr>)"
| parent_prints: "parent s = Says t # rest \<Longrightarrow> fifo_move s (s\<lparr>parent := rest, said := said s @ [t]\<rparr>)"
| parent_closes: "parent s = Closes f # rest \<Longrightarrow> fifo_move s (s\<lparr>parent := rest, opened := filter (\<lambda>p. p \<noteq> (f, False)) (opened s)\<rparr>)"
| parent_waits: "parent s = Waits_child # rest \<Longrightarrow> child s = [Leaves c] \<Longrightarrow> fifo_move s (s\<lparr>parent := rest\<rparr>)"

inductive_cases fifo_moves: "fifo_move s s'"

definition fifo_start :: fifo_sys where
  "fifo_start = \<lparr>child = fifo_child, parent = fifo_parent, opened = [], said = []\<rparr>"

text \<open>Nobody gets beyond the first \<open>open\<close>.\<close>

definition before_open :: "fifo_step list \<Rightarrow> fifo_step list \<Rightarrow> bool" where
  "before_open whole rest \<longleftrightarrow> rest = whole \<or> rest = tl whole \<or> rest = [Leaves 1]"

definition fifo_inv :: "fifo_sys \<Rightarrow> bool" where
  "fifo_inv s \<longleftrightarrow> before_open fifo_child (child s) \<and> before_open fifo_parent (parent s) \<and> opened s = []
     \<and> ''Child done!'' \<notin> set (said s) \<and> ''Parent done!'' \<notin> set (said s)"

lemma fifo_inv_step:
  assumes "fifo_inv s" and "fifo_move s s'"
  shows "fifo_inv s'"
  using assms(2,1)
  by cases (auto simp: fifo_inv_def before_open_def fifo_child_def fifo_parent_def can_open_def)

text \<open>
  C37. \<open>13_fifo_deadlock.c\<close> always deadlocks: in every reachable state of parent and child no FIFO is
  open on any side and neither process has printed that it is done; and once both stand before
  their first \<open>open\<close>, no step is possible but a failure of one of these calls.
\<close>

theorem fifos_always_deadlock:
  assumes "fifo_move\<^sup>*\<^sup>* fifo_start s"
  shows "opened s = [] \<and> ''Child done!'' \<notin> set (said s) \<and> ''Parent done!'' \<notin> set (said s)
    \<and> (child s = tl fifo_child \<and> parent s = tl fifo_parent \<longrightarrow>
        (\<forall>s'. fifo_move s s' \<longrightarrow> child s' = [Leaves 1] \<or> parent s' = [Leaves 1]))"
proof -
  have inv: "fifo_inv s"
    using assms
  proof induction
    case base
    show ?case by (simp add: fifo_inv_def fifo_start_def before_open_def)
  next
    case (step s s')
    then show ?case using fifo_inv_step by blast
  qed
  have "child s' = [Leaves 1] \<or> parent s' = [Leaves 1]"
    if "child s = tl fifo_child" "parent s = tl fifo_parent" "fifo_move s s'" for s'
    using that(3,1,2) inv by cases (auto simp: fifo_inv_def fifo_child_def fifo_parent_def can_open_def)
  with inv show ?thesis by (simp add: fifo_inv_def)
qed

definition fifo_stuck :: fifo_sys where
  "fifo_stuck = \<lparr>child = tl fifo_child, parent = tl fifo_parent, opened = [],
     said = [''Trying to open FIFO %s for reading'', ''Trying to open FIFO %s for writing'']\<rparr>"

lemma fifos_always_deadlock_witness:
  "fifo_move\<^sup>*\<^sup>* fifo_start fifo_stuck \<and> opened fifo_stuck = [] \<and> ''Child done!'' \<notin> set (said fifo_stuck)"
proof -
  let ?mid = "fifo_start\<lparr>child := tl fifo_child, said := [''Trying to open FIFO %s for reading'']\<rparr>"
  have "fifo_move fifo_start ?mid"
    using child_says [of fifo_start "''Trying to open FIFO %s for reading''" FIFO1 "tl fifo_child"]
    by (simp add: fifo_start_def fifo_child_def)
  moreover have "fifo_move ?mid fifo_stuck"
    using parent_says [of ?mid "''Trying to open FIFO %s for writing''" FIFO2 "tl fifo_parent"]
    by (simp add: fifo_start_def fifo_stuck_def fifo_parent_def)
  ultimately have r: "fifo_move\<^sup>*\<^sup>* fifo_start fifo_stuck" by (meson converse_rtranclp_into_rtranclp rtranclp.rtrancl_refl)
  from fifos_always_deadlock [OF r] r show ?thesis by blast
qed

end
