(* ===== verification/Fifos.thy ===== *)
theory Fifos
  imports Calculator Pipes
begin

text \<open>
  The FIFO programs of \<open>Lab - 5/Tutorial/FIFOs\<close>: \<open>prog21_c.c\<close> sends a file through a FIFO in packets
  of \<open>PIPE_BUF\<close> bytes that start with its process number, \<open>prog21b_s.c\<close> prints the letters and digits
  of the packets, \<open>prog21a_s.c\<close> those of a plain stream of bytes.
\<close>

section \<open>The client\<close>

definition MSG_SIZE :: nat where "MSG_SIZE = PIPE_BUF - 4"

text \<open>The process number and what was read, the rest of the buffer filled with zeros.\<close>

definition packet :: "int \<Rightarrow> int list \<Rightarrow> int list" where
  "packet pid bs = bytes_le (word_of_int pid) @ bs @ replicate (MSG_SIZE - length bs) 0"

definition copy_round :: "int \<Rightarrow> int \<Rightarrow> int \<Rightarrow> unit \<Rightarrow> (unit + unit) io" where
  "copy_round pid fifo file u =
     bind (sys Read [I file, I (int MSG_SIZE)]) (\<lambda>r. bind (check ''Read:'' r) (\<lambda>_.
     let bs = bytes_of MSG_SIZE r in
     bind (if bs \<noteq> [] then bind (sys Write [I fifo, B (packet pid bs)]) (\<lambda>w. bind (check ''Write:'' w) (\<lambda>_. return ()))
           else return ()) (\<lambda>_.
     return (if length bs = MSG_SIZE then Inl () else Inr ()))))"

definition write_to_fifo :: "int \<Rightarrow> int \<Rightarrow> unit io" where
  "write_to_fifo fifo file =
     bind (sys Getpid []) (\<lambda>p. loop (copy_round (val_of p) fifo file) ())"

definition fifo_usage :: "string \<Rightarrow> 'a io" where
  "fifo_usage line = bind (tell (Complain line)) (\<lambda>_. exit_with 1)"

definition create_fifo :: "string \<Rightarrow> unit io" where
  "create_fifo name =
     bind (sys Mkfifo [S name, I 432]) (\<lambda>r.
     if failed r \<and> errno_of r \<noteq> EEXIST then err ''create fifo'' else return ())"

text \<open>A failed \<open>close\<close> is only reported here.\<close>

definition close_reporting :: "int \<Rightarrow> unit io" where
  "close_reporting fd = bind (sys Close [I fd]) (\<lambda>r. if failed r then tell (Complain ''Close fifo:'') else return ())"

definition fifo_client_main :: "string list \<Rightarrow> int io" where
  "fifo_client_main argv =
     bind (if length argv \<noteq> 3 then fifo_usage ''USAGE: %s fifo_file file'' else return ()) (\<lambda>_.
     bind (create_fifo (argv ! 1)) (\<lambda>_.
     bind (sys Open [S (argv ! 1), S ''O_WRONLY'']) (\<lambda>r. bind (check ''open'' r) (\<lambda>fifo.
     bind (sys Open [S (argv ! 2), S ''O_RDONLY'']) (\<lambda>r. bind (check ''file open'' r) (\<lambda>file.
     bind (write_to_fifo fifo file) (\<lambda>_.
     bind (close_reporting file) (\<lambda>_.
     bind (close_reporting fifo) (\<lambda>_. return 0)))))))))"

section \<open>The servers\<close>

text \<open>\<open>isalnum\<close> in the C locale.\<close>

definition isalnum :: "int \<Rightarrow> bool" where
  "isalnum c \<longleftrightarrow> 48 \<le> c \<and> c \<le> 57 \<or> 65 \<le> c \<and> c \<le> 90 \<or> 97 \<le> c \<and> c \<le> 122"

definition put_char :: "int \<Rightarrow> event" where
  "put_char c = Print ''%c'' [I c]"

definition read_chars :: "int \<Rightarrow> unit io" where
  "read_chars fifo =
     loop (\<lambda>u. bind (sys Read [I fifo, I 1]) (\<lambda>r. bind (check ''read'' r) (\<lambda>_.
       case bytes_of 1 r of
         [] \<Rightarrow> return (Inr ())
       | c # _ \<Rightarrow> bind (if isalnum c then tell (put_char c) else return ()) (\<lambda>_. return (Inl ()))))) ()"

definition char_server_main :: "string list \<Rightarrow> int io" where
  "char_server_main argv =
     bind (if length argv \<noteq> 2 then fifo_usage ''USAGE: %s fifo_file'' else return ()) (\<lambda>_.
     bind (create_fifo (argv ! 1)) (\<lambda>_.
     bind (sys Open [S (argv ! 1), S ''O_RDONLY'']) (\<lambda>r. bind (check ''open'' r) (\<lambda>fifo.
     bind (read_chars fifo) (\<lambda>_.
     bind (sys Close [I fifo]) (\<lambda>r. bind (check ''close fifo:'' r) (\<lambda>_. return 0)))))))"

text \<open>
  The packet server prints the whole buffer for each read; where a read is shorter than the buffer,
  the rest is what it held before.
\<close>

definition print_packet :: "int list \<Rightarrow> unit io" where
  "print_packet buffer =
     bind (tell (Print ''PID:%d-------------------------------------'' [I (sint (word_le (take 4 buffer)))])) (\<lambda>_.
     for_each (drop 4 buffer) (\<lambda>c u. if isalnum c then tell (put_char c) else return ()) ())"

definition read_from_fifo :: "int \<Rightarrow> int list \<Rightarrow> unit io" where
  "read_from_fifo fifo buffer =
     loop (\<lambda>buffer. bind (sys Read [I fifo, I (int PIPE_BUF)]) (\<lambda>r. bind (check ''read'' r) (\<lambda>_.
       let bs = bytes_of PIPE_BUF r; buffer = overwrite buffer bs in
       if bs = [] then return (Inr ())
       else bind (print_packet buffer) (\<lambda>_. return (Inl buffer))))) buffer"

definition packet_server_main :: "int list \<Rightarrow> string list \<Rightarrow> int io" where
  "packet_server_main buffer argv =
     bind (if length argv \<noteq> 2 then fifo_usage ''USAGE: %s fifo_file'' else return ()) (\<lambda>_.
     bind (create_fifo (argv ! 1)) (\<lambda>_.
     bind (sys Open [S (argv ! 1), S ''O_RDONLY'']) (\<lambda>r. bind (check ''open'' r) (\<lambda>fifo.
     bind (read_from_fifo fifo buffer) (\<lambda>_.
     bind (sys Close [I fifo]) (\<lambda>r. bind (check ''close fifo:'' r) (\<lambda>_.
     bind (sys Unlink [S (argv ! 1)]) (\<lambda>r. bind (check ''remove fifo:'' r) (\<lambda>_. return 0)))))))))"

section \<open>Packets out and in\<close>

fun packets_out :: "int \<Rightarrow> event \<Rightarrow> int list list" where
  "packets_out fd (Sys Write [I f, B bs] (Some r)) = (if f = fd \<and> \<not> failed r then [bs] else [])"
| "packets_out fd e = []"

fun packets_in :: "int \<Rightarrow> event \<Rightarrow> int list list" where
  "packets_in fd (Sys Read [I f, I n] (Some r)) = (if f = fd \<and> bytes_of (nat n) r \<noteq> [] then [bytes_of (nat n) r] else [])"
| "packets_in fd e = []"

fun chars_out :: "event \<Rightarrow> int list" where
  "chars_out (Print f [I c]) = (if f = ''%c'' then [c] else [])"
| "chars_out e = []"

definition pieces :: "int \<Rightarrow> int list list \<Rightarrow> event list \<Rightarrow> bool" where
  "pieces file ps h \<longleftrightarrow> seen (came_in file) h = concat ps \<and> (\<forall>p \<in> set ps. length p \<le> MSG_SIZE)"

lemma length_bytes_of: "length (bytes_of n r) \<le> n"
  by (cases r) auto

lemma bytes_of_short: "length (bytes_of n r) \<le> n"
  by (cases r) auto

lemma within_packets [within_intros]: "progressing (copy_round pid fifo inp u)" "within (print_packet buffer)"
  unfolding copy_round_def print_packet_def Let_def by (intro within_intros)+

text \<open>The client: what went out are the packets of the pieces that came in from the file.\<close>

lemma wp_copy_round:
  assumes J: "pieces inp ps h" "seen (packets_out fifo) h = map (packet pid) ps"
  shows "wp (copy_round pid fifo inp u)
     (\<lambda>_ h. \<exists>ps. pieces inp ps h \<and> seen (packets_out fifo) h = map (packet pid) ps) (\<lambda>_ _. True) h"
  unfolding copy_round_def
proof (rule wp_bind, rule wp_sys, simp, rule wp_bind, rule wp_check, simp, unfold Let_def, rule wp_bind, rule wp_if)
  fix r
  let ?bs = "bytes_of MSG_SIZE r" and ?h = "h @ [Sys Read [I inp, I (int MSG_SIZE)] (Some r)]"
  assume some: "?bs \<noteq> []"
  have "pieces inp (ps @ [?bs]) (?h @ [Sys Write [I fifo, B (packet pid ?bs)] (Some w)])"
    "seen (packets_out fifo) (?h @ [Sys Write [I fifo, B (packet pid ?bs)] (Some w)]) = map (packet pid) (ps @ [?bs])"
    if "\<not> failed w" for w
    using J that bytes_of_short [of MSG_SIZE r] by (auto simp: pieces_def)
  then have "\<exists>ps. pieces inp ps (?h @ [Sys Write [I fifo, B (packet pid ?bs)] (Some w)])
      \<and> seen (packets_out fifo) (?h @ [Sys Write [I fifo, B (packet pid ?bs)] (Some w)]) = map (packet pid) ps"
    if "\<not> failed w" for w
    using that by blast
  then show "wp (bind (sys Write [I fifo, B (packet pid ?bs)]) (\<lambda>w. bind (check ''Write:'' w) (\<lambda>_. return ())))
      (\<lambda>_. wp (return (if length ?bs = MSG_SIZE then Inl () else Inr ()))
        (\<lambda>_ h. \<exists>ps. pieces inp ps h \<and> seen (packets_out fifo) h = map (packet pid) ps) (\<lambda>_ _. True)) (\<lambda>_ _. True) ?h"
    by (intro wp_bind wp_sys wp_check wp_return TrueI) simp
next
  fix r
  let ?bs = "bytes_of MSG_SIZE r" and ?h = "h @ [Sys Read [I inp, I (int MSG_SIZE)] (Some r)]"
  assume "\<not> ?bs \<noteq> []"
  with J have "pieces inp ps ?h" "seen (packets_out fifo) ?h = map (packet pid) ps"
    by (auto simp: pieces_def)
  then show "wp (return ()) (\<lambda>_. wp (return (if length ?bs = MSG_SIZE then Inl () else Inr ()))
        (\<lambda>_ h. \<exists>ps. pieces inp ps h \<and> seen (packets_out fifo) h = map (packet pid) ps) (\<lambda>_ _. True)) (\<lambda>_ _. True) ?h"
    by (auto intro!: wp_return)
qed

lemma wp_write_to_fifo:
  "wp (write_to_fifo fifo inp)
     (\<lambda>_ h. \<exists>pid ps. pieces inp ps h \<and> seen (packets_out fifo) h = map (packet pid) ps) (\<lambda>_ _. True) []"
  unfolding write_to_fifo_def
proof (rule wp_bind, rule wp_sys, simp)
  fix r
  let ?J = "\<lambda>u h. \<exists>ps. pieces inp ps h \<and> seen (packets_out fifo) h = map (packet (val_of r)) ps"
  show "wp (loop (copy_round (val_of r) fifo inp) ())
     (\<lambda>_ h. \<exists>pid ps. pieces inp ps h \<and> seen (packets_out fifo) h = map (packet pid) ps) (\<lambda>_ _. True)
     ([] @ [Sys Getpid [] (Some r)])"
  proof (rule wp_loop [where J = ?J, OF within_packets(1)])
    show "?J () ([] @ [Sys Getpid [] (Some r)])"
      by (intro exI [of _ "[]"]) (simp add: pieces_def)
  next
    fix s h
    assume "?J s h"
    then obtain ps where "pieces inp ps h" "seen (packets_out fifo) h = map (packet (val_of r)) ps" by blast
    from wp_copy_round [OF this] show "wp (copy_round (val_of r) fifo inp s)
        (\<lambda>x h'. case x of Inl s' \<Rightarrow> ?J s' h'
          | Inr a \<Rightarrow> \<exists>pid ps. pieces inp ps h' \<and> seen (packets_out fifo) h' = map (packet pid) ps) (\<lambda>_ _. True) h"
      by (rule wp_mono) (auto split: sum.splits)
  qed
qed

text \<open>The packet server: for every full packet the letters and digits behind the process number.\<close>

lemma wp_print_packet:
  assumes "\<And>tr. seen chars_out tr = filter isalnum (drop 4 buffer) \<Longrightarrow> seen (packets_in fifo) tr = [] \<Longrightarrow> Q () (h @ tr)"
  shows "wp (print_packet buffer) Q E h"
  unfolding print_packet_def
proof (rule wp_bind, rule wp_tell, rule wp_for_each [where J = "\<lambda>es u h'. \<exists>ds tr. drop 4 buffer = ds @ es \<and> h' = h @ tr
    \<and> seen chars_out tr = filter isalnum ds \<and> seen (packets_in fifo) tr = []"], goal_cases start step stop)
  case start
  show ?case
    by (rule exI [of _ "[]"], rule exI [of _ "[Print ''PID:%d-------------------------------------'' [I (sint (word_le (take 4 buffer)))]]"]) simp
next
  case (step c es u h')
  then obtain ds tr where ds: "drop 4 buffer = ds @ c # es" "h' = h @ tr" "seen chars_out tr = filter isalnum ds"
      "seen (packets_in fifo) tr = []" by blast
  show ?case
  proof (cases "isalnum c")
    case True
    with ds show ?thesis
      by (auto intro!: wp_tell exI [of _ "ds @ [c]"] exI [of _ "tr @ [put_char c]"] simp: put_char_def)
  next
    case False
    with ds show ?thesis
      by (auto intro!: wp_return exI [of _ "ds @ [c]"] exI [of _ tr])
  qed
next
  case (stop u h')
  then show ?case using assms by auto
qed

definition full_packets :: "int \<Rightarrow> event list \<Rightarrow> bool" where
  "full_packets fifo h \<longleftrightarrow> (\<forall>p \<in> set (seen (packets_in fifo) h). length p = PIPE_BUF)"

definition shown :: "int list list \<Rightarrow> int list" where
  "shown ps = filter isalnum (concat (map (drop 4) ps))"

lemma wp_read_from_fifo:
  assumes len: "length buffer = PIPE_BUF"
  shows "wp (read_from_fifo fifo buffer)
     (\<lambda>_ h. full_packets fifo h \<longrightarrow> seen chars_out h = shown (seen (packets_in fifo) h)) (\<lambda>_ _. True) []"
  unfolding read_from_fifo_def
proof (rule wp_loop [where J = "\<lambda>buffer h. length buffer = PIPE_BUF
    \<and> (full_packets fifo h \<longrightarrow> seen chars_out h = shown (seen (packets_in fifo) h))"], goal_cases body start step)
  case (body b)
  show ?case unfolding Let_def by (intro within_intros)
next
  case start
  show ?case by (simp add: len shown_def)
next
  case (step b h)
  let ?J = "\<lambda>buffer h. length buffer = PIPE_BUF \<and> (full_packets fifo h \<longrightarrow> seen chars_out h = shown (seen (packets_in fifo) h))"
  show ?case
  proof (rule wp_bind, rule wp_sys, simp, rule wp_bind, rule wp_check, simp, unfold Let_def, rule wp_if)
    fix r
    assume "bytes_of PIPE_BUF r = []"
    with step show "wp (return (Inr ())) (\<lambda>x h'. case x of Inl s' \<Rightarrow> ?J s' h'
        | Inr a \<Rightarrow> full_packets fifo h' \<longrightarrow> seen chars_out h' = shown (seen (packets_in fifo) h')) (\<lambda>_ _. True)
        (h @ [Sys Read [I fifo, I (int PIPE_BUF)] (Some r)])"
      by (intro wp_return) (simp add: full_packets_def)
  next
    fix r
    let ?bs = "bytes_of PIPE_BUF r" and ?h = "h @ [Sys Read [I fifo, I (int PIPE_BUF)] (Some r)]"
    assume some: "?bs \<noteq> []"
    have new: "length (overwrite b ?bs) = PIPE_BUF"
      using step bytes_of_short [of PIPE_BUF r] by (simp add: overwrite_def)
    show "wp (bind (print_packet (overwrite b ?bs)) (\<lambda>_. return (Inl (overwrite b ?bs)))) (\<lambda>x h'. case x of Inl s' \<Rightarrow> ?J s' h'
        | Inr a \<Rightarrow> full_packets fifo h' \<longrightarrow> seen chars_out h' = shown (seen (packets_in fifo) h')) (\<lambda>_ _. True) ?h"
    proof (rule wp_bind, rule wp_print_packet [where fifo = fifo], rule wp_return, unfold sum.case, rule conjI [OF new], rule impI)
      fix tr
      assume tr: "seen chars_out tr = filter isalnum (drop 4 (overwrite b ?bs))" "seen (packets_in fifo) tr = []"
        and "full_packets fifo (?h @ tr)"
      with some have f: "full_packets fifo h" "length ?bs = PIPE_BUF" by (auto simp: full_packets_def)
      with step some tr show "seen chars_out (?h @ tr) = shown (seen (packets_in fifo) (?h @ tr))"
        by (simp add: shown_def overwrite_def)
    qed
  qed
qed

section \<open>Client and server together\<close>

lemma length_packet: "length bs \<le> MSG_SIZE \<Longrightarrow> length (packet pid bs) = PIPE_BUF"
  by (simp add: packet_def bytes_le_bytes MSG_SIZE_def PIPE_BUF_def)

lemma shown_packets: "shown (map (packet pid) ps) = filter isalnum (concat ps)"
proof -
  have "\<not> isalnum 0" by (simp add: isalnum_def)
  then show ?thesis by (induction ps) (simp_all add: shown_def packet_def bytes_le_bytes)
qed



end
