(* ===== verification/NetServers.thy ===== *)
theory NetServers
  imports Pipes "HOL-Library.Multiset"
begin

text \<open>
  The TCP servers of the lecture (\<open>Lecture Codes/04_net\<close>): a process that sends and one that
  receives (\<open>08_tcp_forked.c\<close>, \<open>09_tcp_epipe.c\<close>), and the servers that wait for several clients
  with \<open>select\<close> (\<open>10_select.c\<close>) and \<open>epoll\<close> (\<open>11_epoll.c\<close>). For the last two: at every wait the
  descriptors waited for are exactly the listening socket and the clients that are connected.
\<close>

section \<open>Common steps\<close>

definition usage_host_port :: "'a io" where
  "usage_host_port = bind (tell (Complain ''USAGE: %s host port'')) (\<lambda>_. exit_with 1)"

definition open_listener :: "int \<Rightarrow> string \<times> string \<Rightarrow> int io" where
  "open_listener kind addr =
     bind (sys Socket [I PF_INET, I kind]) (\<lambda>r. bind (check ''socket()'' r) (\<lambda>server_socket.
     bind (sys Bind [I server_socket, S (fst addr), S (snd addr)]) (\<lambda>r. bind (check ''bind()'' r) (\<lambda>_.
     bind (sys Listen [I server_socket, I 3]) (\<lambda>r. bind (check ''listen()'' r) (\<lambda>_.
     return server_socket))))))"

definition connect_to :: "string \<times> string \<Rightarrow> int io" where
  "connect_to addr =
     bind (sys Socket [I PF_INET, I SOCK_STREAM]) (\<lambda>r. bind (check ''socket()'' r) (\<lambda>client_socket.
     bind (sys Connect [I client_socket, S (fst addr), S (snd addr)]) (\<lambda>r. bind (check ''connect()'' r) (\<lambda>_.
     return client_socket))))"

text \<open>\<open>while (1)\<close>\<close>

definition forever :: "unit io \<Rightarrow> unit io" where
  "forever body = loop (\<lambda>u. bind body (\<lambda>_. return (Inl ()))) ()"

text \<open>\<open>while (1)\<close> around \<open>send\<close> and \<open>sleep\<close>; a string literal has its terminating zero.\<close>

definition send_forever :: "string \<Rightarrow> int \<Rightarrow> unit io" where
  "send_forever msg fd =
     forever
       (bind (say ''sending message of size %ld'' [I (int (length msg) + 1)]) (\<lambda>_.
        bind (sys Send [I fd, B (ascii msg @ [0]), I 0]) (\<lambda>r. bind (check ''send()'' r) (\<lambda>_.
        bind (sys Sleep [I 1]) (\<lambda>_. return ())))))"

text \<open>What \<open>recv\<close> returned, as printed: -1 or the number of bytes.\<close>

definition recv_count :: "nat \<Rightarrow> reply \<Rightarrow> int" where
  "recv_count n r = (if failed r then -1 else int (length (bytes_of n r)))"

definition fork_roles :: "(string \<times> string \<Rightarrow> unit io) \<Rightarrow> (string \<times> string \<Rightarrow> unit io) \<Rightarrow> string list \<Rightarrow> int io" where
  "fork_roles do_child do_parent argv =
     bind (if length argv \<noteq> 3 then usage_host_port else return ()) (\<lambda>_.
     bind (make_address (argv ! 1) (argv ! 2)) (\<lambda>addr.
     bind (sys Fork []) (\<lambda>r.
       if val_of r = -1 then err ''fork()''
       else if val_of r = 0 then bind (do_child addr) (\<lambda>_. exit_with 0)
       else bind (do_parent addr) (\<lambda>_. bind wait_all (\<lambda>_. exit_with 0)))))"

section \<open>Sender and receiver\<close>

text \<open>\<open>08_tcp_forked.c\<close>\<close>

definition forked_child :: "string \<times> string \<Rightarrow> unit io" where
  "forked_child addr =
     bind (connect_to addr) (\<lambda>client_socket.
     bind (send_forever ''hello my friend - this is my message for you'' client_socket) (\<lambda>_.
     close_fd client_socket))"

definition forked_parent :: "string \<times> string \<Rightarrow> unit io" where
  "forked_parent addr =
     bind (open_listener SOCK_STREAM addr) (\<lambda>server_socket.
     bind (sys Accept [I server_socket]) (\<lambda>r. bind (check ''accept()'' r) (\<lambda>accepted_client_socket.
     bind (forever
       (bind (sys Recv [I accepted_client_socket, I 16, I 0]) (\<lambda>r.
        bind (say ''recv returned %ld bytes'' [I (recv_count 16 r)]) (\<lambda>_.
        bind (check ''recv()'' r) (\<lambda>_. return ()))))) (\<lambda>_.
     bind (close_fd accepted_client_socket) (\<lambda>_. close_fd server_socket)))))"

definition tcp_forked_main :: "string list \<Rightarrow> int io" where
  "tcp_forked_main = fork_roles forked_child forked_parent"

text \<open>\<open>09_tcp_epipe.c\<close>; a process killed by SIGPIPE ends at the failed \<open>send\<close>, too.\<close>

definition epipe_child :: "string \<times> string \<Rightarrow> unit io" where
  "epipe_child addr = bind (connect_to addr) close_fd"

definition epipe_parent :: "string \<times> string \<Rightarrow> unit io" where
  "epipe_parent addr =
     bind (open_listener SOCK_STREAM addr) (\<lambda>server_socket.
     bind (sys Accept [I server_socket]) (\<lambda>r. bind (check ''accept()'' r) (\<lambda>accepted_client_socket.
     bind (send_forever ''hello my child - this is my message for you'' accepted_client_socket) (\<lambda>_.
     bind (close_fd accepted_client_socket) (\<lambda>_. close_fd server_socket)))))"

definition tcp_epipe_main :: "string list \<Rightarrow> int io" where
  "tcp_epipe_main = fork_roles epipe_child epipe_parent"

section \<open>The server with select\<close>

definition SELECT_CLIENTS :: nat where "SELECT_CLIENTS = 3"

text \<open>The set given to \<open>select\<close>, and the largest descriptor in it.\<close>

definition rdset_for :: "int \<Rightarrow> int list \<Rightarrow> int list" where
  "rdset_for server_socket clients = server_socket # filter (\<lambda>c. c \<noteq> -1) clients"

definition maxfd_for :: "int \<Rightarrow> int list \<Rightarrow> int" where
  "maxfd_for server_socket clients =
     foldl (\<lambda>maxfd c. if c \<noteq> -1 \<and> c > maxfd then c else maxfd) server_socket clients"

text \<open>
  What \<open>select\<close> leaves in the set. The code also tests -1, the mark of a free slot, with
  \<open>FD_ISSET\<close>, which shifts by a negative number; \<open>stray\<close> stands for the outcome of this test.
\<close>

fun left_in :: "int list \<Rightarrow> reply \<Rightarrow> int list" where
  "left_in rdset (Ready fds) = filter (\<lambda>f. f \<in> set fds) rdset"
| "left_in rdset r = []"

definition isset :: "(int list \<Rightarrow> bool) \<Rightarrow> int \<Rightarrow> int list \<Rightarrow> bool" where
  "isset stray fd rdset = (if fd = -1 then stray rdset else fd \<in> set rdset)"

text \<open>The first free slot takes the client; \<open>None\<close>: there is none.\<close>

fun place :: "int \<Rightarrow> int list \<Rightarrow> int list option" where
  "place client [] = None"
| "place client (c # cs) = (if c = -1 then Some (client # cs) else map_option ((#) c) (place client cs))"

definition neat_reply :: "int list" where
  "neat_reply = ascii ''No space for you :('' @ [10, 0]"

definition select_accept :: "int \<Rightarrow> int list \<Rightarrow> int list io" where
  "select_accept server_socket clients =
     bind (sys Accept [I server_socket]) (\<lambda>r.
       if \<not> failed r
       then let client = val_of r in
         bind (say ''Accepted new client!'' []) (\<lambda>_.
         bind (set_nonblock client) (\<lambda>_.
         case place client clients of
           Some clients' \<Rightarrow> return clients'
         | None \<Rightarrow> bind (sys Send [I client, B neat_reply, I 0]) (\<lambda>_. bind (close_fd client) (\<lambda>_. return clients))))
       else if errno_of r \<noteq> EAGAIN then err ''accept()''
       else return clients)"

definition select_client :: "(int list \<Rightarrow> bool) \<Rightarrow> int list \<Rightarrow> nat \<Rightarrow> int list \<Rightarrow> int list io" where
  "select_client stray rdset i clients =
     (if isset stray (clients ! i) rdset
      then bind (sys Recv [I (clients ! i), I 16, I 0]) (\<lambda>r.
        bind (say ''recv returned %ld bytes'' [I (recv_count 16 r)]) (\<lambda>_.
        if failed r then (if errno_of r \<noteq> EAGAIN then err ''recv()'' else return clients)
        else let buff = bytes_of 16 r in
          if buff \<noteq> []
          then bind (say ''Client sent: %.*s'' [I (int (length buff)), B (takeWhile (\<lambda>b. b \<noteq> 0) buff)]) (\<lambda>_. return clients)
          else bind (close_fd (clients ! i)) (\<lambda>_. return (clients[i := -1]))))
      else return clients)"

definition select_round :: "(int list \<Rightarrow> bool) \<Rightarrow> int \<Rightarrow> int list \<Rightarrow> int list io" where
  "select_round stray server_socket clients =
     bind (say ''Calling select()!'' []) (\<lambda>_.
     bind (sys Select [I (maxfd_for server_socket clients + 1), B (rdset_for server_socket clients)]) (\<lambda>r.
     bind (check ''select()'' r) (\<lambda>_.
     let rdset = left_in (rdset_for server_socket clients) r in
     bind (if isset stray server_socket rdset then select_accept server_socket clients else return clients) (\<lambda>clients.
     for_each [0 ..< SELECT_CLIENTS] (select_client stray rdset) clients))))"

definition select_server :: "(int list \<Rightarrow> bool) \<Rightarrow> int \<Rightarrow> unit io" where
  "select_server stray server_socket =
     loop (\<lambda>clients. bind (select_round stray server_socket clients) (\<lambda>clients. return (Inl clients)))
       (replicate SELECT_CLIENTS (-1))"

definition SOCK_NONBLOCK :: int where "SOCK_NONBLOCK = 2048"

definition select_main :: "(int list \<Rightarrow> bool) \<Rightarrow> string list \<Rightarrow> int io" where
  "select_main stray argv =
     bind (if length argv \<noteq> 3 then usage_host_port else return ()) (\<lambda>_.
     bind (make_address (argv ! 1) (argv ! 2)) (\<lambda>addr.
     bind (open_listener (or SOCK_STREAM SOCK_NONBLOCK) addr) (\<lambda>server_socket.
     bind (select_server stray server_socket) (\<lambda>_.
     bind (close_fd server_socket) (\<lambda>_. return 0)))))"

section \<open>The server with epoll\<close>

definition epoll_accept :: "int \<Rightarrow> int \<Rightarrow> unit io" where
  "epoll_accept epoll_fd server_socket =
     bind (sys Accept [I server_socket]) (\<lambda>r.
       if \<not> failed r
       then let client = val_of r in
         bind (say ''Accepted new client!'' []) (\<lambda>_.
         bind (set_nonblock client) (\<lambda>_.
         bind (sys EpollCtl [I epoll_fd, S ''ADD'', I client]) (\<lambda>r. bind (check ''epoll_ctl()'' r) (\<lambda>_. return ()))))
       else if errno_of r \<noteq> EAGAIN then err ''accept()''
       else return ())"

definition epoll_client :: "int \<Rightarrow> int \<Rightarrow> unit io" where
  "epoll_client epoll_fd fd =
     bind (sys Recv [I fd, I 16, I 0]) (\<lambda>r.
     bind (say ''recv returned %ld bytes'' [I (recv_count 16 r)]) (\<lambda>_.
     if failed r then (if errno_of r \<noteq> EAGAIN then err ''recv()'' else return ())
     else let buff = bytes_of 16 r in
       if buff \<noteq> []
       then say ''Client sent: %.*s'' [I (int (length buff)), B (takeWhile (\<lambda>b. b \<noteq> 0) buff)]
       else bind (sys EpollCtl [I epoll_fd, S ''DEL'', I fd]) (\<lambda>r. bind (check ''epoll_ctl()'' r) (\<lambda>_. close_fd fd))))"

text \<open>The descriptors of a reply are those with EPOLLIN; the code ignores an event without it.\<close>

definition epoll_round :: "int \<Rightarrow> int \<Rightarrow> unit io" where
  "epoll_round epoll_fd server_socket =
     bind (say ''Calling epoll_wait()!'' []) (\<lambda>_.
     bind (sys EpollWait [I epoll_fd, I 10]) (\<lambda>r. bind (check ''epoll_wait()'' r) (\<lambda>_.
     for_each (ready_fds 10 r) (\<lambda>fd u.
       if fd = server_socket then epoll_accept epoll_fd server_socket else epoll_client epoll_fd fd) ())))"

definition epoll_server :: "int \<Rightarrow> unit io" where
  "epoll_server server_socket =
     bind (sys EpollCreate [I 100]) (\<lambda>r. let epoll_fd = val_of r in
     bind (sys EpollCtl [I epoll_fd, S ''ADD'', I server_socket]) (\<lambda>r. bind (check ''epoll_ctl()'' r) (\<lambda>_.
     forever (epoll_round epoll_fd server_socket))))"

definition epoll_main :: "string list \<Rightarrow> int io" where
  "epoll_main argv =
     bind (if length argv \<noteq> 3 then usage_host_port else return ()) (\<lambda>_.
     bind (make_address (argv ! 1) (argv ! 2)) (\<lambda>addr.
     bind (open_listener (or SOCK_STREAM SOCK_NONBLOCK) addr) (\<lambda>server_socket.
     bind (epoll_server server_socket) (\<lambda>_.
     bind (close_fd server_socket) (\<lambda>_. return 0)))))"

section \<open>Endless loops\<close>

lemma within_common [within_intros]:
  "within (say f args)" "within (close_fd fd)" "within (set_nonblock fd)" "within (open_listener k addr)"
  unfolding say_def close_fd_def set_nonblock_def open_listener_def by (intro within_intros)+

lemma wp_forever:
  assumes "consuming body" and "J h" and "\<And>h. J h \<Longrightarrow> wp body (\<lambda>_. J) E h"
  shows "wp (forever body) Q E h"
  unfolding forever_def
proof (rule wp_loop [where J = "\<lambda>u. J"])
  show "progressing (bind body (\<lambda>_. return (Inl ())))"
    by (rule progressing_consume [OF assms(1) within_return])
  fix u h
  assume "J h"
  then show "wp (bind body (\<lambda>_. return (Inl ()))) (\<lambda>x h'. case x of Inl s' \<Rightarrow> J h' | Inr a \<Rightarrow> Q a h') E h"
    by (auto intro!: wp_then [OF assms(3)] wp_return)
qed (rule assms(2))

section \<open>The connections of a server\<close>

text \<open>The clients that were accepted and not closed, as a history shows them.\<close>

definition open_after :: "int list \<Rightarrow> event \<Rightarrow> int list" where
  "open_after os e =
     (case e of
        Sys c args (Some r) \<Rightarrow>
          if c = Accept \<and> \<not> failed r then val_of r # os
          else if c = Close then (case args of I fd # _ \<Rightarrow> remove1 fd os | _ \<Rightarrow> os)
          else os
      | _ \<Rightarrow> os)"

definition open_clients :: "event list \<Rightarrow> int list" where
  "open_clients h = foldl open_after [] h"

lemma open_clients_simps:
  "open_clients [] = []" "open_clients (h @ [e]) = open_after (open_clients h) e"
  by (simp_all add: open_clients_def)

lemma not_failed_nonneg: "\<not> failed r \<Longrightarrow> 0 \<le> val_of r"
  by (cases r) auto

section \<open>select\<close>

text \<open>
  What may be said of one call of \<open>10_select.c\<close> after the history \<open>us\<close>: \<open>select\<close> waits for the
  listening socket and each connected client, of which there are at most three; data is read from
  connected clients only (or from -1, when \<open>stray\<close> says so), and only a client for which there is
  no slot is sent something.
\<close>

definition select_ok :: "int \<Rightarrow> event list \<Rightarrow> event \<Rightarrow> bool" where
  "select_ok srv us e =
     (case e of
        Sys c args r \<Rightarrow>
          if c = Select
          then (case args of
              [I n, B rd] \<Rightarrow> mset rd = add_mset srv (mset (open_clients us)) \<and> length (open_clients us) \<le> SELECT_CLIENTS
                \<and> (\<forall>f \<in> set rd. f < n)
            | _ \<Rightarrow> False)
          else if c = Recv then (case args of I fd # _ \<Rightarrow> fd = -1 \<or> fd \<in> set (open_clients us) | _ \<Rightarrow> False)
          else if c = Send then (case args of I fd # _ \<Rightarrow> fd \<in> set (open_clients us) \<and> length (open_clients us) = SELECT_CLIENTS + 1 | _ \<Rightarrow> False)
          else True
      | _ \<Rightarrow> True)"

definition taken_slots :: "int list \<Rightarrow> int list" where
  "taken_slots clients = filter (\<lambda>c. c \<noteq> -1) clients"

definition select_inv :: "int \<Rightarrow> int list \<Rightarrow> event list \<Rightarrow> bool" where
  "select_inv srv clients h \<longleftrightarrow> always (select_ok srv) h \<and> length clients = SELECT_CLIENTS
     \<and> mset (taken_slots clients) = mset (open_clients h)"

lemma select_inv_quiet [simp]:
  "select_inv srv cs (h @ [Print f args]) = select_inv srv cs h"
  "select_inv srv cs (h @ [Complain m]) = select_inv srv cs h"
  "c \<notin> {Select, Recv, Send, Accept, Close} \<Longrightarrow> select_inv srv cs (h @ [Sys c args r]) = select_inv srv cs h"
  by (simp_all add: select_inv_def always_snoc select_ok_def open_clients_simps open_after_def split: option.split)

lemma maxfd_for_bounds: "f \<in> set (rdset_for srv cs) \<Longrightarrow> f \<le> maxfd_for srv cs"
proof -
  have "m \<le> foldl (\<lambda>maxfd c. if c \<noteq> -1 \<and> c > maxfd then c else maxfd) m cs
      \<and> (\<forall>c \<in> set cs. c \<noteq> -1 \<longrightarrow> c \<le> foldl (\<lambda>maxfd c. if c \<noteq> -1 \<and> c > maxfd then c else maxfd) m cs)" for m
  proof (induction cs arbitrary: m)
    case (Cons c cs)
    from Cons.IH [of "if c \<noteq> -1 \<and> c > m then c else m"] show ?case by auto
  qed simp
  then show "f \<in> set (rdset_for srv cs) \<Longrightarrow> f \<le> maxfd_for srv cs"
    unfolding rdset_for_def maxfd_for_def by auto
qed

lemma place_Some: "place c cs = Some cs' \<Longrightarrow> length cs' = length cs \<and> (c \<noteq> -1 \<longrightarrow> mset (taken_slots cs') = add_mset c (mset (taken_slots cs)))"
  by (induction cs arbitrary: cs') (auto simp: taken_slots_def split: if_splits)

lemma place_None: "place c cs = None \<Longrightarrow> taken_slots cs = cs"
  by (induction cs) (auto simp: taken_slots_def split: if_splits)

lemma slot_freed:
  assumes "i < length cs" "cs ! i \<noteq> -1"
  shows "mset (taken_slots (cs[i := -1])) = mset (taken_slots cs) - {#cs ! i#}"
proof -
  have "taken_slots cs = taken_slots (take i cs @ cs ! i # drop (Suc i) cs)" using assms(1) by (simp add: id_take_nth_drop [symmetric])
  moreover have "cs[i := -1] = take i cs @ -1 # drop (Suc i) cs" using assms(1) by (rule upd_conv_take_nth_drop)
  ultimately show ?thesis using assms(2) by (simp add: taken_slots_def)
qed

lemma select_inv_selects:
  assumes "select_inv srv cs h"
  shows "select_inv srv cs (h @ [Sys Select [I (maxfd_for srv cs + 1), B (rdset_for srv cs)] r])"
proof -
  have "length (open_clients h) = length (taken_slots cs)" using assms by (auto simp: select_inv_def dest: mset_eq_length)
  also have "... \<le> SELECT_CLIENTS"
    using assms length_filter_le [of "\<lambda>c. c \<noteq> -1" cs] by (simp add: select_inv_def taken_slots_def)
  finally have "length (open_clients h) \<le> SELECT_CLIENTS" .
  moreover have "\<forall>f \<in> set (rdset_for srv cs). f < maxfd_for srv cs + 1"
    using maxfd_for_bounds by force
  moreover have "mset (rdset_for srv cs) = add_mset srv (mset (taken_slots cs))"
    by (simp add: rdset_for_def taken_slots_def)
  ultimately show ?thesis using assms
    by (auto simp: select_inv_def always_snoc select_ok_def open_clients_simps open_after_def split: option.split)
qed

text \<open>A client that is accepted is put into a slot, or refused and closed.\<close>

definition select_fine :: "int \<Rightarrow> int option \<Rightarrow> event list \<Rightarrow> bool" where
  "select_fine srv c h \<longleftrightarrow> always (select_ok srv) h"

lemma select_inv_fine: "select_inv srv cs h \<Longrightarrow> select_fine srv c h"
  by (simp add: select_inv_def select_fine_def)

lemma select_fine_quiet [simp]:
  "select_fine srv x (h @ [Print f args]) = select_fine srv x h"
  "select_fine srv x (h @ [Complain m]) = select_fine srv x h"
  "c \<notin> {Select, Recv, Send} \<Longrightarrow> select_fine srv x (h @ [Sys c args r]) = select_fine srv x h"
  by (simp_all add: select_fine_def always_snoc select_ok_def)

definition select_pending :: "int \<Rightarrow> int \<Rightarrow> int list \<Rightarrow> event list \<Rightarrow> bool" where
  "select_pending srv client cs h \<longleftrightarrow> select_fine srv None h \<and> length cs = SELECT_CLIENTS
     \<and> mset (open_clients h) = add_mset client (mset (taken_slots cs))"

lemma select_pending_quiet [simp]:
  "select_pending srv client cs (h @ [Print f args]) = select_pending srv client cs h"
  "c \<notin> {Select, Recv, Send, Accept, Close} \<Longrightarrow> select_pending srv client cs (h @ [Sys c args r]) = select_pending srv client cs h"
  by (simp_all add: select_pending_def select_fine_def always_snoc select_ok_def open_clients_simps open_after_def split: option.split)

lemma pending_fine: "select_pending srv client cs h \<Longrightarrow> select_fine srv c h"
  by (simp add: select_pending_def select_fine_def)

lemma pending_placed:
  "select_pending srv client cs h \<Longrightarrow> place client cs = Some cs' \<Longrightarrow> client \<noteq> -1 \<Longrightarrow> select_inv srv cs' h"
  using place_Some [of client cs cs'] by (simp add: select_pending_def select_fine_def select_inv_def)

lemma pending_refused:
  assumes "select_pending srv client cs h" and "place client cs = None"
  shows "select_pending srv client cs (h @ [Sys Send [I client, B bs, I n] r])"
proof -
  have "mset (open_clients h) = add_mset client (mset cs)" using assms place_None [of client cs] by (simp add: select_pending_def)
  then have "client \<in> set (open_clients h)" "length (open_clients h) = SELECT_CLIENTS + 1"
    using assms by (metis set_mset_mset union_single_eq_member add_mset_add_single union_commute,
      metis size_add_mset size_mset select_pending_def Suc_eq_plus1)
  with assms show ?thesis
    by (auto simp: select_pending_def select_fine_def always_snoc select_ok_def open_clients_simps open_after_def split: option.split)
qed

lemma refused_closed:
  "select_pending srv client cs h \<Longrightarrow> select_inv srv cs (h @ [Sys Close [I client] (Some r)])"
  by (simp add: select_pending_def select_fine_def select_inv_def always_snoc select_ok_def open_clients_simps open_after_def)

lemma wp_set_nonblock:
  assumes "E None h" and "\<And>h c args r. c \<notin> {Select, Recv, Send, Accept, Close, EpollCtl, EpollWait} \<Longrightarrow> J h \<Longrightarrow> J (h @ [Sys c args r])"
    and "J h" and E: "\<And>h. J h \<Longrightarrow> E None h" and "\<And>v h. J h \<Longrightarrow> Q v h"
  shows "wp (set_nonblock fd) Q E h"
  unfolding set_nonblock_def
  by (rule wp_bind, rule wp_sys_quiet [where J = J], rule \<open>J h\<close>, rule assms(2), simp, assumption, erule E,
      rule wp_if, rule wp_return, erule assms(5), rule wp_bind, rule wp_sys_quiet [where J = J], assumption,
      rule assms(2), simp, assumption, erule E, rule wp_return, erule assms(5))

lemma wp_select_accept:
  assumes inv: "select_inv srv cs h"
  shows "wp (select_accept srv cs) (select_inv srv) (select_fine srv) h"
proof -
  let ?e = "\<lambda>r. Sys Accept [I srv] r"
  have pend: "select_pending srv (val_of r) cs (h @ [?e (Some r)])" if "\<not> failed r" for r
    using inv that
    by (auto simp: select_pending_def select_fine_def select_inv_def always_snoc select_ok_def open_clients_simps open_after_def)
  have keep: "select_inv srv cs (h @ [?e (Some r)])" if "failed r" for r
    using inv that by (auto simp: select_inv_def always_snoc select_ok_def open_clients_simps open_after_def)
  have place: "wp (case place client cs of Some clients' \<Rightarrow> return clients'
       | None \<Rightarrow> bind (sys Send [I client, B neat_reply, I 0]) (\<lambda>_. bind (close_fd client) (\<lambda>_. return cs)))
      (select_inv srv) (select_fine srv) h'" if p: "select_pending srv client cs h'" and c: "0 \<le> client" for client h'
  proof (cases "place client cs")
    case None
    note sends = pending_refused [OF p None]
    show ?thesis
      using refused_closed [OF sends] pending_fine [OF sends]
      by (auto simp: None close_fd_def intro!: wp_bind wp_sys wp_return simp del: append_assoc) 
  next
    case (Some cs')
    with pending_placed [OF p Some] c show ?thesis by (auto intro: wp_return)
  qed
  have accepted: "wp (bind (say ''Accepted new client!'' []) (\<lambda>_. bind (set_nonblock client) (\<lambda>_.
         case place client cs of Some clients' \<Rightarrow> return clients'
         | None \<Rightarrow> bind (sys Send [I client, B neat_reply, I 0]) (\<lambda>_. bind (close_fd client) (\<lambda>_. return cs)))))
      (select_inv srv) (select_fine srv) h'" if p: "select_pending srv client cs h'" and c: "0 \<le> client" for client h'
    unfolding say_def
    by (rule wp_bind, rule wp_tell, rule wp_bind, rule wp_set_nonblock [where J = "select_pending srv client cs"])
      (use p place c in \<open>auto intro: pending_fine\<close>)
  show ?thesis
    unfolding select_accept_def Let_def
    by (rule wp_bind, rule wp_sys) (use accepted [OF pend] keep select_inv_fine [OF inv] select_inv_fine [OF keep] not_failed_nonneg in
      \<open>auto intro!: wp_err wp_return simp del: append_assoc\<close>)
qed

lemma wp_select_client:
  assumes inv: "select_inv srv cs h" and i: "i < SELECT_CLIENTS"
  shows "wp (select_client stray rdset i cs) (select_inv srv) (select_fine srv) h"
proof -
  let ?fd = "cs ! i"
  have len: "length cs = SELECT_CLIENTS" using inv by (simp add: select_inv_def)
  have "?fd \<in> set (open_clients h)" if "?fd \<noteq> -1"
  proof -
    have "?fd \<in> set (taken_slots cs)" using that i len by (simp add: taken_slots_def)
    then show ?thesis using inv unfolding select_inv_def by (metis set_mset_mset)
  qed
  then have recv: "select_inv srv cs (h @ [Sys Recv [I ?fd, I 16, I 0] r])" for r
    using inv by (auto simp: select_inv_def always_snoc select_ok_def open_clients_simps open_after_def split: option.split)
  have close: "select_inv srv (cs[i := -1]) (h' @ [Sys Close [I ?fd] (Some r)])" if "select_inv srv cs h'" for h' r
  proof (cases "?fd = -1")
    case True
    have "-1 \<notin># mset (taken_slots cs)" by (simp add: taken_slots_def)
    then have "-1 \<notin> set (open_clients h')" using that unfolding select_inv_def by (metis set_mset_mset)
    with True that show ?thesis
      using list_update_id [of cs i]
      by (auto simp: select_inv_def always_snoc select_ok_def open_clients_simps open_after_def remove1_idem)
  next
    case False
    with that i len show ?thesis
      by (simp add: select_inv_def always_snoc select_ok_def open_clients_simps open_after_def slot_freed)
  qed
  have fine: "select_fine srv c (h @ [Sys Recv [I ?fd, I 16, I 0] r])" for r c
    using recv by (rule select_inv_fine)
  show ?thesis
    unfolding select_client_def Let_def say_def close_fd_def
    using recv inv fine close select_inv_fine [OF recv] select_inv_fine [OF inv]
    by (auto intro!: wp_if wp_bind wp_sys wp_tell wp_err wp_return simp del: append_assoc)
qed

text \<open>A round of the server, and all of them.\<close>

lemma within_select [within_intros]:
  "within (select_client stray rdset i cs)" "consuming (select_accept srv cs)"
  "consuming (select_round stray srv cs)"
proof -
  show a: "within (select_client stray rdset i cs)" for rdset i cs
    unfolding select_client_def Let_def by (intro within_intros)
  have "within (case place client cs of Some clients' \<Rightarrow> return clients'
      | None \<Rightarrow> bind (sys Send [I client, B neat_reply, I 0]) (\<lambda>_. bind (close_fd client) (\<lambda>_. return cs)))" for client
    by (intro within_intros)
  then show b: "consuming (select_accept srv cs)" for cs
    unfolding select_accept_def Let_def by (intro within_intros)
  show "consuming (select_round stray srv cs)"
    unfolding select_round_def Let_def say_def
    by (rule consuming_bind2, rule within_intros, rule consuming_bind1, rule within_intros, rule within_bind, rule within_check,
        rule within_bind, intro within_cases consuming_within [OF b] within_return, rule within_for_each, rule a)
qed

lemma wp_select_round:
  assumes inv: "select_inv srv cs h"
  shows "wp (select_round stray srv cs) (select_inv srv) (select_fine srv) h"
proof -
  let ?h = "\<lambda>r. (h @ [Print ''Calling select()!'' []]) @ [Sys Select [I (maxfd_for srv cs + 1), B (rdset_for srv cs)] r]"
  have sel: "select_inv srv cs (?h r)" for r
    by (rule select_inv_selects) (simp add: inv)
  have slots: "wp (for_each [0 ..< SELECT_CLIENTS] (select_client stray rdset) cs') (select_inv srv) (select_fine srv) h'"
    if "select_inv srv cs' h'" for cs' h' rdset
    by (rule wp_for_each [where J = "\<lambda>is cs h. select_inv srv cs h \<and> set is \<subseteq> {..< SELECT_CLIENTS}"])
      (use that in \<open>auto intro!: wp_mono [OF wp_select_client]\<close>)
  have new: "wp (bind (if b then select_accept srv cs else return cs) (\<lambda>cs'. for_each [0 ..< SELECT_CLIENTS] (select_client stray rdset) cs'))
      (select_inv srv) (select_fine srv) (?h r)" for b rdset r
    by (rule wp_then [where R = "select_inv srv"], rule wp_if, rule wp_select_accept [OF sel], rule wp_return, rule sel, rule slots)
  show ?thesis
    unfolding select_round_def Let_def say_def
    by (rule wp_bind, rule wp_tell, rule wp_bind, rule wp_sys, rule select_inv_fine [OF sel], rule wp_bind, rule wp_check,
        simp only: select_fine_quiet, rule select_inv_fine [OF sel], rule new)
qed

text \<open>
  Whatever the clients and the operating system do, each \<open>select\<close> of \<open>10_select.c\<close> waits for the
  listening socket and exactly the clients that were accepted and not closed since, at most three,
  with a bound above all of these descriptors; data is received from connected clients only; and a
  client is refused only when three others are connected. So no descriptor is lost or used after
  its \<open>close\<close>.
\<close>

theorem select_tracks_clients:
  assumes "select_server stray srv rs = (x, h, rs')"
  shows "always (select_ok srv) h"
proof -
  have "wp (select_server stray srv) (\<lambda>_ h. select_fine srv None h) (select_fine srv) []"
    unfolding select_server_def
  proof (rule wp_loop [where J = "select_inv srv"])
    show "progressing (bind (select_round stray srv cs) (\<lambda>clients. return (Inl clients)))" for cs
      by (rule progressing_consume, rule within_select, rule within_return)
    show "select_inv srv (replicate SELECT_CLIENTS (-1)) []"
      by (simp add: select_inv_def taken_slots_def open_clients_simps)
    show "wp (bind (select_round stray srv cs) (\<lambda>clients. return (Inl clients)))
       (\<lambda>x h'. case x of Inl s' \<Rightarrow> select_inv srv s' h' | Inr a \<Rightarrow> select_fine srv None h') (select_fine srv) h"
      if "select_inv srv cs h" for cs h
      by (rule wp_then [OF wp_select_round [OF that]], rule wp_return) simp
  qed
  from wp_runs [OF this assms] show ?thesis
    by (cases x) (auto simp: select_fine_def)
qed

text \<open>Four clients: the fourth is refused, the first sends, the second leaves.\<close>

definition four_clients :: "reply list" where
  "four_clients =
     [Ready [3], Done 4, Done 2, Done 0, Ready [3], Done 5, Done 2, Done 0, Ready [3], Done 6, Done 2, Done 0,
      Ready [3, 4], Done 7, Done 2, Done 0, Done 21, Done 0, Bytes [104, 105], Ready [5], Bytes [], Done 0, Fail EINTR]"

lemma select_tracks_clients_witness:
  "\<exists>h. select_server (\<lambda>_. False) 3 four_clients = (Exits 1, h, []) \<and> always (select_ok 3) h
    \<and> last h = Complain ''select()'' \<and> open_clients h = [6, 4]"
proof -
  define r where "r = select_server (\<lambda>_. False) 3 four_clients"
  have "fst r = Exits 1 \<and> snd (snd r) = [] \<and> last (fst (snd r)) = Complain ''select()'' \<and> open_clients (fst (snd r)) = [6, 4]"
    unfolding r_def by code_simp
  then have "r = (Exits 1, fst (snd r), [])" by (cases r) auto
  from select_tracks_clients [OF this [unfolded r_def]] this \<open>fst r = _ \<and> _\<close> show ?thesis
    unfolding r_def by (intro exI [of _ "fst (snd (select_server (\<lambda>_. False) 3 four_clients))"]) simp
qed

section \<open>epoll\<close>

text \<open>The descriptors that are registered with the \<open>epoll\<close> instance.\<close>

definition registered_after :: "int set \<Rightarrow> event \<Rightarrow> int set" where
  "registered_after ws e =
     (case e of
        Sys c args (Some r) \<Rightarrow>
          if c = EpollCtl \<and> \<not> failed r
          then (case args of
              [I ep, S opr, I fd] \<Rightarrow> if opr = ''ADD'' then insert fd ws else if opr = ''DEL'' then ws - {fd} else ws
            | _ \<Rightarrow> ws)
          else ws
      | _ \<Rightarrow> ws)"

definition registered :: "event list \<Rightarrow> int set" where
  "registered h = foldl registered_after {} h"

text \<open>
  The kernel: a new connection gets a descriptor that is not in use, and a wait reports each
  registered descriptor at most once, and no other.
\<close>

definition kernel_ok :: "int \<Rightarrow> event list \<Rightarrow> event \<Rightarrow> bool" where
  "kernel_ok srv us e =
     (case e of
        Sys c args (Some r) \<Rightarrow>
          if c = Accept then (failed r \<or> val_of r \<noteq> srv \<and> val_of r \<notin> set (open_clients us))
          else if c = EpollWait then distinct (ready_fds 10 r) \<and> set (ready_fds 10 r) \<subseteq> registered us
          else True
      | _ \<Rightarrow> True)"

text \<open>
  The server: it receives from open connections only, waits for the listening socket and all of the
  open connections, and closes a connection after it has been taken out of the instance.
\<close>

definition epoll_ok :: "int \<Rightarrow> event list \<Rightarrow> event \<Rightarrow> bool" where
  "epoll_ok srv us e =
     (case e of
        Sys c args r \<Rightarrow>
          if c = Recv then (case args of I fd # _ \<Rightarrow> fd \<in> set (open_clients us) | _ \<Rightarrow> False)
          else if c = Close then (case args of I fd # _ \<Rightarrow> fd \<in> set (open_clients us) - registered us | _ \<Rightarrow> False)
          else if c = EpollWait then registered us = insert srv (set (open_clients us))
          else True
      | _ \<Rightarrow> True)"

definition epoll_fine :: "int \<Rightarrow> int option \<Rightarrow> event list \<Rightarrow> bool" where
  "epoll_fine srv c h \<longleftrightarrow> always (kernel_ok srv) h \<longrightarrow> always (epoll_ok srv) h"

definition epoll_inv :: "int \<Rightarrow> int list \<Rightarrow> event list \<Rightarrow> bool" where
  "epoll_inv srv es h \<longleftrightarrow> (always (kernel_ok srv) h \<longrightarrow> always (epoll_ok srv) h
     \<and> distinct (srv # open_clients h) \<and> registered h = insert srv (set (open_clients h))
     \<and> distinct es \<and> set es \<subseteq> registered h)"

lemma registered_simps:
  "registered [] = {}" "registered (h @ [e]) = registered_after (registered h) e"
  by (simp_all add: registered_def)

lemmas epoll_defs = epoll_inv_def epoll_fine_def always_snoc epoll_ok_def kernel_ok_def open_clients_simps open_after_def
  registered_simps registered_after_def

lemma epoll_inv_fine: "epoll_inv srv es h \<Longrightarrow> epoll_fine srv c h"
  by (simp add: epoll_inv_def epoll_fine_def)

lemma epoll_fine_quiet [simp]:
  "epoll_fine srv x (h @ [Complain m]) = epoll_fine srv x h"
  "epoll_fine srv x (h @ [Print f args]) = epoll_fine srv x h"
  "c \<notin> {Recv, Close, Accept, EpollWait} \<Longrightarrow> epoll_fine srv x (h @ [Sys c args r]) = epoll_fine srv x h"
  by (simp_all add: epoll_defs split: option.split)

lemma epoll_inv_quiet [simp]:
  "epoll_inv srv es (h @ [Print f args]) = epoll_inv srv es h"
  "c \<notin> {Recv, Close, Accept, EpollWait, EpollCtl} \<Longrightarrow> epoll_inv srv es (h @ [Sys c args r]) = epoll_inv srv es h"
  by (simp_all add: epoll_defs split: option.split)

text \<open>A new connection, before it is registered; an ended one, before it is closed.\<close>

definition unregistered :: "int \<Rightarrow> int \<Rightarrow> int list \<Rightarrow> event list \<Rightarrow> bool" where
  "unregistered srv fd es h \<longleftrightarrow> (always (kernel_ok srv) h \<longrightarrow> always (epoll_ok srv) h
     \<and> distinct (srv # open_clients h) \<and> fd \<in> set (open_clients h) \<and> registered h = insert srv (set (open_clients h) - {fd})
     \<and> distinct es \<and> set es \<subseteq> registered h)"

lemma unregistered_quiet [simp]:
  "unregistered srv fd es (h @ [Print f args]) = unregistered srv fd es h"
  "c \<notin> {Recv, Close, Accept, EpollWait, EpollCtl} \<Longrightarrow> unregistered srv fd es (h @ [Sys c args r]) = unregistered srv fd es h"
  by (simp_all add: unregistered_def epoll_defs split: option.split)

lemma unregistered_fine: "unregistered srv fd es h \<Longrightarrow> epoll_fine srv c h"
  by (simp add: unregistered_def epoll_fine_def)

lemma epoll_accepts:
  assumes "epoll_inv srv es h"
  shows "\<not> failed r \<Longrightarrow> unregistered srv (val_of r) es (h @ [Sys Accept [I srv] (Some r)])"
    and "failed r \<Longrightarrow> epoll_inv srv es (h @ [Sys Accept [I srv] (Some r)])"
    and "epoll_fine srv c (h @ [Sys Accept [I srv] None])"
  using assms by (auto simp: unregistered_def epoll_defs)

lemma epoll_registers:
  "unregistered srv fd es h \<Longrightarrow> \<not> failed r \<Longrightarrow> epoll_inv srv es (h @ [Sys EpollCtl [I ep, S ''ADD'', I fd] (Some r)])"
  by (auto simp: unregistered_def epoll_defs)

lemma epoll_receives:
  assumes "epoll_inv srv (fd # es) h" and "fd \<noteq> srv"
  shows "epoll_inv srv (fd # es) (h @ [Sys Recv [I fd, I 16, I 0] r])"
  using assms by (auto simp: epoll_defs split: option.split)

lemma epoll_unregisters:
  "epoll_inv srv (fd # es) h \<Longrightarrow> fd \<noteq> srv \<Longrightarrow> \<not> failed r \<Longrightarrow>
   unregistered srv fd es (h @ [Sys EpollCtl [I ep, S ''DEL'', I fd] (Some r)])"
  by (auto simp: unregistered_def epoll_defs)

lemma epoll_closes:
  assumes "unregistered srv fd es h" and "fd \<noteq> srv"
  shows "epoll_inv srv es (h @ [Sys Close [I fd] (Some r)])" and "epoll_fine srv c (h @ [Sys Close [I fd] None])"
  using assms by (auto simp: unregistered_def epoll_defs)

lemma epoll_waits:
  assumes "epoll_inv srv es h"
  shows "epoll_inv srv (ready_fds 10 r) (h @ [Sys EpollWait [I ep, I 10] (Some r)])" and "epoll_fine srv c (h @ [Sys EpollWait [I ep, I 10] q])"
  using assms by (auto simp: epoll_defs split: option.split)

lemma epoll_next: "epoll_inv srv (fd # es) h \<Longrightarrow> epoll_inv srv es h"
  by (auto simp: epoll_inv_def)

lemma wp_epoll_accept:
  assumes inv: "epoll_inv srv es h"
  shows "wp (epoll_accept ep srv) (\<lambda>_. epoll_inv srv es) (epoll_fine srv) h"
proof -
  note fine = unregistered_fine [of srv _ es]
  have "wp (bind (say ''Accepted new client!'' []) (\<lambda>_. bind (set_nonblock client) (\<lambda>_.
      bind (sys EpollCtl [I ep, S ''ADD'', I client]) (\<lambda>r. bind (check ''epoll_ctl()'' r) (\<lambda>_. return ())))))
      (\<lambda>_. epoll_inv srv es) (epoll_fine srv) h'" if u: "unregistered srv client es h'" for client h'
    unfolding say_def
    by (rule wp_bind, rule wp_tell, rule wp_bind, rule wp_set_nonblock [where J = "unregistered srv client es"])
      (use u in \<open>auto intro!: wp_bind wp_sys wp_check wp_return epoll_registers dest: fine simp del: append_assoc\<close>)
  then show ?thesis
    unfolding epoll_accept_def Let_def
    using epoll_accepts [OF inv] epoll_inv_fine [OF epoll_accepts(2) [OF inv]]
    by (auto intro!: wp_bind wp_sys wp_err wp_return simp del: append_assoc)
qed

lemma wp_epoll_client:
  assumes inv: "epoll_inv srv (fd # es) h" and fd: "fd \<noteq> srv"
  shows "wp (epoll_client ep fd) (\<lambda>_. epoll_inv srv es) (epoll_fine srv) h"
  unfolding epoll_client_def Let_def say_def close_fd_def
  using epoll_receives [OF inv fd] epoll_inv_fine [OF epoll_receives [OF inv fd]] epoll_next [OF epoll_receives [OF inv fd]] fd
  by (auto intro!: wp_if wp_bind wp_sys wp_tell wp_err wp_return wp_check epoll_closes epoll_unregisters
      simp del: append_assoc)

lemma wp_epoll_round:
  assumes inv: "epoll_inv srv [] h"
  shows "wp (epoll_round ep srv) (\<lambda>_. epoll_inv srv []) (epoll_fine srv) h"
proof -
  let ?h = "\<lambda>r. (h @ [Print ''Calling epoll_wait()!'' []]) @ [Sys EpollWait [I ep, I 10] r]"
  have w: "epoll_inv srv (ready_fds 10 r) (?h (Some r))" "epoll_fine srv c (?h q)" for r c q
    by (rule epoll_waits [where es = "[]"], simp add: inv)+
  have "wp (for_each (ready_fds 10 r) (\<lambda>fd u. if fd = srv then epoll_accept ep srv else epoll_client ep fd) ())
      (\<lambda>_. epoll_inv srv []) (epoll_fine srv) (?h (Some r))" for r
    by (rule wp_for_each [where J = "\<lambda>es u. epoll_inv srv es", OF w(1)])
      (auto intro!: wp_epoll_accept wp_epoll_client dest: epoll_next)
  then show ?thesis
    unfolding epoll_round_def say_def
    by (intro wp_bind wp_tell wp_sys w wp_check) (simp_all only: epoll_fine_quiet w)
qed

lemma within_epoll [within_intros]: "consuming (epoll_accept ep srv)" "consuming (epoll_client ep fd)" "consuming (epoll_round ep srv)"
proof -
  have a: "consuming (epoll_accept ep srv)" "consuming (epoll_client ep fd)" for srv fd
    unfolding epoll_accept_def epoll_client_def Let_def by (intro within_intros)+
  then show "consuming (epoll_accept ep srv)" "consuming (epoll_client ep fd)" by blast+
  show "consuming (epoll_round ep srv)"
    unfolding epoll_round_def
    by (rule consuming_bind2, rule within_intros, rule consuming_bind1, rule within_intros, rule within_bind, rule within_check,
        rule within_for_each, intro within_cases consuming_within [OF a(1)] consuming_within [OF a(2)])
qed

text \<open>
  On a kernel that reports only registered descriptors, each at most once, and hands out new
  descriptors, \<open>11_epoll.c\<close> receives only from connections that are open, waits at each round for the
  listening socket and exactly the open connections, and closes each of them once, after taking it
  out of the \<open>epoll\<close> instance.
\<close>

theorem epoll_tracks_clients:
  assumes "epoll_server srv rs = (x, h, rs')" and "always (kernel_ok srv) h"
  shows "always (epoll_ok srv) h"
proof -
  have first: "epoll_inv srv [] [Sys EpollCreate [I 100] (Some r), Sys EpollCtl [I ep, S ''ADD'', I srv] (Some q)]"
    if "\<not> failed q" for r ep q
    using that by (simp add: epoll_inv_def always_def epoll_ok_def open_clients_def open_after_def registered_def registered_after_def)
  have "wp (epoll_server srv) (\<lambda>_ h. epoll_fine srv None h) (epoll_fine srv) []"
    unfolding epoll_server_def Let_def
  proof (rule wp_bind, rule wp_sys, goal_cases wait reply)
    case (reply r)
    have fine: "epoll_fine srv c [Sys EpollCreate [I 100] (Some r), Sys EpollCtl [I ep, S ''ADD'', I srv] q]"
      "epoll_fine srv c [Sys EpollCreate [I 100] (Some r), Sys EpollCtl [I ep, S ''ADD'', I srv] q, Complain m]" for c ep q m
      by (simp_all add: epoll_fine_def always_def epoll_ok_def)
    show ?case
    proof (rule wp_bind, rule wp_sys, goal_cases wait reply)
      case (reply q)
      show ?case
      proof (rule wp_bind, rule wp_check, goal_cases failure okay)
        case okay
        show ?case
          by (rule wp_forever [where J = "epoll_inv srv []"], rule within_epoll) (use first okay in \<open>auto intro: wp_epoll_round\<close>)
      qed (use fine in simp)
    qed (use fine in simp)
  qed (simp add: epoll_fine_def always_def epoll_ok_def)
  from wp_runs [OF this assms(1)] assms(2) show ?thesis
    by (cases x) (auto simp: epoll_fine_def)
qed

definition two_connections :: "reply list" where
  "two_connections =
     [Done 4, Done 0, Ready [3], Done 5, Done 2, Done 0, Done 0, Ready [3, 5], Done 6, Done 2, Done 0, Done 0, Bytes [104, 105],
      Ready [6, 5], Fail EAGAIN, Bytes [], Done 0, Done 0]"

lemma epoll_tracks_clients_witness:
  "\<exists>h. epoll_server 3 two_connections = (Waits, h, []) \<and> always (epoll_ok 3) h \<and> open_clients h = [6]"
proof -
  define r where "r = epoll_server 3 two_connections"
  have e: "fst r = Waits \<and> snd (snd r) = [] \<and> open_clients (fst (snd r)) = [6]" and k: "always (kernel_ok 3) (fst (snd r))"
    unfolding r_def by code_simp+
  then have "r = (Waits, fst (snd r), [])" by (cases r) auto
  from epoll_tracks_clients [OF this [unfolded r_def]] this k e show ?thesis
    unfolding r_def by (intro exI [of _ "fst (snd (epoll_server 3 two_connections))"]) simp
qed

end
