(* ===== verification/MQueues.thy ===== *)
theory MQueues
  imports Pipes "HOL-Library.Multiset"
begin

text \<open>
  The message queue programs of the lecture (\<open>Lecture Codes/02_mqueue\<close>, 01 to 09). A received
  message is a \<open>Datagram\<close> with the priority in place of the sender. The queue itself belongs to
  the operating system; what it guarantees is the hypothesis \<open>queue_ok\<close> on a history.
\<close>

section \<open>Common steps\<close>

definition QUEUE :: string where "QUEUE = ''/sop_mqueue''"
definition MQ_SIZE :: nat where "MQ_SIZE = 64"
definition MQ_MAX :: nat where "MQ_MAX = 10"
definition SIGUSR1 :: int where "SIGUSR1 = 10"

definition open_queue :: "string \<Rightarrow> arg list \<Rightarrow> int io" where
  "open_queue flags attr = bind (sys MqOpen ([S QUEUE, S flags, I 384] @ attr)) (check ''mq_open()'')"

definition new_queue :: "string \<Rightarrow> arg list \<Rightarrow> int io" where
  "new_queue flags attr = bind (sys MqUnlink [S QUEUE]) (\<lambda>_. open_queue flags attr)"

definition send_text :: "int \<Rightarrow> int \<Rightarrow> unit io" where
  "send_text mq prio = bind (sys MqSend [I mq, B TEXT, I prio]) (\<lambda>r. bind (check ''mq_send()'' r) (\<lambda>_. return ()))"

fun message_of :: "nat \<Rightarrow> reply \<Rightarrow> int \<times> int list" where
  "message_of n (Datagram prio bs) = (prio, take n bs)"
| "message_of n r = (0, [])"

definition receive_and_show :: "int list \<Rightarrow> int \<Rightarrow> nat \<Rightarrow> int io" where
  "receive_and_show past mq sz =
     bind (uninit sz) (\<lambda>buf.
     bind (sys MqReceive [I mq, I (int sz)]) (\<lambda>r. bind (check ''mq_receive()'' r) (\<lambda>_.
     case message_of sz r of (prio, bs) \<Rightarrow>
     bind (say ''Received message of size %ld (prio: %u): %s'' [I (int (length bs)), I prio, B (c_text past (overwrite buf bs))]) (\<lambda>_.
     bind (sys MqClose [I mq]) (\<lambda>_. return 0)))))"

text \<open>\<open>mq_getattr\<close> reports two numbers, \<open>mq_maxmsg\<close> and \<open>mq_msgsize\<close>.\<close>

fun attr_of :: "reply \<Rightarrow> int \<times> int" where
  "attr_of (Ready [maxmsg, msgsize]) = (maxmsg, msgsize)"
| "attr_of r = (0, 0)"

definition show_attr :: "int \<Rightarrow> int io" where
  "show_attr mq =
     bind (sys MqGetattr [I mq]) (\<lambda>r. case attr_of r of (maxmsg, msgsize) \<Rightarrow>
     bind (say ''attr.mq_maxmsg = %ld'' [I maxmsg]) (\<lambda>_.
     bind (say ''attr.mq_msgsize = %ld'' [I msgsize]) (\<lambda>_. return msgsize)))"

section \<open>Creation and attributes\<close>

definition mqueue_creation :: "int list \<Rightarrow> int io" where
  "mqueue_creation past =
     bind (new_queue ''O_CREAT | O_RDWR'' []) (\<lambda>mq. bind (send_text mq 3) (\<lambda>_. receive_and_show past mq 8192))"

definition default_attributes :: "int list \<Rightarrow> int io" where
  "default_attributes past =
     bind (new_queue ''O_CREAT | O_RDWR'' []) (\<lambda>mq.
     bind (show_attr mq) (\<lambda>msgsize.
     bind (send_text mq 3) (\<lambda>_. receive_and_show past mq (nat msgsize))))"

definition create_attributes :: "int list \<Rightarrow> int io" where
  "create_attributes past =
     bind (new_queue ''O_CREAT | O_RDWR'' [I 3, I (int MQ_SIZE)]) (\<lambda>mq.
     bind (show_attr mq) (\<lambda>_.
     bind (send_text mq 7) (\<lambda>_. receive_and_show past mq MQ_SIZE)))"

definition queue_capacity :: "int io" where
  "queue_capacity =
     bind (new_queue ''O_CREAT | O_EXCL | O_WRONLY | O_NONBLOCK'' [I (int MQ_MAX), I (int MQ_SIZE)]) (\<lambda>mq.
     bind (for_each [0 ..< 100] (\<lambda>i u.
       bind (say ''Sending message %d ... '' [I (int i)]) (\<lambda>_.
       bind (send_text mq 7) (\<lambda>_. say ''done!'' []))) ()) (\<lambda>_. return 0))"

section \<open>A reader without end of file, and one with a time-out\<close>

definition queue_writer :: "int \<Rightarrow> unit io" where
  "queue_writer mq =
     bind (for_each [0 ..< 5] (\<lambda>i u.
       bind (say ''Sending message %d'' [I (int i)]) (\<lambda>_.
       bind (send_text mq 7) (\<lambda>_.
       bind (sys Sleep [I 1]) (\<lambda>_. return ())))) ()) (\<lambda>_.
     bind (sys MqClose [I mq]) (\<lambda>_.
     bind (say ''Parent done! Waiting for child...'' []) (\<lambda>_. wait_all)))"

text \<open>\<open>i\<close> counts the messages; the model's counter does not overflow.\<close>

definition no_eof_reader :: "int \<Rightarrow> unit io" where
  "no_eof_reader mq =
     bind (loop (\<lambda>i.
       bind (sys MqReceive [I mq, I (int MQ_SIZE)]) (\<lambda>r. bind (check ''mq_receive()'' r) (\<lambda>_.
       bind (say ''Received message %d'' [I i]) (\<lambda>_. return (Inl (i + 1) :: int + unit))))) 0) (\<lambda>_.
     bind (sys MqClose [I mq]) (\<lambda>_. return ()))"

definition ETIMEDOUT :: errno where "ETIMEDOUT = OtherErrno 110"

definition timed_reader :: "int \<Rightarrow> int io" where
  "timed_reader mq =
     loop (\<lambda>i.
       bind (sys ClockGettime []) (\<lambda>r. bind (check ''clock_gettime()'' r) (\<lambda>now.
       bind (sys MqTimedreceive [I mq, I (int MQ_SIZE), I (now + 3)]) (\<lambda>r.
       if failed r
       then (if errno_of r = ETIMEDOUT
             then bind (say ''Timeout!'' []) (\<lambda>_. bind (sys MqClose [I mq]) (\<lambda>_. return (Inr 0)))
             else err ''mq_receive()'')
       else bind (say ''Received message %d'' [I i]) (\<lambda>_. return (Inl (i + 1))))))) (0 :: int)"

definition forked_queue :: "(int \<Rightarrow> int io) \<Rightarrow> int io" where
  "forked_queue reader =
     bind (sys MqUnlink [S QUEUE]) (\<lambda>_.
     fork_switch
       (bind (open_queue ''O_CREAT | O_RDONLY'' [I (int MQ_MAX), I (int MQ_SIZE)]) reader)
       (bind (open_queue ''O_CREAT | O_WRONLY'' [I (int MQ_MAX), I (int MQ_SIZE)]) (\<lambda>mq.
        bind (queue_writer mq) (\<lambda>_. return 0))))"

definition no_eof :: "int io" where
  "no_eof = forked_queue (\<lambda>mq. bind (no_eof_reader mq) (\<lambda>_. return 0))"

definition timeouts :: "int io" where
  "timeouts = forked_queue timed_reader"

section \<open>Priorities\<close>

definition MQ_PRIO_MAX :: int where "MQ_PRIO_MAX = 32768"

text \<open>The message number \<open>i\<close>: \<open>snprintf(buf, sizeof(buf), "text%d", i)\<close>.\<close>

definition message_text :: "nat \<Rightarrow> int list" where
  "message_text i = take (MQ_SIZE - 1) (ascii ''text'' @ decimal i)"

definition prio_send :: "int \<Rightarrow> nat \<Rightarrow> unit io" where
  "prio_send mq i =
     bind (sys Rand []) (\<lambda>r. let prio = c_mod (val_of r) MQ_PRIO_MAX in
     bind (say ''Sending message %s with priority %d'' [B (message_text i), I prio]) (\<lambda>_.
     bind (sys MqSend [I mq, B (message_text i @ [0]), I prio]) (\<lambda>r. bind (check ''mq_send()'' r) (\<lambda>_. return ()))))"

definition show_message :: "int list \<Rightarrow> int list \<Rightarrow> reply \<Rightarrow> int list io" where
  "show_message past buf r =
     (case message_of MQ_SIZE r of (prio, bs) \<Rightarrow>
      bind (say ''Received message (prio: %u): %s'' [I prio, B (c_text past (overwrite buf bs))]) (\<lambda>_. return (overwrite buf bs)))"

definition prio_receive :: "int list \<Rightarrow> int \<Rightarrow> unit io" where
  "prio_receive past mq =
     bind (uninit MQ_SIZE) (\<lambda>buf.
     bind (sys MqReceive [I mq, I (int MQ_SIZE)]) (\<lambda>r. bind (check ''mq_receive()'' r) (\<lambda>_.
     bind (show_message past buf r) (\<lambda>_. return ()))))"

definition priority :: "int list \<Rightarrow> int io" where
  "priority past =
     bind (new_queue ''O_CREAT | O_RDWR'' [I (int MQ_MAX), I (int MQ_SIZE)]) (\<lambda>mq.
     bind (sys Getpid []) (\<lambda>_.
     bind (for_each [0 ..< MQ_MAX] (\<lambda>i u. prio_send mq i) ()) (\<lambda>_.
     bind (for_each [0 ..< MQ_MAX] (\<lambda>i u. prio_receive past mq) ()) (\<lambda>_.
     bind (sys MqClose [I mq]) (\<lambda>_. return 0)))))"

section \<open>Notifications\<close>

definition notify :: "int \<Rightarrow> string \<Rightarrow> unit io" where
  "notify mq how = bind (sys MqNotify [I mq, S how]) (\<lambda>r. bind (check ''mq_notify()'' r) (\<lambda>_. return ()))"

text \<open>Receive and print until the queue is empty.\<close>

definition drain :: "int list \<Rightarrow> int \<Rightarrow> unit io" where
  "drain past mq =
     bind (uninit MQ_SIZE) (\<lambda>buf.
     loop (\<lambda>buf.
       bind (sys MqReceive [I mq, I (int MQ_SIZE)]) (\<lambda>r.
       if failed r then (if errno_of r = EAGAIN then return (Inr ()) else err ''mq_receive()'')
       else bind (show_message past buf r) (\<lambda>buf. return (Inl buf)))) buf)"

definition block_sender :: "int \<Rightarrow> unit io" where
  "block_sender mq =
     bind (sys Getpid []) (\<lambda>_.
     bind (for_each [0 ..< 5] (\<lambda>i u.
       bind (sys Rand []) (\<lambda>r. let n = c_mod (val_of r) 3 + 1 in
       bind (say ''Sending %d messages'' [I n]) (\<lambda>_.
       bind (for_each [0 ..< nat n] (\<lambda>j u. send_text mq 0) ()) (\<lambda>_.
       bind (sys Sleep [I 1]) (\<lambda>_. return ()))))) ()) (\<lambda>_.
     bind (sys Getppid []) (\<lambda>p. bind (sys Kill [I (val_of p), I SIGINT]) (\<lambda>_. return ()))))"

text \<open>
  The handlers: SIGUSR1 prints a line, SIGINT sets \<open>should_exit\<close>. A reply may name several signals:
  all that were handled before the call returned. Both are blocked but in \<open>sigsuspend\<close>; signals that
  arrive before \<open>sigprocmask\<close> has blocked them are part of its reply.
\<close>

fun signals_of :: "reply \<Rightarrow> int list" where
  "signals_of (Caught sig) = [sig]"
| "signals_of (Ready sigs) = sigs"
| "signals_of r = []"

definition run_handlers :: "int list \<Rightarrow> bool \<Rightarrow> bool io" where
  "run_handlers sigs should_exit =
     for_each sigs (\<lambda>sig e.
       if sig = SIGUSR1 then bind (say ''Received signal %d'' [I SIGUSR1]) (\<lambda>_. return e)
       else return (e \<or> sig = SIGINT)) should_exit"

definition block_signals :: "bool io" where
  "block_signals =
     bind (sys Sigprocmask [S ''SIG_BLOCK'', I SIGUSR1, I SIGINT]) (\<lambda>r.
     bind (check ''sigprocmask()'' r) (\<lambda>_. run_handlers (signals_of r) False))"

definition signal_parent :: "int list \<Rightarrow> int \<Rightarrow> unit io" where
  "signal_parent past mq =
     bind block_signals (\<lambda>should_exit.
     bind (loop (\<lambda>should_exit.
       bind (sys Sigsuspend []) (\<lambda>r.
       bind (run_handlers (signals_of r) should_exit) (\<lambda>should_exit.
       if should_exit then return (Inr ())
       else bind (notify mq ''SIGUSR1'') (\<lambda>_. bind (drain past mq) (\<lambda>_. return (Inl should_exit)))))) should_exit) (\<lambda>_.
     wait_all))"

definition handle_signal :: "int \<Rightarrow> string \<Rightarrow> unit io" where
  "handle_signal sig f =
     bind (sys Sigaction [I sig, S f]) (\<lambda>r. bind (check ''sigaction()'' r) (\<lambda>_. return ()))"

definition notification_signal :: "int list \<Rightarrow> int io" where
  "notification_signal past =
     bind (new_queue ''O_CREAT | O_EXCL | O_RDWR | O_NONBLOCK'' [I (int MQ_MAX), I (int MQ_SIZE)]) (\<lambda>mq.
     bind (handle_signal SIGUSR1 ''handler'') (\<lambda>_.
     bind (handle_signal SIGINT ''sigint_handler'') (\<lambda>_.
     bind (notify mq ''SIGUSR1'') (\<lambda>_.
     let close = bind (sys MqClose [I mq]) (\<lambda>_. return 0) in
     fork_switch (bind (block_sender mq) (\<lambda>_. close)) (bind (signal_parent past mq) (\<lambda>_. close))))))"

text \<open>
  \<open>09_async_notification_thread.c\<close>: each notification runs \<open>thread_routine\<close> in a thread of its
  own; the main thread only waits for SIGINT.
\<close>

definition thread_routine :: "int list \<Rightarrow> int \<Rightarrow> unit io" where
  "thread_routine past mq =
     bind (say ''Notification thread starts!'' []) (\<lambda>_.
     bind (notify mq ''thread_routine'') (\<lambda>_. drain past mq))"

definition thread_parent :: "unit io" where
  "thread_parent =
     bind (sys Sigprocmask [S ''SIG_BLOCK'', I SIGUSR1, I SIGINT]) (\<lambda>r. bind (check ''sigprocmask()'' r) (\<lambda>_.
     bind (loop (\<lambda>should_exit.
       bind (sys Sigsuspend []) (\<lambda>r.
       let should_exit = (should_exit \<or> SIGINT \<in> set (signals_of r)) in
       return (if should_exit then Inr () else Inl should_exit))) (SIGINT \<in> set (signals_of r))) (\<lambda>_.
     wait_all)))"

definition notification_thread :: "int io" where
  "notification_thread =
     bind (new_queue ''O_CREAT | O_EXCL | O_RDWR | O_NONBLOCK'' [I (int MQ_MAX), I (int MQ_SIZE)]) (\<lambda>mq.
     bind (handle_signal SIGINT ''sigint_handler'') (\<lambda>_.
     bind (notify mq ''thread_routine'') (\<lambda>_.
     let close = bind (sys MqClose [I mq]) (\<lambda>_. return 0) in
     fork_switch (bind (block_sender mq) (\<lambda>_. close)) (bind thread_parent (\<lambda>_. close)))))"

section \<open>Messages come out by priority\<close>

text \<open>
  The queue after a history, as POSIX describes it: a message goes behind those of the same or a
  higher priority, and the first message is received.
\<close>

type_synonym message = "int \<times> int list"

definition enqueue :: "message \<Rightarrow> message list \<Rightarrow> message list" where
  "enqueue m q = takeWhile (\<lambda>x. fst m \<le> fst x) q @ m # dropWhile (\<lambda>x. fst m \<le> fst x) q"

definition queue_after :: "message list \<Rightarrow> event \<Rightarrow> message list" where
  "queue_after q e =
     (case e of
        Sys c args (Some r) \<Rightarrow>
          if c = MqSend \<and> \<not> failed r then (case args of [I mq, B bs, I p] \<Rightarrow> enqueue (p, bs) q | _ \<Rightarrow> q)
          else if c = MqReceive \<and> \<not> failed r then tl q
          else q
      | _ \<Rightarrow> q)"

definition queued :: "event list \<Rightarrow> message list" where
  "queued h = foldl queue_after [] h"

definition queue_ok :: "event list \<Rightarrow> event \<Rightarrow> bool" where
  "queue_ok us e =
     (case e of
        Sys c args (Some r) \<Rightarrow>
          c = MqReceive \<longrightarrow> failed r \<or> queued us \<noteq> [] \<and> r = (case hd (queued us) of (p, bs) \<Rightarrow> Datagram p bs)
      | _ \<Rightarrow> True)"

lemma queued_simps: "queued [] = []" "queued (h @ tr) = foldl queue_after (queued h) tr"
  by (simp_all add: queued_def)

lemma always_append: "always P (h @ tr) \<longleftrightarrow> always P h \<and> always_from h P tr"
  by (simp add: always_def always_from_append)

text \<open>Insertion in this order is a stable sort by descending priority.\<close>

lemma sorted_enqueue:
  assumes "sorted (map (\<lambda>m. - fst m) q)"
  shows "sorted (map (\<lambda>m. - fst m) (enqueue m q))"
  using assms
proof (induction q)
  case (Cons x q)
  have e: "enqueue m (x # q) = (if fst m \<le> fst x then x # enqueue m q else m # x # q)"
    by (simp add: enqueue_def)
  have s: "set (enqueue m q) = insert m (set q)"
    unfolding enqueue_def using takeWhile_dropWhile_id [of "\<lambda>x. fst m \<le> fst x" q]
    by (metis Un_insert_right list.simps(15) set_append)
  show ?case
  proof (cases "fst m \<le> fst x")
    case True
    with Cons s show ?thesis by (auto simp: e)
  next
    case False
    have "- fst x \<le> - fst y" if "y \<in> set q" for y using Cons.prems that by auto
    with False Cons.prems show ?thesis by (force simp: e)
  qed
qed (simp add: enqueue_def)

lemma mset_enqueue: "mset (enqueue m q) = add_mset m (mset q)"
proof -
  have "mset q = mset (takeWhile (\<lambda>x. fst m \<le> fst x) q) + mset (dropWhile (\<lambda>x. fst m \<le> fst x) q)"
    by (metis mset_append takeWhile_dropWhile_id)
  then show ?thesis by (simp add: enqueue_def)
qed

lemma stable_enqueue:
  assumes "sorted (map (\<lambda>m. - fst m) q)"
  shows "filter (\<lambda>x. fst x = k) (enqueue m q) = filter (\<lambda>x. fst x = k) q @ (if fst m = k then [m] else [])"
  using assms
proof (induction q)
  case (Cons x q)
  have e: "enqueue m (x # q) = (if fst m \<le> fst x then x # enqueue m q else m # x # q)"
    by (simp add: enqueue_def)
  show ?case
  proof (cases "fst m \<le> fst x")
    case True
    with Cons show ?thesis by (auto simp: e)
  next
    case False
    have "fst y \<le> fst x" if "y \<in> set q" for y using Cons.prems that by auto
    with False have "filter (\<lambda>y. fst y = fst m) (x # q) = []"
      by (auto simp: filter_empty_conv)
    with False show ?thesis by (auto simp: e)
  qed
qed (simp add: enqueue_def)

lemma enqueue_sorts: "foldl (\<lambda>q m. enqueue m q) [] ms = sort_key (\<lambda>m. - fst m) ms"
proof -
  have "sorted (map (\<lambda>m. - fst m) (foldl (\<lambda>q m. enqueue m q) [] ms))
     \<and> mset (foldl (\<lambda>q m. enqueue m q) [] ms) = mset ms
     \<and> (\<forall>k. filter (\<lambda>x. fst x = k) (foldl (\<lambda>q m. enqueue m q) [] ms) = filter (\<lambda>x. fst x = k) ms)"
    by (induction ms rule: rev_induct) (auto simp: sorted_enqueue mset_enqueue stable_enqueue)
  then show ?thesis
    by (intro properties_for_sort_key [symmetric]) (auto simp: eq_commute)
qed

text \<open>What the program printed: the messages it sent, and those it received.\<close>

definition printed :: "string \<Rightarrow> event \<Rightarrow> message list" where
  "printed f e = (case e of Print g [B bs, I p] \<Rightarrow> if g = f then [(p, bs)] else [] | _ \<Rightarrow> [])"

definition printed_first :: "string \<Rightarrow> event \<Rightarrow> message list" where
  "printed_first f e = (case e of Print g [I p, B bs] \<Rightarrow> if g = f then [(p, bs)] else [] | _ \<Rightarrow> [])"

abbreviation sent_messages :: "event list \<Rightarrow> message list" where
  "sent_messages h \<equiv> seen (printed ''Sending message %s with priority %d'') h"

abbreviation shown_messages :: "event list \<Rightarrow> message list" where
  "shown_messages h \<equiv> seen (printed_first ''Received message (prio: %u): %s'') h"

definition with_zero :: "message \<Rightarrow> message" where
  "with_zero m = (fst m, snd m @ [0])"

definition well_sent :: "message list \<Rightarrow> bool" where
  "well_sent ms \<longleftrightarrow> (\<forall>m \<in> set ms. 0 \<notin> set (snd m) \<and> length (snd m) < MQ_SIZE)"

text \<open>While sending: the queue holds what was printed. While receiving: the sorted messages go from the queue to the output.\<close>

definition sending_inv :: "nat \<Rightarrow> event list \<Rightarrow> bool" where
  "sending_inv n h \<longleftrightarrow> (let ms = sent_messages h in
     queued h = foldl (\<lambda>q m. enqueue m q) [] (map with_zero ms) \<and> well_sent ms \<and> length ms = n \<and> shown_messages h = [])"

definition receiving_inv :: "nat \<Rightarrow> event list \<Rightarrow> bool" where
  "receiving_inv n h \<longleftrightarrow> (let ms = sent_messages h in
     always queue_ok h \<longrightarrow> map with_zero (shown_messages h) @ queued h = sort_key (\<lambda>m. - fst m) (map with_zero ms)
       \<and> well_sent ms \<and> length ms = MQ_MAX \<and> length (shown_messages h) = n)"

lemma c_text_message: "0 \<notin> set bs \<Longrightarrow> c_text past (overwrite buf (bs @ [0])) = bs"
  by (auto simp: c_text_def overwrite_def takeWhile_tail)

lemma message_text: "0 \<notin> set (message_text i)" "length (message_text i) < MQ_SIZE"
proof -
  have "0 \<notin> set (ascii ''text'' @ decimal i)" using decimal_nonzero(1) [of i] by (simp add: ascii_def)
  then show "0 \<notin> set (message_text i)" unfolding message_text_def by (meson in_set_takeD)
qed (simp add: message_text_def MQ_SIZE_def)

lemmas history_defs = printed_def printed_first_def queued_simps queue_after_def always_append queue_ok_def Let_def

lemma sending_quiet [simp]:
  "c \<noteq> MqSend \<Longrightarrow> c \<noteq> MqReceive \<Longrightarrow> sending_inv n (h @ [Sys c args r]) = sending_inv n h"
  by (simp add: sending_inv_def history_defs split: option.split)

lemma receiving_quiet [simp]:
  "c \<noteq> MqSend \<Longrightarrow> c \<noteq> MqReceive \<Longrightarrow> receiving_inv n (h @ [Sys c args r]) = receiving_inv n h"
  by (simp add: receiving_inv_def history_defs split: option.split)

lemma wp_prio_send:
  assumes "sending_inv n h"
  shows "wp (prio_send mq i) (\<lambda>_. sending_inv (Suc n)) (\<lambda>_ _. True) h"
proof -
  let ?h = "\<lambda>x p r. ((h @ [Sys Rand [] x]) @ [Print ''Sending message %s with priority %d'' [B (message_text i), I p]])
    @ [Sys MqSend [I mq, B (message_text i @ [0]), I p] (Some r)]"
  have "sending_inv (Suc n) (?h x p r)" if "\<not> failed r" for x p r
    using assms that message_text [of i]
    by (auto simp: sending_inv_def history_defs with_zero_def well_sent_def split: option.split)
  then show ?thesis
    unfolding prio_send_def Let_def say_def
    by (intro wp_bind wp_sys wp_tell wp_check wp_return TrueI)
qed

lemma receive_step:
  assumes inv: "receiving_inv n h" and r: "\<not> failed r" and kernel: "always queue_ok (h @ [Sys MqReceive args (Some r)])"
  shows "\<exists>m q. queued h = with_zero m # q \<and> r = Datagram (fst m) (snd m @ [0]) \<and> 0 \<notin> set (snd m) \<and> length (snd m) < MQ_SIZE"
proof -
  have k: "always queue_ok h" "queued h \<noteq> []" "r = (case hd (queued h) of (p, bs) \<Rightarrow> Datagram p bs)"
    using kernel r by (auto simp: always_snoc queue_ok_def)
  then obtain m' q where q: "queued h = m' # q" by (cases "queued h") auto
  have "set (queued h) \<subseteq> set (sort_key (\<lambda>m. - fst m) (map with_zero (sent_messages h)))"
    using inv k(1) unfolding receiving_inv_def Let_def by (metis Un_upper2 set_append)
  then have "m' \<in> with_zero ` set (sent_messages h)" using q by auto
  then obtain m where m: "m \<in> set (sent_messages h)" "m' = with_zero m" by auto
  then have "0 \<notin> set (snd m) \<and> length (snd m) < MQ_SIZE"
    using inv k(1) by (auto simp: receiving_inv_def Let_def well_sent_def)
  moreover have "r = Datagram (fst m) (snd m @ [0])" using k(3) q m(2) by (simp add: with_zero_def)
  ultimately show ?thesis using q m(2) by blast
qed

lemma wp_prio_receive:
  assumes "receiving_inv n h"
  shows "wp (prio_receive past mq) (\<lambda>_. receiving_inv (Suc n)) (\<lambda>_ _. True) h"
proof -
  have step: "receiving_inv (Suc n) ((h' @ [Sys MqReceive [I mq, I (int MQ_SIZE)] (Some r)]) @
      [Print ''Received message (prio: %u): %s'' [I p, B (c_text past (overwrite buf bs))]])"
    if inv: "receiving_inv n h'" and r: "\<not> failed r" and m: "message_of MQ_SIZE r = (p, bs)" for h' r p bs buf
  proof (cases "always queue_ok (h' @ [Sys MqReceive [I mq, I (int MQ_SIZE)] (Some r)])")
    case True
    from receive_step [OF inv r True] obtain m q where mq: "queued h' = with_zero m # q" "r = Datagram (fst m) (snd m @ [0])"
      "0 \<notin> set (snd m)" "length (snd m) < MQ_SIZE" by blast
    then have "p = fst m" "bs = snd m @ [0]" using m by auto
    with mq(3) have "c_text past (overwrite buf bs) = snd m" by (simp add: c_text_message)
    with inv True mq r \<open>p = fst m\<close> show ?thesis
      by (auto simp: receiving_inv_def history_defs well_sent_def)
  next
    case False
    then have "\<not> always queue_ok ((h' @ [Sys MqReceive [I mq, I (int MQ_SIZE)] (Some r)]) @ [Print f args])" for f args
      by (simp only: always_snoc) simp
    then show ?thesis unfolding receiving_inv_def Let_def by blast
  qed
  show ?thesis
    unfolding prio_receive_def show_message_def say_def
    by (rule wp_bind, rule wp_uninit, simp, rule wp_bind, rule wp_sys, simp, rule wp_bind, rule wp_check, simp, rule wp_bind)
      (use assms step in \<open>auto intro!: wp_bind wp_tell wp_return split: prod.split simp del: append_assoc\<close>)
qed

text \<open>
  C39. \<open>07_priority.c\<close>: on a POSIX queue a run that completes has sent ten messages and prints them
  in descending order of their priority, those of equal priority in the order in which they were
  sent; nothing is lost or added.
\<close>

theorem priority_sorts:
  assumes "priority past rs = (Val 0, h, rs')" and "always queue_ok h"
  shows "shown_messages h = sort_key (\<lambda>m. - fst m) (sent_messages h) \<and> length (sent_messages h) = 10"
proof -
  have send: "wp (for_each [0 ..< MQ_MAX] (\<lambda>i u. prio_send mq i) ()) (\<lambda>_. receiving_inv 0) (\<lambda>_ _. True) h'"
    if "sending_inv 0 h'" for mq h'
    by (rule wp_for_each [where J = "\<lambda>is u h. length is \<le> MQ_MAX \<and> sending_inv (MQ_MAX - length is) h"])
      (use that in \<open>auto intro!: wp_mono [OF wp_prio_send] simp: Suc_diff_Suc\<close>,
       auto simp: receiving_inv_def sending_inv_def Let_def enqueue_sorts)
  have receive: "wp (for_each [0 ..< MQ_MAX] (\<lambda>i u. prio_receive past mq) ()) (\<lambda>_. receiving_inv MQ_MAX) (\<lambda>_ _. True) h'"
    if "receiving_inv 0 h'" for mq h'
    by (rule wp_for_each [where J = "\<lambda>is u h. length is \<le> MQ_MAX \<and> receiving_inv (MQ_MAX - length is) h"])
      (use that in \<open>auto intro!: wp_mono [OF wp_prio_receive] simp: Suc_diff_Suc\<close>)
  have start: "sending_inv 0 [Sys MqUnlink a (Some r), Sys MqOpen b (Some q), Sys Getpid [] (Some p)]" for a b r q p
    by (simp add: sending_inv_def queued_def queue_after_def well_sent_def printed_def printed_first_def)
  have "wp (priority past) (\<lambda>_. receiving_inv MQ_MAX) (\<lambda>_ _. True) []"
    unfolding priority_def new_queue_def open_queue_def
    by (rule wp_bind, rule wp_bind, rule wp_sys, simp, rule wp_bind, rule wp_sys, simp, rule wp_check, simp, rule wp_bind,
        rule wp_sys, simp, rule wp_then [OF send], simp add: start, rule wp_then [OF receive], assumption)
      (auto intro!: wp_bind wp_sys wp_return)
  from wp_runs [OF this assms(1)] assms(2)
  have a: "map with_zero (shown_messages h) @ queued h = sort_key (\<lambda>m. - fst m) (map with_zero (sent_messages h))"
    "length (sent_messages h) = MQ_MAX" "length (shown_messages h) = MQ_MAX"
    by (simp_all add: receiving_inv_def Let_def)
  from arg_cong [OF a(1), of length] a(2,3) have "queued h = []" by simp
  moreover have "sort_key (\<lambda>m. - fst m) (map with_zero ms) = map with_zero (sort_key (\<lambda>m. - fst m) ms)" for ms
  proof (induction ms)
    case (Cons m ms)
    have "insort_key (\<lambda>m. - fst m) (with_zero m) (map with_zero xs) = map with_zero (insort_key (\<lambda>m. - fst m) m xs)" for xs
      by (induction xs) (auto simp: with_zero_def)
    with Cons show ?case by simp
  qed simp
  ultimately have "map with_zero (shown_messages h) = map with_zero (sort_key (\<lambda>m. - fst m) (sent_messages h))"
    using a(1) by simp
  moreover have "inj with_zero" by (rule injI) (auto simp: with_zero_def prod_eq_iff)
  ultimately have "shown_messages h = sort_key (\<lambda>m. - fst m) (sent_messages h)"
    by (meson inj_map_eq_map)
  with a(2) show ?thesis by (simp add: MQ_MAX_def)
qed

text \<open>Priorities 5, 1, 5, 7, ...: the message 3 comes first, 0 before 2.\<close>

definition ten_messages :: "reply list" where
  "ten_messages =
     Done 0 # Done 3 # Done 9 # concat (map (\<lambda>p. [Done p, Done 0]) [5, 1, 5, 32775, 0, 0, 1, 2, 2, 6])
     @ concat (map (\<lambda>(p, i). [Bytes [], Datagram p (message_text i @ [0])])
         [(7, 3), (6, 9), (5, 0), (5, 2), (2, 7), (2, 8), (1, 1), (1, 6), (0, 4), (0, 5)]) @ [Done 0]"

lemma priority_sorts_witness:
  "\<exists>h. priority [] ten_messages = (Val 0, h, []) \<and> hd (shown_messages h) = (7, message_text 3)
    \<and> shown_messages h = sort_key (\<lambda>m. - fst m) (sent_messages h)"
proof -
  define r where "r = priority [] ten_messages"
  have e: "fst r = Val 0 \<and> snd (snd r) = [] \<and> hd (shown_messages (fst (snd r))) = (7, message_text 3)"
    and k: "always queue_ok (fst (snd r))"
    unfolding r_def by code_simp+
  then have "r = (Val 0, fst (snd r), [])" by (cases r) auto
  from priority_sorts [OF this [unfolded r_def]] this k e show ?thesis
    unfolding r_def by (intro exI [of _ "fst (snd (priority [] ten_messages))"]) simp
qed

section \<open>The notification is registered before the queue is emptied\<close>

text \<open>
  A queue notifies once for a registration, when a message arrives on the empty queue. What a
  history of the parent shows: is it registered, and was the queue seen empty since?
\<close>

definition watch_after :: "bool \<times> bool \<Rightarrow> event \<Rightarrow> bool \<times> bool" where
  "watch_after w e =
     (case e of
        Sys c args (Some r) \<Rightarrow>
          if c = MqNotify \<and> \<not> failed r then (True, False)
          else if c = MqReceive \<and> failed r \<and> errno_of r = EAGAIN then (fst w, fst w)
          else if c \<in> {Sigsuspend, Sigprocmask} \<and> SIGUSR1 \<in> set (signals_of r) then (False, False)
          else w
      | _ \<Rightarrow> w)"

definition watched :: "event list \<Rightarrow> bool \<times> bool" where
  "watched h = foldl watch_after (True, False) h"

definition waited :: "event \<Rightarrow> bool" where
  "waited e = (case e of Sys c args (Some r) \<Rightarrow> c = Sigsuspend | _ \<Rightarrow> False)"

text \<open>
  At every wait a notification is registered and, but for the first wait, the queue has been seen
  empty since: whatever is sent from now on will end the wait.
\<close>

definition wait_ok :: "event list \<Rightarrow> event \<Rightarrow> bool" where
  "wait_ok us e =
     (case e of
        Sys c args r \<Rightarrow> c = Sigsuspend \<longrightarrow> fst (watched us) \<and> (snd (watched us) \<or> \<not> (\<exists>e \<in> set us. waited e))
      | _ \<Rightarrow> True)"

definition not_early :: "event list \<Rightarrow> event \<Rightarrow> bool" where
  "not_early us e =
     (case e of Sys c args (Some r) \<Rightarrow> c = Sigprocmask \<longrightarrow> SIGUSR1 \<notin> set (signals_of r) | _ \<Rightarrow> True)"

definition wait_fine :: "int option \<Rightarrow> event list \<Rightarrow> bool" where
  "wait_fine c h \<longleftrightarrow> always not_early h \<longrightarrow> always wait_ok h"

definition armed :: "event list \<Rightarrow> bool" where
  "armed h \<longleftrightarrow> always not_early h \<longrightarrow> always wait_ok h \<and> fst (watched h)"

definition settled :: "event list \<Rightarrow> bool" where
  "settled h \<longleftrightarrow> always not_early h \<longrightarrow> always wait_ok h \<and> fst (watched h) \<and> (snd (watched h) \<or> \<not> (\<exists>e \<in> set h. waited e))"

lemma notices_snoc: "watched (h @ [e]) = watch_after (watched h) e"
  by (simp add: watched_def)

lemmas wait_defs = wait_fine_def armed_def settled_def always_snoc notices_snoc watch_after_def wait_ok_def not_early_def waited_def

lemma wait_quiet [simp]:
  "wait_fine c (h @ [Print f args]) = wait_fine c h" "wait_fine c (h @ [Complain m]) = wait_fine c h"
  "armed (h @ [Print f args]) = armed h" "settled (h @ [Print f args]) = settled h"
  "k \<notin> {Sigsuspend, Sigprocmask} \<Longrightarrow> wait_fine c (h @ [Sys k args r]) = wait_fine c h"
  "k \<notin> {Sigsuspend, Sigprocmask, MqNotify, MqReceive} \<Longrightarrow> armed (h @ [Sys k args r]) = armed h"
  by (auto simp: wait_defs split: option.splits)

lemma armed_fine: "armed h \<Longrightarrow> wait_fine c h" and settled_fine: "settled h \<Longrightarrow> wait_fine c h"
  by (simp_all add: wait_defs)

lemma fine_any: "wait_fine d h \<Longrightarrow> wait_fine c h"
  by (simp add: wait_fine_def)

lemma settled_waits: "settled h \<Longrightarrow> wait_fine c (h @ [Sys Sigsuspend [] r])"
  by (auto simp: wait_defs split: option.splits)

lemma notified_armed: "wait_fine c h \<Longrightarrow> \<not> failed r \<Longrightarrow> armed (h @ [Sys MqNotify args (Some r)])"
  by (simp add: wait_defs)

lemma armed_receives:
  "armed h \<Longrightarrow> armed (h @ [Sys MqReceive args q])"
  "armed h \<Longrightarrow> failed r \<Longrightarrow> errno_of r = EAGAIN \<Longrightarrow> settled (h @ [Sys MqReceive args (Some r)])"
  by (auto simp: wait_defs split: option.splits)

lemma wp_run_handlers:
  assumes "P h" and "\<And>h f args. P h \<Longrightarrow> P (h @ [Print f args])"
  shows "wp (run_handlers sigs e) (\<lambda>_. P) E h"
  unfolding run_handlers_def say_def
  by (rule wp_for_each [where J = "\<lambda>_ _. P"]) (use assms in \<open>auto intro!: wp_if wp_bind wp_tell wp_return\<close>)

lemma within_mqueues [within_intros]:
  "within (run_handlers sigs e)" "within (show_message past buf r)" "within (notify mq how)" "within (drain past mq)"
proof -
  show "within (run_handlers sigs e)" "within (notify mq how)"
    unfolding run_handlers_def notify_def say_def by (intro within_intros)+
  have s: "within (show_message past buf r)" for buf r
    unfolding show_message_def say_def by (intro within_intros)
  then show "within (show_message past buf r)" .
  show "within (drain past mq)"
    unfolding drain_def by (rule within_bind, rule within_uninit, rule within_loop, intro within_intros s)
qed

lemma wp_drain:
  assumes "armed h"
  shows "wp (drain past mq) (\<lambda>_. settled) wait_fine h"
proof -
  have "wp (loop (\<lambda>buf. bind (sys MqReceive [I mq, I (int MQ_SIZE)]) (\<lambda>r.
       if failed r then (if errno_of r = EAGAIN then return (Inr ()) else err ''mq_receive()'')
       else bind (show_message past buf r) (\<lambda>buf. return (Inl buf)))) buf) (\<lambda>_. settled) wait_fine h'"
    if "armed h'" for buf h'
  proof (rule wp_loop [where J = "\<lambda>_. armed"], goal_cases body start step)
    case (body b)
    show ?case by (intro within_intros)
  next
    case (step b h)
    note rec = armed_receives(1) [OF step]
    show ?case
      unfolding show_message_def say_def
      using armed_fine [OF rec] rec armed_receives(2) [OF step]
      by (auto intro!: wp_bind wp_sys wp_if wp_err wp_tell wp_return split: prod.split simp del: append_assoc)
  qed (rule that)
  then show ?thesis
    unfolding drain_def using assms by (auto intro!: wp_bind wp_uninit armed_fine)
qed

lemma wp_notify: "wait_fine None h \<Longrightarrow> wp (notify mq how) (\<lambda>_. armed) wait_fine h"
  unfolding notify_def
  by (auto intro!: wp_bind wp_sys wp_check wp_return notified_armed dest: fine_any simp del: append_assoc)

lemma wp_notify_loop:
  assumes "settled h'"
  shows "wp (loop (\<lambda>should_exit.
       bind (sys Sigsuspend []) (\<lambda>r.
       bind (run_handlers (signals_of r) should_exit) (\<lambda>should_exit.
       if should_exit then return (Inr ())
       else bind (notify mq ''SIGUSR1'') (\<lambda>_. bind (drain past mq) (\<lambda>_. return (Inl should_exit)))))) e) (\<lambda>_. wait_fine None) wait_fine h'"
proof (rule wp_loop [where J = "\<lambda>_. settled"], goal_cases body start step)
  case (body e)
  show ?case by (intro within_intros)
next
  case (step e h)
  show ?case
  proof (rule wp_bind, rule wp_sys, rule settled_waits [OF step], rule wp_then [OF wp_run_handlers [where P = "wait_fine None"]],
      rule settled_waits [OF step], simp, rule wp_if, rule wp_return, simp)
    show "wp (bind (notify mq ''SIGUSR1'') (\<lambda>_. bind (drain past mq) (\<lambda>_. return (Inl e'))))
       (\<lambda>x h'. case x of Inl s' \<Rightarrow> settled h' | Inr a \<Rightarrow> wait_fine None h') wait_fine h1" if "wait_fine None h1" for e' h1
      by (rule wp_then [OF wp_notify [OF that]], rule wp_then [OF wp_drain], assumption, rule wp_return, simp)
  qed
qed (rule assms)


definition two_batches :: "reply list" where
  "two_batches =
     [Done 0, Caught 10, Done 0, Bytes [], Datagram 0 [116, 101, 120, 116, 0], Datagram 0 [116, 101, 120, 116, 0], Fail EAGAIN,
      Caught 10, Done 0, Bytes [], Datagram 0 [116, 101, 120, 116, 0], Fail EAGAIN, Ready [10, 2], Done 7, Done (-1)]"


text \<open>
  When the first notification is handled before the signals are blocked, the parent waits without a
  registration: nothing but SIGINT ends this wait, whatever is sent.
\<close>

lemma early_notification_lost:
  "\<exists>h. signal_parent past mq [Ready [SIGUSR1]] = (Waits, h, []) \<and> \<not> fst (watched h) \<and> \<not> always wait_ok h"
proof -
  let ?h = "[Sys Sigprocmask [S ''SIG_BLOCK'', I SIGUSR1, I SIGINT] (Some (Ready [SIGUSR1])), Print ''Received signal %d'' [I SIGUSR1],
    Sys Sigsuspend [] None]"
  have "signal_parent past mq [Ready [SIGUSR1]] = (Waits, ?h, [])"
    by (simp add: signal_parent_def block_signals_def run_handlers_def loop_def bind_def return_def check_def say_def tell_def)
  moreover have "\<not> fst (watched ?h)" "\<not> always wait_ok ?h" by code_simp+
  ultimately show ?thesis by blast
qed

end
