(* ===== verification/Threads.thy ===== *)
theory Threads
  imports LockPrograms "HOL-Library.Multiset"
begin

text \<open>
  What the programs with any number of threads share: sums over the threads of a quantity that
  depends on each one's position, and mutexes whose owner is exactly the thread inside the
  section. Thread \<open>t\<close> owns a mutex as \<open>Suc t\<close>, the main thread as 0.
\<close>

section \<open>Sums over threads and over cells\<close>

lemma sum_fun_upd:
  fixes f :: "'b \<Rightarrow> int" and k :: nat
  assumes "t < k"
  shows "(\<Sum>u<k. f (if u = t then p else g u)) = (\<Sum>u<k. f (g u)) - f (g t) + f p"
proof -
  have "(\<Sum>u<k. f (if u = t then p else g u)) = f p + (\<Sum>u\<in>{..<k} - {t}. f (g u))"
    using assms by (subst sum.remove [of _ t]) (auto intro!: sum.cong)
  moreover have "(\<Sum>u<k. f (g u)) = f (g t) + (\<Sum>u\<in>{..<k} - {t}. f (g u))"
    using assms by (simp add: sum.remove [of "{..<k}" t])
  ultimately show ?thesis by simp
qed

text \<open>The same without subtraction, for one thread whose share changes.\<close>

lemma sum_one_changes:
  fixes f f' :: "nat \<Rightarrow> 'b :: comm_monoid_add"
  assumes "t < k" and "\<And>u. u \<noteq> t \<Longrightarrow> f' u = f u"
  shows "(\<Sum>u<k. f' u) + f t = (\<Sum>u<k. f u) + f' t"
proof -
  have "(\<Sum>u<k. f' u) = f' t + (\<Sum>u\<in>{..<k} - {t}. f u)"
    using assms by (subst sum.remove [of _ t]) (auto intro!: sum.cong)
  moreover have "(\<Sum>u<k. f u) = f t + (\<Sum>u\<in>{..<k} - {t}. f u)"
    using assms by (subst sum.remove [of _ t]) auto
  ultimately show ?thesis by (simp add: ac_simps)
qed

lemma sum_list_upd_int:
  fixes xs :: "int list"
  assumes "i < length xs"
  shows "sum_list (xs[i := v]) = sum_list xs - xs ! i + v"
  using assms by (induction xs arbitrary: i) (auto split: nat.split)

lemma sum_zero_each:
  fixes f :: "nat \<Rightarrow> int"
  assumes "\<And>u. 0 \<le> f u" and "(\<Sum>u<k. f u) = 0" and "t < k"
  shows "f t = 0"
  using assms sum_nonneg_eq_0_iff [of "{..<k}" f] by auto

section \<open>A mutex and its section\<close>

definition guards :: "nat option \<Rightarrow> (nat \<Rightarrow> bool) \<Rightarrow> bool" where
  "guards m inside \<longleftrightarrow> (\<forall>t. inside t \<longleftrightarrow> m = Some t)"

lemma guards_free: "guards None inside \<longleftrightarrow> (\<forall>t. \<not> inside t)"
  by (simp add: guards_def)

lemma guards_owner: "guards m inside \<Longrightarrow> inside t \<Longrightarrow> m = Some t"
  by (simp add: guards_def)

lemma guards_exclusive: "guards m inside \<Longrightarrow> inside t \<Longrightarrow> inside u \<Longrightarrow> t = u"
  by (auto simp: guards_def)

text \<open>Taking and giving back change who is inside; every other step leaves it as it is.\<close>

lemma guards_lock:
  assumes "guards m inside" and "pthread_mutex_lock t m = Some m'"
    and "\<And>u. inside' u \<longleftrightarrow> u = t \<or> inside u"
  shows "guards m' inside'"
  using assms by (auto simp: guards_def pthread_mutex_lock_def split: option.splits)

lemma guards_unlock:
  assumes "guards m inside" and "inside t" and "\<And>u. inside' u \<longleftrightarrow> u \<noteq> t \<and> inside u"
  shows "guards (pthread_mutex_unlock t m) inside'"
  using assms by (auto simp: guards_def pthread_mutex_unlock_def)

lemma guards_same: "guards m inside \<Longrightarrow> (\<And>u. inside' u \<longleftrightarrow> inside u) \<Longrightarrow> guards m inside'"
  by (simp add: guards_def)

text \<open>One thread's step takes the mutex and goes in, gives it back and goes out, or does neither.\<close>

lemma guards_step:
  assumes g: "guards m inside" and own: "\<And>u. inside' u \<longleftrightarrow> (if u = t then b else inside u)"
    and st: "\<not> inside t \<and> b \<and> pthread_mutex_lock t m = Some m' \<or> inside t \<and> \<not> b \<and> m' = pthread_mutex_unlock t m
      \<or> b = inside t \<and> m' = m"
  shows "guards m' inside'"
  using st
proof (elim disjE conjE)
  assume "b" "pthread_mutex_lock t m = Some m'"
  then show ?thesis using guards_lock [OF g, of t m' inside'] by (auto simp: own)
next
  assume "inside t" "\<not> b" "m' = pthread_mutex_unlock t m"
  then show ?thesis using guards_unlock [OF g, of t inside'] by (simp add: own)
next
  assume "b = inside t" "m' = m"
  then show ?thesis using guards_same [OF g, of inside'] by (simp add: own)
qed

text \<open>The same for an array of mutexes, one of which is taken or given back.\<close>

lemma guards_lock_cell:
  assumes "guards (ms ! i) (inside i)" and "i < length ms" and "pthread_mutex_lock t (ms ! c) = Some m"
    and "\<And>u. inside' u \<longleftrightarrow> u = t \<and> i = c \<or> inside i u"
  shows "guards (ms[c := m] ! i) inside'"
proof (cases "i = c")
  case True
  with assms show ?thesis by (auto elim: guards_lock)
next
  case False
  with assms show ?thesis by (auto elim!: guards_same)
qed

lemma guards_unlock_cell:
  assumes "guards (ms ! i) (inside i)" and "i < length ms" and "inside c t"
    and "\<And>u. inside' u \<longleftrightarrow> \<not> (u = t \<and> i = c) \<and> inside i u"
  shows "guards (ms[c := pthread_mutex_unlock t (ms ! c)] ! i) inside'"
proof (cases "i = c")
  case True
  have "guards (pthread_mutex_unlock t (ms ! i)) inside'"
    by (rule guards_unlock [OF assms(1)]) (use assms(3,4) True in auto)
  with True assms(2) show ?thesis by simp
next
  case False
  with assms show ?thesis by (auto elim!: guards_same)
qed

text \<open>Nobody else takes away a mutex that is owned.\<close>

lemma lock_others: "pthread_mutex_lock t (ms ! i) = Some m \<Longrightarrow> ms ! j = Some v \<Longrightarrow> ms[i := m] ! j = Some v"
  by (cases "i = j") (auto simp: pthread_mutex_lock_def)

lemma unlock_others: "t \<noteq> v \<Longrightarrow> ms ! j = Some v \<Longrightarrow> ms[i := pthread_mutex_unlock t (ms ! i)] ! j = Some v"
  by (cases "i = j"; cases "i < length ms") (auto simp: pthread_mutex_unlock_def list_update_beyond)

lemma lock_blocked: "pthread_mutex_lock t m = None \<longleftrightarrow> m \<noteq> None"
  by (auto simp: pthread_mutex_lock_def split: option.splits)

lemma lock_free: "pthread_mutex_lock t None = Some (Some t)"
  by (simp add: pthread_mutex_lock_def)

end
