(* ===== verification/Bins.thy ===== *)
theory Bins
  imports Threads Sockets
begin

text \<open>
  \<open>Lab - 3/prog18.c\<close>: Galton's board. Any number of detached threads take balls from
  \<open>ballsWaiting\<close>, let each fall into one of eleven bins and count it in \<open>ballsThrown\<close>; every
  counter has a mutex of its own. The main thread polls \<open>ballsThrown\<close> and, when all balls have
  been thrown, reads the bins without their mutexes. Every load and every store of a shared
  variable is a step of its own. The random draws of a ball are an argument of the actor, and
  so is the outcome of the calls that can fail.
\<close>

section \<open>The program\<close>

definition DEFAULT_N :: int where "DEFAULT_N = 1000"

definition DEFAULT_K :: int where "DEFAULT_K = 10"

definition BIN_COUNT :: nat where "BIN_COUNT = 11"

text \<open>\<open>Inl\<close> is the message of an invalid value; the program then fails.\<close>

definition ReadArguments :: "string list \<Rightarrow> string + int \<times> int" where
  "ReadArguments argv =
     (let ballsCount = (if 2 \<le> length argv then atoi (argv ! 1) else DEFAULT_N) in
      if 2 \<le> length argv \<and> ballsCount \<le> 0 then Inl ''Invalid value for balls count''
      else let throwersCount = (if 3 \<le> length argv then atoi (argv ! 2) else DEFAULT_K) in
      if 3 \<le> length argv \<and> throwersCount \<le> 0 then Inl ''Invalid value for throwers count''
      else Inr (ballsCount, throwersCount))"

text \<open>A draw is whether \<open>NEXT_DOUBLE\<close> is above 0.5; a ball takes ten of them.\<close>

fun throwBall :: "bool list \<Rightarrow> nat" where
  "throwBall [] = 0"
| "throwBall (d # ds) = (if d then Suc (throwBall ds) else throwBall ds)"

datatype throw_pc =
  ThNew | ThLockW | ThTest | ThLoadW | ThStoreW int | ThUnlockW | ThUnlockBreak
| ThThrow | ThLockBin nat | ThLoadBin nat | ThStoreBin nat int | ThUnlockBin nat
| ThLockT | ThLoadT | ThStoreT int | ThUnlockT | ThReturn

datatype bin_main =
  BmInit nat | BmMalloc | BmAttr | BmDetach | BmCreate nat
| BmTest | BmSleep | BmLock | BmRead | BmUnlock | BmSum nat | BmPrint nat | BmExit int

datatype bin_out = BinsHead | BinIs int | Totals int int | BinError string

datatype bin_actor = BinMain bool | Thrower nat "bool list"

record binsys =
  ballsWaiting :: int
  ballsThrown :: int
  bins :: "int list"
  mxBallsWaiting :: "nat option"
  mxBallsThrown :: "nat option"
  mxBins :: "nat option list"
  thr :: "nat \<Rightarrow> throw_pc"
  bin_at :: bin_main
  bt :: int
  realBallsCount :: int
  meanValue :: int
  bin_outs :: "bin_out list"

definition thr_at :: "nat \<Rightarrow> throw_pc \<Rightarrow> binsys \<Rightarrow> binsys" where
  "thr_at t p s = s\<lparr>thr := (thr s)(t := p)\<rparr>"

definition throwing_func :: "nat \<Rightarrow> bool list \<Rightarrow> binsys \<Rightarrow> binsys option" where
  "throwing_func t draws s =
     (case thr s t of
        ThNew \<Rightarrow> None
      | ThLockW \<Rightarrow> map_option (\<lambda>m. thr_at t ThTest (s\<lparr>mxBallsWaiting := m\<rparr>))
          (pthread_mutex_lock (Suc t) (mxBallsWaiting s))
      | ThTest \<Rightarrow> Some (thr_at t (if 0 < ballsWaiting s then ThLoadW else ThUnlockBreak) s)
      | ThLoadW \<Rightarrow> Some (thr_at t (ThStoreW (ballsWaiting s)) s)
      | ThStoreW v \<Rightarrow> Some (thr_at t ThUnlockW (s\<lparr>ballsWaiting := v - 1\<rparr>))
      | ThUnlockW \<Rightarrow>
          Some (thr_at t ThThrow (s\<lparr>mxBallsWaiting := pthread_mutex_unlock (Suc t) (mxBallsWaiting s)\<rparr>))
      | ThUnlockBreak \<Rightarrow>
          Some (thr_at t ThReturn (s\<lparr>mxBallsWaiting := pthread_mutex_unlock (Suc t) (mxBallsWaiting s)\<rparr>))
      | ThThrow \<Rightarrow>
          (if length draws = BIN_COUNT - 1 then Some (thr_at t (ThLockBin (throwBall draws)) s) else None)
      | ThLockBin b \<Rightarrow> map_option (\<lambda>m. thr_at t (ThLoadBin b) (s\<lparr>mxBins := (mxBins s)[b := m]\<rparr>))
          (pthread_mutex_lock (Suc t) (mxBins s ! b))
      | ThLoadBin b \<Rightarrow> Some (thr_at t (ThStoreBin b (bins s ! b)) s)
      | ThStoreBin b v \<Rightarrow> Some (thr_at t (ThUnlockBin b) (s\<lparr>bins := (bins s)[b := v + 1]\<rparr>))
      | ThUnlockBin b \<Rightarrow>
          Some (thr_at t ThLockT (s\<lparr>mxBins := (mxBins s)[b := pthread_mutex_unlock (Suc t) (mxBins s ! b)]\<rparr>))
      | ThLockT \<Rightarrow> map_option (\<lambda>m. thr_at t ThLoadT (s\<lparr>mxBallsThrown := m\<rparr>))
          (pthread_mutex_lock (Suc t) (mxBallsThrown s))
      | ThLoadT \<Rightarrow> Some (thr_at t (ThStoreT (ballsThrown s)) s)
      | ThStoreT v \<Rightarrow> Some (thr_at t ThUnlockT (s\<lparr>ballsThrown := v + 1\<rparr>))
      | ThUnlockT \<Rightarrow>
          Some (thr_at t ThLockW (s\<lparr>mxBallsThrown := pthread_mutex_unlock (Suc t) (mxBallsThrown s)\<rparr>))
      | ThReturn \<Rightarrow> None)"

definition bin_say :: "bin_out \<Rightarrow> binsys \<Rightarrow> binsys" where
  "bin_say x s = s\<lparr>bin_outs := bin_outs s @ [x]\<rparr>"

definition bin_err :: "string \<Rightarrow> binsys \<Rightarrow> binsys option" where
  "bin_err msg s = Some (bin_say (BinError msg) (s\<lparr>bin_at := BmExit 1\<rparr>))"

text \<open>
  \<open>make_throwers\<close>: the attributes, then one detached thread after the other. \<open>meanValue\<close> is the
  sum that the program divides by \<open>realBallsCount\<close> when it prints it.
\<close>

definition make_throwers :: "nat \<Rightarrow> bool \<Rightarrow> binsys \<Rightarrow> binsys option" where
  "make_throwers k ok s =
     (case bin_at s of
        BmAttr \<Rightarrow> if ok then Some (s\<lparr>bin_at := BmDetach\<rparr>) else bin_err ''pthread_attr_t'' s
      | BmDetach \<Rightarrow> if ok then Some (s\<lparr>bin_at := BmCreate 0\<rparr>) else bin_err ''setdetachsatate'' s
      | BmCreate i \<Rightarrow>
          if i < k then
            (if ok then Some (thr_at i ThLockW (s\<lparr>bin_at := BmCreate (Suc i)\<rparr>)) else bin_err ''thread'' s)
          else Some (s\<lparr>bin_at := BmTest\<rparr>)
      | _ \<Rightarrow> None)"

definition bin_main :: "int \<Rightarrow> nat \<Rightarrow> bool \<Rightarrow> binsys \<Rightarrow> binsys option" where
  "bin_main n k ok s =
     (case bin_at s of
        BmInit i \<Rightarrow>
          if i < BIN_COUNT then
            (if ok then Some (s\<lparr>bins := bins s @ [0], mxBins := mxBins s @ [None], bin_at := BmInit (Suc i)\<rparr>)
             else bin_err ''mutex'' s)
          else Some (s\<lparr>bin_at := BmMalloc\<rparr>)
      | BmMalloc \<Rightarrow> if ok then Some (s\<lparr>bin_at := BmAttr\<rparr>) else bin_err ''malloc'' s
      | BmTest \<Rightarrow> Some (s\<lparr>bin_at := if bt s < n then BmSleep else BmSum 0\<rparr>)
      | BmSleep \<Rightarrow> Some (s\<lparr>bin_at := BmLock\<rparr>)
      | BmLock \<Rightarrow> map_option (\<lambda>m. s\<lparr>mxBallsThrown := m, bin_at := BmRead\<rparr>)
          (pthread_mutex_lock 0 (mxBallsThrown s))
      | BmRead \<Rightarrow> Some (s\<lparr>bt := ballsThrown s, bin_at := BmUnlock\<rparr>)
      | BmUnlock \<Rightarrow>
          Some (s\<lparr>mxBallsThrown := pthread_mutex_unlock 0 (mxBallsThrown s), bin_at := BmTest\<rparr>)
      | BmSum i \<Rightarrow>
          if i < BIN_COUNT then
            Some (s\<lparr>realBallsCount := realBallsCount s + bins s ! i,
                    meanValue := meanValue s + bins s ! i * int i, bin_at := BmSum (Suc i)\<rparr>)
          else Some (bin_say BinsHead (s\<lparr>bin_at := BmPrint 0\<rparr>))
      | BmPrint i \<Rightarrow>
          if i < BIN_COUNT then Some (bin_say (BinIs (bins s ! i)) (s\<lparr>bin_at := BmPrint (Suc i)\<rparr>))
          else Some (bin_say (Totals (realBallsCount s) (meanValue s)) (s\<lparr>bin_at := BmExit 0\<rparr>))
      | BmExit c \<Rightarrow> None
      | _ \<Rightarrow> make_throwers k ok s)"

text \<open>\<open>exit\<close> ends every thread.\<close>

definition bin_program :: "int \<Rightarrow> nat \<Rightarrow> bin_actor \<Rightarrow> binsys \<Rightarrow> binsys option" where
  "bin_program n k a s =
     (case a of
        BinMain ok \<Rightarrow> bin_main n k ok s
      | Thrower t draws \<Rightarrow> (case bin_at s of BmExit c \<Rightarrow> None | _ \<Rightarrow> throwing_func t draws s))"

definition bin_start :: "int \<Rightarrow> binsys" where
  "bin_start n = \<lparr>ballsWaiting = n, ballsThrown = 0, bins = [], mxBallsWaiting = None, mxBallsThrown = None,
     mxBins = [], thr = (\<lambda>_. ThNew), bin_at = BmInit 0, bt = 0, realBallsCount = 0, meanValue = 0, bin_outs = []\<rparr>"

section \<open>The invariant\<close>

fun in_waiting :: "throw_pc \<Rightarrow> bool" where
  "in_waiting ThTest = True" | "in_waiting ThLoadW = True" | "in_waiting (ThStoreW v) = True"
| "in_waiting ThUnlockW = True" | "in_waiting ThUnlockBreak = True" | "in_waiting _ = False"

fun in_bin :: "nat \<Rightarrow> throw_pc \<Rightarrow> bool" where
  "in_bin b (ThLoadBin c) = (c = b)" | "in_bin b (ThStoreBin c v) = (c = b)" | "in_bin b (ThUnlockBin c) = (c = b)"
| "in_bin b _ = False"

fun in_thrown :: "throw_pc \<Rightarrow> bool" where
  "in_thrown ThLoadT = True" | "in_thrown (ThStoreT v) = True" | "in_thrown ThUnlockT = True" | "in_thrown _ = False"

text \<open>A ball that has left \<open>ballsWaiting\<close> and is in no bin yet; one that is in a bin but not counted.\<close>

fun falling :: "throw_pc \<Rightarrow> int" where
  "falling ThUnlockW = 1" | "falling ThThrow = 1" | "falling (ThLockBin b) = 1" | "falling (ThLoadBin b) = 1"
| "falling (ThStoreBin b v) = 1" | "falling _ = 0"

fun uncounted :: "throw_pc \<Rightarrow> int" where
  "uncounted (ThUnlockBin b) = 1" | "uncounted ThLockT = 1" | "uncounted ThLoadT = 1" | "uncounted (ThStoreT v) = 1"
| "uncounted _ = 0"

definition owners :: "(throw_pc \<Rightarrow> bool) \<Rightarrow> bool \<Rightarrow> binsys \<Rightarrow> nat \<Rightarrow> bool" where
  "owners P m s u = (case u of 0 \<Rightarrow> m | Suc t \<Rightarrow> P (thr s t))"

definition main_counts :: "binsys \<Rightarrow> bool" where
  "main_counts s \<longleftrightarrow> bin_at s = BmRead \<or> bin_at s = BmUnlock"

definition bin_locks :: "binsys \<Rightarrow> bool" where
  "bin_locks s \<longleftrightarrow> guards (mxBallsWaiting s) (owners in_waiting False s)
     \<and> guards (mxBallsThrown s) (owners in_thrown (main_counts s) s)
     \<and> (\<forall>b < length (mxBins s). guards (mxBins s ! b) (owners (in_bin b) False s))"

definition bin_balls :: "int \<Rightarrow> nat \<Rightarrow> binsys \<Rightarrow> bool" where
  "bin_balls n k s \<longleftrightarrow> ballsWaiting s + (\<Sum>t<k. falling (thr s t)) + sum_list (bins s) = n
     \<and> sum_list (bins s) = ballsThrown s + (\<Sum>t<k. uncounted (thr s t))
     \<and> 0 \<le> ballsWaiting s \<and> 0 \<le> ballsThrown s \<and> (\<forall>v \<in> set (bins s). 0 \<le> v)"

text \<open>What a thread has read is still what the variable holds.\<close>

definition thr_ok :: "binsys \<Rightarrow> throw_pc \<Rightarrow> bool" where
  "thr_ok s p \<longleftrightarrow> (case p of
     ThLoadW \<Rightarrow> 0 < ballsWaiting s
   | ThStoreW v \<Rightarrow> v = ballsWaiting s \<and> 0 < v
   | ThLockBin b \<Rightarrow> b < BIN_COUNT
   | ThLoadBin b \<Rightarrow> b < BIN_COUNT
   | ThStoreBin b v \<Rightarrow> b < BIN_COUNT \<and> v = bins s ! b
   | ThUnlockBin b \<Rightarrow> b < BIN_COUNT
   | ThStoreT v \<Rightarrow> v = ballsThrown s
   | ThUnlockBreak \<Rightarrow> ballsWaiting s \<le> 0
   | ThReturn \<Rightarrow> ballsWaiting s \<le> 0
   | _ \<Rightarrow> True)"

definition bin_threads :: "nat \<Rightarrow> binsys \<Rightarrow> bool" where
  "bin_threads k s \<longleftrightarrow> (\<forall>t. thr_ok s (thr s t)) \<and> (\<forall>t \<ge> k. thr s t = ThNew)"

text \<open>How far the main thread has created threads.\<close>

definition created :: "nat \<Rightarrow> binsys \<Rightarrow> nat \<Rightarrow> bool" where
  "created k s j \<longleftrightarrow> j \<le> k \<and> (\<forall>t. thr s t = ThNew \<longleftrightarrow> j \<le> t)"

definition first_moment :: "int list \<Rightarrow> int" where
  "first_moment bs = (\<Sum>i < length bs. bs ! i * int i)"

definition bin_main_ok :: "int \<Rightarrow> nat \<Rightarrow> binsys \<Rightarrow> bool" where
  "bin_main_ok n k s \<longleftrightarrow> length (mxBins s) = length (bins s) \<and> bt s \<le> ballsThrown s
     \<and> (case bin_at s of
          BmInit i \<Rightarrow> i \<le> BIN_COUNT \<and> bins s = replicate i 0 \<and> created k s 0
        | BmMalloc \<Rightarrow> length (bins s) = BIN_COUNT \<and> created k s 0
        | BmAttr \<Rightarrow> length (bins s) = BIN_COUNT \<and> created k s 0
        | BmDetach \<Rightarrow> length (bins s) = BIN_COUNT \<and> created k s 0
        | BmCreate i \<Rightarrow> length (bins s) = BIN_COUNT \<and> created k s i
        | BmSum i \<Rightarrow> length (bins s) = BIN_COUNT \<and> created k s k \<and> n \<le> bt s \<and> i \<le> BIN_COUNT
            \<and> realBallsCount s = sum_list (take i (bins s)) \<and> meanValue s = first_moment (take i (bins s))
            \<and> bin_outs s = []
        | BmPrint i \<Rightarrow> length (bins s) = BIN_COUNT \<and> created k s k \<and> n \<le> bt s \<and> i \<le> BIN_COUNT
            \<and> realBallsCount s = sum_list (bins s) \<and> meanValue s = first_moment (bins s)
            \<and> bin_outs s = BinsHead # map BinIs (take i (bins s))
        | BmExit c \<Rightarrow> c = 0 \<longrightarrow> length (bins s) = BIN_COUNT \<and> created k s k \<and> n \<le> bt s
            \<and> bin_outs s = BinsHead # map BinIs (bins s) @ [Totals (sum_list (bins s)) (first_moment (bins s))]
        | _ \<Rightarrow> length (bins s) = BIN_COUNT \<and> created k s k)
     \<and> (case bin_at s of BmSum i \<Rightarrow> True | BmPrint i \<Rightarrow> True | BmExit c \<Rightarrow> True
        | _ \<Rightarrow> bin_outs s = [] \<and> realBallsCount s = 0 \<and> meanValue s = 0)"

definition bin_inv :: "int \<Rightarrow> nat \<Rightarrow> binsys \<Rightarrow> bool" where
  "bin_inv n k s \<longleftrightarrow> bin_locks s \<and> bin_balls n k s \<and> bin_threads k s \<and> bin_main_ok n k s"

lemma falling_nonneg: "0 \<le> falling p" and uncounted_nonneg: "0 \<le> uncounted p"
  by (cases p; simp)+

lemma bin_start_inv: "0 \<le> n \<Longrightarrow> bin_inv n k (bin_start n)"
  by (simp add: bin_inv_def bin_start_def bin_locks_def bin_balls_def bin_threads_def bin_main_ok_def guards_free
      owners_def main_counts_def created_def thr_ok_def split: nat.split)

text \<open>Once the main thread has seen all balls thrown, none is on its way any more.\<close>

lemma all_thrown:
  assumes "bin_balls n k s" and "n \<le> ballsThrown s"
  shows "ballsWaiting s = 0" and "sum_list (bins s) = n" and "ballsThrown s = n"
    and "t < k \<Longrightarrow> falling (thr s t) = 0" and "t < k \<Longrightarrow> uncounted (thr s t) = 0"
proof -
  have f: "0 \<le> (\<Sum>t<k. falling (thr s t))" and u: "0 \<le> (\<Sum>t<k. uncounted (thr s t))"
    by (simp_all add: sum_nonneg falling_nonneg uncounted_nonneg)
  with assms show 1: "ballsWaiting s = 0" and "sum_list (bins s) = n" and "ballsThrown s = n"
    unfolding bin_balls_def by linarith+
  from assms f u have "(\<Sum>t<k. falling (thr s t)) = 0" and "(\<Sum>t<k. uncounted (thr s t)) = 0"
    unfolding bin_balls_def by linarith+
  then show "t < k \<Longrightarrow> falling (thr s t) = 0" and "t < k \<Longrightarrow> uncounted (thr s t) = 0"
    by (auto intro: sum_zero_each [OF falling_nonneg] sum_zero_each [OF uncounted_nonneg])
qed

section \<open>Steps keep the invariant\<close>

lemma owners_thr_at:
  "owners P m (thr_at t p s) u \<longleftrightarrow> (if u = Suc t then P p else owners P m s u)"
  by (simp add: owners_def thr_at_def split: nat.split)

lemma owners_frame [simp]:
  "owners P m (s\<lparr>ballsWaiting := w\<rparr>) = owners P m s" "owners P m (s\<lparr>ballsThrown := w\<rparr>) = owners P m s"
  "owners P m (s\<lparr>bins := bs\<rparr>) = owners P m s" "owners P m (s\<lparr>mxBallsWaiting := mx\<rparr>) = owners P m s"
  "owners P m (s\<lparr>mxBallsThrown := mx\<rparr>) = owners P m s" "owners P m (s\<lparr>mxBins := ms\<rparr>) = owners P m s"
  "owners P m (s\<lparr>bin_at := a\<rparr>) = owners P m s"
  by (auto simp: owners_def fun_eq_iff split: nat.split)

lemma thr_at_frame [simp]:
  "ballsWaiting (thr_at t p s) = ballsWaiting s" "ballsThrown (thr_at t p s) = ballsThrown s"
  "bins (thr_at t p s) = bins s" "mxBallsWaiting (thr_at t p s) = mxBallsWaiting s"
  "mxBallsThrown (thr_at t p s) = mxBallsThrown s" "mxBins (thr_at t p s) = mxBins s"
  "bin_at (thr_at t p s) = bin_at s" "bt (thr_at t p s) = bt s" "bin_outs (thr_at t p s) = bin_outs s"
  "realBallsCount (thr_at t p s) = realBallsCount s" "meanValue (thr_at t p s) = meanValue s"
  "thr (thr_at t p s) = (thr s)(t := p)" "main_counts (thr_at t p s) = main_counts s"
  by (simp_all add: thr_at_def main_counts_def)

lemma main_counts_frame [simp]:
  "main_counts (s\<lparr>ballsWaiting := w\<rparr>) = main_counts s" "main_counts (s\<lparr>ballsThrown := w\<rparr>) = main_counts s"
  "main_counts (s\<lparr>bins := bs\<rparr>) = main_counts s" "main_counts (s\<lparr>mxBallsWaiting := mx\<rparr>) = main_counts s"
  "main_counts (s\<lparr>mxBallsThrown := mx\<rparr>) = main_counts s" "main_counts (s\<lparr>mxBins := ms\<rparr>) = main_counts s"
  by (simp_all add: main_counts_def)

lemma owners_Suc [simp]: "owners P m s (Suc t) = P (thr s t)" "owners P m s 0 = m"
  by (simp_all add: owners_def)

lemma throw_locks_waiting:
  assumes "guards (mxBallsWaiting s) (owners in_waiting False s)" and "throwing_func t draws s = Some s'"
  shows "guards (mxBallsWaiting s') (owners in_waiting False s')"
proof (cases "thr s t")
  case ThLockW
  with assms show ?thesis
    by (auto simp: throwing_func_def owners_thr_at split: if_splits elim!: guards_lock)
next
  case ThUnlockW
  with assms show ?thesis
    by (auto simp: throwing_func_def owners_thr_at split: if_splits elim!: guards_unlock)
next
  case ThUnlockBreak
  with assms show ?thesis
    by (auto simp: throwing_func_def owners_thr_at split: if_splits elim!: guards_unlock)
qed (use assms in \<open>auto simp: throwing_func_def owners_thr_at elim!: guards_same split: if_splits\<close>)

lemma throw_locks_thrown:
  assumes "guards (mxBallsThrown s) (owners in_thrown (main_counts s) s)" and "throwing_func t draws s = Some s'"
  shows "guards (mxBallsThrown s') (owners in_thrown (main_counts s') s')"
proof (cases "thr s t")
  case ThLockT
  with assms show ?thesis
    by (auto simp: throwing_func_def owners_thr_at split: if_splits elim!: guards_lock)
next
  case ThUnlockT
  with assms show ?thesis
    by (auto simp: throwing_func_def owners_thr_at split: if_splits elim!: guards_unlock)
qed (use assms in \<open>auto simp: throwing_func_def owners_thr_at elim!: guards_same split: if_splits\<close>)

lemma throw_locks_bin:
  assumes "guards (mxBins s ! b) (owners (in_bin b) False s)" and "throwing_func t draws s = Some s'"
    and "b < length (mxBins s)"
  shows "guards (mxBins s' ! b) (owners (in_bin b) False s')"
proof (cases "thr s t = ThLockBin b \<or> thr s t = ThUnlockBin b")
  case True
  then show ?thesis
  proof
    assume "thr s t = ThLockBin b"
    with assms show ?thesis
      by (auto simp: throwing_func_def owners_thr_at elim!: guards_lock split: if_splits)
  next
    assume "thr s t = ThUnlockBin b"
    with assms show ?thesis
      by (auto simp: throwing_func_def owners_thr_at elim!: guards_unlock split: if_splits)
  qed
next
  case False
  with assms show ?thesis
    by (cases "thr s t") (auto simp: throwing_func_def owners_thr_at elim!: guards_same split: if_splits)
qed

lemma throw_locks:
  assumes "bin_locks s" and st: "throwing_func t draws s = Some s'" and "length (mxBins s') = length (mxBins s)"
  shows "bin_locks s'"
  using assms throw_locks_waiting [OF _ st] throw_locks_thrown [OF _ st] throw_locks_bin [OF _ st]
  by (simp add: bin_locks_def)

lemma throw_frame:
  assumes "throwing_func t draws s = Some s'"
  shows "length (mxBins s') = length (mxBins s)" "length (bins s') = length (bins s)" "bin_at s' = bin_at s"
    "bt s' = bt s" "bin_outs s' = bin_outs s" "realBallsCount s' = realBallsCount s" "meanValue s' = meanValue s"
    "u \<noteq> t \<Longrightarrow> thr s' u = thr s u" "thr s t \<noteq> ThNew" "thr s' t \<noteq> ThNew"
    "falling (thr s t) = 0 \<Longrightarrow> bins s' = bins s"
  using assms by (cases "thr s t"; auto simp: throwing_func_def split: if_splits)+

lemmas ball_sums = sum_fun_upd [where f = falling] sum_fun_upd [where f = uncounted]

lemma throw_balls:
  assumes "bin_balls n k s" and "thr_ok s (thr s t)" and "t < k" and "length (bins s) = BIN_COUNT"
    and "throwing_func t draws s = Some s'"
  shows "bin_balls n k s'"
proof (cases "thr s t")
  case (ThStoreBin b v)
  then have "0 \<le> bins s ! b" using assms by (auto simp: bin_balls_def thr_ok_def)
  with ThStoreBin assms show ?thesis
    by (auto simp: throwing_func_def bin_balls_def thr_ok_def ball_sums sum_list_upd_int
        dest!: set_update_subset_insert [THEN subsetD])
qed (use assms in \<open>auto simp: throwing_func_def bin_balls_def thr_ok_def ball_sums split: if_splits\<close>)

text \<open>The other threads' values survive, because who changes a variable is alone in its section.\<close>

lemma throw_thr_ok:
  assumes locks: "bin_locks s" and len: "length (mxBins s) = BIN_COUNT" "length (bins s) = BIN_COUNT"
    and ok: "thr_ok s (thr s u)" "thr_ok s (thr s t)" and ne: "u \<noteq> t"
    and st: "throwing_func t draws s = Some s'"
  shows "thr_ok s' (thr s u)"
proof -
  have w: "in_waiting (thr s t) \<Longrightarrow> \<not> in_waiting (thr s u)" and c: "in_thrown (thr s t) \<Longrightarrow> \<not> in_thrown (thr s u)"
    and b: "b < BIN_COUNT \<Longrightarrow> in_bin b (thr s t) \<Longrightarrow> \<not> in_bin b (thr s u)" for b
    using locks len ne guards_exclusive [of _ _ "Suc t" "Suc u"] unfolding bin_locks_def by force+
  show ?thesis
  proof (cases "thr s t")
    case (ThStoreW v)
    with st ok w show ?thesis by (cases "thr s u") (auto simp: throwing_func_def thr_ok_def)
  next
    case (ThStoreBin d v)
    with st ok b [of d] len show ?thesis by (cases "thr s u") (auto simp: throwing_func_def thr_ok_def)
  next
    case (ThStoreT v)
    with st ok c show ?thesis by (cases "thr s u") (auto simp: throwing_func_def thr_ok_def)
  qed (use st ok in \<open>auto simp: throwing_func_def thr_ok_def split: if_splits throw_pc.splits\<close>)
qed

lemma throwBall_bound: "throwBall ds \<le> length ds"
  by (induction ds) auto

lemma throw_thr_ok_own:
  assumes "thr_ok s (thr s t)" and "length (bins s) = BIN_COUNT" and "throwing_func t draws s = Some s'"
  shows "thr_ok s' (thr s' t)"
  using assms throwBall_bound [of draws]
  by (cases "thr s t") (auto simp: throwing_func_def thr_ok_def BIN_COUNT_def split: if_splits)

lemma throw_created: "created k s j \<Longrightarrow> throwing_func t draws s = Some s' \<Longrightarrow> created k s' j"
  using throw_frame(8-10) [of t draws s s'] unfolding created_def by metis

lemma throw_started:
  assumes "bin_main_ok n k s" and "throwing_func t draws s = Some s'" and run: "\<And>c. bin_at s \<noteq> BmExit c"
  shows "\<exists>j. created k s j" and "length (bins s) = BIN_COUNT"
proof -
  have "thr s t \<noteq> ThNew" using throw_frame(9) [OF assms(2)] .
  then have "\<not> created k s 0" by (auto simp: created_def)
  with assms(1) show "\<exists>j. created k s j" "length (bins s) = BIN_COUNT"
    using run by (cases "bin_at s"; auto simp: bin_main_ok_def)+
qed

lemma throw_thrown_mono:
  "bin_threads k s \<Longrightarrow> throwing_func t draws s = Some s' \<Longrightarrow> ballsThrown s \<le> ballsThrown s'"
  unfolding bin_threads_def thr_ok_def
  by (drule conjunct1, drule spec [of _ t], cases "thr s t") (auto simp: throwing_func_def split: if_splits)

lemma throw_main_ok:
  assumes inv: "bin_inv n k s" and st: "throwing_func t draws s = Some s'" and run: "\<And>c. bin_at s \<noteq> BmExit c"
  shows "bin_main_ok n k s'"
proof -
  note fr = throw_frame [OF st] and cr = throw_created [OF _ st]
  have ok: "bin_main_ok n k s" and thr: "bin_threads k s" and balls: "bin_balls n k s"
    using inv by (simp_all add: bin_inv_def)
  have bt: "bt s' \<le> ballsThrown s'"
    using ok throw_thrown_mono [OF thr st] fr(4) by (auto simp: bin_main_ok_def)
  have nz: "\<not> created k s 0" using fr(9) by (auto simp: created_def)
  have t: "t < k" using thr fr(9) unfolding bin_threads_def by (meson not_le)
  have same: "bins s' = bins s" if "n \<le> bt s"
    using that ok all_thrown(4) [OF balls _ t] fr(11) by (auto simp: bin_main_ok_def)
  show ?thesis
    using ok bt nz run unfolding bin_main_ok_def fr(1-7)
    by (cases "bin_at s") (auto simp: cr same)
qed

lemma throw_inv:
  assumes inv: "bin_inv n k s" and st: "throwing_func t draws s = Some s'" and run: "\<And>c. bin_at s \<noteq> BmExit c"
  shows "bin_inv n k s'"
proof -
  note fr = throw_frame [OF st]
  have ok: "bin_main_ok n k s" and thr: "bin_threads k s" and balls: "bin_balls n k s" and locks: "bin_locks s"
    using inv by (simp_all add: bin_inv_def)
  have len: "length (bins s) = BIN_COUNT" "length (mxBins s) = BIN_COUNT"
    using throw_started(2) [OF ok st run] ok by (auto simp: bin_main_ok_def)
  have t: "t < k" using thr fr(9) unfolding bin_threads_def by (meson not_le)
  have th: "thr_ok s (thr s u)" for u using thr by (simp add: bin_threads_def)
  have "thr_ok s' (thr s' u)" for u
    using throw_thr_ok_own [OF th len(1) st] throw_thr_ok [OF locks len(2,1) th th _ st] fr(8) by (cases "u = t") auto
  moreover have "thr s' u = ThNew" if "k \<le> u" for u
    using thr t fr(8) that by (auto simp: bin_threads_def)
  ultimately show ?thesis
    using throw_main_ok [OF inv st run] throw_balls [OF balls th t len(1) st] throw_locks [OF locks st fr(1)]
    by (simp add: bin_inv_def bin_threads_def)
qed

text \<open>The main thread.\<close>

lemma bin_balls_frame:
  "bin_balls n k s' = bin_balls n k s"
  if "ballsWaiting s' = ballsWaiting s" "ballsThrown s' = ballsThrown s" "bins s' = bins s"
     "\<And>t. falling (thr s' t) = falling (thr s t)" "\<And>t. uncounted (thr s' t) = uncounted (thr s t)"
  using that by (simp add: bin_balls_def)

lemma first_moment_snoc: "first_moment (bs @ [b]) = first_moment bs + b * int (length bs)"
  by (simp add: first_moment_def nth_append)

lemma created_step:
  assumes "created k s i" and "i < k"
  shows "created k (thr_at i ThLockW (s\<lparr>bin_at := a\<rparr>)) (Suc i)"
proof -
  have "thr (thr_at i ThLockW (s\<lparr>bin_at := a\<rparr>)) t = ThNew \<longleftrightarrow> Suc i \<le> t" for t
  proof (cases "t = i")
    case False
    then have "i \<le> t \<longleftrightarrow> Suc i \<le> t" by linarith
    with False assms(1) show ?thesis by (simp add: created_def)
  qed simp
  with assms(2) show ?thesis by (simp add: created_def)
qed

lemma main_main_ok:
  assumes inv: "bin_inv n k s" and st: "bin_main n k ok s = Some s'"
  shows "bin_main_ok n k s'"
proof -
  have mok: "bin_main_ok n k s" using inv by (simp add: bin_inv_def)
  show ?thesis
  proof (cases "bin_at s")
    case (BmSum i)
    show ?thesis
    proof (cases "i < BIN_COUNT")
      case True
      with BmSum st have s': "s' = s\<lparr>realBallsCount := realBallsCount s + bins s ! i,
          meanValue := meanValue s + bins s ! i * int i, bin_at := BmSum (Suc i)\<rparr>"
        by (simp add: bin_main_def)
      have "take (Suc i) (bins s) = take i (bins s) @ [bins s ! i]"
        using True mok BmSum by (simp add: bin_main_ok_def take_Suc_conv_app_nth)
      with True BmSum mok show ?thesis
        by (simp add: s' bin_main_ok_def created_def first_moment_snoc)
    next
      case False
      with BmSum mok st [symmetric] show ?thesis
        by (simp add: bin_main_ok_def bin_main_def created_def bin_say_def)
    qed
  next
    case (BmPrint i)
    with mok st [symmetric] show ?thesis
      by (auto simp: bin_main_ok_def bin_main_def created_def bin_say_def take_Suc_conv_app_nth split: if_splits)
  next
    case (BmInit i)
    with mok st [symmetric] show ?thesis
      by (auto simp: bin_main_ok_def bin_main_def created_def bin_err_def bin_say_def replicate_append_same
          split: if_splits)
  next
    case (BmCreate i)
    show ?thesis
    proof (cases "i < k \<and> ok")
      case True
      with st BmCreate have s': "s' = thr_at i ThLockW (s\<lparr>bin_at := BmCreate (Suc i)\<rparr>)"
        by (simp add: bin_main_def make_throwers_def)
      have "created k s i" using mok BmCreate by (simp add: bin_main_ok_def)
      with True have "created k s' (Suc i)" unfolding s' by (simp add: created_step)
      with mok BmCreate show ?thesis by (simp add: s' bin_main_ok_def)
    next
      case False
      have "bin_main_ok n k s'" if "i < k"
        using that False mok st [symmetric] BmCreate
        by (simp add: bin_main_ok_def bin_main_def make_throwers_def bin_err_def bin_say_def)
      moreover have "bin_main_ok n k s'" if "\<not> i < k"
      proof -
        have c: "created k s i" using mok BmCreate by (simp add: bin_main_ok_def)
        with that have "i = k" by (simp add: created_def)
        with c have "created k s k" by simp
        moreover have "s' = s\<lparr>bin_at := BmTest\<rparr>"
          using that st BmCreate by (simp add: bin_main_def make_throwers_def)
        ultimately show ?thesis using mok BmCreate by (simp add: bin_main_ok_def created_def)
      qed
      ultimately show ?thesis by blast
    qed
  next
    case BmLock
    with mok st show ?thesis by (auto simp: bin_main_ok_def bin_main_def created_def)
  qed (use mok st [symmetric] in \<open>simp add: bin_main_ok_def bin_main_def make_throwers_def created_def bin_err_def
        bin_say_def first_moment_def split: if_splits\<close>)+
qed

lemma main_counts_at: "main_counts (s\<lparr>bin_at := a\<rparr>) \<longleftrightarrow> a = BmRead \<or> a = BmUnlock"
  by (auto simp: main_counts_def)

lemma main_locks:
  assumes locks: "bin_locks s" and mok: "bin_main_ok n k s" and st: "bin_main n k ok s = Some s'"
  shows "bin_locks s'"
proof (cases "bin_at s")
  case (BmInit i)
  then have new: "\<And>t. thr s t = ThNew" using mok by (simp add: bin_main_ok_def created_def)
  show ?thesis
    using locks st [symmetric] BmInit new
    by (auto simp: bin_main_def bin_err_def bin_say_def bin_locks_def guards_def owners_def main_counts_def
        nth_append less_Suc_eq split: if_splits nat.splits)
next
  case BmLock
  with st have s': "s' = s\<lparr>mxBallsThrown := mxBallsThrown s', bin_at := BmRead\<rparr>"
    and m: "pthread_mutex_lock 0 (mxBallsThrown s) = Some (mxBallsThrown s')"
    by (auto simp: bin_main_def)
  have "guards (mxBallsThrown s') (owners in_thrown True s)"
    by (rule guards_lock [OF _ m]) (use locks BmLock in \<open>auto simp: bin_locks_def main_counts_def owners_def split: nat.splits\<close>)
  with locks show ?thesis
    by (subst s', simp add: bin_locks_def main_counts_at)
next
  case BmUnlock
  with st have s': "s' = s\<lparr>mxBallsThrown := pthread_mutex_unlock 0 (mxBallsThrown s), bin_at := BmTest\<rparr>"
    by (simp add: bin_main_def)
  have "guards (pthread_mutex_unlock 0 (mxBallsThrown s)) (owners in_thrown False s)"
    by (rule guards_unlock [where inside = "owners in_thrown True s"])
      (use locks BmUnlock in \<open>auto simp: bin_locks_def main_counts_def owners_def split: nat.splits\<close>)
  with locks show ?thesis
    by (simp add: s' bin_locks_def main_counts_at)
next
  case (BmCreate i)
  then have new: "thr s i = ThNew" using mok by (simp add: bin_main_ok_def created_def)
  show ?thesis
  proof (cases "i < k \<and> ok")
    case True
    with st BmCreate have s': "s' = thr_at i ThLockW (s\<lparr>bin_at := BmCreate (Suc i)\<rparr>)"
      by (simp add: bin_main_def make_throwers_def)
    have own: "owners P m s' u \<longleftrightarrow> owners P m s u" if "\<not> P ThNew" "\<not> P ThLockW" for P m u
      using that new unfolding s' owners_thr_at by (cases u) auto
    have "main_counts s' \<longleftrightarrow> main_counts s" using BmCreate by (simp add: s' main_counts_def)
    with locks own show ?thesis
      by (simp add: bin_locks_def guards_def) (simp add: s')
  next
    case False
    with locks st [symmetric] BmCreate show ?thesis
      by (auto simp: bin_main_def make_throwers_def bin_locks_def bin_err_def bin_say_def main_counts_def owners_def
          elim!: guards_same split: if_splits nat.splits)
  qed
qed (use locks mok st [symmetric] in \<open>auto simp: bin_main_def make_throwers_def bin_locks_def
    bin_err_def bin_say_def main_counts_def owners_def elim!: guards_same split: if_splits nat.splits\<close>)

lemma main_balls:
  assumes "bin_balls n k s" and mok: "bin_main_ok n k s" and st: "bin_main n k ok s = Some s'"
  shows "bin_balls n k s'"
proof (cases "bin_at s")
  case (BmCreate i)
  then have "thr s i = ThNew" using mok by (simp add: bin_main_ok_def created_def)
  with BmCreate assms show ?thesis
    by (auto simp: bin_main_def make_throwers_def bin_balls_def bin_err_def bin_say_def ball_sums split: if_splits)
qed (use assms in \<open>auto simp: bin_main_def make_throwers_def bin_main_ok_def created_def bin_balls_def
      bin_err_def bin_say_def split: if_splits\<close>)

lemma thr_ok_frame [simp]:
  "thr_ok (s\<lparr>bin_at := a\<rparr>) p = thr_ok s p" "thr_ok (s\<lparr>bin_outs := os\<rparr>) p = thr_ok s p" "thr_ok (s\<lparr>bt := v\<rparr>) p = thr_ok s p"
  "thr_ok (s\<lparr>mxBallsThrown := m\<rparr>) p = thr_ok s p" "thr_ok (s\<lparr>realBallsCount := r\<rparr>) p = thr_ok s p"
  "thr_ok (s\<lparr>meanValue := v\<rparr>) p = thr_ok s p" "thr_ok (s\<lparr>thr := th\<rparr>) p = thr_ok s p"
  "thr_ok s ThNew" "thr_ok s ThLockW"
  by (auto simp: thr_ok_def split: throw_pc.split)

lemma main_threads:
  assumes thr: "bin_threads k s" and mok: "bin_main_ok n k s" and st: "bin_main n k ok s = Some s'"
  shows "bin_threads k s'"
proof (cases "bin_at s")
  case (BmInit i)
  then have new: "\<And>t. thr s t = ThNew" using mok by (simp add: bin_main_ok_def created_def)
  from BmInit st [symmetric] have "thr s' = thr s"
    by (auto simp: bin_main_def bin_err_def bin_say_def split: if_splits)
  with new show ?thesis by (simp add: bin_threads_def)
next
  case BmLock
  with thr st show ?thesis by (auto simp: bin_main_def bin_threads_def)
qed (use thr st [symmetric] in \<open>auto simp: bin_main_def make_throwers_def bin_threads_def
      bin_err_def bin_say_def thr_at_def split: if_splits\<close>)

lemma bin_program_inv:
  assumes inv: "bin_inv n k s" and st: "bin_program n k a s = Some s'"
  shows "bin_inv n k s'"
proof (cases a)
  case (BinMain ok)
  with st have m: "bin_main n k ok s = Some s'" by (simp add: bin_program_def)
  show ?thesis
    using inv main_main_ok [OF inv m] main_locks [OF _ _ m] main_balls [OF _ _ m] main_threads [OF _ _ m]
    by (simp add: bin_inv_def)
next
  case (Thrower t draws)
  with st have "throwing_func t draws s = Some s'" "\<And>c. bin_at s \<noteq> BmExit c"
    by (auto simp: bin_program_def split: bin_main.splits)
  then show ?thesis by (rule throw_inv [OF inv])
qed

lemma reachable_bin_inv:
  assumes "0 \<le> n" and "reachable (bin_program n k) (bin_start n) s"
  shows "bin_inv n k s"
  using assms(2)
proof (rule reachable_invariant)
  show "bin_inv n k (bin_start n)" using bin_start_inv [OF assms(1)] .
qed (rule bin_program_inv)

section \<open>The threads finish\<close>

text \<open>
  \<open>busy\<close>: steps a thread still does for the ball in its hands and for the test that ends it. A
  ball that waits counts 20 steps.
\<close>

fun busy :: "throw_pc \<Rightarrow> nat" where
  "busy ThNew = 6" | "busy ThLockW = 5" | "busy ThTest = 4" | "busy ThLoadW = 3" | "busy (ThStoreW v) = 2"
| "busy ThUnlockW = 17" | "busy ThThrow = 16" | "busy (ThLockBin b) = 15" | "busy (ThLoadBin b) = 14"
| "busy (ThStoreBin b v) = 13" | "busy (ThUnlockBin b) = 12" | "busy ThLockT = 11" | "busy ThLoadT = 10"
| "busy (ThStoreT v) = 9" | "busy ThUnlockT = 8" | "busy ThUnlockBreak = 1" | "busy ThReturn = 0"

definition throw_work :: "nat \<Rightarrow> binsys \<Rightarrow> int" where
  "throw_work k s = 20 * ballsWaiting s + (\<Sum>t<k. int (busy (thr s t)))"

lemma throw_less:
  assumes "thr_ok s (thr s t)" and "t < k" and "throwing_func t draws s = Some s'"
  shows "throw_work k s' < throw_work k s"
  using assms
  by (cases "thr s t") (auto simp: throwing_func_def throw_work_def thr_ok_def
      sum_fun_upd [where f = "\<lambda>p. int (busy p)"] split: if_splits)

lemma main_throw_work:
  assumes "bin_main_ok n k s" and "bin_main n k ok s = Some s'"
  shows "throw_work k s' \<le> throw_work k s"
proof (cases "bin_at s")
  case (BmCreate i)
  then have "thr s i = ThNew" using assms(1) by (simp add: bin_main_ok_def created_def)
  with BmCreate assms show ?thesis
    by (auto simp: bin_main_def make_throwers_def throw_work_def bin_err_def bin_say_def
        sum_fun_upd [where f = "\<lambda>p. int (busy p)"] split: if_splits)
qed (use assms in \<open>auto simp: bin_main_def make_throwers_def throw_work_def bin_err_def bin_say_def split: if_splits\<close>)

lemma throw_work_nonneg: "bin_balls n k s \<Longrightarrow> 0 \<le> throw_work k s"
  by (simp add: throw_work_def bin_balls_def sum_nonneg)

definition throw_left :: "nat \<Rightarrow> binsys \<Rightarrow> nat" where
  "throw_left k s = nat (throw_work k s)"

fun is_thrower :: "bin_actor \<Rightarrow> bool" where
  "is_thrower (BinMain ok) = False" | "is_thrower (Thrower t draws) = True"

lemma program_throw_left:
  assumes inv: "bin_inv n k s" and st: "bin_program n k a s = Some s'"
  shows "if is_thrower a then throw_left k s' < throw_left k s else throw_left k s' \<le> throw_left k s"
proof -
  have inv': "bin_inv n k s'" using bin_program_inv [OF inv st] .
  note nn = throw_work_nonneg [of n k s] throw_work_nonneg [of n k s']
  show ?thesis
  proof (cases a)
    case (BinMain ok)
    with st inv main_throw_work [of n k s ok s'] show ?thesis
      by (simp add: bin_program_def bin_inv_def throw_left_def nat_mono)
  next
    case (Thrower t draws)
    with st have th: "throwing_func t draws s = Some s'"
      by (auto simp: bin_program_def split: bin_main.splits)
    have "t < k" using inv throw_frame(9) [OF th] unfolding bin_inv_def bin_threads_def by (meson not_le)
    with th inv inv' nn throw_less [of s t k draws s'] Thrower show ?thesis
      by (simp add: bin_inv_def bin_threads_def throw_left_def)
  qed
qed

section \<open>Nobody stays blocked\<close>

text \<open>How much the main thread has left when all balls are thrown.\<close>

fun bin_main_left :: "int \<Rightarrow> nat \<Rightarrow> binsys \<Rightarrow> bin_main \<Rightarrow> nat" where
  "bin_main_left n k s (BmInit i) = 120 + k - i" | "bin_main_left n k s BmMalloc = 108 + k"
| "bin_main_left n k s BmAttr = 107 + k" | "bin_main_left n k s BmDetach = 106 + k"
| "bin_main_left n k s (BmCreate i) = 105 + k - i"
| "bin_main_left n k s BmTest = (if bt s < n then 60 else 40)" | "bin_main_left n k s BmSleep = 59"
| "bin_main_left n k s BmLock = 58" | "bin_main_left n k s BmRead = 57"
| "bin_main_left n k s BmUnlock = (if bt s < n then 61 else 41)"
| "bin_main_left n k s (BmSum i) = 39 - i" | "bin_main_left n k s (BmPrint i) = 20 - i"
| "bin_main_left n k s (BmExit c) = 0"

definition bin_left :: "int \<Rightarrow> nat \<Rightarrow> binsys \<Rightarrow> nat" where
  "bin_left n k s = throw_left k s * (200 + k) + bin_main_left n k s (bin_at s)"

definition steady :: "bool list" where "steady = replicate 10 False"

lemma section_steps:
  "in_waiting (thr s t) \<or> in_thrown (thr s t) \<or> in_bin b (thr s t) \<Longrightarrow> \<exists>s'. throwing_func t steady s = Some s'"
  by (cases "thr s t") (auto simp: throwing_func_def)

lemma owner_steps:
  assumes "owners P m s u" and "\<And>p. P p \<Longrightarrow> in_waiting p \<or> in_thrown p \<or> in_bin b p"
  shows "(\<exists>t s'. throwing_func t steady s = Some s') \<or> m"
proof (cases u)
  case (Suc t)
  with assms have "in_waiting (thr s t) \<or> in_thrown (thr s t) \<or> in_bin b (thr s t)" by simp
  then show ?thesis using section_steps by blast
qed (use assms(1) in simp)

text \<open>A thread that is not through can go on, or another one can, or the main thread gives its mutex back.\<close>

lemma some_thread_steps:
  assumes inv: "bin_inv n k s" and at: "thr s t \<noteq> ThNew" "thr s t \<noteq> ThReturn"
    and len: "length (mxBins s) = BIN_COUNT"
  shows "(\<exists>u s'. throwing_func u steady s = Some s') \<or> main_counts s \<and> thr s t = ThLockT"
proof -
  have locks: "bin_locks s" and ok: "thr_ok s (thr s t)"
    using inv by (simp_all add: bin_inv_def bin_threads_def)
  show ?thesis
  proof (cases "\<exists>b. in_waiting (thr s t) \<or> in_thrown (thr s t) \<or> in_bin b (thr s t)")
    case True
    then show ?thesis using section_steps by blast
  next
    case False
    show ?thesis
  proof (cases "thr s t")
    case ThLockW
    show ?thesis
    proof (cases "mxBallsWaiting s")
      case None
      with ThLockW show ?thesis by (auto simp: throwing_func_def lock_free intro!: exI [of _ t])
    next
      case (Some o1)
      with locks have "owners in_waiting False s o1" by (simp add: bin_locks_def guards_def)
      then show ?thesis using owner_steps by blast
    qed
  next
    case (ThLockBin b)
    show ?thesis
    proof (cases "mxBins s ! b")
      case None
      with ThLockBin show ?thesis by (auto simp: throwing_func_def lock_free intro!: exI [of _ t])
    next
      case (Some o1)
      with locks len ok ThLockBin have "owners (in_bin b) False s o1"
        by (simp add: bin_locks_def guards_def thr_ok_def)
      then show ?thesis using owner_steps by blast
    qed
  next
    case ThLockT
    show ?thesis
    proof (cases "mxBallsThrown s")
      case None
      with ThLockT show ?thesis by (auto simp: throwing_func_def lock_free intro!: exI [of _ t])
    next
      case (Some o1)
      with locks have "owners in_thrown (main_counts s) s o1" by (simp add: bin_locks_def guards_def)
      then show ?thesis using owner_steps [where P = in_thrown] ThLockT by blast
    qed
  next
    case ThThrow
    then show ?thesis by (auto simp: throwing_func_def steady_def BIN_COUNT_def intro!: exI [of _ t])
    qed (use at False in auto)
  qed
qed

lemma program_main: "bin_program n k (BinMain ok) s = bin_main n k ok s"
  by (simp add: bin_program_def)

lemma program_thrower: "(\<And>c. bin_at s \<noteq> BmExit c) \<Longrightarrow> bin_program n k (Thrower t ds) s = throwing_func t ds s"
  by (simp add: bin_program_def split: bin_main.split)

definition creating :: "bin_main \<Rightarrow> bool" where
  "creating a \<longleftrightarrow> (case a of BmInit i \<Rightarrow> True | BmMalloc \<Rightarrow> True | BmAttr \<Rightarrow> True | BmDetach \<Rightarrow> True
     | BmCreate i \<Rightarrow> True | _ \<Rightarrow> False)"

lemma main_goes_on:
  assumes inv: "bin_inv n k s" and run: "\<And>c. bin_at s \<noteq> BmExit c"
    and fin: "creating (bin_at s) \<or> ballsThrown s = n \<and> mxBallsThrown s = None \<or> ballsThrown s = n \<and> main_counts s"
  shows "\<exists>s'. bin_main n k True s = Some s' \<and> bin_main_left n k s' (bin_at s') < bin_main_left n k s (bin_at s)"
proof -
  have mok: "bin_main_ok n k s" using inv by (simp add: bin_inv_def)
  with run fin show ?thesis
    by (cases "bin_at s") (auto simp: bin_main_def make_throwers_def creating_def bin_main_ok_def created_def
        main_counts_def bin_say_def lock_free BIN_COUNT_def)
qed

lemma bin_left_less:
  assumes "throw_left k s' < throw_left k s" and "bin_main_left n k s' (bin_at s') \<le> 61"
  shows "bin_left n k s' < bin_left n k s"
proof -
  have "bin_left n k s' < Suc (throw_left k s') * (200 + k)"
    using assms(2) by (simp add: bin_left_def)
  also have "\<dots> \<le> throw_left k s * (200 + k)"
    using assms(1) by (intro mult_le_mono1) simp
  finally show ?thesis by (simp add: bin_left_def)
qed

lemma late_main_left: "\<not> creating a \<Longrightarrow> bin_main_left n k s a \<le> 61"
  by (cases a) (auto simp: creating_def)

lemma main_gives_back:
  assumes inv: "bin_inv n k s" and m: "main_counts s"
  shows "\<exists>as s'. run (bin_program n k) as s = Some s' \<and> mxBallsThrown s' = None \<and> thr s' = thr s
    \<and> bin_at s' = BmTest \<and> throw_left k s' = throw_left k s"
proof -
  have "guards (mxBallsThrown s) (owners in_thrown True s)"
    using inv m by (simp add: bin_inv_def bin_locks_def)
  then have own: "mxBallsThrown s = Some 0" by (rule guards_owner) simp
  show ?thesis
  proof (cases "bin_at s = BmUnlock")
    case True
    with own show ?thesis
      by (intro exI [of _ "[BinMain True]"]) (simp add: program_main bin_main_def pthread_mutex_unlock_def
          throw_left_def throw_work_def)
  next
    case False
    with m own show ?thesis
      by (intro exI [of _ "[BinMain True, BinMain True]"]) (simp add: main_counts_def program_main bin_main_def
          pthread_mutex_unlock_def throw_left_def throw_work_def)
  qed
qed

lemma all_returned:
  assumes inv: "bin_inv n k s" and k: "0 < k" and cr: "created k s k" and all: "\<And>t. t < k \<Longrightarrow> thr s t = ThReturn"
  shows "ballsThrown s = n" and "mxBallsThrown s = None \<or> main_counts s"
proof -
  have balls: "bin_balls n k s" and locks: "bin_locks s" and ok: "thr_ok s (thr s 0)"
    using inv by (simp_all add: bin_inv_def bin_threads_def)
  from ok all [OF k] have "ballsWaiting s \<le> 0" by (simp add: thr_ok_def)
  then show "ballsThrown s = n" using balls all by (simp add: bin_balls_def)
  show "mxBallsThrown s = None \<or> main_counts s"
  proof (cases "mxBallsThrown s")
    case (Some u)
    with locks have u: "owners in_thrown (main_counts s) s u" by (simp add: bin_locks_def guards_def)
    show ?thesis
    proof (cases u)
      case (Suc t)
      with u have "in_thrown (thr s t)" by simp
      moreover have "thr s t = ThReturn \<or> thr s t = ThNew"
        using all [of t] cr by (cases "t < k") (auto simp: created_def)
      ultimately show ?thesis by auto
    qed (use u in simp)
  qed simp
qed

lemma main_step_less:
  assumes inv: "bin_inv n k s" and st: "bin_main n k True s = Some s'"
    and less: "bin_main_left n k s' (bin_at s') < bin_main_left n k s (bin_at s)"
  shows "bin_left n k s' < bin_left n k s"
proof -
  have "throw_left k s' \<le> throw_left k s"
    using program_throw_left [OF inv, of "BinMain True" s'] st by (simp add: program_main)
  then have "throw_left k s' * (200 + k) \<le> throw_left k s * (200 + k)" by (rule mult_le_mono1)
  with less show ?thesis unfolding bin_left_def by linarith
qed

lemma thread_goes_on:
  assumes inv: "bin_inv n k s" and run: "\<And>c. bin_at s \<noteq> BmExit c" and late: "\<not> creating (bin_at s)"
    and at: "thr s t \<noteq> ThNew" "thr s t \<noteq> ThReturn"
  shows "\<exists>as s'. run (bin_program n k) as s = Some s' \<and> bin_left n k s' < bin_left n k s"
proof -
  have len: "length (mxBins s) = BIN_COUNT"
    using inv run late by (cases "bin_at s") (auto simp: bin_inv_def bin_main_ok_def creating_def)
  have step: "\<exists>as s'. run (bin_program n k) as s = Some s' \<and> bin_left n k s' < bin_left n k s"
    if "run (bin_program n k) as s = Some v" "bin_inv n k v" "\<not> creating (bin_at v)" "\<And>c. bin_at v \<noteq> BmExit c"
      "throw_left k v = throw_left k s" "throwing_func u steady v = Some w" for as v u w
  proof -
    have st: "bin_program n k (Thrower u steady) v = Some w" using that(4,6) by (simp add: program_thrower)
    have "throw_left k w < throw_left k s" using program_throw_left [OF that(2) st] that(5) by simp
    moreover have "\<not> creating (bin_at w)" using that(3) throw_frame(3) [OF that(6)] by simp
    ultimately have "bin_left n k w < bin_left n k s" using late_main_left by (intro bin_left_less)
    moreover have "run (bin_program n k) (as @ [Thrower u steady]) s = Some w"
      using that(1) st by (simp add: run_append)
    ultimately show ?thesis by blast
  qed
  from some_thread_steps [OF inv at len] show ?thesis
  proof
    assume "\<exists>u s'. throwing_func u steady s = Some s'"
    then show ?thesis using step [of "[]" s] inv run late by auto
  next
    assume m: "main_counts s \<and> thr s t = ThLockT"
    obtain as v where v: "run (bin_program n k) as s = Some v" "mxBallsThrown v = None" "thr v = thr s"
      "bin_at v = BmTest" "throw_left k v = throw_left k s"
      using main_gives_back [OF inv] m by blast
    have "reachable (bin_program n k) s v" using v(1) by (rule run_reachable)
    then have "bin_inv n k v" by (rule reachable_invariant) (rule inv, rule bin_program_inv)
    moreover have "\<exists>w. throwing_func t steady v = Some w"
      using m v(2,3) by (simp add: throwing_func_def lock_free)
    ultimately show ?thesis using step [OF v(1)] v(4,5) by (auto simp: creating_def)
  qed
qed

lemma bin_progress:
  assumes inv: "bin_inv n k s" and run: "\<And>c. bin_at s \<noteq> BmExit c" and k: "0 < k"
  shows "\<exists>as s'. run (bin_program n k) as s = Some s' \<and> bin_left n k s' < bin_left n k s"
proof (cases "\<not> creating (bin_at s) \<and> (\<exists>t. thr s t \<noteq> ThNew \<and> thr s t \<noteq> ThReturn)")
  case True
  then show ?thesis using thread_goes_on [OF inv run] by blast
next
  case False
  have "creating (bin_at s) \<or> ballsThrown s = n \<and> mxBallsThrown s = None \<or> ballsThrown s = n \<and> main_counts s"
  proof (cases "creating (bin_at s)")
    case late: False
    have cr: "created k s k"
      using inv run late by (cases "bin_at s") (auto simp: bin_inv_def bin_main_ok_def creating_def)
    then have "thr s t = ThReturn" if "t < k" for t
      using that False late unfolding created_def by (meson not_le)
    then show ?thesis using all_returned [OF inv k cr] by blast
  qed simp
  from main_goes_on [OF inv run this] obtain s'
    where "bin_main n k True s = Some s'" "bin_main_left n k s' (bin_at s') < bin_main_left n k s (bin_at s)" by blast
  with main_step_less [OF inv] show ?thesis
    by (intro exI [of _ "[BinMain True]"]) (auto simp: program_main)
qed

section \<open>Properties\<close>

definition one_ball :: "bin_actor list" where
  "one_ball = replicate 12 (BinMain True) @ replicate 6 (BinMain True) @ replicate 5 (Thrower 0 [])
     @ [Thrower 1 [], Thrower 0 (replicate 3 True @ replicate 7 False)] @ replicate 8 (Thrower 0 [])
     @ replicate 6 (BinMain True) @ replicate 24 (BinMain True)"

text \<open>
  C4. \<open>prog18.c\<close>: for any number of threads and every schedule, when the program ends normally it
  has printed eleven counts that are not negative and add up to the number of balls, that number as
  the total, and the mean of the bins it printed, although the main thread reads the bins without
  their mutexes.
\<close>

theorem bins_printed:
  assumes "0 \<le> n" and "reachable (bin_program n k) (bin_start n) s" and "bin_at s = BmExit 0"
  shows "\<exists>bs. length bs = BIN_COUNT \<and> (\<forall>v \<in> set bs. 0 \<le> v) \<and> sum_list bs = n
    \<and> bin_outs s = BinsHead # map BinIs bs @ [Totals n (first_moment bs)]"
proof -
  have inv: "bin_balls n k s" "bin_main_ok n k s" using reachable_bin_inv [OF assms(1,2)] by (simp_all add: bin_inv_def)
  with assms(3) have "n \<le> ballsThrown s" by (simp add: bin_main_ok_def)
  then have "sum_list (bins s) = n" by (rule all_thrown(2) [OF inv(1)])
  with inv assms(3) show ?thesis by (intro exI [of _ "bins s"]) (simp add: bin_main_ok_def bin_balls_def)
qed

lemma bins_printed_witness:
  "\<exists>s. reachable (bin_program 1 2) (bin_start 1) s
    \<and> (\<exists>bs. length bs = BIN_COUNT \<and> sum_list bs = 1 \<and> bin_outs s = BinsHead # map BinIs bs @ [Totals 1 (first_moment bs)])
    \<and> bin_outs s ! 4 = BinIs 1"
proof -
  have "map_option (\<lambda>s. (bin_at s, bin_outs s ! 4)) (run (bin_program 1 2) one_ball (bin_start 1)) = Some (BmExit 0, BinIs 1)"
    by code_simp
  then obtain s where s: "reachable (bin_program 1 2) (bin_start 1) s" "bin_at s = BmExit 0" "bin_outs s ! 4 = BinIs 1"
    using reachable_obs [of "\<lambda>s. (bin_at s, bin_outs s ! 4)"] by blast
  with bins_printed [OF _ s(1,2)] show ?thesis by auto
qed

text \<open>
  \<open>prog18.c\<close>: in every reachable state no two threads are at the load or the store of the same
  bin, every ball is waiting, falling or in a bin, and the counters are exact: what is in the bins
  is what has been counted and what the threads are about to count.
\<close>

theorem bins_conserved:
  assumes "0 \<le> n" and "reachable (bin_program n k) (bin_start n) s"
  shows "ballsWaiting s + (\<Sum>t<k. falling (thr s t)) + sum_list (bins s) = n
    \<and> sum_list (bins s) = ballsThrown s + (\<Sum>t<k. uncounted (thr s t))
    \<and> (\<forall>b t u. b < length (bins s) \<and> in_bin b (thr s t) \<and> in_bin b (thr s u) \<longrightarrow> t = u)"
proof -
  note inv = reachable_bin_inv [OF assms, unfolded bin_inv_def]
  have "t = u" if "b < length (bins s)" "in_bin b (thr s t)" "in_bin b (thr s u)" for b t u
    using inv that guards_exclusive [of "mxBins s ! b" "owners (in_bin b) False s" "Suc t" "Suc u"]
    by (simp add: bin_locks_def bin_main_ok_def)
  then show ?thesis using inv unfolding bin_balls_def by blast
qed

lemma bins_conserved_witness:
  "\<exists>s. reachable (bin_program 1 2) (bin_start 1) s \<and> thr s 0 = ThThrow
    \<and> ballsWaiting s + (\<Sum>t<2. falling (thr s t)) + sum_list (bins s) = 1"
proof -
  have "map_option (\<lambda>s. thr s 0) (run (bin_program 1 2) (take 23 one_ball) (bin_start 1)) = Some ThThrow"
    by code_simp
  then obtain s where s: "reachable (bin_program 1 2) (bin_start 1) s" "thr s 0 = ThThrow"
    using reachable_obs [of "\<lambda>s. thr s 0"] by blast
  with bins_conserved [OF _ s(1)] show ?thesis by auto
qed

text \<open>
  \<open>prog18.c\<close>: under every schedule the threads of a run do at most \<open>20 n + 6 k\<close> steps, and
  with at least one thread the program can always go on to its end: no lock is left taken, no
  ball is forgotten, and the polling of the main thread sees the last one.
\<close>

theorem bins_terminate:
  assumes "0 \<le> n" and "0 < k" and r: "run (bin_program n k) as (bin_start n) = Some s"
  shows "length (filter is_thrower as) \<le> nat (20 * n) + 6 * k
    \<and> (\<exists>bs u c. run (bin_program n k) bs s = Some u \<and> bin_at u = BmExit c)"
proof -
  have inv: "bin_inv n k s"
    using run_reachable [OF r] assms(1) by (intro reachable_bin_inv)
  have "length (filter is_thrower as) + throw_left k s \<le> throw_left k (bin_start n)"
    using bin_start_inv [OF assms(1)] r
  proof (rule run_count_bound)
    show "bin_inv n k t \<and> (if is_thrower a then throw_left k t < throw_left k s else throw_left k t \<le> throw_left k s)"
      if "bin_inv n k s" "bin_program n k a s = Some t" for a s t
      using bin_program_inv [OF that] program_throw_left [OF that] by simp
  qed
  also have "throw_left k (bin_start n) = nat (20 * n) + 6 * k"
    using assms(1) by (simp add: throw_left_def throw_work_def bin_start_def nat_add_distrib nat_mult_distrib)
  finally have len: "length (filter is_thrower as) \<le> nat (20 * n) + 6 * k" by simp
  have "\<exists>bs u. run (bin_program n k) bs s = Some u \<and> bin_inv n k u \<and> (\<exists>c. bin_at u = BmExit c)"
  proof (rule progress_by_measure [where P = "bin_inv n k" and work = "bin_left n k"])
    show "bin_inv n k s" by (rule inv)
  next
    show "\<exists>bs t. run (bin_program n k) bs s = Some t \<and> bin_inv n k t \<and> bin_left n k t < bin_left n k s"
      if i: "bin_inv n k s" and e: "\<not> (\<exists>c. bin_at s = BmExit c)" for s
    proof -
      obtain bs t where t: "run (bin_program n k) bs s = Some t" "bin_left n k t < bin_left n k s"
        using bin_progress [OF i _ assms(2)] e by blast
      have "bin_inv n k t"
        using run_reachable [OF t(1)] by (rule reachable_invariant) (rule i, rule bin_program_inv)
      with t show ?thesis by blast
    qed
  qed
  with len show ?thesis by blast
qed

lemma bins_terminate_witness:
  "\<exists>s. run (bin_program 1 2) (take 30 one_ball) (bin_start 1) = Some s
    \<and> (\<exists>bs u c. run (bin_program 1 2) bs s = Some u \<and> bin_at u = BmExit c)"
proof -
  define r where "r = run (bin_program 1 2) (take 30 one_ball) (bin_start 1)"
  have "r \<noteq> None" unfolding r_def by code_simp
  then obtain s where "run (bin_program 1 2) (take 30 one_ball) (bin_start 1) = Some s" by (auto simp: r_def)
  with bins_terminate [OF _ _ this] show ?thesis by auto
qed

end
