(* ===== verification/Reverse.thy ===== *)
theory Reverse
  imports Threads Sockets "HOL-Library.Multiset"
begin

text \<open>
  \<open>Lab - 3/sop-ca.c\<close>: SIGUSR1 makes the main thread reverse a random part of an array by swapping
  its ends, under the mutexes of the two cells; SIGUSR2 starts a thread that takes all mutexes and
  prints the array. The array always is what the announced parts, reversed one after the other,
  make of it, and what a thread prints is always a permutation of the numbers. When both ends are
  the same cell the main thread locks a mutex that it holds and never comes back.
\<close>

section \<open>The program\<close>

definition getarguments :: "string list \<Rightarrow> (nat \<times> nat) option" where
  "getarguments argv =
     (if length argv \<noteq> 3 then None
      else let n = atoi (argv ! 1); p = atoi (argv ! 2) in
      if n < 8 \<or> 256 < n then None
      else if p < 1 \<or> 16 < p then None
      else Some (nat n, nat p))"

datatype print_pc = PrNew | PrLock nat | PrShow nat | PrUnlock nat | PrReturn

datatype rev_pc =
  RvSuspend | RvTest | RvLockA | RvLockB | RvTemp | RvStoreA int | RvStoreB int | RvUnlockB | RvUnlockA
| RvNext | RvSleep | RvReport

datatype rev_out = Received nat | Segment nat nat | Ends int int | Number nat int

datatype rev_actor =
  Signal1 | Signal2 | Wake bool bool | RevMain nat nat | CreateFails | Printing nat

record revsys =
  array :: "int list"
  mutexes :: "nat option list"
  pending1 :: bool
  pending2 :: bool
  SigUsr1Received :: bool
  SigUsr2Received :: bool
  rev_at :: rev_pc
  rev_a :: nat
  rev_b :: nat
  printers :: "nat \<Rightarrow> print_pc"
  printers_made :: nat
  rev_outs :: "rev_out list"

definition rev_say :: "rev_out \<Rightarrow> revsys \<Rightarrow> revsys" where
  "rev_say x s = s\<lparr>rev_outs := rev_outs s @ [x]\<rparr>"

definition prepareArray :: "nat \<Rightarrow> revsys" where
  "prepareArray n = \<lparr>array = map int [0..<n], mutexes = replicate n None, pending1 = False, pending2 = False,
     SigUsr1Received = False, SigUsr2Received = False, rev_at = RvSuspend, rev_a = 0, rev_b = 0,
     printers = (\<lambda>_. PrNew), printers_made = 0, rev_outs = []\<rparr>"

definition printer_at :: "nat \<Rightarrow> print_pc \<Rightarrow> revsys \<Rightarrow> revsys" where
  "printer_at p pc s = s\<lparr>printers := (printers s)(p := pc)\<rparr>"

text \<open>\<open>PrUnlock i\<close>: the next mutex to free is \<open>i - 1\<close>.\<close>

definition printing :: "nat \<Rightarrow> nat \<Rightarrow> revsys \<Rightarrow> revsys option" where
  "printing n p s =
     (case printers s p of
        PrNew \<Rightarrow> None
      | PrLock i \<Rightarrow>
          if i < n then
            map_option (\<lambda>m. printer_at p (PrLock (Suc i)) (s\<lparr>mutexes := (mutexes s)[i := m]\<rparr>))
              (pthread_mutex_lock (Suc p) (mutexes s ! i))
          else Some (printer_at p (PrShow 0) s)
      | PrShow i \<Rightarrow>
          if i < n then Some (rev_say (Number p (array s ! i)) (printer_at p (PrShow (Suc i)) s))
          else Some (printer_at p (PrUnlock n) s)
      | PrUnlock i \<Rightarrow>
          if 0 < i then
            Some (printer_at p (PrUnlock (i - 1))
              (s\<lparr>mutexes := (mutexes s)[i - 1 := pthread_mutex_unlock (Suc p) (mutexes s ! (i - 1))]\<rparr>))
          else Some (printer_at p PrReturn s)
      | PrReturn \<Rightarrow> None)"

text \<open>
  The handlers set their flags when \<open>sigsuspend\<close> lets pending signals through; each of the two
  is delivered at most once, however often it was sent.
\<close>

definition sigusr_handlers :: "bool \<Rightarrow> bool \<Rightarrow> revsys \<Rightarrow> revsys" where
  "sigusr_handlers d1 d2 s =
     s\<lparr>pending1 := (pending1 s \<and> \<not> d1), pending2 := (pending2 s \<and> \<not> d2),
       SigUsr1Received := (SigUsr1Received s \<or> d1), SigUsr2Received := (SigUsr2Received s \<or> d2)\<rparr>"

text \<open>\<open>r1\<close> and \<open>r2\<close> are the results of the two calls of \<open>rand\<close>.\<close>

definition mainWork :: "nat \<Rightarrow> nat \<Rightarrow> nat \<Rightarrow> revsys \<Rightarrow> revsys option" where
  "mainWork n r1 r2 s =
     (case rev_at s of
        RvSuspend \<Rightarrow> None
      | RvTest \<Rightarrow>
          if SigUsr1Received s then
            let a = r1 mod (n - 1); b = r2 mod (n - a) + a in
            Some (rev_say (Segment a b) (rev_say (Received 1) (s\<lparr>rev_at := RvLockA, rev_a := a, rev_b := b\<rparr>)))
          else if SigUsr2Received s then
            Some (printer_at (printers_made s) (PrLock 0) (rev_say (Received 2)
              (s\<lparr>rev_at := RvSuspend, printers_made := Suc (printers_made s), SigUsr2Received := False\<rparr>)))
          else Some (s\<lparr>rev_at := RvSuspend\<rparr>)
      | RvLockA \<Rightarrow> map_option (\<lambda>m. s\<lparr>mutexes := (mutexes s)[rev_a s := m], rev_at := RvLockB\<rparr>)
          (pthread_mutex_lock 0 (mutexes s ! rev_a s))
      | RvLockB \<Rightarrow> map_option (\<lambda>m. s\<lparr>mutexes := (mutexes s)[rev_b s := m], rev_at := RvTemp\<rparr>)
          (pthread_mutex_lock 0 (mutexes s ! rev_b s))
      | RvTemp \<Rightarrow> Some (s\<lparr>rev_at := RvStoreA (array s ! rev_a s)\<rparr>)
      | RvStoreA temp \<Rightarrow>
          Some (s\<lparr>array := (array s)[rev_a s := array s ! rev_b s], rev_at := RvStoreB temp\<rparr>)
      | RvStoreB temp \<Rightarrow> Some (s\<lparr>array := (array s)[rev_b s := temp], rev_at := RvUnlockB\<rparr>)
      | RvUnlockB \<Rightarrow>
          Some (s\<lparr>mutexes := (mutexes s)[rev_b s := pthread_mutex_unlock 0 (mutexes s ! rev_b s)], rev_at := RvUnlockA\<rparr>)
      | RvUnlockA \<Rightarrow>
          Some (s\<lparr>mutexes := (mutexes s)[rev_a s := pthread_mutex_unlock 0 (mutexes s ! rev_a s)], rev_at := RvNext\<rparr>)
      | RvNext \<Rightarrow>
          let a = rev_a s + 1; b = rev_b s - 1 in
          Some (s\<lparr>rev_a := a, rev_b := b, rev_at := if b \<le> a then RvReport else RvSleep\<rparr>)
      | RvSleep \<Rightarrow> Some (s\<lparr>rev_at := RvLockA\<rparr>)
      | RvReport \<Rightarrow>
          Some (rev_say (Ends (array s ! rev_a s) (array s ! rev_b s)) (s\<lparr>SigUsr1Received := False, rev_at := RvSuspend\<rparr>)))"

text \<open>
  A failed \<open>pthread_create\<close> is not checked for: the program says that it received the signal and
  goes on without a thread.
\<close>

definition rev_program :: "nat \<Rightarrow> rev_actor \<Rightarrow> revsys \<Rightarrow> revsys option" where
  "rev_program n act s =
     (case act of
        Signal1 \<Rightarrow> Some (s\<lparr>pending1 := True\<rparr>)
      | Signal2 \<Rightarrow> Some (s\<lparr>pending2 := True\<rparr>)
      | Wake d1 d2 \<Rightarrow>
          (if rev_at s = RvSuspend \<and> (d1 \<or> d2) \<and> (d1 \<longrightarrow> pending1 s) \<and> (d2 \<longrightarrow> pending2 s)
           then Some ((sigusr_handlers d1 d2 s)\<lparr>rev_at := RvTest\<rparr>) else None)
      | RevMain r1 r2 \<Rightarrow> mainWork n r1 r2 s
      | CreateFails \<Rightarrow>
          (if rev_at s = RvTest \<and> \<not> SigUsr1Received s \<and> SigUsr2Received s
           then Some (rev_say (Received 2) (s\<lparr>rev_at := RvSuspend, SigUsr2Received := False\<rparr>)) else None)
      | Printing p \<Rightarrow> printing n p s)"

section \<open>Reversing a part of a list by swapping its ends\<close>

text \<open>What is left of the loop when it starts with \<open>a < b\<close>.\<close>

function swap_ends :: "nat \<Rightarrow> nat \<Rightarrow> int list \<Rightarrow> int list" where
  "swap_ends a b xs =
     (if a < b then swap_ends (a + 1) (b - 1) (xs[a := xs ! b, b := xs ! a]) else xs)"
  by pat_completeness auto
termination by (relation "measure (\<lambda>(a, b, xs). b - a)") auto

declare swap_ends.simps [simp del]

definition reverse_part :: "nat \<Rightarrow> nat \<Rightarrow> int list \<Rightarrow> int list" where
  "reverse_part a b xs = take a xs @ rev (drop a (take (Suc b) xs)) @ drop (Suc b) xs"

lemma nth_reverse_part:
  assumes "a \<le> b" and "b < length xs" and "i < length xs"
  shows "reverse_part a b xs ! i = (if a \<le> i \<and> i \<le> b then xs ! (a + b - i) else xs ! i)"
proof -
  have "min (length xs) (Suc b) = Suc b" using assms(2) by simp
  then show ?thesis using assms by (auto simp: reverse_part_def nth_append rev_nth)
qed

lemma length_reverse_part: "a \<le> b \<Longrightarrow> b < length xs \<Longrightarrow> length (reverse_part a b xs) = length xs"
  by (simp add: reverse_part_def)

lemma reverse_part_none: "reverse_part (Suc b) b xs = xs"
  by (simp add: reverse_part_def)

lemma swap_ends_reverse:
  "a \<le> Suc b \<Longrightarrow> b < length xs \<Longrightarrow> swap_ends a b xs = reverse_part a b xs"
proof (induction a b xs rule: swap_ends.induct)
  case (1 a b xs)
  show ?case
  proof (cases "a < b")
    case True
    let ?ys = "xs[a := xs ! b, b := xs ! a]"
    have "swap_ends a b xs = reverse_part (a + 1) (b - 1) ?ys"
      using 1 True by (subst swap_ends.simps) simp
    also have "\<dots> = reverse_part a b xs"
    proof (cases "a + 1 \<le> b - 1")
      case le: True
      then show ?thesis
        using True 1(3) by (intro nth_equalityI) (auto simp: length_reverse_part nth_reverse_part nth_list_update)
    next
      case False
      with True have b: "b = Suc a" by simp
      then have "reverse_part (a + 1) (b - 1) ?ys = ?ys" by (simp add: reverse_part_none)
      also have "\<dots> = reverse_part a b xs"
        using 1(3) b True by (intro nth_equalityI) (auto simp: length_reverse_part nth_reverse_part nth_list_update le_Suc_eq)
      finally show ?thesis .
    qed
    finally show ?thesis .
  next
    case False
    with 1(2) consider "a = b" | "a = Suc b" by linarith
    then show ?thesis
    proof cases
      case 1
      then show ?thesis
        using \<open>b < length xs\<close> by (subst swap_ends.simps) (auto intro!: nth_equalityI simp: length_reverse_part nth_reverse_part)
    next
      case 2
      then show ?thesis by (subst swap_ends.simps) (simp add: reverse_part_none)
    qed
  qed
qed

lemma mset_reverse_part: "a \<le> b \<Longrightarrow> mset (reverse_part a b xs) = mset xs"
proof -
  assume "a \<le> b"
  have "mset (reverse_part a b xs) = mset (take a xs @ drop a (take (Suc b) xs) @ drop (Suc b) xs)"
    by (simp add: reverse_part_def)
  also have "take a xs @ drop a (take (Suc b) xs) = take (Suc b) xs"
    using \<open>a \<le> b\<close> append_take_drop_id [of a "take (Suc b) xs"] by (simp add: min_def)
  then have "take a xs @ drop a (take (Suc b) xs) @ drop (Suc b) xs = xs"
    by (metis append.assoc append_take_drop_id)
  finally show ?thesis .
qed

section \<open>The invariant\<close>

text \<open>The array that the announced parts make of the numbers.\<close>

definition announce :: "int list \<Rightarrow> rev_out \<Rightarrow> int list" where
  "announce xs x = (case x of Segment a b \<Rightarrow> reverse_part a b xs | _ \<Rightarrow> xs)"

definition announced :: "nat \<Rightarrow> revsys \<Rightarrow> int list" where
  "announced n s = foldl announce (map int [0..<n]) (rev_outs s)"

text \<open>What the array will be when the main thread has done the rest of its loop.\<close>

definition target :: "revsys \<Rightarrow> int list" where
  "target s =
     (let a = rev_a s; b = rev_b s; xs = array s in
      case rev_at s of
        RvSleep \<Rightarrow> swap_ends a b xs
      | RvLockA \<Rightarrow> swap_ends a b xs
      | RvLockB \<Rightarrow> swap_ends a b xs
      | RvTemp \<Rightarrow> swap_ends a b xs
      | RvStoreA temp \<Rightarrow> swap_ends a b (xs[a := temp])
      | RvStoreB temp \<Rightarrow> swap_ends (a + 1) (b - 1) (xs[b := temp])
      | RvUnlockB \<Rightarrow> swap_ends (a + 1) (b - 1) xs
      | RvUnlockA \<Rightarrow> swap_ends (a + 1) (b - 1) xs
      | RvNext \<Rightarrow> swap_ends (a + 1) (b - 1) xs
      | _ \<Rightarrow> xs)"

definition holds_a :: "rev_pc \<Rightarrow> bool" where
  "holds_a p \<longleftrightarrow> (case p of RvLockB \<Rightarrow> True | RvTemp \<Rightarrow> True | RvStoreA t \<Rightarrow> True | RvStoreB t \<Rightarrow> True
     | RvUnlockB \<Rightarrow> True | RvUnlockA \<Rightarrow> True | _ \<Rightarrow> False)"

definition holds_b :: "rev_pc \<Rightarrow> bool" where
  "holds_b p \<longleftrightarrow> (case p of RvTemp \<Rightarrow> True | RvStoreA t \<Rightarrow> True | RvStoreB t \<Rightarrow> True | RvUnlockB \<Rightarrow> True | _ \<Rightarrow> False)"

definition printer_holds :: "nat \<Rightarrow> nat \<Rightarrow> print_pc \<Rightarrow> bool" where
  "printer_holds n i p \<longleftrightarrow> (case p of PrLock j \<Rightarrow> i < j | PrShow j \<Rightarrow> i < n | PrUnlock j \<Rightarrow> i < j | _ \<Rightarrow> False)"

definition cell_owner :: "nat \<Rightarrow> nat \<Rightarrow> revsys \<Rightarrow> nat \<Rightarrow> bool" where
  "cell_owner n i s u = (case u of
     0 \<Rightarrow> i = rev_a s \<and> holds_a (rev_at s) \<or> i = rev_b s \<and> holds_b (rev_at s)
   | Suc p \<Rightarrow> printer_holds n i (printers s p))"

definition numbers_of :: "nat \<Rightarrow> rev_out list \<Rightarrow> int list" where
  "numbers_of p os = concat (map (\<lambda>x. case x of Number q v \<Rightarrow> if q = p then [v] else [] | _ \<Rightarrow> []) os)"

text \<open>What a printer has shown: the cells it has passed, or a whole array that was there.\<close>

definition shown_ok :: "nat \<Rightarrow> revsys \<Rightarrow> nat \<Rightarrow> bool" where
  "shown_ok n s p \<longleftrightarrow> (case printers s p of
     PrNew \<Rightarrow> numbers_of p (rev_outs s) = []
   | PrLock i \<Rightarrow> i \<le> n \<and> numbers_of p (rev_outs s) = []
   | PrShow i \<Rightarrow> i \<le> n \<and> numbers_of p (rev_outs s) = take i (array s)
   | PrUnlock i \<Rightarrow> i \<le> n \<and> mset (numbers_of p (rev_outs s)) = mset (map int [0..<n])
   | PrReturn \<Rightarrow> mset (numbers_of p (rev_outs s)) = mset (map int [0..<n]))"

definition rev_range :: "nat \<Rightarrow> revsys \<Rightarrow> bool" where
  "rev_range n s \<longleftrightarrow> (case rev_at s of
     RvSuspend \<Rightarrow> True
   | RvTest \<Rightarrow> True
   | RvReport \<Rightarrow> rev_a s \<le> rev_b s + 2 \<and> rev_a s < n \<and> rev_b s < n
   | RvLockA \<Rightarrow> rev_a s \<le> rev_b s \<and> rev_b s < n
   | RvLockB \<Rightarrow> rev_a s \<le> rev_b s \<and> rev_b s < n
   | RvTemp \<Rightarrow> rev_a s < rev_b s \<and> rev_b s < n
   | RvStoreA t \<Rightarrow> rev_a s < rev_b s \<and> rev_b s < n \<and> t = array s ! rev_a s
   | _ \<Rightarrow> rev_a s < rev_b s \<and> rev_b s < n)"

definition rev_inv :: "nat \<Rightarrow> revsys \<Rightarrow> bool" where
  "rev_inv n s \<longleftrightarrow> length (array s) = n \<and> length (mutexes s) = n \<and> rev_range n s
     \<and> target s = announced n s \<and> mset (announced n s) = mset (map int [0..<n])
     \<and> (\<forall>i < n. guards (mutexes s ! i) (cell_owner n i s))
     \<and> (\<forall>p. shown_ok n s p) \<and> (\<forall>p \<ge> printers_made s. printers s p = PrNew)"

section \<open>Steps keep the invariant\<close>

lemma numbers_of_snoc:
  "numbers_of p (os @ [x]) = numbers_of p os @ (case x of Number q v \<Rightarrow> if q = p then [v] else [] | _ \<Rightarrow> [])"
  by (simp add: numbers_of_def)

lemma announced_say: "announced n (rev_say x s) = announce (announced n s) x"
  by (simp add: announced_def rev_say_def)

lemma announced_frame: "rev_outs s' = rev_outs s \<Longrightarrow> announced n s' = announced n s"
  by (simp add: announced_def)

lemma mset_swap_ends: "a \<le> Suc b \<Longrightarrow> b < length xs \<Longrightarrow> mset (swap_ends a b xs) = mset xs"
  by (cases "a \<le> b") (auto simp: swap_ends_reverse mset_reverse_part reverse_part_none le_Suc_eq)

lemma say_frame [simp]:
  "array (rev_say x s) = array s" "mutexes (rev_say x s) = mutexes s" "rev_at (rev_say x s) = rev_at s"
  "rev_a (rev_say x s) = rev_a s" "rev_b (rev_say x s) = rev_b s" "printers (rev_say x s) = printers s"
  "printers_made (rev_say x s) = printers_made s" "rev_outs (rev_say x s) = rev_outs s @ [x]"
  by (simp_all add: rev_say_def)

lemma printer_frame [simp]:
  "array (printer_at p pc s) = array s" "mutexes (printer_at p pc s) = mutexes s"
  "rev_at (printer_at p pc s) = rev_at s" "rev_a (printer_at p pc s) = rev_a s" "rev_b (printer_at p pc s) = rev_b s"
  "printers (printer_at p pc s) = (printers s)(p := pc)"
  "printers_made (printer_at p pc s) = printers_made s" "rev_outs (printer_at p pc s) = rev_outs s"
  by (simp_all add: printer_at_def)

text \<open>Everything the invariant says of the array and the main thread depends on these fields only.\<close>

lemma target_cong:
  assumes "array s' = array s" "rev_at s' = rev_at s" "rev_a s' = rev_a s" "rev_b s' = rev_b s"
  shows "target s' = target s" and "rev_range n s' = rev_range n s"
  using assms by (simp_all add: target_def rev_range_def cong: rev_pc.case_cong)

text \<open>A printer that shows holds all the mutexes, so the main thread is between two swaps.\<close>

lemma printer_alone:
  assumes inv: "rev_inv n s" and at: "printers s p = PrShow j" and n: "0 < n"
  shows "\<not> holds_a (rev_at s)"
proof
  assume h: "holds_a (rev_at s)"
  then have "rev_a s < n" using inv by (cases "rev_at s") (auto simp: rev_inv_def rev_range_def holds_a_def)
  then have "guards (mutexes s ! rev_a s) (cell_owner n (rev_a s) s)" using inv by (simp add: rev_inv_def)
  moreover have "cell_owner n (rev_a s) s 0" using h by (simp add: cell_owner_def)
  moreover have "cell_owner n (rev_a s) s (Suc p)"
    using at \<open>rev_a s < n\<close> by (simp add: cell_owner_def printer_holds_def)
  ultimately have "0 = Suc p" by (rule guards_exclusive)
  then show False by simp
qed

lemma mset_array:
  assumes inv: "rev_inv n s" and h: "\<not> holds_a (rev_at s)"
  shows "mset (array s) = mset (map int [0..<n])"
proof -
  have "rev_range n s" and "length (array s) = n" using inv by (simp_all add: rev_inv_def)
  then have "mset (target s) = mset (array s)"
    using h by (cases "rev_at s") (auto simp: rev_range_def holds_a_def target_def intro!: mset_swap_ends)
  then show ?thesis using inv by (simp add: rev_inv_def)
qed

lemma printing_frame:
  assumes "printing n p s = Some s'"
  shows "array s' = array s" "rev_at s' = rev_at s" "rev_a s' = rev_a s" "rev_b s' = rev_b s"
    "printers_made s' = printers_made s" "length (mutexes s') = length (mutexes s)"
    "q \<noteq> p \<Longrightarrow> printers s' q = printers s q" "printers s p \<noteq> PrNew"
    "q \<noteq> p \<Longrightarrow> numbers_of q (rev_outs s') = numbers_of q (rev_outs s)"
    "announced n s' = announced n s"
  using assms by (cases "printers s p"; auto simp: printing_def numbers_of_snoc announced_def announce_def
      split: if_splits)+

lemma printing_shown:
  assumes inv: "rev_inv n s" and n: "0 < n" and st: "printing n p s = Some s'"
  shows "shown_ok n s' q"
proof (cases "q = p")
  case False
  have "shown_ok n s q" using inv by (simp add: rev_inv_def)
  with False printing_frame [OF st] show ?thesis
    by (simp add: shown_ok_def cong: print_pc.case_cong)
next
  case True
  have sh: "shown_ok n s p" and len: "length (array s) = n" using inv by (simp_all add: rev_inv_def)
  show ?thesis
  proof (cases "printers s p")
    case (PrShow i)
    then have "mset (array s) = mset (map int [0..<n])" by (intro mset_array [OF inv] printer_alone [OF inv _ n])
    with PrShow sh st len True show ?thesis
      by (auto simp: printing_def shown_ok_def numbers_of_snoc take_Suc_conv_app_nth split: if_splits)
  qed (use sh st True in \<open>auto simp: printing_def shown_ok_def split: if_splits\<close>)
qed

lemma cell_owner_cong:
  assumes "rev_at s' = rev_at s" "rev_a s' = rev_a s" "rev_b s' = rev_b s"
  shows "cell_owner n i s' u = (case u of 0 \<Rightarrow> cell_owner n i s 0 | Suc q \<Rightarrow> printer_holds n i (printers s' q))"
  using assms by (simp add: cell_owner_def split: nat.split)

lemma printing_guards:
  assumes inv: "rev_inv n s" and st: "printing n p s = Some s'" and i: "i < n"
  shows "guards (mutexes s' ! i) (cell_owner n i s')"
proof -
  have g: "guards (mutexes s ! i) (cell_owner n i s)" and len: "length (mutexes s) = n" and sh: "shown_ok n s p"
    using inv i by (simp_all add: rev_inv_def)
  have own: "cell_owner n i s' u \<longleftrightarrow> (if u = Suc p then printer_holds n i (printers s' p) else cell_owner n i s u)" for u
    using printing_frame [OF st] by (cases u) (auto simp: cell_owner_def)
  have was: "cell_owner n i s (Suc p) \<longleftrightarrow> printer_holds n i (printers s p)" by (simp add: cell_owner_def)
  show ?thesis
  proof (cases "printers s p")
    case (PrLock j)
    show ?thesis
    proof (cases "j = i")
      case True
      with PrLock i st obtain m where m: "pthread_mutex_lock (Suc p) (mutexes s ! i) = Some m"
        "s' = printer_at p (PrLock (Suc i)) (s\<lparr>mutexes := (mutexes s)[i := m]\<rparr>)"
        by (auto simp: printing_def)
      have "guards m (cell_owner n i s')"
        by (rule guards_lock [OF g m(1)]) (simp only: own, simp add: m(2) printer_holds_def)
      with m(2) i len show ?thesis by simp
    next
      case False
      with PrLock i st len have "mutexes s' ! i = mutexes s ! i" by (auto simp: printing_def split: if_splits)
      moreover have "printer_holds n i (printers s' p) = printer_holds n i (printers s p)"
        using PrLock False st i by (auto simp: printing_def printer_holds_def split: if_splits)
      ultimately show ?thesis using g was by (auto simp: own elim!: guards_same split: if_splits)
    qed
  next
    case (PrUnlock j)
    show ?thesis
    proof (cases "j = Suc i")
      case True
      with PrUnlock st have s': "s' = printer_at p (PrUnlock i)
          (s\<lparr>mutexes := (mutexes s)[i := pthread_mutex_unlock (Suc p) (mutexes s ! i)]\<rparr>)"
        by (simp add: printing_def)
      have "guards (pthread_mutex_unlock (Suc p) (mutexes s ! i)) (cell_owner n i s')"
        by (rule guards_unlock [OF g]) (simp add: was PrUnlock True printer_holds_def, simp only: own, simp add: s' printer_holds_def)
      with s' i len show ?thesis by simp
    next
      case False
      with PrUnlock i st len have "mutexes s' ! i = mutexes s ! i" by (auto simp: printing_def split: if_splits)
      moreover have "printer_holds n i (printers s' p) = printer_holds n i (printers s p)"
        using PrUnlock False st i by (auto simp: printing_def printer_holds_def split: if_splits)
      ultimately show ?thesis using g was by (auto simp: own elim!: guards_same split: if_splits)
    qed
  next
    case (PrShow j)
    have "mutexes s' ! i = mutexes s ! i" and "printer_holds n i (printers s' p) = printer_holds n i (printers s p)"
      using PrShow i st by (auto simp: printing_def printer_holds_def split: if_splits)
    then show ?thesis using g was by (auto simp: own elim!: guards_same split: if_splits)
  qed (use st in \<open>simp_all add: printing_def\<close>)
qed

lemma shown_ok_cong:
  assumes "printers s' p = printers s p" "numbers_of p (rev_outs s') = numbers_of p (rev_outs s)"
    "\<And>j. printers s p = PrShow j \<Longrightarrow> array s' = array s"
  shows "shown_ok n s' p = shown_ok n s p"
  using assms by (cases "printers s p") (simp_all add: shown_ok_def)

text \<open>The ends of the first swap lie in the array, and a later part is empty or a single cell.\<close>

lemma chosen_ends:
  fixes r1 r2 n :: nat
  assumes "1 < n"
  shows "r2 mod (n - r1 mod (n - 1)) + r1 mod (n - 1) < n"
proof -
  have "r1 mod (n - 1) < n - 1" using assms by simp
  then have "r2 mod (n - r1 mod (n - 1)) < n - r1 mod (n - 1)" by simp
  then show ?thesis by linarith
qed

lemma announce_segment:
  assumes "rev_at s = RvTest" and "SigUsr1Received s" and "1 < n" and "mainWork n r1 r2 s = Some s'"
  obtains a b where "a \<le> b" and "b < n"
    and "s' = rev_say (Segment a b) (rev_say (Received 1) (s\<lparr>rev_at := RvLockA, rev_a := a, rev_b := b\<rparr>))"
proof (rule that)
  show "r1 mod (n - 1) \<le> r2 mod (n - r1 mod (n - 1)) + r1 mod (n - 1)" by simp
  show "r2 mod (n - r1 mod (n - 1)) + r1 mod (n - 1) < n" by (rule chosen_ends [OF assms(3)])
qed (use assms in \<open>simp_all add: mainWork_def Let_def\<close>)

lemma main_range_target:
  assumes inv: "rev_inv n s" and n: "1 < n" and st: "mainWork n r1 r2 s = Some s'"
  shows "rev_range n s' \<and> target s' = announced n s' \<and> mset (announced n s') = mset (map int [0..<n])
    \<and> length (array s') = n \<and> length (mutexes s') = n"
proof -
  have rng: "rev_range n s" and len: "length (array s) = n" "length (mutexes s) = n"
    and tgt: "announced n s = target s" and ms: "mset (announced n s) = mset (map int [0..<n])"
    using inv by (simp_all add: rev_inv_def)
  show ?thesis
  proof (cases "rev_at s")
    case RvTest
    have arr: "announced n s = array s" using RvTest tgt by (simp add: target_def)
    show ?thesis
    proof (cases "SigUsr1Received s")
      case True
      obtain a b where ab: "a \<le> b" "b < n"
        and s': "s' = rev_say (Segment a b) (rev_say (Received 1) (s\<lparr>rev_at := RvLockA, rev_a := a, rev_b := b\<rparr>))"
        using announce_segment [OF RvTest True n st] .
      have "announced n s' = reverse_part a b (announced n s)"
        by (simp add: s' announced_def announce_def)
      moreover from this have "mset (announced n s') = mset (map int [0..<n])"
        using ab(1) ms by (simp only: mset_reverse_part)
      ultimately show ?thesis
        using ab len arr by (simp add: s' rev_range_def target_def swap_ends_reverse)
    next
      case False
      with RvTest st have "announced n s' = announced n s"
        by (auto simp: mainWork_def announced_def announce_def split: if_splits)
      with RvTest False st len ms arr show ?thesis
        by (auto simp: mainWork_def rev_range_def target_def split: if_splits)
    qed
  next
    case RvLockB
    then have rs: "rev_a s \<le> rev_b s" "rev_b s < n" using rng by (simp_all add: rev_range_def)
    have "cell_owner n (rev_a s) s 0" using RvLockB by (simp add: cell_owner_def holds_a_def)
    then have "mutexes s ! rev_a s = Some 0"
      using inv rs unfolding rev_inv_def by (meson guards_owner le_less_trans)
    moreover have "mutexes s ! rev_b s = None"
      using st RvLockB lock_blocked [of 0 "mutexes s ! rev_b s"] by (auto simp: mainWork_def)
    ultimately have "rev_a s \<noteq> rev_b s" by auto
    moreover have "announced n s' = announced n s" using st RvLockB by (auto simp: mainWork_def announced_def)
    ultimately show ?thesis
      using RvLockB st rs len tgt ms by (auto simp: mainWork_def rev_range_def target_def)
  next
    case (RvStoreA temp)
    then have rs: "rev_a s < rev_b s" "rev_b s < n" "temp = array s ! rev_a s" using rng by (simp_all add: rev_range_def)
    have "announced n s' = announced n s" using st RvStoreA by (auto simp: mainWork_def announced_def)
    moreover have "swap_ends (rev_a s) (rev_b s) ((array s)[rev_a s := temp])
        = swap_ends (rev_a s + 1) (rev_b s - 1) ((array s)[rev_a s := array s ! rev_b s, rev_b s := temp])"
      using rs len by (subst swap_ends.simps) simp
    ultimately show ?thesis
      using RvStoreA st rs len tgt ms by (auto simp: mainWork_def rev_range_def target_def Let_def)
  next
    case RvTemp
    then have rs: "rev_a s < rev_b s" "rev_b s < n" using rng by (simp_all add: rev_range_def)
    have "announced n s' = announced n s" using st RvTemp by (auto simp: mainWork_def announced_def)
    with RvTemp st rs len tgt ms show ?thesis by (auto simp: mainWork_def rev_range_def target_def)
  next
    case RvNext
    then have rs: "rev_a s < rev_b s" "rev_b s < n" using rng by (simp_all add: rev_range_def)
    have "announced n s' = announced n s" using st RvNext by (auto simp: mainWork_def announced_def Let_def)
    moreover have "swap_ends (rev_a s + 1) (rev_b s - 1) (array s) = array s" if "rev_b s - 1 \<le> rev_a s + 1"
      using that by (subst swap_ends.simps) simp
    ultimately show ?thesis
      using RvNext st rs len tgt ms by (auto simp: mainWork_def rev_range_def target_def Let_def)
  next
    case RvReport
    have "announced n s' = announced n s" using st RvReport by (auto simp: mainWork_def announced_def announce_def)
    with RvReport st len tgt ms show ?thesis by (auto simp: mainWork_def rev_range_def target_def)
  qed (use st rng len tgt ms in \<open>auto simp: mainWork_def rev_range_def target_def announced_def Let_def\<close>)
qed

lemma main_shown:
  assumes inv: "rev_inv n s" and n: "1 < n" and st: "mainWork n r1 r2 s = Some s'"
  shows "shown_ok n s' p \<and> (\<forall>p \<ge> printers_made s'. printers s' p = PrNew)"
proof -
  have sh: "shown_ok n s q" for q using inv by (simp add: rev_inv_def)
  have new: "\<forall>p \<ge> printers_made s. printers s p = PrNew" using inv by (simp add: rev_inv_def)
  show ?thesis
  proof (cases "rev_at s = RvTest \<and> \<not> SigUsr1Received s \<and> SigUsr2Received s")
    case True
    with st have s': "s' = printer_at (printers_made s) (PrLock 0) (rev_say (Received 2)
        (s\<lparr>rev_at := RvSuspend, printers_made := Suc (printers_made s), SigUsr2Received := False\<rparr>))"
      by (simp add: mainWork_def)
    have "numbers_of q (rev_outs s') = numbers_of q (rev_outs s)" for q by (simp add: s' numbers_of_snoc)
    moreover have "numbers_of (printers_made s) (rev_outs s) = []"
      using sh [of "printers_made s"] new by (simp add: shown_ok_def)
    ultimately have "shown_ok n s' p"
      using sh [of p] shown_ok_cong [of s' p s n] by (cases "p = printers_made s") (simp_all add: shown_ok_def s')
    moreover have "\<forall>q \<ge> printers_made s'. printers s' q = PrNew" using new by (simp add: s')
    ultimately show ?thesis by blast
  next
    case False
    have same: "printers s' = printers s" "printers_made s' = printers_made s"
      "numbers_of p (rev_outs s') = numbers_of p (rev_outs s)"
    proof (atomize (full), cases "rev_at s = RvTest \<and> SigUsr1Received s")
      case True
      then obtain a b where "s' = rev_say (Segment a b) (rev_say (Received 1) (s\<lparr>rev_at := RvLockA, rev_a := a, rev_b := b\<rparr>))"
        using announce_segment [OF _ _ n st] by blast
      then show "printers s' = printers s \<and> printers_made s' = printers_made s \<and> numbers_of p (rev_outs s') = numbers_of p (rev_outs s)"
        by (simp add: numbers_of_def)
    qed (use False st in \<open>cases "rev_at s"; auto simp: mainWork_def numbers_of_snoc Let_def\<close>)
    have "array s' = array s" if "printers s p = PrShow j" for j
      using printer_alone [OF inv that] n st by (cases "rev_at s")
        (auto simp: mainWork_def holds_a_def Let_def split: if_splits)
    then have "shown_ok n s' p \<longleftrightarrow> shown_ok n s p" using same by (intro shown_ok_cong) simp_all
    with sh new same show ?thesis by simp
  qed
qed

lemma main_guards:
  assumes inv: "rev_inv n s" and st: "mainWork n r1 r2 s = Some s'" and i: "i < n"
  shows "guards (mutexes s' ! i) (cell_owner n i s')"
proof -
  have g: "guards (mutexes s ! i) (cell_owner n i s)" and rng: "rev_range n s" and len: "length (mutexes s) = n"
    and new: "printers s (printers_made s) = PrNew"
    using inv i by (simp_all add: rev_inv_def)
  show ?thesis
  proof (cases "rev_at s")
    case RvTest
    have "cell_owner n i s' u = cell_owner n i s u" for u
      using RvTest st new by (cases u)
        (auto simp: mainWork_def cell_owner_def holds_a_def holds_b_def printer_holds_def Let_def split: if_splits)
    moreover have "mutexes s' = mutexes s" using RvTest st by (auto simp: mainWork_def Let_def split: if_splits)
    ultimately show ?thesis using g by (auto elim!: guards_same)
  next
    case RvLockA
    with st obtain m where m: "pthread_mutex_lock 0 (mutexes s ! rev_a s) = Some m"
      "s' = s\<lparr>mutexes := (mutexes s)[rev_a s := m], rev_at := RvLockB\<rparr>"
      by (auto simp: mainWork_def)
    have own: "cell_owner n i s' u \<longleftrightarrow> u = 0 \<and> i = rev_a s \<or> cell_owner n i s u" for u
      using RvLockA m(2) by (cases u) (auto simp: cell_owner_def holds_a_def holds_b_def)
    with g i len m(1) show ?thesis by (simp add: m(2) guards_lock_cell [where t = 0])
  next
    case RvLockB
    with st obtain m where m: "pthread_mutex_lock 0 (mutexes s ! rev_b s) = Some m"
      "s' = s\<lparr>mutexes := (mutexes s)[rev_b s := m], rev_at := RvTemp\<rparr>"
      by (auto simp: mainWork_def)
    have own: "cell_owner n i s' u \<longleftrightarrow> u = 0 \<and> i = rev_b s \<or> cell_owner n i s u" for u
      using RvLockB m(2) by (cases u) (auto simp: cell_owner_def holds_a_def holds_b_def)
    with g i len m(1) show ?thesis by (simp add: m(2) guards_lock_cell [where t = 0])
  next
    case RvUnlockB
    with st have s': "s' = s\<lparr>mutexes := (mutexes s)[rev_b s := pthread_mutex_unlock 0 (mutexes s ! rev_b s)], rev_at := RvUnlockA\<rparr>"
      by (simp add: mainWork_def)
    have "rev_a s < rev_b s" using rng RvUnlockB by (simp add: rev_range_def)
    then have own: "cell_owner n i s' u \<longleftrightarrow> \<not> (u = 0 \<and> i = rev_b s) \<and> cell_owner n i s u" for u
      using RvUnlockB s' by (cases u) (auto simp: cell_owner_def holds_a_def holds_b_def)
    have "cell_owner n (rev_b s) s 0" using RvUnlockB by (simp add: cell_owner_def holds_b_def)
    with g i len own show ?thesis by (simp add: s' guards_unlock_cell [where t = 0 and inside = "\<lambda>i. cell_owner n i s"])
  next
    case RvUnlockA
    with st have s': "s' = s\<lparr>mutexes := (mutexes s)[rev_a s := pthread_mutex_unlock 0 (mutexes s ! rev_a s)], rev_at := RvNext\<rparr>"
      by (simp add: mainWork_def)
    have own: "cell_owner n i s' u \<longleftrightarrow> \<not> (u = 0 \<and> i = rev_a s) \<and> cell_owner n i s u" for u
      using RvUnlockA s' by (cases u) (auto simp: cell_owner_def holds_a_def holds_b_def)
    have "cell_owner n (rev_a s) s 0" using RvUnlockA by (simp add: cell_owner_def holds_a_def)
    with g i len own show ?thesis by (simp add: s' guards_unlock_cell [where t = 0 and inside = "\<lambda>i. cell_owner n i s"])
  qed (use st g in \<open>auto simp: mainWork_def cell_owner_def holds_a_def holds_b_def Let_def
      elim!: guards_same split: nat.splits if_splits\<close>)
qed

lemma rev_program_inv:
  assumes inv: "rev_inv n s" and n: "1 < n" and st: "rev_program n act s = Some s'"
  shows "rev_inv n s'"
proof -
  have light: "rev_inv n s'"
    if "array s' = array s" "mutexes s' = mutexes s" "rev_a s' = rev_a s" "rev_b s' = rev_b s"
      "printers s' = printers s" "printers_made s' = printers_made s"
      "announced n s' = announced n s" "\<And>p. numbers_of p (rev_outs s') = numbers_of p (rev_outs s)"
      and at: "rev_at s' = rev_at s \<or> rev_at s \<in> {RvSuspend, RvTest} \<and> rev_at s' \<in> {RvSuspend, RvTest}"
  proof -
    have "target s' = target s \<and> rev_range n s' = rev_range n s"
      using at
    proof
      assume "rev_at s' = rev_at s"
      then show ?thesis using target_cong [OF that(1) _ that(3,4)] by simp
    next
      assume "rev_at s \<in> {RvSuspend, RvTest} \<and> rev_at s' \<in> {RvSuspend, RvTest}"
      then show ?thesis using that(1) by (auto simp: target_def rev_range_def)
    qed
    moreover have "holds_a (rev_at s') = holds_a (rev_at s)" "holds_b (rev_at s') = holds_b (rev_at s)"
      using at by (auto simp: holds_a_def holds_b_def)
    then have "cell_owner n i s' u = cell_owner n i s u" for i u
      using that(3-5) by (cases u) (simp_all add: cell_owner_def)
    moreover have "shown_ok n s' p = shown_ok n s p" for p
      using that(1,5,8) by (intro shown_ok_cong) simp_all
    ultimately show ?thesis
      using inv that(1-7) unfolding rev_inv_def guards_def by metis
  qed
  show ?thesis
  proof (cases act)
    case (Printing p)
    with st have p: "printing n p s = Some s'" by (simp add: rev_program_def)
    note fr = printing_frame [OF p]
    have "printers s' q = PrNew" if "printers_made s' \<le> q" for q
      using inv fr that by (cases "q = p") (auto simp: rev_inv_def)
    with inv fr n printing_shown [OF inv _ p] printing_guards [OF inv p] target_cong [OF fr(1-4)]
    show ?thesis by (simp add: rev_inv_def)
  next
    case (RevMain r1 r2)
    with st have m: "mainWork n r1 r2 s = Some s'" by (simp add: rev_program_def)
    show ?thesis
      using main_range_target [OF inv n m] main_guards [OF inv m] main_shown [OF inv n m] by (simp add: rev_inv_def)
  qed (rule light; use st in \<open>auto simp: rev_program_def sigusr_handlers_def announced_def announce_def
      numbers_of_snoc split: if_splits\<close>)+
qed

lemma prepareArray_inv: "0 < n \<Longrightarrow> rev_inv n (prepareArray n)"
  by (simp add: rev_inv_def prepareArray_def rev_range_def target_def announced_def guards_def cell_owner_def
      holds_a_def holds_b_def printer_holds_def shown_ok_def numbers_of_def split: nat.split)

lemma reachable_rev_inv:
  assumes "1 < n" and "reachable (rev_program n) (prepareArray n) s"
  shows "rev_inv n s"
  using assms(2)
proof (rule reachable_invariant)
  show "rev_inv n (prepareArray n)" using assms(1) by (simp add: prepareArray_inv)
qed (rule rev_program_inv [OF _ assms(1)])

section \<open>Properties\<close>



text \<open>
  C9. \<open>sop-ca.c\<close>: whenever the main thread waits for signals, the array is what the parts it has
  announced, reversed one after the other, make of the numbers from 0 to \<open>n - 1\<close>; and what a
  thread has printed when it frees the mutexes is a permutation of these numbers, whatever
  signals and other threads came in between.
\<close>

theorem array_as_announced:
  assumes "1 < n" and "reachable (rev_program n) (prepareArray n) s"
  shows "(rev_at s = RvSuspend \<longrightarrow> array s = foldl announce (map int [0..<n]) (rev_outs s))
    \<and> (printers s p = PrReturn \<longrightarrow> mset (numbers_of p (rev_outs s)) = mset (map int [0..<n]))"
proof -
  note inv = reachable_rev_inv [OF assms, unfolded rev_inv_def]
  have "array s = foldl announce (map int [0..<n]) (rev_outs s)" if "rev_at s = RvSuspend"
    using inv that by (simp add: target_def announced_def)
  moreover have "mset (numbers_of p (rev_outs s)) = mset (map int [0..<n])" if "printers s p = PrReturn"
  proof -
    have "shown_ok n s p" using inv by blast
    with that show ?thesis by (simp add: shown_ok_def)
  qed
  ultimately show ?thesis by blast
qed

definition reverse_then_print :: "rev_actor list" where
  "reverse_then_print = [Signal1, Wake True False] @ replicate 10 (RevMain 0 2) @ [Signal2, Wake False True, RevMain 0 0]
     @ replicate 20 (Printing 0)"

lemma array_as_announced_witness:
  "\<exists>s. reachable (rev_program 8) (prepareArray 8) s \<and> array s = foldl announce (map int [0..<8]) (rev_outs s)
    \<and> array s = [2, 1, 0, 3, 4, 5, 6, 7] \<and> numbers_of 0 (rev_outs s) = [2, 1, 0, 3, 4, 5, 6, 7]"
proof -
  have "map_option (\<lambda>s. (rev_at s, array s, numbers_of 0 (rev_outs s))) (run (rev_program 8) reverse_then_print (prepareArray 8))
      = Some (RvSuspend, [2, 1, 0, 3, 4, 5, 6, 7], [2, 1, 0, 3, 4, 5, 6, 7])"
    by code_simp
  then obtain s where s: "reachable (rev_program 8) (prepareArray 8) s" "rev_at s = RvSuspend"
    "array s = [2, 1, 0, 3, 4, 5, 6, 7]" "numbers_of 0 (rev_outs s) = [2, 1, 0, 3, 4, 5, 6, 7]"
    using reachable_obs [of "\<lambda>s. (rev_at s, array s, numbers_of 0 (rev_outs s))"] by blast
  with array_as_announced [OF _ s(1)] show ?thesis by (intro exI [of _ s]) simp
qed

lemma stuck_step:
  assumes "rev_at s = RvLockB" "rev_a s = rev_b s" "mutexes s ! rev_a s = Some 0" "rev_a s < length (mutexes s)"
    and st: "rev_program n act s = Some s'"
  shows "rev_at s' = RvLockB \<and> rev_a s' = rev_b s' \<and> mutexes s' ! rev_a s' = Some 0 \<and> rev_a s' < length (mutexes s')"
proof (cases act)
  case (Printing p)
  then have st: "printing n p s = Some s'" using st by (simp add: rev_program_def)
  show ?thesis
    using assms(1-4) st
    by (cases "printers s p") (auto simp: printing_def lock_others unlock_others split: if_splits)
qed (use assms in \<open>auto simp: rev_program_def mainWork_def pthread_mutex_lock_def sigusr_handlers_def split: if_splits\<close>)

text \<open>
  \<open>sop-ca.c\<close>: the code does not handle \<open>a = b\<close>, which \<open>rand\<close> can always choose. For every size
  some schedule leads into a state after which, whatever signals come and whatever the other
  threads do, the main thread never moves again.
\<close>

theorem single_cell_deadlocks:
  assumes "1 < n"
  shows "\<exists>s. reachable (rev_program n) (prepareArray n) s \<and> rev_at s = RvLockB
    \<and> (\<forall>as t. run (rev_program n) as s = Some t \<longrightarrow> rev_at t = RvLockB \<and> array t = array s)"
proof -
  let ?P = "\<lambda>s. rev_at s = RvLockB \<and> rev_a s = rev_b s \<and> mutexes s ! rev_a s = Some 0 \<and> rev_a s < length (mutexes s)"
  obtain s where s: "run (rev_program n) [Signal1, Wake True False, RevMain 0 0, RevMain 0 0] (prepareArray n) = Some s" "?P s"
    using assms by (auto simp: rev_program_def prepareArray_def sigusr_handlers_def mainWork_def rev_say_def lock_free)
  have keep: "?P t \<and> array t = array s" if "?P s" "run (rev_program n) as s = Some t" for as s t
    using that
  proof (induction as arbitrary: s)
    case (Cons a as)
    then obtain u where u: "rev_program n a s = Some u" "run (rev_program n) as u = Some t"
      by (auto split: option.splits)
    have "?P u" using stuck_step [OF _ _ _ _ u(1)] Cons.prems(1) by blast
    moreover have "array u = array s"
      using u(1) Cons.prems(1) by (cases a) (auto simp: rev_program_def mainWork_def pthread_mutex_lock_def
          sigusr_handlers_def printing_frame(1) split: if_splits)
    ultimately show ?case using Cons.IH [of u] u(2) by (metis (no_types, lifting))
  qed auto
  show ?thesis using run_reachable [OF s(1)] s(2) keep [OF s(2)] by blast
qed

lemma single_cell_deadlocks_witness:
  "\<exists>s. reachable (rev_program 8) (prepareArray 8) s \<and> rev_at s = RvLockB"
  using single_cell_deadlocks [of 8] by auto

end
