(* ===== verification/Chunks.thy ===== *)
theory Chunks
  imports Threads
begin

text \<open>
  \<open>Lab - 4/task.c\<close>: \<open>n\<close> threads share out the chunks of a file through \<open>next_chunk\<close>, each keeps the
  chunks it has read in a list of its own, and a last thread joins them and prints all the lists.
  The file is a list of characters, a list is a list of lines; every load and store of the shared
  \<open>next_chunk\<close> is a step. The outcome of the calls that can fail is an argument of the actor;
  \<open>pread\<close> on a regular file returns all that is there.
\<close>

section \<open>The program\<close>

text \<open>\<open>my_strdup\<close> copies up to the first zero byte; the buffer has one behind the chunk.\<close>

definition my_strdup :: "string \<Rightarrow> string" where
  "my_strdup src = takeWhile (\<lambda>c. c \<noteq> CHR 0x00) src"

definition pread :: "string \<Rightarrow> nat \<Rightarrow> nat \<Rightarrow> string" where
  "pread contents chunk start = take chunk (drop start contents)"

definition line_of :: "string \<Rightarrow> nat \<Rightarrow> nat \<Rightarrow> string" where
  "line_of contents chunk c = my_strdup (pread contents chunk (c * chunk))"

datatype worker_pc =
  WkNew | WkMalloc | WkLock | WkTest | WkStart | WkLoad nat | WkStore nat nat | WkUnlock nat | WkRead nat
| WkNode nat string | WkSay nat | WkBreak | WkPrint "string list" | WkReturn
| WkErrLock nat "nat option" | WkErrStore nat "nat option" | WkErrUnlock "nat option" | WkFailed "nat option"

datatype concat_pc = CcNew | CcJoin nat | CcPrint "string list" | CcReturn

datatype chunk_main = ChCreate nat | ChPrinter | ChJoin | ChCheck | ChExit int

datatype chunk_out = Started nat nat nat | WorkerLine nat string | FinalLine string | ChunkError string | ErrorAt nat

datatype chunk_actor = Worker nat bool | Concat | ChunkMain bool

record chsys =
  next_chunk :: nat
  error_line :: nat
  ch_mutex :: "nat option"
  wk :: "nat \<Rightarrow> worker_pc"
  heads :: "nat \<Rightarrow> string list"
  cc_at :: concat_pc
  cc_list :: "string list"
  ch_at :: chunk_main
  ch_outs :: "chunk_out list"

definition wk_at :: "nat \<Rightarrow> worker_pc \<Rightarrow> chsys \<Rightarrow> chsys" where
  "wk_at t p s = s\<lparr>wk := (wk s)(t := p)\<rparr>"

definition ch_say :: "chunk_out \<Rightarrow> chsys \<Rightarrow> chsys" where
  "ch_say x s = s\<lparr>ch_outs := ch_outs s @ [x]\<rparr>"

definition ch_fail :: "string \<Rightarrow> chsys \<Rightarrow> chsys option" where
  "ch_fail msg s = Some (ch_say (ChunkError msg) (s\<lparr>ch_at := ChExit 1\<rparr>))"

text \<open>\<open>print_list\<close> prints the first line of what is left.\<close>

definition print_list :: "(string \<Rightarrow> chunk_out) \<Rightarrow> string list \<Rightarrow> chsys \<Rightarrow> (string list \<times> chsys) option" where
  "print_list out ls s = (case ls of [] \<Rightarrow> None | l # rest \<Rightarrow> Some (rest, ch_say (out l) s))"

definition thread_work :: "string \<Rightarrow> nat \<Rightarrow> nat \<Rightarrow> bool \<Rightarrow> chsys \<Rightarrow> chsys option" where
  "thread_work contents chunk t ok s =
     (case wk s t of
        WkNew \<Rightarrow> None
      | WkMalloc \<Rightarrow>
          if ok then Some (wk_at t WkLock s) else Some (ch_say (ChunkError ''malloc'') (wk_at t (WkErrLock 75 None) s))
      | WkLock \<Rightarrow> map_option (\<lambda>m. wk_at t WkTest (s\<lparr>ch_mutex := m\<rparr>)) (pthread_mutex_lock (Suc t) (ch_mutex s))
      | WkTest \<Rightarrow> Some (wk_at t (if length contents div chunk \<le> next_chunk s then WkBreak else WkStart) s)
      | WkBreak \<Rightarrow>
          Some (wk_at t (WkPrint (heads s t)) (s\<lparr>ch_mutex := pthread_mutex_unlock (Suc t) (ch_mutex s)\<rparr>))
      | WkStart \<Rightarrow> Some (wk_at t (WkLoad (next_chunk s)) s)
      | WkLoad c \<Rightarrow> Some (wk_at t (WkStore c (next_chunk s)) s)
      | WkStore c v \<Rightarrow> Some (wk_at t (WkUnlock c) (s\<lparr>next_chunk := Suc v\<rparr>))
      | WkUnlock c \<Rightarrow> Some (wk_at t (WkRead c) (s\<lparr>ch_mutex := pthread_mutex_unlock (Suc t) (ch_mutex s)\<rparr>))
      | WkRead c \<Rightarrow>
          if ok then Some (wk_at t (WkNode c (pread contents chunk (c * chunk))) s)
          else Some (ch_say (ChunkError ''pread'') (wk_at t (WkErrLock 97 (Some c)) s))
      | WkNode c buffer \<Rightarrow>
          if ok then Some (wk_at t (WkSay c) (s\<lparr>heads := (heads s)(t := my_strdup buffer # heads s t)\<rparr>))
          else ch_fail ''malloc'' s
      | WkSay c \<Rightarrow> Some (ch_say (Started t (c * chunk) chunk) (wk_at t WkLock s))
      | WkPrint ls \<Rightarrow>
          (case print_list (WorkerLine t) ls s of
             None \<Rightarrow> Some (wk_at t WkReturn s)
           | Some (rest, s') \<Rightarrow> Some (wk_at t (WkPrint rest) s'))
      | WkErrLock l c \<Rightarrow>
          map_option (\<lambda>m. wk_at t (WkErrStore l c) (s\<lparr>ch_mutex := m\<rparr>)) (pthread_mutex_lock (Suc t) (ch_mutex s))
      | WkErrStore l c \<Rightarrow> Some (wk_at t (WkErrUnlock c) (s\<lparr>error_line := l\<rparr>))
      | WkErrUnlock c \<Rightarrow>
          Some (wk_at t (WkFailed c) (s\<lparr>ch_mutex := pthread_mutex_unlock (Suc t) (ch_mutex s)\<rparr>))
      | WkReturn \<Rightarrow> None
      | WkFailed c \<Rightarrow> None)"

definition wk_ended :: "worker_pc \<Rightarrow> bool" where
  "wk_ended p \<longleftrightarrow> (case p of WkReturn \<Rightarrow> True | WkFailed c \<Rightarrow> True | _ \<Rightarrow> False)"

definition concat_and_print :: "nat \<Rightarrow> chsys \<Rightarrow> chsys option" where
  "concat_and_print n s =
     (case cc_at s of
        CcNew \<Rightarrow> None
      | CcJoin i \<Rightarrow>
          if i < n then
            (if wk_ended (wk s i) then Some (s\<lparr>cc_list := cc_list s @ heads s i, cc_at := CcJoin (Suc i)\<rparr>) else None)
          else Some (s\<lparr>cc_at := CcPrint (cc_list s)\<rparr>)
      | CcPrint ls \<Rightarrow>
          (case print_list FinalLine ls s of
             None \<Rightarrow> Some (s\<lparr>cc_at := CcReturn\<rparr>)
           | Some (rest, s') \<Rightarrow> Some (s'\<lparr>cc_at := CcPrint rest\<rparr>))
      | CcReturn \<Rightarrow> None)"

definition chunk_main :: "nat \<Rightarrow> bool \<Rightarrow> chsys \<Rightarrow> chsys option" where
  "chunk_main n ok s =
     (case ch_at s of
        ChCreate i \<Rightarrow>
          if i < n then
            (if ok then Some (wk_at i WkMalloc (s\<lparr>heads := (heads s)(i := []), ch_at := ChCreate (Suc i)\<rparr>))
             else ch_fail ''pthread_create'' s)
          else Some (s\<lparr>ch_at := ChPrinter\<rparr>)
      | ChPrinter \<Rightarrow> if ok then Some (s\<lparr>cc_at := CcJoin 0, ch_at := ChJoin\<rparr>) else ch_fail ''pthread_create'' s
      | ChJoin \<Rightarrow> if cc_at s = CcReturn then Some (s\<lparr>ch_at := ChCheck\<rparr>) else None
      | ChCheck \<Rightarrow>
          if error_line s \<noteq> 0 then Some (ch_say (ErrorAt (error_line s)) (s\<lparr>ch_at := ChExit 1\<rparr>))
          else Some (s\<lparr>ch_at := ChExit 0\<rparr>)
      | ChExit c \<Rightarrow> None)"

definition chunk_program :: "string \<Rightarrow> nat \<Rightarrow> nat \<Rightarrow> chunk_actor \<Rightarrow> chsys \<Rightarrow> chsys option" where
  "chunk_program contents chunk n a s =
     (case ch_at s of ChExit c \<Rightarrow> None
      | _ \<Rightarrow> (case a of Worker t ok \<Rightarrow> thread_work contents chunk t ok s | Concat \<Rightarrow> concat_and_print n s
               | ChunkMain ok \<Rightarrow> chunk_main n ok s))"

definition chunk_start :: chsys where
  "chunk_start = \<lparr>next_chunk = 0, error_line = 0, ch_mutex = None, wk = (\<lambda>_. WkNew), heads = (\<lambda>_. []), cc_at = CcNew,
     cc_list = [], ch_at = ChCreate 0, ch_outs = []\<rparr>"

text \<open>
  \<open>main\<close> up to the threads: \<open>m\<close> chunks are asked for. \<open>None\<close> is a division by zero, of \<open>st_size\<close> by
  \<open>m\<close> or in the threads' first test, \<open>size / chunk\<close>, when the file has fewer than \<open>m\<close> bytes.
\<close>

definition chunk_size :: "string \<Rightarrow> nat \<Rightarrow> nat option" where
  "chunk_size contents m =
     (if m = 0 then None else let chunk = length contents div m in if chunk = 0 then None else Some chunk)"

section \<open>The invariant\<close>

fun in_critical :: "worker_pc \<Rightarrow> bool" where
  "in_critical WkTest = True" | "in_critical WkStart = True" | "in_critical (WkLoad c) = True"
| "in_critical (WkStore c v) = True" | "in_critical (WkUnlock c) = True" | "in_critical WkBreak = True"
| "in_critical (WkErrStore l c) = True" | "in_critical (WkErrUnlock c) = True" | "in_critical _ = False"

text \<open>The chunk that a thread has taken and not yet put into its list; after an error it stays lost.\<close>

fun taken :: "worker_pc \<Rightarrow> nat option" where
  "taken (WkUnlock c) = Some c" | "taken (WkRead c) = Some c" | "taken (WkNode c b) = Some c"
| "taken (WkErrLock l c) = c" | "taken (WkErrStore l c) = c" | "taken (WkErrUnlock c) = c" | "taken (WkFailed c) = c"
| "taken _ = None"

definition share :: "(nat \<Rightarrow> string) \<Rightarrow> chsys \<Rightarrow> nat \<Rightarrow> string multiset" where
  "share text s t = mset (heads s t) + (case taken (wk s t) of None \<Rightarrow> {#} | Some c \<Rightarrow> {#text c#})"

definition wk_ok :: "string \<Rightarrow> nat \<Rightarrow> chsys \<Rightarrow> worker_pc \<Rightarrow> bool" where
  "wk_ok contents chunk s p \<longleftrightarrow> (let count = length contents div chunk; c0 = next_chunk s in case p of
     WkStart \<Rightarrow> c0 < count
   | WkLoad c \<Rightarrow> c = c0 \<and> c0 < count
   | WkStore c v \<Rightarrow> c = c0 \<and> v = c0 \<and> c0 < count
   | WkNode c b \<Rightarrow> b = pread contents chunk (c * chunk)
   | WkBreak \<Rightarrow> count \<le> c0
   | WkPrint ls \<Rightarrow> count \<le> c0
   | WkReturn \<Rightarrow> count \<le> c0
   | WkErrLock l c \<Rightarrow> l \<noteq> 0
   | WkErrStore l c \<Rightarrow> l \<noteq> 0
   | WkErrUnlock c \<Rightarrow> error_line s \<noteq> 0
   | WkFailed c \<Rightarrow> error_line s \<noteq> 0
   | _ \<Rightarrow> True)"

definition final_lines :: "chunk_out list \<Rightarrow> string list" where
  "final_lines os = concat (map (\<lambda>x. case x of FinalLine l \<Rightarrow> [l] | _ \<Rightarrow> []) os)"

definition all_ended :: "nat \<Rightarrow> chsys \<Rightarrow> bool" where
  "all_ended i s \<longleftrightarrow> (\<forall>t < i. wk_ended (wk s t))"

definition lists_of :: "nat \<Rightarrow> chsys \<Rightarrow> string list" where
  "lists_of i s = concat (map (heads s) [0..<i])"

definition concat_ok :: "nat \<Rightarrow> chsys \<Rightarrow> bool" where
  "concat_ok n s \<longleftrightarrow> (case cc_at s of
     CcNew \<Rightarrow> cc_list s = [] \<and> final_lines (ch_outs s) = []
   | CcJoin i \<Rightarrow> i \<le> n \<and> all_ended i s \<and> cc_list s = lists_of i s \<and> final_lines (ch_outs s) = []
   | CcPrint ls \<Rightarrow> all_ended n s \<and> final_lines (ch_outs s) @ ls = lists_of n s
   | CcReturn \<Rightarrow> all_ended n s \<and> final_lines (ch_outs s) = lists_of n s)"

definition chunk_main_ok :: "nat \<Rightarrow> chsys \<Rightarrow> bool" where
  "chunk_main_ok n s \<longleftrightarrow> (case ch_at s of
     ChCreate i \<Rightarrow> cc_at s = CcNew \<and> i \<le> n \<and> (\<forall>t. wk s t = WkNew \<longleftrightarrow> i \<le> t)
   | ChPrinter \<Rightarrow> cc_at s = CcNew \<and> (\<forall>t < n. wk s t \<noteq> WkNew)
   | ChJoin \<Rightarrow> cc_at s \<noteq> CcNew \<and> (\<forall>t < n. wk s t \<noteq> WkNew)
   | ChCheck \<Rightarrow> cc_at s = CcReturn
   | ChExit c \<Rightarrow> c = 0 \<longrightarrow> cc_at s = CcReturn \<and> error_line s = 0)"

definition wk_owner :: "chsys \<Rightarrow> nat \<Rightarrow> bool" where
  "wk_owner s u = (case u of 0 \<Rightarrow> False | Suc t \<Rightarrow> in_critical (wk s t))"

definition chunk_inv :: "string \<Rightarrow> nat \<Rightarrow> nat \<Rightarrow> chsys \<Rightarrow> bool" where
  "chunk_inv contents chunk n s \<longleftrightarrow>
     guards (ch_mutex s) (wk_owner s) \<and> next_chunk s \<le> length contents div chunk
     \<and> (\<forall>t. wk_ok contents chunk s (wk s t)) \<and> (\<forall>t \<ge> n. wk s t = WkNew)
     \<and> (\<forall>t. wk s t = WkNew \<longrightarrow> heads s t = [])
     \<and> (\<Sum>t<n. share (line_of contents chunk) s t) = mset (map (line_of contents chunk) [0..<next_chunk s])
     \<and> concat_ok n s \<and> chunk_main_ok n s"

section \<open>Steps keep the invariant\<close>

lemma wk_frame [simp]:
  "wk (wk_at t p s) = (wk s)(t := p)" "ch_mutex (wk_at t p s) = ch_mutex s" "next_chunk (wk_at t p s) = next_chunk s"
  "heads (wk_at t p s) = heads s" "error_line (wk_at t p s) = error_line s" "cc_at (wk_at t p s) = cc_at s"
  "ch_at (wk_at t p s) = ch_at s" "cc_list (wk_at t p s) = cc_list s" "ch_outs (wk_at t p s) = ch_outs s"
  "wk (ch_say x s) = wk s" "ch_mutex (ch_say x s) = ch_mutex s" "next_chunk (ch_say x s) = next_chunk s"
  "heads (ch_say x s) = heads s" "error_line (ch_say x s) = error_line s" "cc_at (ch_say x s) = cc_at s"
  "ch_at (ch_say x s) = ch_at s" "cc_list (ch_say x s) = cc_list s" "ch_outs (ch_say x s) = ch_outs s @ [x]"
  by (simp_all add: wk_at_def ch_say_def)

lemma wk_owner_Suc: "wk_owner s u \<longleftrightarrow> (\<exists>t. u = Suc t \<and> in_critical (wk s t))"
  by (auto simp: wk_owner_def split: nat.split)

lemma final_lines_snoc: "final_lines (os @ [x]) = final_lines os @ (case x of FinalLine l \<Rightarrow> [l] | _ \<Rightarrow> [])"
  by (simp add: final_lines_def)

lemma print_list_simps [simp]:
  "print_list out [] s = None" "print_list out (l # ls) s = Some (ls, ch_say (out l) s)"
  by (simp_all add: print_list_def)

text \<open>One thread's step touches the other threads' parts of the state nowhere.\<close>

lemma work_frame:
  assumes "thread_work contents chunk t ok s = Some s'"
  shows "(\<forall>u. u \<noteq> t \<longrightarrow> wk s' u = wk s u \<and> heads s' u = heads s u) \<and> cc_at s' = cc_at s \<and> cc_list s' = cc_list s
    \<and> final_lines (ch_outs s') = final_lines (ch_outs s) \<and> \<not> wk_ended (wk s t) \<and> wk s t \<noteq> WkNew \<and> wk s' t \<noteq> WkNew
    \<and> (ch_at s' = ch_at s \<or> ch_at s' = ChExit 1)"
proof (cases "wk s t")
  case (WkPrint ls)
  with assms show ?thesis by (cases ls) (auto simp: thread_work_def wk_ended_def final_lines_snoc)
qed (use assms in \<open>(auto simp: thread_work_def ch_fail_def wk_ended_def final_lines_snoc split: if_splits)[1]\<close>)+

lemma work_guard:
  assumes "guards (ch_mutex s) (wk_owner s)" and "thread_work contents chunk t ok s = Some s'"
  shows "guards (ch_mutex s') (wk_owner s')"
proof -
  have own: "wk_owner s' u \<longleftrightarrow> (if u = Suc t then in_critical (wk s' t) else wk_owner s u)" for u
    using work_frame [OF assms(2)] by (cases u) (auto simp: wk_owner_def)
  have was: "wk_owner s (Suc t) \<longleftrightarrow> in_critical (wk s t)" by (simp add: wk_owner_def)
  have "\<not> in_critical (wk s t) \<and> in_critical (wk s' t) \<and> pthread_mutex_lock (Suc t) (ch_mutex s) = Some (ch_mutex s')
    \<or> in_critical (wk s t) \<and> \<not> in_critical (wk s' t) \<and> ch_mutex s' = pthread_mutex_unlock (Suc t) (ch_mutex s)
    \<or> in_critical (wk s' t) = in_critical (wk s t) \<and> ch_mutex s' = ch_mutex s"
  proof (cases "wk s t")
    case (WkPrint ls)
    then show ?thesis using assms(2) by (cases ls) (auto simp: thread_work_def)
  qed (use assms(2) in \<open>(auto simp: thread_work_def ch_fail_def split: if_splits)[1]\<close>)+
  then show ?thesis unfolding was [symmetric] by (rule guards_step [OF assms(1) own])
qed

lemma work_ok_own:
  assumes "wk_ok contents chunk s (wk s t)" and "thread_work contents chunk t ok s = Some s'"
  shows "wk_ok contents chunk s' (wk s' t)"
proof (cases "wk s t")
  case (WkPrint ls)
  with assms show ?thesis by (cases ls) (auto simp: thread_work_def wk_ok_def Let_def)
qed (use assms in \<open>(auto simp: thread_work_def wk_ok_def Let_def ch_fail_def split: if_splits)[1]\<close>)+

text \<open>The others: \<open>next_chunk\<close> only grows, and nobody is between its load and its store but its owner.\<close>

lemma wk_ok_mono:
  assumes "wk_ok contents chunk s p" and "\<not> in_critical p" and "next_chunk s \<le> next_chunk s'"
    and "error_line s \<noteq> 0 \<Longrightarrow> error_line s' \<noteq> 0"
  shows "wk_ok contents chunk s' p"
  using assms by (cases p) (auto simp: wk_ok_def Let_def)

lemma work_counters:
  assumes "wk_ok contents chunk s (wk s t)" and "thread_work contents chunk t ok s = Some s'"
  shows "(next_chunk s' = next_chunk s \<or> next_chunk s' = Suc (next_chunk s) \<and> in_critical (wk s t)
      \<and> next_chunk s < length contents div chunk)
    \<and> (error_line s' = error_line s \<or> error_line s' \<noteq> 0 \<and> in_critical (wk s t))"
proof (cases "wk s t")
  case (WkPrint ls)
  with assms show ?thesis by (cases ls) (auto simp: thread_work_def)
qed (use assms in \<open>(auto simp: thread_work_def wk_ok_def Let_def ch_fail_def split: if_splits)[1]\<close>)+

lemma wk_ok_same:
  "next_chunk s' = next_chunk s \<Longrightarrow> error_line s' = error_line s \<Longrightarrow> wk_ok contents chunk s' p = wk_ok contents chunk s p"
  by (simp only: wk_ok_def)

lemma work_ok:
  assumes inv: "chunk_inv contents chunk n s" and st: "thread_work contents chunk t ok s = Some s'"
  shows "wk_ok contents chunk s' (wk s' u)"
proof (cases "u = t")
  case True
  then show ?thesis using work_ok_own [OF _ st] inv by (simp add: chunk_inv_def)
next
  case False
  have ok: "wk_ok contents chunk s (wk s v)" for v using inv by (simp add: chunk_inv_def)
  have same: "wk s' u = wk s u" using work_frame [OF st] False by simp
  note cnt = work_counters [OF ok st]
  show ?thesis
  proof (cases "in_critical (wk s t)")
    case True
    have "\<not> in_critical (wk s u)"
    proof
      assume "in_critical (wk s u)"
      moreover have "guards (ch_mutex s) (wk_owner s)" using inv by (simp add: chunk_inv_def)
      ultimately have "Suc u = Suc t"
        using guards_exclusive [of "ch_mutex s" "wk_owner s" "Suc u" "Suc t"] True by (simp add: wk_owner_def)
      with False show False by simp
    qed
    then show ?thesis unfolding same using cnt by (intro wk_ok_mono [OF ok]) auto
  next
    case False
    with cnt have "next_chunk s' = next_chunk s" "error_line s' = error_line s" by blast+
    then have "wk_ok contents chunk s' (wk s u) = wk_ok contents chunk s (wk s u)" by (rule wk_ok_same)
    with ok same show ?thesis by simp
  qed
qed

text \<open>The chunks in the lists and in the threads' hands are the chunks handed out.\<close>

lemma work_parts:
  assumes "wk_ok contents chunk s (wk s t)" and "thread_work contents chunk t ok s = Some s'"
  shows "heads s' t = heads s t \<and> taken (wk s' t) = taken (wk s t) \<and> next_chunk s' = next_chunk s
    \<or> heads s' t = heads s t \<and> taken (wk s t) = None \<and> taken (wk s' t) = Some (next_chunk s) \<and> next_chunk s' = Suc (next_chunk s)
    \<or> (\<exists>c. heads s' t = line_of contents chunk c # heads s t \<and> taken (wk s t) = Some c \<and> taken (wk s' t) = None
        \<and> next_chunk s' = next_chunk s)"
proof (cases "wk s t")
  case (WkPrint ls)
  with assms(2) show ?thesis by (cases ls) (auto simp: thread_work_def)
next
  case (WkStore c v)
  with assms show ?thesis by (auto simp: thread_work_def wk_ok_def Let_def)
next
  case (WkNode c b)
  with assms show ?thesis by (auto simp: thread_work_def wk_ok_def line_of_def ch_fail_def split: if_splits)
qed (use assms(2) in \<open>(auto simp: thread_work_def split: if_splits)[1]\<close>)+

lemma work_own_share:
  assumes "wk_ok contents chunk s (wk s t)" and "thread_work contents chunk t ok s = Some s'"
  shows "share (line_of contents chunk) s' t + mset (map (line_of contents chunk) [0..<next_chunk s])
    = share (line_of contents chunk) s t + mset (map (line_of contents chunk) [0..<next_chunk s'])"
  using work_parts [OF assms] by (elim disjE conjE exE) (simp_all add: share_def)

lemma work_shares:
  assumes inv: "chunk_inv contents chunk n s" and t: "t < n" and st: "thread_work contents chunk t ok s = Some s'"
  shows "(\<Sum>u<n. share (line_of contents chunk) s' u) = mset (map (line_of contents chunk) [0..<next_chunk s'])"
proof -
  let ?f = "share (line_of contents chunk)"
  have "(\<Sum>u<n. ?f s' u) + ?f s t = (\<Sum>u<n. ?f s u) + ?f s' t"
    using work_frame [OF st] by (intro sum_one_changes [OF t]) (simp add: share_def)
  moreover have "(\<Sum>u<n. ?f s u) = mset (map (line_of contents chunk) [0..<next_chunk s])"
    and "wk_ok contents chunk s (wk s t)"
    using inv by (simp_all add: chunk_inv_def)
  ultimately have "(\<Sum>u<n. ?f s' u) + ?f s t = ?f s t + mset (map (line_of contents chunk) [0..<next_chunk s'])"
    using work_own_share [OF _ st] by (metis add.commute)
  then show ?thesis by (metis add.commute add_left_cancel)
qed

lemma work_concat:
  assumes "concat_ok n s" and st: "thread_work contents chunk t ok s = Some s'"
  shows "concat_ok n s'"
proof -
  have keep: "wk s' u = wk s u \<and> heads s' u = heads s u" if "wk_ended (wk s u)" for u
    using that work_frame [OF st] by (cases "u = t") auto
  have "all_ended i s' \<and> lists_of i s' = lists_of i s" if "all_ended i s" for i
    using that keep by (auto simp: all_ended_def lists_of_def intro!: arg_cong [where f = concat])
  with assms(1) work_frame [OF st] show ?thesis by (cases "cc_at s") (auto simp: concat_ok_def)
qed

lemma work_main_ok:
  assumes "chunk_main_ok n s" and st: "thread_work contents chunk t ok s = Some s'" and "\<And>c. ch_at s \<noteq> ChExit c"
  shows "chunk_main_ok n s'"
proof -
  have new: "wk s' u = WkNew \<longleftrightarrow> wk s u = WkNew" for u using work_frame [OF st] by (cases "u = t") auto
  show ?thesis
    using assms(1,3) work_frame [OF st] new
    by (cases "ch_at s"; cases "ch_at s' = ChExit 1") (auto simp: chunk_main_ok_def)
qed

lemma work_inv:
  assumes inv: "chunk_inv contents chunk n s" and st: "thread_work contents chunk t ok s = Some s'"
    and "\<And>c. ch_at s \<noteq> ChExit c"
  shows "chunk_inv contents chunk n s'"
proof -
  have t: "t < n" using work_frame [OF st] inv unfolding chunk_inv_def by (meson not_le)
  have ok: "wk_ok contents chunk s (wk s t)" using inv by (simp add: chunk_inv_def)
  have "wk s' u = WkNew" if "n \<le> u" for u
    using work_frame [OF st] inv t that by (auto simp: chunk_inv_def)
  moreover have "heads s' u = []" if "wk s' u = WkNew" for u
    using work_frame [OF st] inv that by (cases "u = t") (auto simp: chunk_inv_def)
  moreover have "next_chunk s' \<le> length contents div chunk"
    using work_counters [OF ok st] inv by (auto simp: chunk_inv_def)
  ultimately show ?thesis
    using inv work_ok [OF inv st] work_shares [OF inv t st] work_guard [OF _ st] work_concat [OF _ st]
      work_main_ok [OF _ st assms(3)]
    by (simp add: chunk_inv_def)
qed

text \<open>The thread that joins, and the main thread.\<close>

lemma concat_step_inv:
  assumes inv: "chunk_inv contents chunk n s" and st: "concat_and_print n s = Some s'"
  shows "chunk_inv contents chunk n s'"
proof -
  have same: "wk s' = wk s" "heads s' = heads s" "ch_mutex s' = ch_mutex s" "next_chunk s' = next_chunk s"
    "error_line s' = error_line s" "ch_at s' = ch_at s" "cc_at s \<noteq> CcNew" "cc_at s \<noteq> CcReturn"
    using st by (cases "cc_at s"; auto simp: concat_and_print_def print_list_def split: if_splits list.splits)+
  have ok: "concat_ok n s" using inv by (simp add: chunk_inv_def)
  have "concat_ok n s'"
  proof (cases "cc_at s")
    case (CcJoin i)
    show ?thesis
    proof (cases "i < n")
      case True
      with CcJoin st have i: "wk_ended (wk s i)" "s' = s\<lparr>cc_list := cc_list s @ heads s i, cc_at := CcJoin (Suc i)\<rparr>"
        by (auto simp: concat_and_print_def split: if_splits)
      with ok CcJoin True show ?thesis
        by (simp add: concat_ok_def all_ended_def lists_of_def less_Suc_eq)
    next
      case False
      with CcJoin st ok show ?thesis
        by (auto simp: concat_and_print_def concat_ok_def all_ended_def lists_of_def dest: antisym)
    qed
  next
    case (CcPrint ls)
    with st ok show ?thesis
      by (cases ls) (auto simp: concat_and_print_def concat_ok_def all_ended_def lists_of_def final_lines_snoc)
  qed (use same in simp_all)
  moreover have "chunk_main_ok n s'"
  proof -
    have "cc_at s' \<noteq> CcNew" using st by (cases "cc_at s") (auto simp: concat_and_print_def print_list_def split: if_splits list.splits)
    then show ?thesis using inv same by (cases "ch_at s") (auto simp: chunk_inv_def chunk_main_ok_def)
  qed
  moreover have "wk_owner s' = wk_owner s" "share (line_of contents chunk) s' = share (line_of contents chunk) s"
    using same by (auto simp: wk_owner_def share_def fun_eq_iff cong: nat.case_cong)
  moreover have "wk_ok contents chunk s' p = wk_ok contents chunk s p" for p by (rule wk_ok_same) (simp_all add: same)
  ultimately show ?thesis using inv same unfolding chunk_inv_def by simp
qed

lemma chunk_main_frame:
  assumes "chunk_main n ok s = Some s'" and "\<And>i. ch_at s = ChCreate i \<Longrightarrow> n \<le> i \<or> \<not> ok"
  shows "wk s' = wk s" "heads s' = heads s" "ch_mutex s' = ch_mutex s" "next_chunk s' = next_chunk s"
    "error_line s' = error_line s" "cc_list s' = cc_list s" "final_lines (ch_outs s') = final_lines (ch_outs s)"
    "cc_at s' = cc_at s \<or> cc_at s' = CcJoin 0 \<and> ch_at s = ChPrinter"
  using assms by (cases "ch_at s"; force simp: chunk_main_def ch_fail_def final_lines_snoc split: if_splits)+

lemma create_inv:
  assumes inv: "chunk_inv contents chunk n s" and "ch_at s = ChCreate i" and "i < n"
    and s': "s' = wk_at i WkMalloc (s\<lparr>heads := (heads s)(i := []), ch_at := ChCreate (Suc i)\<rparr>)"
  shows "chunk_inv contents chunk n s'"
proof -
  have new: "wk s t = WkNew" if "i \<le> t" for t using inv assms(2) that by (simp add: chunk_inv_def chunk_main_ok_def)
  have hs: "heads s' = heads s" using inv new [of i] by (auto simp: s' chunk_inv_def fun_eq_iff)
  have "wk_owner s' u = wk_owner s u" for u using new [of i] by (cases u) (auto simp: wk_owner_def s')
  moreover have "share f s' t = share f s t" for f t using new [of i] hs by (cases "t = i") (auto simp: share_def s')
  moreover have "wk_ok contents chunk s' (wk s' t)" for t
  proof (cases "t = i")
    case False
    have "wk_ok contents chunk s' (wk s t) = wk_ok contents chunk s (wk s t)" by (rule wk_ok_same) (simp_all add: s')
    with False inv show ?thesis by (simp add: s' chunk_inv_def)
  qed (simp add: s' wk_ok_def Let_def)
  moreover have "cc_at s = CcNew" "concat_ok n s"
    using inv assms(2) by (simp_all add: chunk_inv_def chunk_main_ok_def)
  then have "concat_ok n s'" by (simp add: s' concat_ok_def)
  moreover have "chunk_main_ok n s'"
  proof -
    have "\<forall>t. wk s t = WkNew \<longleftrightarrow> i \<le> t" and "cc_at s = CcNew"
      using inv assms(2) by (simp_all add: chunk_inv_def chunk_main_ok_def)
    moreover have "Suc i \<le> t \<longleftrightarrow> t \<noteq> i \<and> i \<le> t" for t by linarith
    ultimately show ?thesis using assms(3) by (simp add: chunk_main_ok_def s')
  qed
  moreover have "wk s' t = WkNew \<longleftrightarrow> t \<noteq> i \<and> wk s t = WkNew" for t by (simp add: s')
  moreover have "ch_mutex s' = ch_mutex s" "next_chunk s' = next_chunk s" by (simp_all add: s')
  ultimately show ?thesis
    using inv assms(3) hs by (auto simp: chunk_inv_def elim!: guards_same)
qed

lemma chunk_main_inv:
  assumes inv: "chunk_inv contents chunk n s" and st: "chunk_main n ok s = Some s'"
  shows "chunk_inv contents chunk n s'"
proof (cases "\<exists>i. ch_at s = ChCreate i \<and> i < n \<and> ok")
  case True
  then obtain i where "ch_at s = ChCreate i" "i < n" ok by blast
  with st show ?thesis by (intro create_inv [OF inv]) (auto simp: chunk_main_def)
next
  case False
  then have nc: "n \<le> i \<or> \<not> ok" if "ch_at s = ChCreate i" for i using that by auto
  note same = chunk_main_frame(1-7) [OF st nc] and cc = chunk_main_frame(8) [OF st nc]
  have ended: "all_ended i s' = all_ended i s" "lists_of i s' = lists_of i s" for i
    using same by (simp_all add: all_ended_def lists_of_def)
  have ok: "concat_ok n s" "chunk_main_ok n s" using inv by (simp_all add: chunk_inv_def)
  have "concat_ok n s'"
    using cc
  proof
    assume "cc_at s' = cc_at s"
    then show ?thesis using ok(1) same ended by (cases "cc_at s") (auto simp: concat_ok_def)
  next
    assume "cc_at s' = CcJoin 0 \<and> ch_at s = ChPrinter"
    then show ?thesis using ok same by (simp add: concat_ok_def chunk_main_ok_def all_ended_def lists_of_def)
  qed
  moreover have "chunk_main_ok n s'"
    using ok(2) st nc
    by (cases "ch_at s") (auto simp: chunk_main_ok_def chunk_main_def ch_fail_def split: if_splits)
  moreover have "wk_owner s' = wk_owner s" "share (line_of contents chunk) s' = share (line_of contents chunk) s"
    using same by (auto simp: wk_owner_def share_def fun_eq_iff cong: nat.case_cong)
  moreover have "wk_ok contents chunk s' p = wk_ok contents chunk s p" for p by (rule wk_ok_same) (simp_all add: same)
  ultimately show ?thesis using inv same unfolding chunk_inv_def by simp
qed

lemma chunk_program_inv:
  assumes inv: "chunk_inv contents chunk n s" and st: "chunk_program contents chunk n a s = Some s'"
  shows "chunk_inv contents chunk n s'"
proof (cases a)
  case (Worker t ok)
  with st have "thread_work contents chunk t ok s = Some s'" "\<And>c. ch_at s \<noteq> ChExit c"
    by (auto simp: chunk_program_def split: chunk_main.splits)
  then show ?thesis by (rule work_inv [OF inv])
next
  case Concat
  with st show ?thesis by (auto simp: chunk_program_def split: chunk_main.splits intro: concat_step_inv [OF inv])
next
  case (ChunkMain ok)
  with st show ?thesis by (auto simp: chunk_program_def split: chunk_main.splits intro: chunk_main_inv [OF inv])
qed

lemma reachable_chunk_inv:
  assumes "reachable (chunk_program contents chunk n) chunk_start s"
  shows "chunk_inv contents chunk n s"
  using assms
proof (rule reachable_invariant)
  show "chunk_inv contents chunk n chunk_start"
    by (simp add: chunk_inv_def chunk_start_def guards_def wk_owner_def wk_ok_def share_def concat_ok_def
        final_lines_def chunk_main_ok_def split: nat.split)
qed (rule chunk_program_inv)

section \<open>Every run ends\<close>

fun wk_busy :: "worker_pc \<Rightarrow> nat" where
  "wk_busy WkNew = 7" | "wk_busy WkMalloc = 6" | "wk_busy WkLock = 5" | "wk_busy WkTest = 4" | "wk_busy WkStart = 3"
| "wk_busy (WkLoad c) = 2" | "wk_busy (WkStore c v) = 1" | "wk_busy (WkUnlock c) = 10" | "wk_busy (WkRead c) = 9"
| "wk_busy (WkNode c b) = 8" | "wk_busy (WkSay c) = 6" | "wk_busy WkBreak = 3" | "wk_busy (WkErrLock l c) = 4"
| "wk_busy (WkErrStore l c) = 3" | "wk_busy (WkErrUnlock c) = 2" | "wk_busy (WkPrint ls) = 1"
| "wk_busy WkReturn = 0" | "wk_busy (WkFailed c) = 0"

definition wk_left :: "chsys \<Rightarrow> nat \<Rightarrow> nat" where
  "wk_left s t = wk_busy (wk s t) +
     (case wk s t of WkPrint ls \<Rightarrow> length ls | WkReturn \<Rightarrow> 0 | WkFailed c \<Rightarrow> 0 | _ \<Rightarrow> length (heads s t))"

definition workers_left :: "string \<Rightarrow> nat \<Rightarrow> nat \<Rightarrow> chsys \<Rightarrow> nat" where
  "workers_left contents chunk n s = 11 * (length contents div chunk - next_chunk s) + (\<Sum>t<n. wk_left s t)"

definition concat_left :: "nat \<Rightarrow> nat \<Rightarrow> concat_pc \<Rightarrow> nat" where
  "concat_left n k p = (case p of CcNew \<Rightarrow> n + k + 3 | CcJoin i \<Rightarrow> n - i + k + 2
     | CcPrint ls \<Rightarrow> 1 + length ls | CcReturn \<Rightarrow> 0)"

fun ch_main_left :: "nat \<Rightarrow> chunk_main \<Rightarrow> nat" where
  "ch_main_left n (ChCreate i) = n - i + 4" | "ch_main_left n ChPrinter = 3" | "ch_main_left n ChJoin = 2"
| "ch_main_left n ChCheck = 1" | "ch_main_left n (ChExit c) = 0"

definition chunk_left :: "string \<Rightarrow> nat \<Rightarrow> nat \<Rightarrow> chsys \<Rightarrow> nat" where
  "chunk_left contents chunk n s = workers_left contents chunk n s
     + concat_left n (length contents div chunk) (cc_at s) + ch_main_left n (ch_at s)"

lemma work_left_own:
  assumes "wk_ok contents chunk s (wk s t)" and "thread_work contents chunk t ok s = Some s'"
    and "\<And>c. ch_at s \<noteq> ChExit c"
  shows "11 * (length contents div chunk - next_chunk s') + wk_left s' t + ch_main_left n (ch_at s')
    < 11 * (length contents div chunk - next_chunk s) + wk_left s t + ch_main_left n (ch_at s)"
proof (cases "wk s t")
  case (WkPrint ls)
  with assms(2) show ?thesis by (cases ls) (auto simp: thread_work_def wk_left_def)
next
  case (WkStore c v)
  with assms(1,2) show ?thesis by (auto simp: thread_work_def wk_left_def wk_ok_def Let_def)
next
  case (WkNode c b)
  with assms(2,3) show ?thesis
    by (cases "ch_at s") (auto simp: thread_work_def wk_left_def ch_fail_def split: if_splits)
qed (use assms(2) in \<open>(auto simp: thread_work_def wk_left_def split: if_splits)[1]\<close>)+

lemma work_left:
  assumes inv: "chunk_inv contents chunk n s" and st: "thread_work contents chunk t ok s = Some s'"
    and run: "\<And>c. ch_at s \<noteq> ChExit c"
  shows "chunk_left contents chunk n s' < chunk_left contents chunk n s"
proof -
  have t: "t < n" using work_frame [OF st] inv unfolding chunk_inv_def by (meson not_le)
  have "(\<Sum>u<n. wk_left s' u) + wk_left s t = (\<Sum>u<n. wk_left s u) + wk_left s' t"
    using work_frame [OF st] by (intro sum_one_changes [OF t]) (simp add: wk_left_def cong: worker_pc.case_cong)
  moreover have "wk_ok contents chunk s (wk s t)" using inv by (simp add: chunk_inv_def)
  note own = work_left_own [OF this st run, of n]
  moreover have "cc_at s' = cc_at s" using work_frame [OF st] by blast
  ultimately show ?thesis unfolding chunk_left_def workers_left_def by simp
qed

lemma lists_bound:
  assumes inv: "chunk_inv contents chunk n s" and i: "i \<le> n"
  shows "length (lists_of i s) \<le> length contents div chunk"
proof -
  have "length (lists_of i s) = (\<Sum>t<i. size (mset (heads s t)))"
    by (induction i) (simp_all add: lists_of_def)
  also have "\<dots> \<le> (\<Sum>t<i. size (share (line_of contents chunk) s t))" by (intro sum_mono) (simp add: share_def)
  also have "\<dots> \<le> (\<Sum>t<n. size (share (line_of contents chunk) s t))" using i by (intro sum_mono2) auto
  also have "\<dots> = size (\<Sum>t<n. share (line_of contents chunk) s t)" by (induction n) simp_all
  also have "\<dots> = next_chunk s" using inv by (simp add: chunk_inv_def)
  finally show ?thesis using inv by (simp add: chunk_inv_def)
qed

lemma concat_step_left:
  assumes inv: "chunk_inv contents chunk n s" and st: "concat_and_print n s = Some s'"
  shows "chunk_left contents chunk n s' < chunk_left contents chunk n s"
proof -
  have same: "wk s' = wk s" "heads s' = heads s" "next_chunk s' = next_chunk s" "ch_at s' = ch_at s"
    using st by (cases "cc_at s"; auto simp: concat_and_print_def print_list_def split: if_splits list.splits)+
  have "length (cc_list s) \<le> length contents div chunk" if "cc_at s = CcJoin i" for i
    using inv that lists_bound [OF inv, of i] by (simp add: chunk_inv_def concat_ok_def)
  then have "concat_left n (length contents div chunk) (cc_at s') < concat_left n (length contents div chunk) (cc_at s)"
    using st by (cases "cc_at s") (auto simp: concat_and_print_def print_list_def concat_left_def split: if_splits list.splits)
  then show ?thesis
    using same by (simp add: chunk_left_def workers_left_def wk_left_def cong: worker_pc.case_cong)
qed

lemma main_step_left:
  assumes inv: "chunk_inv contents chunk n s" and st: "chunk_main n ok s = Some s'"
  shows "chunk_left contents chunk n s' < chunk_left contents chunk n s"
proof (cases "\<exists>i. ch_at s = ChCreate i \<and> i < n \<and> ok")
  case True
  then obtain i where i: "ch_at s = ChCreate i" "i < n" ok by blast
  with st have s': "s' = wk_at i WkMalloc (s\<lparr>heads := (heads s)(i := []), ch_at := ChCreate (Suc i)\<rparr>)"
    by (auto simp: chunk_main_def)
  have "wk s i = WkNew" using inv i by (simp add: chunk_inv_def chunk_main_ok_def)
  then have "wk_left s' t \<le> wk_left s t" for t
    by (cases "t = i") (simp_all add: s' wk_left_def cong: worker_pc.case_cong)
  then have "(\<Sum>t<n. wk_left s' t) \<le> (\<Sum>t<n. wk_left s t)" by (intro sum_mono)
  moreover have "cc_at s' = cc_at s" "next_chunk s' = next_chunk s" by (simp_all add: s')
  ultimately show ?thesis using i by (simp add: chunk_left_def workers_left_def) (simp add: s')
next
  case False
  then have nc: "n \<le> i \<or> \<not> ok" if "ch_at s = ChCreate i" for i using that by auto
  note same = chunk_main_frame(1-5) [OF st nc] and cc = chunk_main_frame(8) [OF st nc]
  have m: "ch_main_left n (ch_at s') < ch_main_left n (ch_at s)"
    using st nc by (cases "ch_at s") (auto simp: chunk_main_def ch_fail_def split: if_splits)
  have "concat_left n c (cc_at s') \<le> concat_left n c (cc_at s)" for c
    using cc inv by (auto simp: concat_left_def chunk_inv_def chunk_main_ok_def)
  with m show ?thesis
    using same by (simp add: chunk_left_def workers_left_def wk_left_def add_le_less_mono cong: worker_pc.case_cong)
qed

lemma chunk_program_left:
  assumes inv: "chunk_inv contents chunk n s" and st: "chunk_program contents chunk n a s = Some s'"
  shows "chunk_left contents chunk n s' < chunk_left contents chunk n s"
proof (cases a)
  case (Worker t ok)
  with st have "thread_work contents chunk t ok s = Some s'" "\<And>c. ch_at s \<noteq> ChExit c"
    by (auto simp: chunk_program_def split: chunk_main.splits)
  then show ?thesis by (rule work_left [OF inv])
next
  case Concat
  with st show ?thesis by (auto simp: chunk_program_def split: chunk_main.splits intro: concat_step_left [OF inv])
next
  case (ChunkMain ok)
  with st show ?thesis by (auto simp: chunk_program_def split: chunk_main.splits intro: main_step_left [OF inv])
qed

section \<open>Somebody can always go on\<close>

lemma critical_steps: "in_critical (wk s t) \<Longrightarrow> \<exists>s'. thread_work contents chunk t True s = Some s'"
  by (cases "wk s t") (auto simp: thread_work_def)

lemma worker_steps:
  assumes inv: "chunk_inv contents chunk n s" and "wk s t \<noteq> WkNew" and "\<not> wk_ended (wk s t)"
  shows "\<exists>u s'. thread_work contents chunk u True s = Some s'"
proof (cases "thread_work contents chunk t True s")
  case None
  with assms(2,3) have "ch_mutex s \<noteq> None"
    by (cases "wk s t") (auto simp: thread_work_def wk_ended_def lock_blocked split: option.splits if_splits)
  then obtain v where v: "ch_mutex s = Some v" by blast
  have "guards (ch_mutex s) (wk_owner s)" using inv by (simp add: chunk_inv_def)
  with v have "wk_owner s v" by (simp add: guards_def)
  then obtain u where "in_critical (wk s u)" by (auto simp: wk_owner_Suc)
  then show ?thesis using critical_steps by blast
qed blast

lemma chunk_program_steps:
  assumes inv: "chunk_inv contents chunk n s" and run: "\<And>c. ch_at s \<noteq> ChExit c"
  shows "\<exists>a s'. chunk_program contents chunk n a s = Some s'"
proof -
  have ex: "chunk_program contents chunk n a s = (case a of Worker t ok \<Rightarrow> thread_work contents chunk t ok s
      | Concat \<Rightarrow> concat_and_print n s | ChunkMain ok \<Rightarrow> chunk_main n ok s)" for a
    using run by (simp add: chunk_program_def split: chunk_main.splits)
  show ?thesis
  proof (cases "chunk_main n True s")
    case None
    then have join: "ch_at s = ChJoin" "cc_at s \<noteq> CcReturn"
      using run by (cases "ch_at s"; auto simp: chunk_main_def split: if_splits)+
    show ?thesis
    proof (cases "concat_and_print n s")
      case None
      with join inv obtain i where i: "cc_at s = CcJoin i" "i < n" "\<not> wk_ended (wk s i)"
        by (cases "cc_at s") (auto simp: concat_and_print_def chunk_inv_def chunk_main_ok_def split: if_splits option.splits)
      moreover have "wk s i \<noteq> WkNew" using inv join i by (simp add: chunk_inv_def chunk_main_ok_def)
      ultimately obtain u s' where "thread_work contents chunk u True s = Some s'" using worker_steps [OF inv] by blast
      then show ?thesis by (intro exI [of _ "Worker u True"]) (simp add: ex)
    next
      case (Some s')
      then show ?thesis by (intro exI [of _ Concat]) (simp add: ex)
    qed
  next
    case (Some s')
    then show ?thesis by (intro exI [of _ "ChunkMain True"]) (simp add: ex)
  qed
qed

section \<open>Properties\<close>

lemma sum_mset_lists: "(\<Sum>t<n. mset (f t)) = mset (concat (map f [0..<n]))"
  by (induction n) (simp_all add: ac_simps)

text \<open>
  C5. \<open>task.c\<close>: when the program ends without an error, the lines that the last thread has printed
  are a permutation of the chunks of the file: for any number of threads and every schedule each
  chunk has been taken by exactly one thread and no list has been lost.
\<close>

theorem chunks_permuted:
  assumes "0 < n" and "reachable (chunk_program contents chunk n) chunk_start s" and "ch_at s = ChExit 0"
  shows "mset (final_lines (ch_outs s)) = mset (map (line_of contents chunk) [0..<length contents div chunk])"
proof -
  note inv = reachable_chunk_inv [OF assms(2), unfolded chunk_inv_def]
  have cc: "cc_at s = CcReturn" and err: "error_line s = 0"
    using inv assms(3) by (simp_all add: chunk_main_ok_def)
  have fin: "final_lines (ch_outs s) = lists_of n s" and ended: "all_ended n s"
    using inv cc by (simp_all add: concat_ok_def)
  have ret: "wk s t = WkReturn" if "t < n" for t
  proof -
    have "wk_ok contents chunk s (wk s t)" and "wk_ended (wk s t)"
      using inv ended that by (simp_all add: all_ended_def)
    with err show ?thesis by (cases "wk s t") (simp_all add: wk_ok_def Let_def wk_ended_def)
  qed
  have "wk_ok contents chunk s (wk s 0)" using inv by blast
  then have "length contents div chunk \<le> next_chunk s" using ret [OF assms(1)] by (simp add: wk_ok_def Let_def)
  with inv have "next_chunk s = length contents div chunk" by simp
  moreover have "(\<Sum>t<n. share (line_of contents chunk) s t) = mset (lists_of n s)"
    using ret by (simp add: share_def lists_of_def flip: sum_mset_lists)
  ultimately show ?thesis using inv fin by simp
qed

definition two_chunks :: "chunk_actor list" where
  "two_chunks = replicate 4 (ChunkMain True) @ replicate 9 (Worker 0 True) @ replicate 13 (Worker 1 True)
     @ replicate 4 (Worker 0 True) @ replicate 2 (Worker 1 True) @ replicate 2 (Worker 0 True)
     @ replicate 6 Concat @ replicate 2 (ChunkMain True)"

lemma chunks_permuted_witness:
  "\<exists>s. reachable (chunk_program ''abcde'' 2 2) chunk_start s \<and> ch_at s = ChExit 0
    \<and> mset (final_lines (ch_outs s)) = mset [''ab'', ''cd'']"
proof -
  have "map_option ch_at (run (chunk_program ''abcde'' 2 2) two_chunks chunk_start) = Some (ChExit 0)"
    by code_simp
  then obtain s where s: "reachable (chunk_program ''abcde'' 2 2) chunk_start s" "ch_at s = ChExit 0"
    using reachable_obs [of ch_at] by blast
  have "map (line_of ''abcde'' 2) [0..<length ''abcde'' div 2] = [''ab'', ''cd'']" by code_simp
  with chunks_permuted [OF _ s] s show ?thesis by auto
qed

text \<open>
  \<open>task.c\<close>: every run ends. No schedule is longer than twelve steps for each chunk and nine for
  each thread and nine more, and as long as the program has not ended some thread can go on: the
  threads never wait for each other in vain, whichever calls fail.
\<close>

theorem chunks_terminate:
  assumes "run (chunk_program contents chunk n) as chunk_start = Some s"
  shows "length as \<le> 12 * (length contents div chunk) + 9 * n + 7
    \<and> ((\<exists>a s'. chunk_program contents chunk n a s = Some s') \<or> (\<exists>c. ch_at s = ChExit c))"
proof
  have "length as + chunk_left contents chunk n s \<le> chunk_left contents chunk n chunk_start"
  proof (rule run_length_bound [where P = "chunk_inv contents chunk n"])
    show "chunk_inv contents chunk n chunk_start" by (rule reachable_chunk_inv [OF reachable.start])
    show "run (chunk_program contents chunk n) as chunk_start = Some s" by (rule assms)
  qed (blast intro: chunk_program_inv chunk_program_left)
  also have "\<dots> = 12 * (length contents div chunk) + 9 * n + 7"
    by (simp add: chunk_left_def workers_left_def wk_left_def concat_left_def chunk_start_def)
  finally show "length as \<le> 12 * (length contents div chunk) + 9 * n + 7" by simp
  show "(\<exists>a s'. chunk_program contents chunk n a s = Some s') \<or> (\<exists>c. ch_at s = ChExit c)"
    using chunk_program_steps [OF reachable_chunk_inv [OF run_reachable [OF assms]]] by blast
qed

lemma chunks_terminate_witness:
  "\<exists>s. run (chunk_program ''abcde'' 2 2) (take 20 two_chunks) chunk_start = Some s
    \<and> ((\<exists>a s'. chunk_program ''abcde'' 2 2 a s = Some s') \<or> (\<exists>c. ch_at s = ChExit c))"
proof -
  define r where "r = run (chunk_program ''abcde'' 2 2) (take 20 two_chunks) chunk_start"
  have "r \<noteq> None" unfolding r_def by code_simp
  then obtain s where "run (chunk_program ''abcde'' 2 2) (take 20 two_chunks) chunk_start = Some s" by (auto simp: r_def)
  with chunks_terminate [OF this] show ?thesis by auto
qed

lemma my_strdup_id: "CHR 0x00 \<notin> set xs \<Longrightarrow> my_strdup xs = xs"
  unfolding my_strdup_def by (intro takeWhile_eq_all_conv [THEN iffD2]) auto

text \<open>
  \<open>task.c\<close>: what the chunks cover. When the file has no zero bytes, the chunks put together
  are the file without its last \<open>size mod chunk\<close> bytes: these are never read.
\<close>

theorem remainder_lost:
  assumes "CHR 0x00 \<notin> set contents" and "0 < chunk"
  shows "concat (map (line_of contents chunk) [0..<length contents div chunk])
    = take (length contents - length contents mod chunk) contents"
proof -
  have part: "line_of contents chunk c = take chunk (drop (c * chunk) contents)" for c
    using assms(1) unfolding line_of_def pread_def by (intro my_strdup_id) (meson in_set_dropD in_set_takeD)
  have "concat (map (line_of contents chunk) [0..<k]) = take (k * chunk) contents" for k
  proof (induction k)
    case (Suc k)
    have "take (Suc k * chunk) contents = take (k * chunk) contents @ take chunk (drop (k * chunk) contents)"
      by (simp add: take_add [symmetric] add.commute)
    with Suc show ?case by (simp add: part)
  qed simp
  then show ?thesis by (simp add: minus_mod_eq_div_mult)
qed

lemma remainder_lost_witness:
  "concat (map (line_of ''abcde'' 2) [0..<length ''abcde'' div 2]) = ''abcd''"
  using remainder_lost [of "''abcde''" 2] by simp

end
