(* ===== verification/Cells.thy ===== *)
theory Cells
  imports Threads Sockets
begin

text \<open>
  \<open>Lab - 3/example.c\<close>: threads calculate the square roots of an array's cells. A thread draws an
  index and looks for a cell that is not calculated yet, one mutex at a time. No cell is calculated
  twice; but the steps by which the search goes on never try all the cells, so a thread reports
  that all cells are calculated when they are not. \<open>root\<close> stands for \<open>sqrt\<close> rounded to \<open>float\<close>.
\<close>

section \<open>The program\<close>

definition DEFAULTNUMBEROFTHREADS :: int where "DEFAULTNUMBEROFTHREADS = 3"

definition DEFAULTSIZEOFARRAY :: int where "DEFAULTSIZEOFARRAY = 10"

definition ReadArguments3 :: "string list \<Rightarrow> int \<times> int" where
  "ReadArguments3 argv =
     (if length argv = 2 then (atoi (argv ! 1), DEFAULTSIZEOFARRAY)
      else if length argv = 3 then (atoi (argv ! 1), atoi (argv ! 2))
      else (DEFAULTNUMBEROFTHREADS, DEFAULTSIZEOFARRAY))"

text \<open>The position holds the loop's \<open>i\<close> and \<open>index\<close>.\<close>

datatype cell_pc =
  CdNew | CdRand | CdLock nat nat | CdTest nat nat | CdMove nat nat | CdGiveUp nat | CdSay
| CdMark nat | CdStore nat | CdUnlock nat | CdSleep | CdReturn

datatype cell_main = CmCreate nat | CmJoin nat | CmResults nat | CmTasks nat | CmExit

datatype 'f cell_out =
  Randomized nat nat | Sqrt nat int 'f | AllCalculated nat | MainOut | ResultIs "'f option" | TaskIs int | NoThread

datatype cell_actor = Child nat nat | CellMain bool

record 'f cellsys =
  taskArray :: "int list"
  resultArray :: "'f option list"
  calculatedCells :: "int list"
  cell_mutexes :: "nat option list"
  cd :: "nat \<Rightarrow> cell_pc"
  cell_at :: cell_main
  cell_outs :: "'f cell_out list"

definition cd_at :: "nat \<Rightarrow> cell_pc \<Rightarrow> 'f cellsys \<Rightarrow> 'f cellsys" where
  "cd_at t p s = s\<lparr>cd := (cd s)(t := p)\<rparr>"

definition cell_say :: "'f cell_out \<Rightarrow> 'f cellsys \<Rightarrow> 'f cellsys" where
  "cell_say x s = s\<lparr>cell_outs := cell_outs s @ [x]\<rparr>"

text \<open>\<open>r\<close> is the result of \<open>rand_r\<close>, used when the thread draws its index.\<close>

definition child_thread :: "(int \<Rightarrow> 'f) \<Rightarrow> nat \<Rightarrow> nat \<Rightarrow> nat \<Rightarrow> 'f cellsys \<Rightarrow> 'f cellsys option" where
  "child_thread root sz t r s =
     (case cd s t of
        CdNew \<Rightarrow> None
      | CdRand \<Rightarrow> Some (cell_say (Randomized t (r mod sz)) (cd_at t (CdLock 0 (r mod sz)) s))
      | CdLock i index \<Rightarrow>
          map_option (\<lambda>m. cd_at t (if i < sz then CdTest i index else CdGiveUp index)
              (s\<lparr>cell_mutexes := (cell_mutexes s)[index := m]\<rparr>))
            (pthread_mutex_lock (Suc t) (cell_mutexes s ! index))
      | CdTest i index \<Rightarrow>
          Some (cd_at t (if calculatedCells s ! index = 0 then CdMark index else CdMove i index) s)
      | CdMove i index \<Rightarrow>
          Some (cd_at t (CdLock (Suc i) ((index + i) mod sz))
            (s\<lparr>cell_mutexes := (cell_mutexes s)[index := pthread_mutex_unlock (Suc t) (cell_mutexes s ! index)]\<rparr>))
      | CdGiveUp index \<Rightarrow>
          Some (cd_at t CdSay
            (s\<lparr>cell_mutexes := (cell_mutexes s)[index := pthread_mutex_unlock (Suc t) (cell_mutexes s ! index)]\<rparr>))
      | CdSay \<Rightarrow> Some (cell_say (AllCalculated t) (cd_at t CdReturn s))
      | CdMark index \<Rightarrow> Some (cd_at t (CdStore index) (s\<lparr>calculatedCells := (calculatedCells s)[index := -1]\<rparr>))
      | CdStore index \<Rightarrow>
          Some (cell_say (Sqrt index (taskArray s ! index) (root (taskArray s ! index))) (cd_at t (CdUnlock index)
            (s\<lparr>resultArray := (resultArray s)[index := Some (root (taskArray s ! index))]\<rparr>)))
      | CdUnlock index \<Rightarrow>
          Some (cd_at t CdSleep
            (s\<lparr>cell_mutexes := (cell_mutexes s)[index := pthread_mutex_unlock (Suc t) (cell_mutexes s ! index)]\<rparr>))
      | CdSleep \<Rightarrow> Some (cd_at t CdRand s)
      | CdReturn \<Rightarrow> None)"

text \<open>
  \<open>make_children\<close> fills the arrays (\<open>tasks\<close> are the random numbers) and creates the threads; a
  thread that cannot be created is reported and then waited for like the others, here as one that
  has returned.
\<close>

definition make_children :: "int list \<Rightarrow> 'f cellsys" where
  "make_children tasks =
     \<lparr>taskArray = tasks, resultArray = replicate (length tasks) None, calculatedCells = replicate (length tasks) 0,
      cell_mutexes = replicate (length tasks) None, cd = (\<lambda>_. CdNew), cell_at = CmCreate 0, cell_outs = []\<rparr>"

definition cells_main :: "nat \<Rightarrow> bool \<Rightarrow> 'f cellsys \<Rightarrow> 'f cellsys option" where
  "cells_main n ok s =
     (case cell_at s of
        CmCreate i \<Rightarrow>
          if i < n then
            (if ok then Some (cd_at i CdRand (s\<lparr>cell_at := CmCreate (Suc i)\<rparr>))
             else Some (cell_say NoThread (cd_at i CdReturn (s\<lparr>cell_at := CmCreate (Suc i)\<rparr>))))
          else Some (s\<lparr>cell_at := CmJoin 0\<rparr>)
      | CmJoin i \<Rightarrow>
          if i < n then (if cd s i = CdReturn then Some (s\<lparr>cell_at := CmJoin (Suc i)\<rparr>) else None)
          else Some (cell_say MainOut (s\<lparr>cell_at := CmResults 0\<rparr>))
      | CmResults i \<Rightarrow>
          if i < length (taskArray s) then
            Some (cell_say (ResultIs (resultArray s ! i)) (s\<lparr>cell_at := CmResults (Suc i)\<rparr>))
          else Some (s\<lparr>cell_at := CmTasks 0\<rparr>)
      | CmTasks i \<Rightarrow>
          if i < length (taskArray s) then
            Some (cell_say (TaskIs (taskArray s ! i)) (s\<lparr>cell_at := CmTasks (Suc i)\<rparr>))
          else Some (s\<lparr>cell_at := CmExit\<rparr>)
      | CmExit \<Rightarrow> None)"

definition cell_program :: "(int \<Rightarrow> 'f) \<Rightarrow> int list \<Rightarrow> nat \<Rightarrow> cell_actor \<Rightarrow> 'f cellsys \<Rightarrow> 'f cellsys option" where
  "cell_program root tasks n a s =
     (case a of Child t r \<Rightarrow> child_thread root (length tasks) t r s | CellMain ok \<Rightarrow> cells_main n ok s)"

section \<open>The search for a cell\<close>

text \<open>The cells that a search from \<open>index\<close> in round \<open>i\<close> tries when it finds none.\<close>

function probes :: "nat \<Rightarrow> nat \<Rightarrow> nat \<Rightarrow> nat list" where
  "probes sz i index = (if i < sz then index # probes sz (Suc i) ((index + i) mod sz) else [])"
  by pat_completeness auto
termination by (relation "measure (\<lambda>(sz, i, index). sz - i)") auto

declare probes.simps [simp del]

lemma length_probes: "length (probes sz i index) = sz - i"
  by (induction sz i index rule: probes.induct) (subst probes.simps, simp add: Suc_diff_Suc)

lemma probes_range: "index < sz \<Longrightarrow> set (probes sz i index) \<subseteq> {..<sz}"
proof (induction sz i index rule: probes.induct)
  case (1 sz i index)
  then show ?case by (subst probes.simps) auto
qed

text \<open>The first move is by 0 cells: two of the probes are the same, so one cell is never tried.\<close>

lemma probes_miss:
  assumes "1 < sz" and "index < sz"
  shows "\<exists>j < sz. j \<notin> set (probes sz 0 index)"
proof -
  have two: "probes sz 0 index = index # index # probes sz 2 ((index + 1) mod sz)"
    using assms by (subst probes.simps, subst probes.simps) (simp add: numeral_2_eq_2)
  have "card (set (probes sz 0 index)) \<le> length (index # probes sz 2 ((index + 1) mod sz))"
    unfolding two using card_length [of "index # probes sz 2 ((index + 1) mod sz)"] by simp
  also have "\<dots> < sz" using assms(1) by (simp add: length_probes)
  finally have "card (set (probes sz 0 index)) < card {..<sz}" by simp
  then have "\<not> {..<sz} \<subseteq> set (probes sz 0 index)"
    by (meson List.finite_set card_mono not_le)
  then show ?thesis by auto
qed

section \<open>The invariant\<close>

fun holds_cell :: "nat \<Rightarrow> cell_pc \<Rightarrow> bool" where
  "holds_cell j (CdTest i k) = (k = j)" | "holds_cell j (CdMove i k) = (k = j)" | "holds_cell j (CdGiveUp k) = (k = j)"
| "holds_cell j (CdMark k) = (k = j)" | "holds_cell j (CdStore k) = (k = j)" | "holds_cell j (CdUnlock k) = (k = j)"
| "holds_cell j _ = False"

definition cd_owner :: "'f cellsys \<Rightarrow> nat \<Rightarrow> nat \<Rightarrow> bool" where
  "cd_owner s j u = (case u of 0 \<Rightarrow> False | Suc t \<Rightarrow> holds_cell j (cd s t))"

definition sqrts_of :: "nat \<Rightarrow> 'f cell_out list \<Rightarrow> (int \<times> 'f) list" where
  "sqrts_of j os = concat (map (\<lambda>x. case x of Sqrt k v r \<Rightarrow> if k = j then [(v, r)] else [] | _ \<Rightarrow> []) os)"

fun in_array :: "nat \<Rightarrow> cell_pc \<Rightarrow> bool" where
  "in_array sz (CdLock i k) = (k < sz)" | "in_array sz (CdTest i k) = (k < sz \<and> i < sz)" | "in_array sz (CdMove i k) = (k < sz)"
| "in_array sz (CdGiveUp k) = (k < sz)" | "in_array sz (CdMark k) = (k < sz)" | "in_array sz (CdStore k) = (k < sz)"
| "in_array sz (CdUnlock k) = (k < sz)" | "in_array sz _ = True"

text \<open>A cell is untouched, claimed by the one thread that is about to store it, or stored and shown once.\<close>

definition cell_ok :: "(int \<Rightarrow> 'f) \<Rightarrow> 'f cellsys \<Rightarrow> nat \<Rightarrow> bool" where
  "cell_ok root s j \<longleftrightarrow> (let v = taskArray s ! j in
     (if calculatedCells s ! j = 0 then resultArray s ! j = None \<and> sqrts_of j (cell_outs s) = [] \<and> (\<forall>t. cd s t \<noteq> CdStore j)
      else calculatedCells s ! j = -1 \<and> (\<forall>t. cd s t \<noteq> CdMark j)
        \<and> (if \<exists>t. cd s t = CdStore j then resultArray s ! j = None \<and> sqrts_of j (cell_outs s) = []
           else resultArray s ! j = Some (root v) \<and> sqrts_of j (cell_outs s) = [(v, root v)])))"

definition cell_inv :: "(int \<Rightarrow> 'f) \<Rightarrow> int list \<Rightarrow> 'f cellsys \<Rightarrow> bool" where
  "cell_inv root tasks s \<longleftrightarrow> taskArray s = tasks \<and> length (resultArray s) = length tasks
     \<and> length (calculatedCells s) = length tasks \<and> length (cell_mutexes s) = length tasks
     \<and> (\<forall>t. in_array (length tasks) (cd s t))
     \<and> (\<forall>j < length tasks. guards (cell_mutexes s ! j) (cd_owner s j)) \<and> (\<forall>j < length tasks. cell_ok root s j)
     \<and> (\<forall>i t. cell_at s = CmCreate i \<and> i \<le> t \<longrightarrow> cd s t = CdNew)"

section \<open>Steps keep the invariant\<close>

lemma cd_frame [simp]:
  "cd (cd_at t p s) = (cd s)(t := p)" "taskArray (cd_at t p s) = taskArray s" "resultArray (cd_at t p s) = resultArray s"
  "calculatedCells (cd_at t p s) = calculatedCells s" "cell_mutexes (cd_at t p s) = cell_mutexes s"
  "cell_outs (cd_at t p s) = cell_outs s" "cell_at (cd_at t p s) = cell_at s"
  "cd (cell_say x s) = cd s" "taskArray (cell_say x s) = taskArray s" "resultArray (cell_say x s) = resultArray s"
  "calculatedCells (cell_say x s) = calculatedCells s" "cell_mutexes (cell_say x s) = cell_mutexes s"
  "cell_outs (cell_say x s) = cell_outs s @ [x]" "cell_at (cell_say x s) = cell_at s"
  by (simp_all add: cd_at_def cell_say_def)

lemma sqrts_of_snoc:
  "sqrts_of j (os @ [x]) = sqrts_of j os @ (case x of Sqrt k v r \<Rightarrow> if k = j then [(v, r)] else [] | _ \<Rightarrow> [])"
  by (simp add: sqrts_of_def)

lemma child_guards:
  assumes g: "guards (cell_mutexes s ! j) (cd_owner s j)" and j: "j < length (cell_mutexes s)"
    and st: "child_thread root sz t r s = Some s'"
  shows "guards (cell_mutexes s' ! j) (cd_owner s' j)"
proof -
  have "u \<noteq> t \<Longrightarrow> cd s' u = cd s u" for u
    using st by (cases "cd s t") (auto simp: child_thread_def)
  then have own: "cd_owner s' j u \<longleftrightarrow> (if u = Suc t then holds_cell j (cd s' t) else cd_owner s j u)" for u
    by (cases u) (auto simp: cd_owner_def)
  have was: "cd_owner s j (Suc t) \<longleftrightarrow> holds_cell j (cd s t)" by (simp add: cd_owner_def)
  have "\<not> holds_cell j (cd s t) \<and> holds_cell j (cd s' t)
        \<and> pthread_mutex_lock (Suc t) (cell_mutexes s ! j) = Some (cell_mutexes s' ! j)
    \<or> holds_cell j (cd s t) \<and> \<not> holds_cell j (cd s' t)
        \<and> cell_mutexes s' ! j = pthread_mutex_unlock (Suc t) (cell_mutexes s ! j)
    \<or> holds_cell j (cd s' t) = holds_cell j (cd s t) \<and> cell_mutexes s' ! j = cell_mutexes s ! j"
  proof (cases "cd s t")
    case (CdLock i k)
    with st j show ?thesis by (cases "k = j") (auto simp: child_thread_def split: if_splits)
  next
    case (CdMove i k)
    with st j show ?thesis by (cases "k = j") (auto simp: child_thread_def)
  next
    case (CdGiveUp k)
    with st j show ?thesis by (cases "k = j") (auto simp: child_thread_def)
  next
    case (CdUnlock k)
    with st j show ?thesis by (cases "k = j") (auto simp: child_thread_def)
  qed (use st in \<open>(auto simp: child_thread_def split: if_splits)[1]\<close>)+
  then show ?thesis unfolding was [symmetric] by (rule guards_step [OF g own])
qed

lemma child_frame:
  assumes inv: "cell_inv root tasks s" and st: "child_thread root (length tasks) t r s = Some s'" and "tasks \<noteq> []"
  shows "taskArray s' = tasks \<and> length (resultArray s') = length tasks \<and> length (calculatedCells s') = length tasks
    \<and> length (cell_mutexes s') = length tasks \<and> in_array (length tasks) (cd s' u)
    \<and> cell_at s' = cell_at s \<and> (cd s u = CdNew \<longrightarrow> cd s' u = CdNew)"
proof -
  have ok: "in_array (length tasks) (cd s v)" for v using inv by (simp add: cell_inv_def)
  have len: "taskArray s = tasks" "length (resultArray s) = length tasks" "length (calculatedCells s) = length tasks"
    "length (cell_mutexes s) = length tasks" and pos: "0 < length tasks"
    using inv assms(3) by (simp_all add: cell_inv_def)
  have "taskArray s' = tasks \<and> length (resultArray s') = length tasks \<and> length (calculatedCells s') = length tasks
    \<and> length (cell_mutexes s') = length tasks \<and> (u \<noteq> t \<longrightarrow> cd s' u = cd s u) \<and> cell_at s' = cell_at s
    \<and> cd s t \<noteq> CdNew"
    using st len by (cases "cd s t") ((auto simp: child_thread_def)[1])+
  moreover have "in_array (length tasks) (cd s' t)"
    using st ok [of t] pos by (cases "cd s t") ((auto simp: child_thread_def split: if_splits)[1])+
  ultimately show ?thesis using ok by (cases "u = t") auto
qed

lemma child_cell:
  assumes inv: "cell_inv root tasks s" and j: "j < length tasks"
    and st: "child_thread root (length tasks) t r s = Some s'"
  shows "cell_ok root s' j"
proof -
  have ok: "cell_ok root s j" and len: "length (calculatedCells s) = length tasks" "length (resultArray s) = length tasks"
    using inv j by (simp_all add: cell_inv_def)
  have excl: "u = v" if "holds_cell j (cd s u)" "holds_cell j (cd s v)" for u v
    using inv j that guards_exclusive [of "cell_mutexes s ! j" "cd_owner s j" "Suc u" "Suc v"]
    by (simp add: cell_inv_def cd_owner_def)
  show ?thesis
  proof (cases "cd s t = CdMark j \<or> cd s t = CdStore j \<or> (\<exists>i. cd s t = CdTest i j)")
    case True
    then have alone: "cd s u \<noteq> CdStore j \<and> cd s u \<noteq> CdMark j" if "u \<noteq> t" for u
      using excl [of u t] that by auto
    from True show ?thesis
    proof (elim disjE exE)
      assume "cd s t = CdMark j"
      with st ok alone j len show ?thesis
        by (auto simp: child_thread_def cell_ok_def Let_def split: if_splits)
    next
      assume "cd s t = CdStore j"
      with st ok alone j len show ?thesis
        by (auto simp: child_thread_def cell_ok_def Let_def sqrts_of_snoc split: if_splits)
    next
      fix i
      assume at: "cd s t = CdTest i j"
      then have "\<forall>u. cd s u \<noteq> CdStore j \<and> cd s u \<noteq> CdMark j" using alone by (metis cell_pc.distinct)
      with at st ok show ?thesis
        by (auto simp: child_thread_def cell_ok_def Let_def split: if_splits)
    qed
  next
    case False
    then have "calculatedCells s' ! j = calculatedCells s ! j \<and> resultArray s' ! j = resultArray s ! j
        \<and> sqrts_of j (cell_outs s') = sqrts_of j (cell_outs s) \<and> taskArray s' = taskArray s
        \<and> (\<forall>u. (cd s' u = CdStore j) = (cd s u = CdStore j) \<and> (cd s' u = CdMark j) = (cd s u = CdMark j))"
      using st by (cases "cd s t") ((auto simp: child_thread_def sqrts_of_snoc split: if_splits)[1])+
    with ok show ?thesis by (simp add: cell_ok_def Let_def)
  qed
qed

lemma cells_main_inv:
  assumes inv: "cell_inv root tasks s" and st: "cells_main n ok s = Some s'"
  shows "cell_inv root tasks s'"
proof -
  have same: "cell_mutexes s' = cell_mutexes s" "calculatedCells s' = calculatedCells s" "resultArray s' = resultArray s"
    "taskArray s' = taskArray s" "sqrts_of j (cell_outs s') = sqrts_of j (cell_outs s)"
    "cd s' t \<noteq> cd s t \<Longrightarrow> cd s t = CdNew \<and> (cd s' t = CdRand \<or> cd s' t = CdReturn)"
    "cell_at s' = CmCreate i \<Longrightarrow> i \<le> t \<Longrightarrow> cd s' t = CdNew" for j t i
    using st inv by (cases "cell_at s"; auto simp: cells_main_def cell_inv_def sqrts_of_snoc split: if_splits)+
  have holds: "holds_cell j (cd s' t) = holds_cell j (cd s t)" "cd s' t = CdStore j \<longleftrightarrow> cd s t = CdStore j"
    "cd s' t = CdMark j \<longleftrightarrow> cd s t = CdMark j" for j t
    using same(6) [of t] by (cases "cd s' t = cd s t"; auto)+
  have "in_array (length tasks) (cd s' t)" for t
    using same(6) [of t] inv by (cases "cd s' t = cd s t") (auto simp: cell_inv_def)
  moreover have "cd_owner s' j = cd_owner s j" for j
    using holds(1) by (auto simp: cd_owner_def fun_eq_iff split: nat.split)
  moreover have "cell_ok root s' j = cell_ok root s j" for j
    unfolding cell_ok_def holds same(1-5) ..
  ultimately show ?thesis using inv same unfolding cell_inv_def by simp
qed

lemma cell_program_inv:
  assumes inv: "cell_inv root tasks s" and ne: "tasks \<noteq> []" and st: "cell_program root tasks n a s = Some s'"
  shows "cell_inv root tasks s'"
proof (cases a)
  case (Child t r)
  with st have c: "child_thread root (length tasks) t r s = Some s'" by (simp add: cell_program_def)
  have len: "length (cell_mutexes s) = length tasks" using inv by (simp add: cell_inv_def)
  have g: "guards (cell_mutexes s' ! j) (cd_owner s' j)" if "j < length tasks" for j
    using child_guards [OF _ _ c, of j] inv that len by (simp add: cell_inv_def)
  have new: "cd s' u = CdNew" if "cell_at s' = CmCreate i" "i \<le> u" for i u
    using that child_frame [OF inv c ne] inv by (auto simp: cell_inv_def)
  show ?thesis
    unfolding cell_inv_def using child_frame [OF inv c ne] child_cell [OF inv _ c] g new by blast
next
  case (CellMain ok)
  with st show ?thesis by (simp add: cell_program_def cells_main_inv [OF inv])
qed

lemma make_children_inv: "cell_inv root tasks (make_children tasks)"
  by (simp add: cell_inv_def make_children_def guards_def cd_owner_def cell_ok_def sqrts_of_def split: nat.split)

section \<open>A thread that gives up too early\<close>

text \<open>Thread 0 alone, between two draws, with all mutexes free.\<close>

definition free_run :: "int list \<Rightarrow> nat list \<Rightarrow> 'f cellsys \<Rightarrow> bool" where
  "free_run tasks ks s \<longleftrightarrow> cd s 0 = CdRand \<and> taskArray s = tasks \<and> length (calculatedCells s) = length tasks
     \<and> cell_mutexes s = replicate (length tasks) None
     \<and> (\<forall>j < length tasks. calculatedCells s ! j = (if j \<in> set ks then -1 else 0))"

lemma calculate_one:
  assumes "free_run tasks ks s" and "k < length tasks" and "k \<notin> set ks"
  shows "\<exists>s'. run (cell_program root tasks n) (replicate 7 (Child 0 k)) s = Some s' \<and> free_run tasks (ks @ [k]) s'"
proof -
  have upd: "(replicate m (None :: nat option))[k := None] = replicate m None" for m
    by (metis list_update_id list_update_beyond not_le nth_replicate length_replicate)
  have ne: "tasks \<noteq> []" and fr: "cd s 0 = CdRand" "length (calculatedCells s) = length tasks"
    "cell_mutexes s = replicate (length tasks) None" "calculatedCells s ! k = 0"
    using assms by (auto simp: free_run_def)
  obtain s' where s': "run (cell_program root tasks n) (replicate 7 (Child 0 k)) s = Some s'"
    "cd s' 0 = CdRand" "taskArray s' = taskArray s" "cell_mutexes s' = replicate (length tasks) None"
    "calculatedCells s' = (calculatedCells s)[k := -1]"
    using assms(2) fr ne
    by (simp add: numeral_eq_Suc cell_program_def child_thread_def lock_free pthread_mutex_unlock_def upd)
  have "free_run tasks (ks @ [k]) s'"
    using assms s'(2-) fr(2) by (auto simp: free_run_def nth_list_update)
  with s'(1) show ?thesis by blast
qed

lemma calculate_all:
  assumes "free_run tasks ks s" and "distinct (ks @ js)" and "set js \<subseteq> {..<length tasks}"
  shows "\<exists>as s'. run (cell_program root tasks n) as s = Some s' \<and> free_run tasks (ks @ js) s'"
  using assms
proof (induction js arbitrary: ks s)
  case Nil
  then show ?case by (intro exI [of _ "[]"]) simp
next
  case (Cons k js)
  obtain u where u: "run (cell_program root tasks n) (replicate 7 (Child 0 k)) s = Some u" "free_run tasks (ks @ [k]) u"
    using calculate_one [OF Cons.prems(1), of k root n] Cons.prems(2,3) by auto
  then obtain as v where "run (cell_program root tasks n) as u = Some v" "free_run tasks ((ks @ [k]) @ js) v"
    using Cons.IH [OF u(2)] Cons.prems(2,3) by auto
  with run_appendI [OF u(1)] show ?case by (metis append.assoc append_Cons append_Nil)
qed

text \<open>A search all of whose probes are calculated.\<close>

lemma search_fails:
  assumes "cell_mutexes s = replicate sz None" and "length tasks = sz" and "cd s 0 = CdLock i index" and "index < sz"
    and "\<forall>j \<in> set (probes sz i index). calculatedCells s ! j \<noteq> 0" and "i \<le> sz"
  shows "\<exists>as s'. run (cell_program root tasks n) as s = Some s' \<and> AllCalculated 0 \<in> set (cell_outs s')
    \<and> calculatedCells s' = calculatedCells s"
  using assms
proof (induction sz i index arbitrary: s rule: probes.induct)
  case (1 sz i index)
  have upd: "(replicate sz (None :: nat option))[index := None] = replicate sz None"
    by (metis list_update_id list_update_beyond not_le nth_replicate length_replicate)
  show ?case
  proof (cases "i < sz")
    case True
    have "calculatedCells s ! index \<noteq> 0" using 1(6) True by (subst (asm) probes.simps) simp
    then obtain u where u: "run (cell_program root tasks n) (replicate 3 (Child 0 0)) s = Some u"
      "cell_mutexes u = replicate sz None" "cd u 0 = CdLock (Suc i) ((index + i) mod sz)"
      "calculatedCells u = calculatedCells s"
      using 1(2-5) True
      by (simp add: numeral_eq_Suc cell_program_def child_thread_def lock_free pthread_mutex_unlock_def upd)
    have "\<forall>j \<in> set (probes sz (Suc i) ((index + i) mod sz)). calculatedCells u ! j \<noteq> 0"
      using 1(6) True u(4) by (subst (asm) probes.simps) simp
    then obtain as v where "run (cell_program root tasks n) as u = Some v" "AllCalculated 0 \<in> set (cell_outs v)"
      "calculatedCells v = calculatedCells u"
      using 1(1) [OF True u(2) 1(3) u(3)] True by auto
    with run_appendI [OF u(1)] u(4) show ?thesis by metis
  next
    case False
    with 1(2-5,7) show ?thesis
      by (intro exI [of _ "replicate 3 (Child 0 0)"])
        (simp add: numeral_eq_Suc cell_program_def child_thread_def lock_free cell_say_def)
  qed
qed

section \<open>Properties\<close>

text \<open>
  \<open>example.c\<close> of lab 3: for any number of threads and every schedule, each cell is calculated at
  most once, what a calculation shows and stores is the root of that cell's task, and a cell that
  is not marked has no result.
\<close>

theorem cells_calculated_once:
  assumes "tasks \<noteq> []" and "reachable (cell_program root tasks n) (make_children tasks) s" and "j < length tasks"
  shows "(sqrts_of j (cell_outs s) = [] \<and> resultArray s ! j = None
      \<or> sqrts_of j (cell_outs s) = [(tasks ! j, root (tasks ! j))] \<and> resultArray s ! j = Some (root (tasks ! j)))
    \<and> (calculatedCells s ! j = 0 \<longrightarrow> resultArray s ! j = None)"
proof -
  from assms(2) have "cell_inv root tasks s"
    by (rule reachable_invariant) (rule make_children_inv, rule cell_program_inv [OF _ assms(1)])
  then have "cell_ok root s j" and "taskArray s = tasks" using assms(3) by (simp_all add: cell_inv_def)
  then show ?thesis unfolding cell_ok_def Let_def by (metis (full_types))
qed

lemma cells_calculated_once_witness:
  "\<exists>s. reachable (cell_program id [16, 25] 2) (make_children [16, 25]) s \<and> sqrts_of 1 (cell_outs s) = [(25, id 25)]"
proof -
  have "map_option (\<lambda>s. sqrts_of 1 (cell_outs s))
      (run (cell_program id [16, 25] 2) (replicate 3 (CellMain True) @ replicate 6 (Child 1 1)) (make_children [16, 25]))
      = Some [(25, 25)]" by code_simp
  then obtain s where s: "reachable (cell_program id [16, 25] 2) (make_children [16, 25]) s"
    "sqrts_of 1 (cell_outs s) = [(25, 25)]"
    using reachable_obs [of "\<lambda>s. sqrts_of 1 (cell_outs s)"] by blast
  with cells_calculated_once [OF _ s(1), of 1] show ?thesis by auto
qed

text \<open>
  \<open>example.c\<close> of lab 3: for every array of two or more cells and any number of threads there is
  a run in which a thread reports that all cells are calculated while one is not: the first move of
  a search is by zero cells, so its probes never reach all of them.
\<close>

theorem gives_up_too_early:
  assumes "2 \<le> length tasks" and "0 < n"
  shows "\<exists>s j. reachable (cell_program root tasks n) (make_children tasks) s \<and> AllCalculated 0 \<in> set (cell_outs s)
    \<and> j < length tasks \<and> calculatedCells s ! j = 0"
proof -
  let ?run = "run (cell_program root tasks n)" and ?sz = "length tasks"
  have pos: "1 < ?sz" "0 < ?sz" using assms(1) by linarith+
  obtain j where j: "j < ?sz" "j \<notin> set (probes ?sz 0 0)" using probes_miss [OF pos] by blast
  obtain s where s: "?run [CellMain True] (make_children tasks) = Some s" "free_run tasks [] s"
    using assms by (auto simp: cell_program_def make_children_def cells_main_def free_run_def)
  define ks where "ks = filter (\<lambda>k. k \<noteq> j) [0..<?sz]"
  obtain as u where u: "?run as s = Some u" "free_run tasks ([] @ ks) u"
    using calculate_all [OF s(2), of ks root n] by (auto simp: ks_def)
  obtain v where v: "?run [Child 0 0] u = Some v" "cd v 0 = CdLock 0 0" "cell_mutexes v = replicate ?sz None"
    "calculatedCells v = calculatedCells u"
    using u(2) by (simp add: cell_program_def child_thread_def free_run_def)
  have mark: "calculatedCells v ! k = (if k = j then 0 else -1)" if "k < ?sz" for k
    using u(2) v(4) that by (auto simp: free_run_def ks_def)
  have "calculatedCells v ! k \<noteq> 0" if "k \<in> set (probes ?sz 0 0)" for k
  proof -
    have "k < ?sz" using that probes_range [OF pos(2), of 0] by auto
    then show ?thesis using mark j that by auto
  qed
  then obtain bs w where w: "?run bs v = Some w" "AllCalculated 0 \<in> set (cell_outs w)" "calculatedCells w = calculatedCells v"
    using search_fails [OF v(3) refl v(2) pos(2) _ le0, of root n] by blast
  have "reachable (cell_program root tasks n) (make_children tasks) w"
    using run_appendI [OF s(1) run_appendI [OF u(1) run_appendI [OF v(1) w(1)]]] by (rule run_reachable)
  moreover have "calculatedCells w ! j = 0" using w(3) mark [OF j(1)] by simp
  ultimately show ?thesis using w(2) j(1) by blast
qed

lemma gives_up_too_early_witness:
  "\<exists>s j. reachable (cell_program id [16, 25] 2) (make_children [16, 25]) s \<and> AllCalculated 0 \<in> set (cell_outs s)
    \<and> j < 2 \<and> calculatedCells s ! j = 0"
  using gives_up_too_early [of "[16, 25]" 2 id] by (simp add: numeral_2_eq_2)

end
