(* ===== verification/Frames.thy ===== *)
theory Frames
  imports Fifos
begin

text \<open>
  \<open>Lab - 5/Tutorial/Pipe/prog22a.c\<close>: on SIGINT the parent sends a letter to a random child; the child
  answers on a pipe that all children share with a frame, a byte with the length and then so many
  times the letter; the parent prints the frames. A signal reaches a process in one of its calls:
  the reply \<open>Caught\<close> says that its handler has run.
\<close>

section \<open>The program\<close>

definition MAX_BUFF :: int where "MAX_BUFF = 200"

definition SIGCHLD :: int where "SIGCHLD = 17"

text \<open>\<open>sig_killme\<close> ends the child with probability 1/5; otherwise the interrupted call is repeated.\<close>

definition sig_killme :: "reply \<Rightarrow> unit io" where
  "sig_killme r =
     (if r = Caught SIGINT
      then bind (sys Rand []) (\<lambda>d. if val_of d mod 5 = 0 then exit_with 0 else return ())
      else return ())"

definition retry_killme :: "call \<Rightarrow> arg list \<Rightarrow> reply io" where
  "retry_killme name args =
     loop (\<lambda>u. bind (sys name args) (\<lambda>r.
       if interrupted r then bind (sig_killme r) (\<lambda>_. return (Inl ())) else return (Inr r))) ()"

definition frame :: "int \<Rightarrow> nat \<Rightarrow> int list" where
  "frame c s = int s # replicate s c"

definition child_work :: "int \<Rightarrow> int \<Rightarrow> unit io" where
  "child_work fd R =
     bind (sethandler ''sig_killme'' SIGINT) (\<lambda>r.
     bind (if r \<noteq> 0 then err ''Setting SIGINT handler in child'' else return ()) (\<lambda>_.
     loop (\<lambda>u.
       bind (retry_killme Read [I fd, I 1]) (\<lambda>r.
       case bytes_of 1 r of
         [] \<Rightarrow> err ''read''
       | c # _ \<Rightarrow>
           bind (sys Rand []) (\<lambda>d.
           let s = nat (1 + val_of d mod MAX_BUFF) in
           bind (retry_killme Write [I R, B (frame c s)]) (\<lambda>w.
           if failed w then err ''write to R'' else return (Inl ()))))) ()))"

text \<open>The parent's handler notes SIGINT in \<open>last_signal\<close>; that of SIGCHLD only collects children.\<close>

definition noted :: "reply \<Rightarrow> int \<Rightarrow> int" where
  "noted r l = (if r = Caught SIGINT then SIGINT else l)"

definition retry_noting :: "int \<Rightarrow> call \<Rightarrow> arg list \<Rightarrow> (reply \<times> int) io" where
  "retry_noting last_signal name args =
     loop (\<lambda>l. bind (sys name args) (\<lambda>r.
       if interrupted r then return (Inl (noted r l)) else return (Inr (r, l)))) last_signal"

text \<open>\<open>while (0 == fds[i % n] && i < 2 * n) i++;\<close>\<close>

function next_open :: "int list \<Rightarrow> nat \<Rightarrow> nat" where
  "next_open fds i =
     (if fds ! (i mod length fds) = 0 \<and> i < 2 * length fds then next_open fds (Suc i) else i)"
  by pat_completeness auto
termination by (relation "measure (\<lambda>(fds, i). 2 * length fds - i)") auto

declare next_open.simps [simp del]

text \<open>The part of the parent's loop that serves SIGINT; signals that come meanwhile are forgotten.\<close>

definition send_letter :: "int list \<Rightarrow> int list io" where
  "send_letter fds =
     bind (sys Rand []) (\<lambda>d.
     let i = next_open fds (nat (val_of d mod int (length fds))) mod length fds in
     if fds ! i = 0 then return fds
     else bind (sys Rand []) (\<lambda>d.
       let c = 97 + val_of d mod 25 in
       bind (retry Write [I (fds ! i), B [c]]) (\<lambda>status.
       if val_of status = 1 then return fds
       else bind (retry Close [I (fds ! i)]) (\<lambda>r.
         if val_of r \<noteq> 0 then err ''close'' else return (fds[i := 0])))))"

text \<open>The text of a frame is printed up to its first zero; \<open>buf\<close> has room for 199 letters and the zero.\<close>

definition print_frame :: "int list \<Rightarrow> unit io" where
  "print_frame bs = say ''%s'' [B (takeWhile (\<lambda>b. b \<noteq> 0) bs)]"

definition parent_round :: "int \<Rightarrow> int list \<times> int \<Rightarrow> (int list \<times> int + int list) io" where
  "parent_round R = (\<lambda>(fds, last_signal).
     bind (if last_signal = SIGINT then send_letter fds else return fds) (\<lambda>fds.
     let last_signal = (if last_signal = SIGINT then 0 else last_signal) in
     bind (sys Read [I R, I 1]) (\<lambda>r.
     if interrupted r then return (Inl (fds, noted r last_signal))
     else if failed r then err ''read header from R''
     else case bytes_of 1 r of
       [] \<Rightarrow> return (Inr fds)
     | b # _ \<Rightarrow>
         let c = b mod 256 in
         if MAX_BUFF < c then undefined_behaviour
         else bind (retry_noting last_signal Read [I R, I c]) (\<lambda>(r, last_signal).
           let bs = bytes_of (nat c) r in
           if int (length bs) < c then err ''read data from R''
           else if c = MAX_BUFF then undefined_behaviour
           else bind (print_frame bs) (\<lambda>_. return (Inl (fds, last_signal)))))))"

definition parent_work :: "int list \<Rightarrow> int \<Rightarrow> int list io" where
  "parent_work fds R =
     bind (sethandler ''sig_handler'' SIGINT) (\<lambda>r.
     bind (if r \<noteq> 0 then err ''Setting SIGINT handler in parent'' else return ()) (\<lambda>_.
     loop (parent_round R) (fds, 0)))"

definition close_retry :: "int \<Rightarrow> unit io" where
  "close_retry fd = bind (retry Close [I fd]) (\<lambda>r. if val_of r \<noteq> 0 then err ''close'' else return ())"

text \<open>
  The child closes the write ends made before it, none of which is 0 (the source would stand still
  at one), works and never returns from there; the parent keeps the write end.
\<close>

definition frame_child :: "int list \<Rightarrow> int \<Rightarrow> int \<Rightarrow> int \<Rightarrow> int list io" where
  "frame_child made rd wr R =
     bind (for_each made (\<lambda>fd u. close_retry fd) ()) (\<lambda>_.
     bind (close_retry wr) (\<lambda>_.
     bind (child_work rd R) (\<lambda>_.
     bind (close_retry rd) (\<lambda>_.
     bind (close_retry R) (\<lambda>_. exit_with 0)))))"

primrec create_children_and_pipes :: "nat \<Rightarrow> int list \<Rightarrow> int \<Rightarrow> int list io" where
  "create_children_and_pipes 0 fds R = return fds"
| "create_children_and_pipes (Suc n) fds R =
     bind (sys Pipe []) (\<lambda>r.
     bind (if failed r then err ''pipe'' else return ()) (\<lambda>_.
     case pipe_ends r of (rd, wr) \<Rightarrow>
     bind (sys Fork []) (\<lambda>p.
     if val_of p = 0 then frame_child fds rd wr R
     else if val_of p = -1 then err ''Fork:''
     else bind (close_retry rd) (\<lambda>_. create_children_and_pipes n (wr # fds) R))))"

definition frames_usage :: "'a io" where
  "frames_usage =
     bind (tell (Complain ''USAGE: %s n'')) (\<lambda>_.
     bind (tell (Complain ''0<n<=10 - number of children'')) (\<lambda>_. exit_with 1))"

definition set_or_err :: "string \<Rightarrow> int \<Rightarrow> string \<Rightarrow> unit io" where
  "set_or_err f sig source = bind (sethandler f sig) (\<lambda>r. if r \<noteq> 0 then err source else return ())"

definition frames_main :: "string list \<Rightarrow> int io" where
  "frames_main argv =
     bind (if length argv \<noteq> 2 then frames_usage else return ()) (\<lambda>_.
     let n = atoi (argv ! 1) in
     bind (if n \<le> 0 \<or> 10 < n then frames_usage else return ()) (\<lambda>_.
     bind (set_or_err ''SIG_IGN'' SIGINT ''Setting SIGINT handler'') (\<lambda>_.
     bind (set_or_err ''SIG_IGN'' SIGPIPE ''Setting SIGPIPE handler'') (\<lambda>_.
     bind (set_or_err ''sigchld_handler'' SIGCHLD ''Setting parent SIGCHLD:'') (\<lambda>_.
     bind (sys Pipe []) (\<lambda>r.
     bind (if failed r then err ''pipe'' else return ()) (\<lambda>_.
     case pipe_ends r of (rd, wr) \<Rightarrow>
     bind (create_children_and_pipes (nat n) [] wr) (\<lambda>fds.
     bind (close_retry wr) (\<lambda>_.
     bind (parent_work fds rd) (\<lambda>fds.
     bind (for_each (rev (filter (\<lambda>fd. fd \<noteq> 0) fds)) (\<lambda>fd u. close_retry fd) ()) (\<lambda>_.
     bind (close_retry rd) (\<lambda>_. return 0))))))))))))"

section \<open>Frames out and in\<close>

lemma within_frames [within_intros]:
  "within (sethandler f sig)" "within (say f args)" "consuming (retry_noting l name args)" "consuming (retry_killme name args)"
  "within (retry_noting l name args)" "within (print_frame bs)" "within (send_letter fds)"
proof -
  show s: "within (sethandler f sig)" "within (say f args)"
    unfolding sethandler_def say_def by (intro within_intros)+
  show "consuming (retry_killme name args)"
    unfolding retry_killme_def sig_killme_def by (rule consuming_loop) (intro within_intros)
  show "consuming (retry_noting l name args)"
    unfolding retry_noting_def by (rule consuming_loop) (intro within_intros)
  then show "within (retry_noting l name args)" by (rule consuming_within)
  show "within (print_frame bs)" unfolding print_frame_def say_def by (intro within_intros)
  show "within (send_letter fds)" unfolding send_letter_def Let_def by (intro within_intros)
qed

lemma within_list_case [within_intros]:
  "progressing n \<Longrightarrow> (\<And>c cs. progressing (k c cs)) \<Longrightarrow> progressing (case xs of [] \<Rightarrow> n | c # cs \<Rightarrow> k c cs)"
  "within n' \<Longrightarrow> (\<And>c cs. within (k' c cs)) \<Longrightarrow> within (case xs of [] \<Rightarrow> n' | c # cs \<Rightarrow> k' c cs)"
  "consuming n' \<Longrightarrow> (\<And>c cs. consuming (k' c cs)) \<Longrightarrow> consuming (case xs of [] \<Rightarrow> n' | c # cs \<Rightarrow> k' c cs)"
  by (cases xs; simp)+

lemma parent_progressing: "progressing (parent_round R st)"
proof (cases st)
  case (Pair fds l)
  show ?thesis
    unfolding Pair parent_round_def Let_def prod.case
    by (rule progressing_bind, intro within_intros, rule progressing_consume) (intro within_intros)+
qed

text \<open>What the parent prints.\<close>

fun texts_of :: "event \<Rightarrow> int list list" where
  "texts_of (Print f [B bs]) = (if f = ''%s'' then [bs] else [])"
| "texts_of e = []"

text \<open>The whole frames at the start of a stream of bytes.\<close>

function frames_in :: "int list \<Rightarrow> int list list" where
  "frames_in [] = []"
| "frames_in (b # bs) =
     (let n = nat (b mod 256) in if length bs < n then [] else take n bs # frames_in (drop n bs))"
  by pat_completeness auto
termination by (relation "measure length") (auto simp: Let_def)

lemma frames_in_frame: "s < 256 \<Longrightarrow> frames_in (frame c s @ bs) = replicate s c # frames_in bs"
  by (simp add: frame_def)

lemma frames_in_frames:
  "\<forall>(c, s) \<in> set fs. s < 256 \<Longrightarrow> frames_in (concat (map (\<lambda>(c, s). frame c s) fs)) = map (\<lambda>(c, s). replicate s c) fs"
  by (induction fs) (auto simp: frames_in_frame)

text \<open>\<open>ps\<close> are whole frames, with nothing left over.\<close>

definition whole :: "(int \<times> int list) list \<Rightarrow> int list \<Rightarrow> bool" where
  "whole ps bs \<longleftrightarrow> bs = concat (map (\<lambda>(b, p). b # p) ps) \<and> (\<forall>(b, p) \<in> set ps. length p = nat (b mod 256))"

lemma frames_in_whole: "whole ps bs \<Longrightarrow> frames_in (bs @ cs) = map snd ps @ frames_in cs"
  unfolding whole_def by (induction ps arbitrary: bs) auto

lemma whole_snoc: "whole ps bs \<Longrightarrow> length p = nat (b mod 256) \<Longrightarrow> whole (ps @ [(b, p)]) (bs @ b # p)"
  by (auto simp: whole_def)

definition shows_frames :: "int \<Rightarrow> event list \<Rightarrow> bool" where
  "shows_frames R h \<longleftrightarrow>
     prefix (seen texts_of h) (map (takeWhile (\<lambda>b. b \<noteq> 0)) (frames_in (seen (came_in R) h)))"

definition shown_all :: "int \<Rightarrow> event list \<Rightarrow> bool" where
  "shown_all R h \<longleftrightarrow> (\<exists>ps. whole ps (seen (came_in R) h)
     \<and> seen texts_of h = map (takeWhile (\<lambda>b. b \<noteq> 0)) (map snd ps))"

lemma shown_all_equal: "shown_all R h \<Longrightarrow> seen texts_of h = map (takeWhile (\<lambda>b. b \<noteq> 0)) (frames_in (seen (came_in R) h))"
  using frames_in_whole [where cs = "[]"] by (auto simp: shown_all_def)

lemma shows_more: "shown_all R h \<Longrightarrow> seen texts_of tr = [] \<Longrightarrow> shows_frames R (h @ tr)"
  by (auto simp: shown_all_def shows_frames_def frames_in_whole)

lemma wp_retry_noting:
  assumes "\<And>tr. attempts name args tr \<Longrightarrow> E None (h @ tr @ [Sys name args None])"
    and "\<And>tr r l. attempts name args tr \<Longrightarrow> \<not> interrupted r \<Longrightarrow> Q (r, l) (h @ tr @ [Sys name args (Some r)])"
  shows "wp (retry_noting l name args) Q E h"
  unfolding retry_noting_def
proof (rule wp_loop [where J = "\<lambda>l h'. \<exists>tr. h' = h @ tr \<and> attempts name args tr"], goal_cases body start step)
  case (body l)
  show ?case by (intro within_intros)
next
  case start
  show ?case by (auto simp: attempts_def)
next
  case (step l h')
  then obtain tr where tr: "h' = h @ tr" "attempts name args tr" by blast
  show ?case
  proof (rule wp_bind, rule wp_sys, goal_cases wait reply)
    case wait
    show ?case using assms(1) [OF tr(2)] tr(1) by simp
  next
    case (reply r)
    have "attempts name args (tr @ [Sys name args (Some r)])" if "interrupted r"
      using tr(2) that by (auto simp: attempts_def)
    then show ?case using assms(2) [OF tr(2)] tr(1) by (auto intro!: wp_if wp_return)
  qed
qed

text \<open>Calls that neither read from \<open>R\<close> nor print.\<close>

definition silent :: "int \<Rightarrow> event list \<Rightarrow> bool" where
  "silent R tr \<longleftrightarrow> (\<forall>e \<in> set tr. came_in R e = [] \<and> texts_of e = [])"

lemma silent_seen: "silent R tr \<Longrightarrow> seen (came_in R) tr = []" "silent R tr \<Longrightarrow> seen texts_of tr = []"
  by (induction tr) (auto simp: silent_def)

lemma not_read: "c \<noteq> Read \<Longrightarrow> came_in R (Sys c args r) = []"
  by (cases "(R, Sys c args r)" rule: came_in.cases) auto

lemma silent_simps [simp]:
  "silent R []" "silent R (e # tr) \<longleftrightarrow> came_in R e = [] \<and> texts_of e = [] \<and> silent R tr"
  "silent R (tr @ tr') \<longleftrightarrow> silent R tr \<and> silent R tr'"
  by (auto simp: silent_def)

lemma silent_attempts: "attempts c args tr \<Longrightarrow> c \<noteq> Read \<Longrightarrow> silent R tr"
  by (auto simp: silent_def attempts_def not_read)

lemma wp_send_letter:
  assumes "\<And>tr fds'. silent R tr \<Longrightarrow> Q fds' (h @ tr)" and "\<And>c tr. silent R tr \<Longrightarrow> E c (h @ tr)"
  shows "wp (send_letter fds) Q E h"
  unfolding send_letter_def Let_def
  by (intro wp_rules) (auto intro!: assms simp: not_read intro: silent_attempts)

lemma shown_all_silent: "shown_all R h \<Longrightarrow> silent R tr \<Longrightarrow> shown_all R (h @ tr)"
  by (simp add: shown_all_def silent_seen)

lemma interrupted_reads [simp]: "attempts Read [I R, I n] tr \<Longrightarrow> seen texts_of tr = []"
  by (induction tr) (auto simp: attempts_def)

text \<open>One round of the parent, in its three parts.\<close>

lemma wp_frame_body:
  assumes J: "shown_all R h" and c: "c = b mod 256"
    and hd: "seen (came_in R) hh = [b]" "seen texts_of hh = []"
  shows "wp (bind (retry_noting l Read [I R, I c]) (\<lambda>(r, l).
       let bs = bytes_of (nat c) r in
       if int (length bs) < c then err ''read data from R''
       else if c = MAX_BUFF then undefined_behaviour
       else bind (print_frame bs) (\<lambda>_. return (Inl (fds, l)))))
     (\<lambda>x h. shown_all R h \<and> (\<exists>st. x = Inl st)) (\<lambda>c h. shows_frames R h) (h @ hh)"
proof (rule wp_bind, rule wp_retry_noting, goal_cases wait reply)
  case (wait tr)
  then show ?case using shows_more [OF J, of "hh @ tr @ [Sys Read [I R, I c] None]"] hd by simp
next
  case (reply tr r l)
  let ?bs = "bytes_of (nat c) r" and ?tr = "hh @ tr @ [Sys Read [I R, I c] (Some r)]"
  have more: "shows_frames R (h @ ?tr @ us)" if "seen texts_of us = []" for us
    using shows_more [OF J, of "?tr @ us"] hd reply that by simp
  have "shown_all R (h @ ?tr @ [Print ''%s'' [B (takeWhile (\<lambda>b. b \<noteq> 0) ?bs)]])" if "\<not> int (length ?bs) < c"
  proof -
    have "length ?bs = nat (b mod 256)" using that c length_bytes_of [of "nat c" r]
      by (intro antisym) (simp_all add: nat_le_iff)
    moreover obtain ps where ps: "whole ps (seen (came_in R) h)"
        "seen texts_of h = map (takeWhile (\<lambda>b. b \<noteq> 0)) (map snd ps)"
      using J by (auto simp: shown_all_def)
    ultimately have "whole (ps @ [(b, ?bs)]) (seen (came_in R) h @ b # ?bs)" by (intro whole_snoc)
    with ps(2) hd reply show ?thesis unfolding shown_all_def by (intro exI [of _ "ps @ [(b, ?bs)]"]) simp
  qed
  then show ?case
    unfolding Let_def print_frame_def say_def prod.case
    using more [of "[Complain m]" for m] by (intro wp_rules) auto
qed

lemma wp_parent_round:
  assumes "shown_all R h"
  shows "wp (parent_round R st) (\<lambda>x h. shown_all R h) (\<lambda>c h. shows_frames R h) h"
proof -
  obtain fds l where st: "st = (fds, l)" by (cases st)
  have go: "wp (bind (sys Read [I R, I 1]) (\<lambda>r.
     if interrupted r then return (Inl (fds, noted r l))
     else if failed r then err ''read header from R''
     else case bytes_of 1 r of
       [] \<Rightarrow> return (Inr fds)
     | b # _ \<Rightarrow>
         let c = b mod 256 in
         if MAX_BUFF < c then undefined_behaviour
         else bind (retry_noting l Read [I R, I c]) (\<lambda>(r, last_signal).
           let bs = bytes_of (nat c) r in
           if int (length bs) < c then err ''read data from R''
           else if c = MAX_BUFF then undefined_behaviour
           else bind (print_frame bs) (\<lambda>_. return (Inl (fds, last_signal))))))
     (\<lambda>x h. shown_all R h) (\<lambda>c h. shows_frames R h) h" if J: "shown_all R h" for fds l h
  proof (rule wp_bind, rule wp_sys, goal_cases wait reply)
    case wait
    show ?case using shows_more [OF J] by simp
  next
    case (reply r)
    let ?hh = "[Sys Read [I R, I 1] (Some r)]"
    have fail: "shows_frames R (h @ ?hh @ [Complain m])" for m using shows_more [OF J, of "?hh @ [Complain m]"] by simp
    show ?case
    proof (cases "bytes_of 1 r")
      case Nil
      then have "shown_all R (h @ ?hh)" using J by (intro shown_all_silent) auto
      with Nil fail show ?thesis by (auto intro!: wp_rules)
    next
      case (Cons b bs)
      have len: "length (bytes_of 1 r) \<le> 1" by (rule length_bytes_of)
      have nf: "\<not> interrupted r" "\<not> failed r" using Cons by (cases r; auto)+
      show ?thesis
        unfolding Cons list.case Let_def
        using nf fail wp_frame_body [OF J refl, of ?hh b l fds, unfolded Let_def] Cons len
        by (auto intro!: wp_if wp_undefined elim!: wp_mono)
    qed
  qed
  show ?thesis
  proof (cases "l = SIGINT")
    case True
    show ?thesis
      unfolding st parent_round_def prod.case Let_def if_P [OF True]
    proof (rule wp_bind, rule wp_send_letter)
      show "shows_frames R (h @ tr)" if "silent R tr" for tr using shows_more [OF assms] silent_seen(2) that by blast
    qed (rule go [OF shown_all_silent [OF assms], unfolded Let_def])
  next
    case False
    show ?thesis
      unfolding st parent_round_def prod.case Let_def if_not_P [OF False]
      by (rule wp_bind, rule wp_return, rule go [OF assms, unfolded Let_def])
  qed
qed

section \<open>Properties\<close>

lemma wp_parent_work:
  "wp (parent_work fds R) (\<lambda>_ h. shown_all R h) (\<lambda>c h. shows_frames R h) []"
proof -
  have start: "shown_all R []" by (auto simp: shown_all_def whole_def intro!: exI [of _ "[]"])
  have loud: "shows_frames R tr" if "silent R tr" for tr using shows_more [OF start, of tr] that silent_seen by simp
  have first: "shown_all R tr" if "silent R tr" for tr using shown_all_silent [OF start that] by simp
  show ?thesis
    unfolding parent_work_def sethandler_def
    by (intro wp_bind wp_sys wp_return wp_if wp_err wp_loop [where J = "\<lambda>st h. shown_all R h"] parent_progressing)
      (auto intro!: loud first simp: not_read intro: wp_mono [OF wp_parent_round] split: sum.splits)
qed

text \<open>
  C34. \<open>prog22a.c\<close>: the frames that the children write are the letters that the parent prints. When
  the parent ends, because all the write ends are closed, and what came from the common pipe are
  frames of letters, it has printed the letters of each frame, in order, whatever signals
  interrupted it and however its reads were repeated.
\<close>

theorem frames_round_trip:
  assumes "parent_work fds R rs = (Val v, h, rs')"
    and "seen (came_in R) h = concat (map (\<lambda>(c, s). frame c s) fs)"
    and "\<forall>(c, s) \<in> set fs. c \<noteq> 0 \<and> s < 256"
  shows "seen texts_of h = map (\<lambda>(c, s). replicate s c) fs"
proof -
  have "shown_all R h" using wp_runs [OF wp_parent_work assms(1)] by simp
  then have "seen texts_of h = map (takeWhile (\<lambda>b. b \<noteq> 0)) (frames_in (seen (came_in R) h))"
    by (rule shown_all_equal)
  also have "frames_in (seen (came_in R) h) = map (\<lambda>(c, s). replicate s c) fs"
    unfolding assms(2) using assms(3) by (intro frames_in_frames) auto
  also have "map (takeWhile (\<lambda>b. b \<noteq> 0)) (map (\<lambda>(c, s). replicate s c) fs) = map (\<lambda>(c, s). replicate s c) fs"
    using assms(3) by (auto simp: takeWhile_eq_all_conv)
  finally show ?thesis .
qed

lemma frames_round_trip_witness:
  "\<exists>h. parent_work [4] 3 [Done 0, Caught 2, Done 0, Done 0, Done 1, Bytes [2], Bytes [97, 97], Bytes []] = (Val [4], h, [])
    \<and> seen texts_of h = [[97, 97]]"
proof -
  define out where "out = parent_work [4] 3 [Done 0, Caught 2, Done 0, Done 0, Done 1, Bytes [2], Bytes [97, 97], Bytes []]"
  have facts: "fst out = Val [4] \<and> snd (snd out) = [] \<and> seen (came_in 3) (fst (snd out)) = [2, 97, 97]"
    unfolding out_def by code_simp
  obtain x h rs' where out: "out = (x, h, rs')" by (cases out)
  with facts have "parent_work [4] 3 [Done 0, Caught 2, Done 0, Done 0, Done 1, Bytes [2], Bytes [97, 97], Bytes []] = (Val [4], h, [])"
    "seen (came_in 3) h = concat (map (\<lambda>(c, s). frame c s) [(97, 2)])"
    by (simp_all add: out_def [symmetric] frame_def numeral_2_eq_2)
  with frames_round_trip [OF this] show ?thesis by (auto simp: numeral_2_eq_2)
qed

text \<open>
  \<open>prog22a.c\<close>: a child may choose the length 200 (\<open>1 + rand() % 200\<close>), and then the parent, which
  reads the frame into an array of 200 bytes, stores the terminating zero behind its end: whatever
  the letter, the frame that the child writes for \<open>rand() = 199\<close> makes the parent's behaviour undefined.
\<close>

theorem longest_frame_overflows:
  "\<exists>h1 h2. child_work fd R [Done 0, Bytes [c], Done 199, Fail EPIPE] = (Exits 1, h1, [])
      \<and> Sys Write [I R, B (frame c 200)] (Some (Fail EPIPE)) \<in> set h1
    \<and> parent_work fds R [Done 0, Bytes [200], Bytes (replicate 200 c)] = (Exits 136, h2, [])"
proof -
  have f: "nat (1 + 199 mod MAX_BUFF) = 200" by (simp add: MAX_BUFF_def)
  show ?thesis
    by (simp add: child_work_def parent_work_def parent_round_def retry_killme_def retry_noting_def sethandler_def loop_def
        bind_def return_def check_def err_def tell_def exit_with_def undefined_behaviour_def sig_killme_def f MAX_BUFF_def SIGINT_def)
qed

end
