(* ===== verification/Roulette.thy ===== *)
theory Roulette
  imports Frames
begin

text \<open>
  \<open>Lab - 5/Example Tasks/example.c\<close>: a croupier and players, each behind two pipes. A player sends an
  amount and a number and gets the lucky number back; it leaves when it saves its money or has none
  left. The croupier plays rounds until all pipes are closed.
\<close>

section \<open>The players\<close>

definition ROULETTE_NUMS :: int where "ROULETTE_NUMS = 37"

definition INT_MAX :: int where "INT_MAX = 2147483647"

definition int_bytes :: "int \<Rightarrow> int list" where
  "int_bytes v = bytes_le (word_of_int v)"

definition read_lucky :: "int \<Rightarrow> int io" where
  "read_lucky fr =
     bind (retry Read [I fr, I 4]) (\<lambda>r.
     if length (bytes_of 4 r) < 4 then err ''read'' else return (sint (word_le (bytes_of 4 r))))"

definition place_bet :: "int \<Rightarrow> int \<Rightarrow> int \<Rightarrow> unit io" where
  "place_bet fw am num =
     bind (retry Write [I fw, B (int_bytes am)]) (\<lambda>w.
     bind (if failed w then err ''write'' else return ()) (\<lambda>_.
     bind (retry Write [I fw, B (int_bytes num)]) (\<lambda>w.
     if failed w then err ''write'' else return ())))"

text \<open>One round; the result is the money for the next one. An overflow of \<open>M\<close> is undefined.\<close>

definition play_round :: "int \<Rightarrow> int \<Rightarrow> int \<Rightarrow> (int + int) io" where
  "play_round fw fr M =
     bind (sys Rand []) (\<lambda>d.
     if val_of d mod 10 = 0 then bind (getpid_say ''[%d] I saved %d$'' [I M]) (\<lambda>_. return (Inr M))
     else
     bind (sys Rand []) (\<lambda>d1. let am = val_of d1 mod M + 1 in
     bind (sys Rand []) (\<lambda>d2. let num = val_of d2 mod ROULETTE_NUMS in
     bind (place_bet fw am num) (\<lambda>_.
     bind (read_lucky fr) (\<lambda>lucky.
     if lucky = num then
       (if INT_MAX < M + 35 * am then undefined_behaviour
        else bind (getpid_say ''[%d] Whoa, I won %d$'' [I (35 * am)]) (\<lambda>_. return (Inl (M + 35 * am))))
     else if M - am \<le> 0 then bind (getpid_say ''[%d] I'm broke'' []) (\<lambda>_. return (Inr (M - am)))
     else return (Inl (M - am)))))))"

definition player :: "int \<Rightarrow> int \<Rightarrow> int \<Rightarrow> int io" where
  "player M fw fr =
     bind (getpid_say ''[%d] I have %d$ and I'm going to play roullete'' [I M]) (\<lambda>_. loop (play_round fw fr) M)"

section \<open>The croupier\<close>

text \<open>A table: for each player the ends to write and to read; 0 marks one that has left.\<close>

type_synonym seats = "(int \<times> int) list"

text \<open>
  \<open>collect\<close> reads the bet of seat \<open>i\<close>. The variable for the amount is not initialised, and an error
  other than EINTR is passed over, so the amount may be anything then.
\<close>

definition collect :: "int list \<Rightarrow> nat \<Rightarrow> seats \<times> int \<Rightarrow> (seats \<times> int) io" where
  "collect pids i = (\<lambda>(seats, players).
     case seats ! i of (fw, fr) \<Rightarrow>
     if fw = 0 then return (seats, players)
     else bind (uninit 4) (\<lambda>am.
       bind (retry Read [I fr, I 4]) (\<lambda>r.
       if \<not> failed r \<and> bytes_of 4 r = [] then
         bind (close_retry fw) (\<lambda>_. bind (close_retry fr) (\<lambda>_. return (seats[i := (0, 0)], players - 1)))
       else bind (uninit 4) (\<lambda>num.
         bind (retry Read [I fr, I 4]) (\<lambda>r2.
         if bytes_of 4 r2 = [] then err ''read''
         else bind (say ''Croupier: [%d] placed %d$ on a %d'' [I (pids ! i), I (sint (word_le (overwrite am (bytes_of 4 r)))),
                I (sint (word_le (overwrite num (bytes_of 4 r2))))]) (\<lambda>_. return (seats, players)))))))"

definition tell_lucky :: "int \<Rightarrow> int \<times> int \<Rightarrow> unit \<Rightarrow> unit io" where
  "tell_lucky lucky = (\<lambda>(fw, fr) u.
     if fw = 0 then return ()
     else bind (retry Write [I fw, B (int_bytes lucky)]) (\<lambda>w. if failed w then err ''write'' else return ()))"

definition croupier_round :: "int list \<Rightarrow> seats \<times> int \<Rightarrow> (seats \<times> int + seats) io" where
  "croupier_round pids = (\<lambda>(seats, players).
     bind (for_each [0..<length seats] (collect pids) (seats, players)) (\<lambda>(seats, players).
     if players \<le> 0 then return (Inr seats)
     else bind (sys Rand []) (\<lambda>d.
       let lucky = val_of d mod ROULETTE_NUMS in
       bind (say ''Croupier: %d is the lucky number'' [I lucky]) (\<lambda>_.
       bind (for_each seats (tell_lucky lucky) ()) (\<lambda>_. return (Inl (seats, players)))))))"

definition croupier :: "int list \<Rightarrow> seats \<Rightarrow> seats io" where
  "croupier pids seats =
     bind (loop (croupier_round pids) (seats, int (length seats))) (\<lambda>seats.
     bind (say ''Croupier: Casino always wins'' []) (\<lambda>_. return seats))"

section \<open>Setting up\<close>

text \<open>
  A new player closes the pipes made before it, but the loop moves its index between the two
  arrays: it closes every second end of each, and when their number is odd it reads behind the end.
\<close>

fun close_earlier :: "seats \<Rightarrow> unit io" where
  "close_earlier [] = return ()"
| "close_earlier [s] = bind (close_retry (fst s)) (\<lambda>_. undefined_behaviour)"
| "close_earlier (s # s' # seats) =
     bind (close_retry (fst s)) (\<lambda>_. bind (close_retry (snd s')) (\<lambda>_. close_earlier seats))"

definition player_process :: "int \<Rightarrow> seats \<Rightarrow> int \<times> int \<Rightarrow> int \<times> int \<Rightarrow> (seats \<times> int list) io" where
  "player_process M seats tfw tfr =
     bind (close_earlier seats) (\<lambda>_.
     bind (close_retry (snd tfw)) (\<lambda>_.
     bind (close_retry (fst tfr)) (\<lambda>_.
     bind (player M (snd tfr) (fst tfw)) (\<lambda>_.
     bind (close_retry (fst tfw)) (\<lambda>_.
     bind (close_retry (snd tfr)) (\<lambda>_. exit_with 0))))))"

primrec create_players :: "nat \<Rightarrow> int \<Rightarrow> seats \<Rightarrow> int list \<Rightarrow> (seats \<times> int list) io" where
  "create_players 0 M seats pids = return (seats, pids)"
| "create_players (Suc n) M seats pids =
     bind (sys Pipe []) (\<lambda>r1. bind (if failed r1 then err ''pipe'' else return ()) (\<lambda>_.
     bind (sys Pipe []) (\<lambda>r2. bind (if failed r2 then err ''pipe'' else return ()) (\<lambda>_.
     let tfw = pipe_ends r1; tfr = pipe_ends r2 in
     bind (sys Fork []) (\<lambda>p.
     if val_of p = 0 then player_process M seats tfw tfr
     else if val_of p = -1 then err ''Fork:''
     else bind (close_retry (fst tfw)) (\<lambda>_. bind (close_retry (snd tfr)) (\<lambda>_.
       create_players n M ((snd tfw, fst tfr) # seats) (val_of p # pids))))))))"

definition roulette_usage :: "'a io" where
  "roulette_usage =
     bind (tell (Complain ''USAGE: %s N M'')) (\<lambda>_.
     bind (tell (Complain ''N: N >= 1 - number of players'')) (\<lambda>_.
     bind (tell (Complain ''M: M >= 100 - initial amount of money'')) (\<lambda>_. exit_with 1)))"

definition roulette_main :: "string list \<Rightarrow> int io" where
  "roulette_main argv =
     bind (if length argv \<noteq> 3 then roulette_usage else return ()) (\<lambda>_.
     let N = atoi (argv ! 1); M = atoi (argv ! 2) in
     bind (if N < 1 then roulette_usage else return ()) (\<lambda>_.
     bind (if M < 100 then roulette_usage else return ()) (\<lambda>_.
     bind (set_or_err ''SIG_IGN'' SIGCHLD ''Setting parent SIGCHLD:'') (\<lambda>_.
     bind (create_players (nat N) M [] []) (\<lambda>(seats, pids).
     bind (croupier pids seats) (\<lambda>_.
     bind (for_each [0..<nat N] (\<lambda>i u. bind (sys Wait []) (\<lambda>_. return ())) ()) (\<lambda>_. return 0)))))))"

section \<open>The game\<close>

text \<open>
  The rules, without files: from \<open>M\<close> a list of rounds (amount, number, lucky number) leads to the
  money left, or to nothing when a bet is not covered or the money does not fit an \<open>int\<close>.
\<close>

fun game :: "int \<Rightarrow> (int \<times> int \<times> int) list \<Rightarrow> int option" where
  "game M [] = Some M"
| "game M ((am, num, lucky) # turns) =
     (if 1 \<le> am \<and> am \<le> M \<and> 0 \<le> num \<and> num < ROULETTE_NUMS then
        (if lucky = num then (if INT_MAX < M + 35 * am then None else game (M + 35 * am) turns)
         else game (M - am) turns)
      else None)"

lemma game_append: "game M (rs @ rs') = (case game M rs of None \<Rightarrow> None | Some M' \<Rightarrow> game M' rs')"
  by (induction M rs rule: game.induct) auto

lemma game_range: "game M rs = Some M' \<Longrightarrow> 0 \<le> M \<Longrightarrow> M \<le> INT_MAX \<Longrightarrow> 0 \<le> M' \<and> M' \<le> INT_MAX"
  by (induction M rs rule: game.induct) (auto split: if_splits)

text \<open>What a player has sent and got are these rounds.\<close>

definition played :: "int \<Rightarrow> int \<Rightarrow> (int \<times> int \<times> int) list \<Rightarrow> event list \<Rightarrow> bool" where
  "played fw fr turns h \<longleftrightarrow>
     seen (packets_out fw) h = concat (map (\<lambda>(am, num, lucky). [int_bytes am, int_bytes num]) turns)
     \<and> map (\<lambda>bs. sint (word_le bs)) (seen (packets_in fr) h) = map (\<lambda>(am, num, lucky). lucky) turns"

lemma packets_of_attempts [simp]:
  "attempts c args tr \<Longrightarrow> seen (packets_out fd) tr = []" "attempts c args tr \<Longrightarrow> seen (packets_in fd) tr = []"
proof -
  have "packets_out fd (Sys c args (Some r)) = []" "packets_in fd (Sys c args (Some r)) = []" if "interrupted r" for r
    using that
    by (cases "(fd, Sys c args (Some r))" rule: packets_out.cases, auto)
      (cases "(fd, Sys c args (Some r))" rule: packets_in.cases, auto)
  then show "attempts c args tr \<Longrightarrow> seen (packets_out fd) tr = []" "attempts c args tr \<Longrightarrow> seen (packets_in fd) tr = []"
    by (auto intro: seen_attempts)
qed

lemma packets_other [simp]:
  "c \<noteq> Write \<Longrightarrow> packets_out fd (Sys c args r) = []" "c \<noteq> Read \<Longrightarrow> packets_in fd (Sys c args r) = []"
  by (cases "(fd, Sys c args r)" rule: packets_out.cases, auto)
    (cases "(fd, Sys c args r)" rule: packets_in.cases, auto)

lemma within_player [within_intros]: "within (place_bet fw am num)" "within (read_lucky fr)" "within (getpid_say f args)"
  "progressing (play_round fw fr M)"
proof -
  show [within_intros]: "within (place_bet fw am num)" for am num unfolding place_bet_def by (intro within_intros)
  show [within_intros]: "within (read_lucky fr)" unfolding read_lucky_def by (intro within_intros)
  show [within_intros]: "within (getpid_say f args)" for f args unfolding getpid_say_def by (intro within_intros)
  show "progressing (play_round fw fr M)" unfolding play_round_def Let_def by (intro within_intros)
qed

lemma wp_place_bet:
  assumes "\<And>tr. seen (packets_out fw) tr = [int_bytes am, int_bytes num] \<Longrightarrow> seen (packets_in fr) tr = [] \<Longrightarrow> Q () (h @ tr)"
  shows "wp (place_bet fw am num) Q (\<lambda>_ _. True) h"
  unfolding place_bet_def by (intro wp_rules) (auto intro!: assms)

lemma wp_read_lucky:
  assumes "\<And>tr bs. seen (packets_out fw) tr = [] \<Longrightarrow> seen (packets_in fr) tr = [bs] \<Longrightarrow> Q (sint (word_le bs)) (h @ tr)"
  shows "wp (read_lucky fr) Q (\<lambda>_ _. True) h"
  unfolding read_lucky_def by (intro wp_rules) (auto intro!: assms)

lemma wp_getpid_say:
  assumes "\<And>tr. seen (packets_out fw) tr = [] \<Longrightarrow> seen (packets_in fr) tr = [] \<Longrightarrow> Q () (h @ tr)"
  shows "wp (getpid_say f args) Q (\<lambda>_ _. True) h"
  unfolding getpid_say_def say_def by (intro wp_rules) (auto intro!: assms)

lemma played_more:
  "played fw fr rs h \<Longrightarrow> seen (packets_out fw) tr = [] \<Longrightarrow> seen (packets_in fr) tr = [] \<Longrightarrow> played fw fr rs (h @ tr)"
  by (simp add: played_def)

lemma played_round:
  assumes "played fw fr rs h" and "seen (packets_out fw) tr = [int_bytes am, int_bytes num]"
    and "seen (packets_in fr) tr = []" and "seen (packets_out fw) us = []" and "seen (packets_in fr) us = [bs]"
  shows "played fw fr (rs @ [(am, num, sint (word_le bs))]) ((h @ tr) @ us)"
  using assms by (simp add: played_def)

definition round_ok :: "int \<Rightarrow> int \<Rightarrow> int \<Rightarrow> int \<Rightarrow> event list \<Rightarrow> bool" where
  "round_ok M0 fw fr M h \<longleftrightarrow> (\<exists>rs. game M0 rs = Some M \<and> played fw fr rs h)"

lemma wp_play_round:
  assumes "round_ok M0 fw fr M h" and "0 < M"
  shows "wp (play_round fw fr M) (\<lambda>x h. case x of Inl M' \<Rightarrow> round_ok M0 fw fr M' h \<and> 0 < M' | Inr M' \<Rightarrow> round_ok M0 fw fr M' h)
    (\<lambda>_ _. True) h"
proof -
  obtain rs where rs: "game M0 rs = Some M" "played fw fr rs h" using assms(1) by (auto simp: round_ok_def)
  have am: "1 \<le> v mod M + 1" "v mod M + 1 \<le> M" for v using assms(2) by (auto simp: zless_imp_add1_zle)
  have num: "0 \<le> v mod ROULETTE_NUMS" "v mod ROULETTE_NUMS < ROULETTE_NUMS" for v by (auto simp: ROULETTE_NUMS_def)
  let ?Q = "\<lambda>x h. case x of Inl M' \<Rightarrow> round_ok M0 fw fr M' h \<and> 0 < M' | Inr M' \<Rightarrow> round_ok M0 fw fr M' h"
  show ?thesis
    unfolding play_round_def Let_def
  proof (rule wp_bind, rule wp_sys, rule TrueI, rule wp_if, goal_cases saves plays)
    case (saves d)
    have "played fw fr rs ((h @ [Sys Rand [] (Some d)]) @ tr)"
      if "seen (packets_out fw) tr = []" "seen (packets_in fr) tr = []" for tr
      using that by (intro played_more rs) simp_all
    with rs(1) show ?case
      by (intro wp_bind wp_getpid_say [where fw = fw and fr = fr] wp_return) (auto simp: round_ok_def)
  next
    case (plays d)
    let ?h1 = "h @ [Sys Rand [] (Some d)]"
    show ?case
    proof (rule wp_bind, rule wp_sys, rule TrueI, rule wp_bind, rule wp_sys, rule TrueI, rule wp_bind,
        rule wp_place_bet [where fr = fr], rule wp_bind, rule wp_read_lucky [where fw = fw], goal_cases bet)
      case (bet d1 d2 tr us bs)
      let ?am = "val_of d1 mod M + 1" and ?num = "val_of d2 mod ROULETTE_NUMS" and ?l = "sint (word_le bs)"
      let ?h = "(((?h1 @ [Sys Rand [] (Some d1)]) @ [Sys Rand [] (Some d2)]) @ tr) @ us"
      have "played fw fr rs ((?h1 @ [Sys Rand [] (Some d1)]) @ [Sys Rand [] (Some d2)])"
        by (intro played_more rs) simp_all
      then have p: "played fw fr (rs @ [(?am, ?num, ?l)]) ?h" by (rule played_round [OF _ bet])
      have g: "game M0 (rs @ [(?am, ?num, ?l)]) = (if ?l = ?num then (if INT_MAX < M + 35 * ?am then None
          else Some (M + 35 * ?am)) else Some (M - ?am))"
        using rs(1) am num by (simp add: game_append)
      have more: "round_ok M0 fw fr M' (?h @ vs)"
        if "game M0 (rs @ [(?am, ?num, ?l)]) = Some M'" "seen (packets_out fw) vs = []" "seen (packets_in fr) vs = []" for M' vs
        using played_more [OF p that(2,3)] that(1) unfolding round_ok_def by blast
      have "0 < M + 35 * x" if "1 \<le> x" for x using assms(2) that by linarith
      from this [OF am(1)] have pos: "0 < M + 35 * ?am" .
      show ?case
        using more [of _ "[]"] more g pos
        by (intro wp_if wp_undefined wp_bind wp_getpid_say [where fw = fw and fr = fr] wp_return) simp_all
    qed
  qed
qed

lemma wp_player:
  assumes "0 < M0"
  shows "wp (player M0 fw fr) (\<lambda>M h. round_ok M0 fw fr M h) (\<lambda>_ _. True) []"
  unfolding player_def
proof (rule wp_bind, rule wp_getpid_say [where fw = fw and fr = fr], goal_cases start)
  case (start tr)
  then have "round_ok M0 fw fr M0 ([] @ tr)"
    unfolding round_ok_def by (intro exI [of _ "[]"]) (simp add: played_def)
  with assms show ?case
    by (intro wp_loop [where J = "\<lambda>M h. round_ok M0 fw fr M h \<and> 0 < M"] within_player(4))
      (auto intro: wp_mono [OF wp_play_round] split: sum.splits)
qed

section \<open>The croupier's side\<close>

text \<open>The lucky number announced last, and that every write carries it.\<close>

definition announces :: "int option \<Rightarrow> event \<Rightarrow> int option" where
  "announces l e = (case e of
     Print f args \<Rightarrow> if f = ''Croupier: %d is the lucky number'' then (case args of [I v] \<Rightarrow> Some v | _ \<Rightarrow> l) else l
   | _ \<Rightarrow> l)"

definition carries :: "int option \<Rightarrow> event \<Rightarrow> bool" where
  "carries l e \<longleftrightarrow> (case e of
     Sys c args r \<Rightarrow> if c = Write then (\<exists>v. l = Some v \<and> 0 \<le> v \<and> v < ROULETTE_NUMS
       \<and> (case args of [I f, B bs] \<Rightarrow> bs = int_bytes v | _ \<Rightarrow> False)) else True
   | _ \<Rightarrow> True)"

fun fair :: "int option \<Rightarrow> event list \<Rightarrow> bool" where
  "fair l [] = True"
| "fair l (e # h) = (carries l e \<and> fair (announces l e) h)"

definition lucky_of :: "event list \<Rightarrow> int option" where
  "lucky_of h = foldl announces None h"

lemma fair_append: "fair l (h @ tr) \<longleftrightarrow> fair l h \<and> fair (foldl announces l h) tr"
  by (induction h arbitrary: l) auto

text \<open>Events that neither announce a number nor write.\<close>

definition mute :: "event list \<Rightarrow> bool" where
  "mute tr \<longleftrightarrow> (\<forall>e \<in> set tr. \<forall>l. announces l e = l \<and> carries l e)"

lemma mute_simps [simp]:
  "mute []" "mute (e # tr) \<longleftrightarrow> (\<forall>l. announces l e = l \<and> carries l e) \<and> mute tr" "mute (tr @ us) \<longleftrightarrow> mute tr \<and> mute us"
  by (auto simp: mute_def)

lemma mute_fair: "mute tr \<Longrightarrow> fair l tr \<and> foldl announces l tr = l"
  by (induction tr arbitrary: l) auto

lemma mute_calls [simp]:
  "announces l (Sys c args r) = l" "announces l (Complain m) = l" "carries l (Complain m)" "carries l (Print f args)"
  "c \<noteq> Write \<Longrightarrow> carries l (Sys c args r)"
  by (simp_all add: announces_def carries_def)

lemma mute_attempts: "c \<noteq> Write \<Longrightarrow> attempts c args tr \<Longrightarrow> mute tr"
  by (auto simp: mute_def attempts_def)

definition fair_with :: "int option \<Rightarrow> event list \<Rightarrow> bool" where
  "fair_with l h \<longleftrightarrow> fair None h \<and> lucky_of h = l"

lemma fair_with_mute: "fair_with l h \<Longrightarrow> mute tr \<Longrightarrow> fair_with l (h @ tr)"
  using mute_fair by (auto simp: fair_with_def fair_append lucky_of_def)

definition seated :: "seats \<Rightarrow> int" where
  "seated seats = int (length (filter (\<lambda>s. fst s \<noteq> 0) seats))"

lemma seated_leaves:
  assumes "i < length seats" and "fst (seats ! i) \<noteq> 0"
  shows "seated (seats[i := (0, 0)]) = seated seats - 1"
proof -
  have "Suc (length (filter (\<lambda>s. fst s \<noteq> 0) (seats[i := (0, 0)]))) = length (filter (\<lambda>s. fst s \<noteq> 0) seats)"
    using assms by (induction seats arbitrary: i) (auto split: nat.split)
  then show ?thesis by (simp add: seated_def)
qed

text \<open>A call that is not a write, with all its attempts, is mute.\<close>

lemma mute_retried [simp]:
  assumes "c \<noteq> Write" and "attempts c args tr"
  shows "mute (tr @ [Sys c args r])"
  using mute_attempts [OF assms] assms(1) by simp

lemma wp_mute_retry:
  assumes "c \<noteq> Write" and "\<And>tr. mute tr \<Longrightarrow> E None (h @ tr)"
    and "\<And>tr r. mute tr \<Longrightarrow> \<not> interrupted r \<Longrightarrow> Q r (h @ tr)"
  shows "wp (retry c args) Q E h"
  by (intro wp_retry assms(2,3) mute_retried assms(1)) assumption+

lemma wp_close_retry:
  assumes "\<And>tr. mute tr \<Longrightarrow> Q () (h @ tr)" and "\<And>c tr. mute tr \<Longrightarrow> E c (h @ tr)"
  shows "wp (close_retry fd) Q E h"
proof -
  have "E (Some 1) ((h @ tr) @ [Complain m])" if "mute tr" for tr m using assms(2) that by simp
  then show ?thesis
    unfolding close_retry_def
    by (intro wp_bind wp_mute_retry wp_if wp_return wp_err) (simp_all add: assms)
qed

lemma mute_bet: "announces l (Print ''Croupier: [%d] placed %d$ on a %d'' args) = l"
  by (simp add: announces_def)

lemma wp_collect:
  assumes J: "fair_with l h" "players = seated seats" "i < length seats"
  shows "wp (collect pids i (seats, players))
    (\<lambda>(seats', players') h. fair_with l h \<and> players' = seated seats' \<and> length seats' = length seats)
    (\<lambda>_ h. fair None h) h"
proof -
  let ?Q = "\<lambda>(seats', players') h. fair_with l h \<and> players' = seated seats' \<and> length seats' = length seats"
  have E: "fair None (h' @ tr)" and F: "fair_with l (h' @ tr)" if "fair_with l h'" "mute tr" for tr h'
    using fair_with_mute [OF that] by (simp_all add: fair_with_def)
  have G: "fair_with l h' \<Longrightarrow> fair None h'" for h' by (simp add: fair_with_def)
  obtain fw fr where s: "seats ! i = (fw, fr)" by (cases "seats ! i")
  show ?thesis
  proof (cases "fw = 0")
    case True
    with J s show ?thesis by (simp add: collect_def wp_return)
  next
    case False
    with seated_leaves [OF J(3)] s J(2) have left: "players - 1 = seated (seats[i := (0, 0)])" by simp
    show ?thesis
      unfolding collect_def prod.case s say_def if_not_P [OF False]
      by (intro wp_bind wp_uninit wp_mute_retry wp_if wp_close_retry wp_return wp_tell wp_err)
        (simp_all add: E [OF J(1)] F [OF J(1)] left [unfolded J(2)] J(2) mute_bet)
  qed
qed

lemma wp_tell_lucky:
  assumes "fair_with (Some v) h" and "0 \<le> v" and "v < ROULETTE_NUMS"
  shows "wp (tell_lucky v s u) (\<lambda>_ h. fair_with (Some v) h) (\<lambda>_ h. fair None h) h"
proof -
  have w: "carries (Some v) (Sys Write [I f, B (int_bytes v)] r)" for f r using assms(2,3) by (simp add: carries_def)
  have "fair (Some v) tr \<and> foldl announces (Some v) tr = Some v" if "attempts Write [I f, B (int_bytes v)] tr" for f tr
    using that by (induction tr) (auto simp: attempts_def w)
  then have F: "fair_with (Some v) (h @ tr @ us)"
    if "attempts Write [I f, B (int_bytes v)] tr" "fair (Some v) us" "foldl announces (Some v) us = Some v" for f tr us
    using that assms(1) by (auto simp: fair_with_def lucky_of_def fair_append)
  then have E: "fair None (h @ tr @ us)"
    if "attempts Write [I f, B (int_bytes v)] tr" "fair (Some v) us" "foldl announces (Some v) us = Some v" for f tr us
    using that by (auto simp: fair_with_def)
  show ?thesis
    unfolding tell_lucky_def using assms(1)
    by (cases s) (auto intro!: wp_bind wp_retry wp_if wp_err wp_return E F simp: w)
qed


lemma within_croupier [within_intros]:
  "within (close_retry fd)" "within (collect pids i st)" "within (tell_lucky v s u)" "within (say f args)"
proof -
  show [within_intros]: "within (close_retry fd)" for fd unfolding close_retry_def by (intro within_intros)
  show [within_intros]: "within (say f args)" for f args unfolding say_def by (intro within_intros)
  obtain seats players where st: "st = (seats, players)" by (cases st)
  obtain fw fr where i: "seats ! i = (fw, fr)" by (cases "seats ! i")
  show "within (collect pids i st)" unfolding collect_def st i prod.case by (intro within_intros)
  show "within (tell_lucky v s u)" unfolding tell_lucky_def by (cases s) (simp only: prod.case, intro within_intros)
qed

lemma croupier_progressing: "progressing (croupier_round pids st)"
proof (cases st)
  case (Pair seats players)
  show ?thesis
    unfolding Pair croupier_round_def Let_def prod.case
    by (rule progressing_bind, intro within_intros, simp only: split_beta, intro within_intros)
qed

lemma wp_collect_all:
  assumes "fair_with l h" and "players = seated seats"
  shows "wp (for_each [0..<length seats] (collect pids) (seats, players))
    (\<lambda>(seats', players') h. fair_with l h \<and> players' = seated seats') (\<lambda>_ h. fair None h) h"
proof (rule wp_for_each [where J = "\<lambda>is (seats', players') h. fair_with l h \<and> players' = seated seats'
    \<and> length seats' = length seats \<and> set is \<subseteq> {..<length seats}"], goal_cases start step stop)
  case (step i "is" st h)
  then show ?case
    by (cases st) (auto intro: wp_mono [OF wp_collect])
qed (use assms in auto)

lemma wp_croupier_round:
  assumes "fair None h" and "players = seated seats"
  shows "wp (croupier_round pids (seats, players))
    (\<lambda>x h. fair None h \<and> (case x of Inl (seats', players') \<Rightarrow> players' = seated seats' | Inr seats' \<Rightarrow> seated seats' \<le> 0))
    (\<lambda>_ h. fair None h) h"
proof -
  have J: "fair_with (lucky_of h) h" using assms(1) by (simp add: fair_with_def)
  show ?thesis
    unfolding croupier_round_def prod.case Let_def say_def
  proof (rule wp_bind, rule wp_mono [OF wp_collect_all [OF J assms(2)]], goal_cases collected failed)
    case (collected st h1)
    obtain seats' players' where st: "st = (seats', players')" by (cases st)
    with collected have h1: "fair_with (lucky_of h) h1" "players' = seated seats'" by simp_all
    have num: "0 \<le> v mod ROULETTE_NUMS" "v mod ROULETTE_NUMS < ROULETTE_NUMS" for v by (auto simp: ROULETTE_NUMS_def)
    have told: "fair_with (Some v) (h1 @ [Sys Rand [] (Some r), Print ''Croupier: %d is the lucky number'' [I v]])" for v r
      using h1(1) by (simp add: fair_with_def fair_append lucky_of_def announces_def carries_def)
    have quiet: "fair None (h1 @ [Sys Rand [] None])"
      using fair_with_mute [OF h1(1), of "[Sys Rand [] None]"] by (simp add: fair_with_def)
    show ?case
      unfolding st prod.case
      by (intro wp_if wp_return wp_bind wp_sys wp_tell wp_for_each [where J = "\<lambda>_ _. fair_with (Some l)" for l])
        (use h1 told num quiet in \<open>auto simp: fair_with_def intro: wp_mono [OF wp_tell_lucky]\<close>)
  qed simp
qed

lemma wp_croupier:
  assumes "\<forall>(fw, fr) \<in> set seats. fw \<noteq> 0"
  shows "wp (croupier pids seats) (\<lambda>seats' h. fair None h \<and> seated seats' \<le> 0) (\<lambda>_ h. fair None h) []"
proof -
  have all: "int (length seats) = seated seats" using assms by (auto simp: seated_def intro!: arg_cong [where f = length] filter_True [symmetric])
  have last: "fair None (h @ [Print ''Croupier: Casino always wins'' []])" if "fair None h" for h
    using that by (simp add: fair_append)
  have close: "wp (bind (tell (Print ''Croupier: Casino always wins'' [])) (\<lambda>_. return seats'))
      (\<lambda>seats' h. fair None h \<and> seated seats' \<le> 0) (\<lambda>_ h. fair None h) h" if "fair None h" "seated seats' \<le> 0" for seats' h
    using last that by (intro wp_bind wp_tell wp_return) auto
  show ?thesis
    unfolding croupier_def say_def
  proof (intro wp_bind wp_loop [where J = "\<lambda>(seats, players) h. fair None h \<and> players = seated seats"]
      croupier_progressing, goal_cases start step)
    case (step st h)
    then show ?case
      by (cases st) (auto intro!: close wp_mono [OF wp_croupier_round] split: sum.splits)
  qed (simp add: all)
qed

lemma nobody_seated: "seated seats \<le> 0 \<Longrightarrow> \<forall>(fw, fr) \<in> set seats. fw = 0"
  by (auto simp: seated_def filter_empty_conv)

section \<open>Properties\<close>

text \<open>
  C35. \<open>example.c\<close> (Lab 5): a player keeps to the rules. When \<open>child_work\<close> returns, what was
  written and read are rounds of the game: each bet is covered by the money at that time, each number
  is one of the wheel, the player has won 35 times its bet when its number is the lucky number it
  got and has lost the bet otherwise, and it leaves with the money these rounds lead to.
\<close>

theorem player_plays_game:
  assumes "player M fw fr rs = (Val M', h, rs')" and "0 < M" and "M \<le> INT_MAX"
  shows "\<exists>turns. played fw fr turns h \<and> game M turns = Some M' \<and> 0 \<le> M' \<and> M' \<le> INT_MAX"
proof -
  have "round_ok M fw fr M' h" using wp_runs [OF wp_player [OF assms(2)] assms(1)] by simp
  then show ?thesis using game_range [of M _ M'] assms(2,3) by (auto simp: round_ok_def)
qed

definition lost_evening :: "reply list" where
  "lost_evening = [Done 7, Done 1, Done 99, Done 5, Done 4, Done 4, Bytes [8, 0, 0, 0], Done 7]"

lemma player_plays_game_witness:
  "\<exists>h turns. player 100 4 3 lost_evening = (Val 0, h, []) \<and> game 100 turns = Some 0"
proof -
  define out where "out = player 100 4 3 lost_evening"
  have facts: "fst out = Val 0 \<and> snd (snd out) = []" unfolding out_def by code_simp
  obtain x h rs' where "out = (x, h, rs')" by (cases out)
  with facts have run: "player 100 4 3 lost_evening = (Val 0, h, [])" by (simp add: out_def)
  show ?thesis using player_plays_game [OF run] run by (auto simp: INT_MAX_def)
qed


definition last_night :: "reply list" where
  "last_night = [Bytes [0, 0, 0, 0], Bytes [5, 0, 0, 0], Bytes [0, 0, 0, 0], Bytes [7, 0, 0, 0], Done 40, Done 4,
     Bytes [0, 0, 0, 0], Bytes [], Done 0, Done 0]"


text \<open>Only calls of \<open>close\<close>, and complaints.\<close>

definition only_closes :: "event list \<Rightarrow> bool" where
  "only_closes h \<longleftrightarrow> (\<forall>e \<in> set h. case e of Sys c args r \<Rightarrow> c = Close | Complain m \<Rightarrow> True | _ \<Rightarrow> False)"

lemma only_closes_simps [simp]:
  "only_closes []" "only_closes (tr @ us) \<longleftrightarrow> only_closes tr \<and> only_closes us" "only_closes (Sys Close args r # tr) = only_closes tr"
  "only_closes (Complain m # tr) = only_closes tr"
  by (auto simp: only_closes_def)

lemma wp_only_close:
  assumes "only_closes h" and "\<And>h. only_closes h \<Longrightarrow> Q () h"
  shows "wp (close_retry fd) Q (\<lambda>c h. only_closes h \<and> c \<noteq> Some 0) h"
proof -
  have "only_closes tr" if "attempts Close args tr" for args tr
    using that by (auto simp: attempts_def only_closes_def)
  then show ?thesis unfolding close_retry_def by (intro wp_rules) (simp_all add: assms)
qed

lemma wp_close_earlier:
  "odd (length seats) \<Longrightarrow> only_closes h \<Longrightarrow>
    wp (close_earlier seats) (\<lambda>_ _. False) (\<lambda>c h. only_closes h \<and> c \<noteq> Some 0) h"
  by (induction seats arbitrary: h rule: close_earlier.induct) (auto intro!: wp_bind wp_only_close wp_undefined)

text \<open>
  \<open>example.c\<close> (Lab 5): the loop in which a new player closes the pipes made before it increments
  its index twice in a round; after an odd number of players it reads behind the array. So the second
  player never plays: whatever the calls reply, it makes no other call than \<open>close\<close> and does not
  come to its game or to its regular end.
\<close>

theorem even_player_never_plays:
  assumes "player_process M seats tfw tfr rs = (x, h, rs')" and "odd (length seats)"
  shows "only_closes h \<and> (case x of Val v \<Rightarrow> False | Exits c \<Rightarrow> c \<noteq> 0 | Waits \<Rightarrow> True)"
proof -
  have "wp (player_process M seats tfw tfr) (\<lambda>_ _. False) (\<lambda>c h. only_closes h \<and> c \<noteq> Some 0) []"
    unfolding player_process_def using wp_close_earlier [OF assms(2), of "[]"]
    by (intro wp_bind) (auto intro: wp_mono)
  from wp_runs [OF this assms(1)] show ?thesis by (cases x) auto
qed

lemma even_player_never_plays_witness:
  "\<exists>h. player_process 100 [(5, 6)] (3, 4) (7, 8) [Done 0] = (Exits 136, h, []) \<and> only_closes h"
proof -
  define out where "out = player_process 100 [(5, 6)] (3, 4) (7, 8) [Done 0]"
  have facts: "fst out = Exits 136 \<and> snd (snd out) = []" unfolding out_def by code_simp
  obtain x h rs' where "out = (x, h, rs')" by (cases out)
  with facts have run: "player_process 100 [(5, 6)] (3, 4) (7, 8) [Done 0] = (Exits 136, h, [])" by (simp add: out_def)
  show ?thesis using even_player_never_plays [OF run] run by auto
qed

end
