(* ===== verification/Workers.thy ===== *)
theory Workers
  imports Threads Sockets
begin

text \<open>
  \<open>Lab - 6/example.c\<close>: a parent queues tasks, workers take them from the common queue and send the
  results on queues of their own, and the parent prints the results in the handler of the signal by
  which a queue announces that it is not empty any more. All processes run interleaved; the handler
  interrupts the parent. \<open>tenth k\<close> stands for \<open>((float)k) / 10\<close> and \<open>add\<close> for the addition of \<open>float\<close>.
  \<open>ERR\<close> kills all processes of the group, so it ends the run.
\<close>

section \<open>The program\<close>

definition MIN_WORKERS :: int where "MIN_WORKERS = 2"

definition MAX_WORKERS :: int where "MAX_WORKERS = 20"

definition MIN_TIME :: int where "MIN_TIME = 100"

definition MAX_TIME :: int where "MAX_TIME = 5000"

definition TASK_MSGS :: nat where "TASK_MSGS = 10"

text \<open>The arguments that \<open>main\<close> goes on with.\<close>

definition worker_args :: "string list \<Rightarrow> (nat \<times> int \<times> int) option" where
  "worker_args argv =
     (if length argv \<noteq> 4 then None
      else let n = atoi (argv ! 1); T1 = atoi (argv ! 2); T2 = atoi (argv ! 3) in
        if n < MIN_WORKERS \<or> MAX_WORKERS < n then None
        else if T1 < MIN_TIME \<or> T2 < T1 \<or> MAX_TIME < T2 then None
        else Some (nat n, T1, T2))"

datatype 'f worker_pc = TwNew | TwOpen | TwReceive nat | TwSend nat "'f \<times> 'f" | TwEnd

text \<open>\<open>TpGone\<close>: the parent alone has ended, without killing the group.\<close>

datatype parent_pc =
  TpQueue | TpFork nat | TpOpen nat | TpNotify nat | TpSend nat | TpPause nat | TpWait | TpUnlink | TpSleep
| TpExit int | TpGone

datatype handler_pc = ThIdle | ThNotify nat | ThReceive nat

datatype 'f task_out =
  WorkerReady nat | GotTask nat "'f \<times> 'f" | SentResult nat 'f | WorkerExits nat | SignalIn | ResultFrom nat 'f
| ServerStarts | Queued "'f \<times> 'f" | QueueFull | BeforeWait | AllFinished | TaskError string

datatype task_actor = TaskWorker nat bool | TaskHandler | TaskMain nat nat bool

record 'f tasksys =
  task_q :: "('f \<times> 'f) list"
  result_q :: "nat \<Rightarrow> 'f list"
  registered :: "nat \<Rightarrow> bool"
  signals :: "nat list"
  children :: nat
  tw :: "nat \<Rightarrow> 'f worker_pc"
  tp :: parent_pc
  th :: handler_pc
  touts :: "'f task_out list"

definition task_say :: "'f task_out \<Rightarrow> 'f tasksys \<Rightarrow> 'f tasksys" where
  "task_say x s = s\<lparr>touts := touts s @ [x]\<rparr>"

definition tw_at :: "nat \<Rightarrow> 'f worker_pc \<Rightarrow> 'f tasksys \<Rightarrow> 'f tasksys" where
  "tw_at w p s = s\<lparr>tw := (tw s)(w := p)\<rparr>"

definition task_err :: "string \<Rightarrow> 'f tasksys \<Rightarrow> 'f tasksys" where
  "task_err m s = task_say (TaskError m) (s\<lparr>tp := TpExit 1\<rparr>)"

text \<open>A message for an empty queue uses up the registration and sends the signal.\<close>

definition send_result :: "nat \<Rightarrow> 'f \<Rightarrow> 'f tasksys \<Rightarrow> 'f tasksys option" where
  "send_result w r s =
     (if length (result_q s w) < TASK_MSGS then
        let s' = s\<lparr>result_q := (result_q s)(w := result_q s w @ [r])\<rparr> in
        Some (if result_q s w = [] \<and> registered s w
              then s'\<lparr>registered := (registered s)(w := False), signals := signals s @ [w]\<rparr> else s')
      else None)"

text \<open>\<open>child_work\<close>; a call is one step together with the message that follows it.\<close>

definition task_worker :: "('f \<Rightarrow> 'f \<Rightarrow> 'f) \<Rightarrow> nat \<Rightarrow> bool \<Rightarrow> 'f tasksys \<Rightarrow> 'f tasksys option" where
  "task_worker add w ok s =
     (case tw s w of
        TwNew \<Rightarrow> None
      | TwOpen \<Rightarrow>
          if ok then Some (task_say (WorkerReady w) (tw_at w (TwReceive 0) s)) else Some (task_err ''mq open task queue'' s)
      | TwReceive i \<Rightarrow>
          if i < 5 then
            (case task_q s of
               [] \<Rightarrow> None
             | t # ts \<Rightarrow> Some (task_say (GotTask w t) (tw_at w (TwSend i t) (s\<lparr>task_q := ts\<rparr>))))
          else Some (task_say (WorkerExits w) (tw_at w TwEnd s))
      | TwSend i t \<Rightarrow>
          let res = add (fst t) (snd t) in
          map_option (\<lambda>s. task_say (SentResult w res) (tw_at w (TwReceive (Suc i)) s)) (send_result w res s)
      | TwEnd \<Rightarrow> None)"

text \<open>\<open>mq_handler\<close>: to register twice is an error.\<close>

definition register :: "nat \<Rightarrow> 'f tasksys \<Rightarrow> 'f tasksys option" where
  "register i s = (if registered s i then None else Some (s\<lparr>registered := (registered s)(i := True)\<rparr>))"

definition mq_handler :: "'f tasksys \<Rightarrow> 'f tasksys option" where
  "mq_handler s =
     (case th s of
        ThIdle \<Rightarrow>
          (case signals s of
             [] \<Rightarrow> None
           | i # rest \<Rightarrow> Some (task_say SignalIn (s\<lparr>signals := rest, th := ThNotify i\<rparr>)))
      | ThNotify i \<Rightarrow>
          (case register i s of None \<Rightarrow> Some (task_err ''mq_notify'' s) | Some s' \<Rightarrow> Some (s'\<lparr>th := ThReceive 0\<rparr>))
      | ThReceive j \<Rightarrow>
          if j < children s then
            (case result_q s j of
               [] \<Rightarrow> Some (s\<lparr>th := ThReceive (Suc j)\<rparr>)
             | r # rs \<Rightarrow> Some (task_say (ResultFrom j r) (s\<lparr>result_q := (result_q s)(j := rs)\<rparr>)))
          else Some (s\<lparr>th := ThIdle\<rparr>))"

text \<open>
  \<open>main\<close>, \<open>create_children\<close> and \<open>parent_work\<close>. The time limit of \<open>mq_timedsend\<close> has always passed,
  so a full queue is an error at once; which one decides about a message only. SIGCHLD is ignored:
  \<open>wait\<close> returns when there are no children left. The last \<open>sleep\<close> does not return before the
  signals that have come have been handled.
\<close>

definition task_main :: "(nat \<Rightarrow> 'f) \<Rightarrow> nat \<Rightarrow> int \<Rightarrow> int \<Rightarrow> nat \<Rightarrow> nat \<Rightarrow> bool \<Rightarrow> 'f tasksys \<Rightarrow> 'f tasksys option" where
  "task_main tenth n T1 T2 r1 r2 ok s =
     (case tp s of
        TpQueue \<Rightarrow> Some (if ok then s\<lparr>tp := TpFork 0\<rparr> else task_err ''mq open task queue'' s)
      | TpFork i \<Rightarrow>
          if i < n then
            (if ok then Some (tw_at (children s) TwOpen (s\<lparr>children := Suc (children s), tp := TpFork (Suc i)\<rparr>))
             else Some (task_say (TaskError ''Fork:'') (s\<lparr>tp := TpGone\<rparr>)))
          else Some (s\<lparr>tp := TpOpen 0\<rparr>)
      | TpOpen i \<Rightarrow>
          if i < n then Some (if ok then s\<lparr>tp := TpNotify i\<rparr> else task_err ''mq open task queue'' s)
          else Some (task_say ServerStarts (s\<lparr>tp := TpSend 0\<rparr>))
      | TpNotify i \<Rightarrow>
          (case register i s of None \<Rightarrow> Some (task_err ''mq_notify'' s) | Some s' \<Rightarrow> Some (s'\<lparr>tp := TpOpen (Suc i)\<rparr>))
      | TpSend i \<Rightarrow>
          if i < 5 * n then
            let t = (tenth (r1 mod 1000), tenth (r2 mod 1000)) in
            if length (task_q s) < TASK_MSGS
            then Some (task_say (Queued t) (s\<lparr>task_q := task_q s @ [t], tp := TpPause (Suc i)\<rparr>))
            else Some ((if ok then task_say QueueFull s else s)\<lparr>tp := TpPause i\<rparr>)
          else Some (task_say BeforeWait (s\<lparr>tp := TpWait\<rparr>))
      | TpPause i \<Rightarrow> Some (if T2 - T1 = 0 then s\<lparr>tp := TpGone\<rparr> else s\<lparr>tp := TpSend i\<rparr>)
      | TpWait \<Rightarrow>
          if \<forall>w < children s. tw s w = TwEnd then Some (task_say AllFinished (s\<lparr>tp := TpUnlink\<rparr>)) else None
      | TpUnlink \<Rightarrow> Some (if ok then s\<lparr>tp := TpSleep\<rparr> else task_err ''mq unlink'' s)
      | TpSleep \<Rightarrow> if signals s = [] then Some (s\<lparr>tp := TpExit 0\<rparr>) else None
      | TpExit c \<Rightarrow> None
      | TpGone \<Rightarrow> None)"

definition task_program ::
  "(nat \<Rightarrow> 'f) \<Rightarrow> ('f \<Rightarrow> 'f \<Rightarrow> 'f) \<Rightarrow> nat \<Rightarrow> int \<Rightarrow> int \<Rightarrow> task_actor \<Rightarrow> 'f tasksys \<Rightarrow> 'f tasksys option" where
  "task_program tenth add n T1 T2 a s =
     (case tp s of
        TpExit c \<Rightarrow> None
      | _ \<Rightarrow> (case a of
          TaskWorker w ok \<Rightarrow> task_worker add w ok s
        | TaskHandler \<Rightarrow> if tp s = TpGone then None else mq_handler s
        | TaskMain r1 r2 ok \<Rightarrow> if th s = ThIdle then task_main tenth n T1 T2 r1 r2 ok s else None))"

definition task_start :: "'f tasksys" where
  "task_start = \<lparr>task_q = [], result_q = (\<lambda>_. []), registered = (\<lambda>_. False), signals = [], children = 0,
     tw = (\<lambda>_. TwNew), tp = TpQueue, th = ThIdle, touts = []\<rparr>"

section \<open>What the messages show\<close>

definition queued_of :: "'f task_out list \<Rightarrow> ('f \<times> 'f) list" where
  "queued_of os = concat (map (\<lambda>x. case x of Queued t \<Rightarrow> [t] | _ \<Rightarrow> []) os)"

definition got_of :: "nat \<Rightarrow> 'f task_out list \<Rightarrow> ('f \<times> 'f) list" where
  "got_of w os = concat (map (\<lambda>x. case x of GotTask v t \<Rightarrow> if v = w then [t] else [] | _ \<Rightarrow> []) os)"

definition sent_of :: "nat \<Rightarrow> 'f task_out list \<Rightarrow> 'f list" where
  "sent_of w os = concat (map (\<lambda>x. case x of SentResult v r \<Rightarrow> if v = w then [r] else [] | _ \<Rightarrow> []) os)"

definition shown_of :: "nat \<Rightarrow> 'f task_out list \<Rightarrow> 'f list" where
  "shown_of w os = concat (map (\<lambda>x. case x of ResultFrom v r \<Rightarrow> if v = w then [r] else [] | _ \<Rightarrow> []) os)"

lemma of_nil [simp]: "queued_of [] = []" "got_of w [] = []" "sent_of w [] = []" "shown_of w [] = []"
  by (simp_all add: queued_of_def got_of_def sent_of_def shown_of_def)

lemma of_snoc [simp]:
  "queued_of (os @ [x]) = queued_of os @ (case x of Queued t \<Rightarrow> [t] | _ \<Rightarrow> [])"
  "got_of w (os @ [x]) = got_of w os @ (case x of GotTask v t \<Rightarrow> if v = w then [t] else [] | _ \<Rightarrow> [])"
  "sent_of w (os @ [x]) = sent_of w os @ (case x of SentResult v r \<Rightarrow> if v = w then [r] else [] | _ \<Rightarrow> [])"
  "shown_of w (os @ [x]) = shown_of w os @ (case x of ResultFrom v r \<Rightarrow> if v = w then [r] else [] | _ \<Rightarrow> [])"
  by (simp_all add: queued_of_def got_of_def sent_of_def shown_of_def)

lemma task_frame [simp]:
  "task_q (task_say x s) = task_q s" "result_q (task_say x s) = result_q s" "registered (task_say x s) = registered s"
  "signals (task_say x s) = signals s" "children (task_say x s) = children s" "tw (task_say x s) = tw s"
  "tp (task_say x s) = tp s" "th (task_say x s) = th s" "touts (task_say x s) = touts s @ [x]"
  "task_q (tw_at w p s) = task_q s" "result_q (tw_at w p s) = result_q s" "registered (tw_at w p s) = registered s"
  "signals (tw_at w p s) = signals s" "children (tw_at w p s) = children s" "tw (tw_at w p s) = (tw s)(w := p)"
  "tp (tw_at w p s) = tp s" "th (tw_at w p s) = th s" "touts (tw_at w p s) = touts s"
  by (simp_all add: task_say_def tw_at_def)

lemma task_err_frame [simp]:
  "task_q (task_err m s) = task_q s" "result_q (task_err m s) = result_q s" "registered (task_err m s) = registered s"
  "signals (task_err m s) = signals s" "children (task_err m s) = children s" "tw (task_err m s) = tw s"
  "tp (task_err m s) = TpExit 1" "th (task_err m s) = th s" "touts (task_err m s) = touts s @ [TaskError m]"
  by (simp_all add: task_err_def)

section \<open>The invariant\<close>

text \<open>A worker has sent the sums of the tasks it got, but for the one it works on.\<close>

fun worker_ok :: "('f \<Rightarrow> 'f \<Rightarrow> 'f) \<Rightarrow> 'f worker_pc \<Rightarrow> ('f \<times> 'f) list \<Rightarrow> 'f list \<Rightarrow> bool" where
  "worker_ok add TwNew got sent = (got = [] \<and> sent = [])"
| "worker_ok add TwOpen got sent = (got = [] \<and> sent = [])"
| "worker_ok add (TwReceive i) got sent = (i \<le> 5 \<and> length got = i \<and> sent = map (\<lambda>(a, b). add a b) got)"
| "worker_ok add (TwSend i t) got sent =
     (i < 5 \<and> (\<exists>ts. got = ts @ [t] \<and> length ts = i \<and> sent = map (\<lambda>(a, b). add a b) ts))"
| "worker_ok add TwEnd got sent = (length got = 5 \<and> sent = map (\<lambda>(a, b). add a b) got)"

fun early :: "parent_pc \<Rightarrow> bool" where
  "early TpQueue = True" | "early (TpFork i) = True" | "early (TpOpen i) = True" | "early (TpNotify i) = True"
| "early _ = False"

text \<open>How many queues the parent has registered for, and how many children it has.\<close>

fun enrolled :: "nat \<Rightarrow> parent_pc \<Rightarrow> nat" where
  "enrolled n TpQueue = 0" | "enrolled n (TpFork i) = 0" | "enrolled n (TpOpen i) = i" | "enrolled n (TpNotify i) = i"
| "enrolled n _ = n"

fun forked :: "nat \<Rightarrow> parent_pc \<Rightarrow> nat" where
  "forked n TpQueue = 0" | "forked n (TpFork i) = i" | "forked n _ = n"

fun queued_by :: "nat \<Rightarrow> parent_pc \<Rightarrow> nat" where
  "queued_by n (TpSend i) = i" | "queued_by n (TpPause i) = i" | "queued_by n TpWait = 5 * n"
| "queued_by n TpUnlink = 5 * n" | "queued_by n TpSleep = 5 * n" | "queued_by n (TpExit c) = 5 * n" | "queued_by n _ = 0"

fun parent_range :: "nat \<Rightarrow> parent_pc \<Rightarrow> bool" where
  "parent_range n (TpFork i) = (i \<le> n)" | "parent_range n (TpOpen i) = (i \<le> n)" | "parent_range n (TpNotify i) = (i < n)"
| "parent_range n (TpSend i) = (i \<le> 5 * n)" | "parent_range n (TpPause i) = (i \<le> 5 * n)" | "parent_range n _ = True"

text \<open>The notification of a queue is registered, on its way, or about to be registered again.\<close>

definition tokens :: "'f tasksys \<Rightarrow> nat \<Rightarrow> nat" where
  "tokens s w = of_bool (registered s w) + count_list (signals s) w + of_bool (th s = ThNotify w)"

text \<open>The handler will still look at the queue.\<close>

definition noticed :: "'f tasksys \<Rightarrow> nat \<Rightarrow> bool" where
  "noticed s w \<longleftrightarrow> w \<in> set (signals s) \<or> (case th s of ThIdle \<Rightarrow> False | ThNotify i \<Rightarrow> True | ThReceive j \<Rightarrow> j \<le> w)"

definition worker_inv :: "('f \<Rightarrow> 'f \<Rightarrow> 'f) \<Rightarrow> nat \<Rightarrow> 'f tasksys \<Rightarrow> nat \<Rightarrow> bool" where
  "worker_inv add n s w \<longleftrightarrow> worker_ok add (tw s w) (got_of w (touts s)) (sent_of w (touts s))
     \<and> sent_of w (touts s) = shown_of w (touts s) @ result_q s w \<and> (n \<le> w \<longrightarrow> tw s w = TwNew)"

definition queue_inv :: "nat \<Rightarrow> 'f tasksys \<Rightarrow> bool" where
  "queue_inv n s \<longleftrightarrow> mset (queued_of (touts s)) = (\<Sum>w<n. mset (got_of w (touts s))) + mset (task_q s)
     \<and> length (task_q s) \<le> TASK_MSGS"

definition workers_inv :: "('f \<Rightarrow> 'f \<Rightarrow> 'f) \<Rightarrow> nat \<Rightarrow> 'f tasksys \<Rightarrow> bool" where
  "workers_inv add n s \<longleftrightarrow> (\<forall>w. worker_inv add n s w) \<and> queue_inv n s"

text \<open>As long as the parent is there.\<close>

definition watched :: "nat \<Rightarrow> 'f tasksys \<Rightarrow> nat \<Rightarrow> bool" where
  "watched n s w \<longleftrightarrow> (w < children s \<longleftrightarrow> tw s w \<noteq> TwNew) \<and> tokens s w = of_bool (w < enrolled n (tp s))
     \<and> (result_q s w \<noteq> [] \<longrightarrow> noticed s w)"

definition parent_inv :: "nat \<Rightarrow> 'f tasksys \<Rightarrow> bool" where
  "parent_inv n s \<longleftrightarrow> parent_range n (tp s) \<and> length (queued_of (touts s)) = queued_by n (tp s)
     \<and> children s = forked n (tp s) \<and> (\<forall>w. watched n s w)
     \<and> (early (tp s) \<longrightarrow> signals s = [] \<and> th s = ThIdle)
     \<and> (tp s \<in> {TpUnlink, TpSleep, TpExit 0} \<longrightarrow> (\<forall>w < n. tw s w = TwEnd))
     \<and> (tp s = TpExit 0 \<longrightarrow> signals s = [] \<and> th s = ThIdle)"

definition task_inv :: "('f \<Rightarrow> 'f \<Rightarrow> 'f) \<Rightarrow> nat \<Rightarrow> 'f tasksys \<Rightarrow> bool" where
  "task_inv add n s \<longleftrightarrow> workers_inv add n s \<and> (tp s = TpGone \<or> tp s = TpExit 1 \<or> parent_inv n s)"

lemma task_start_inv: "task_inv add n task_start"
  by (simp add: task_inv_def workers_inv_def worker_inv_def queue_inv_def parent_inv_def watched_def task_start_def tokens_def)

section \<open>Steps keep the invariant\<close>

text \<open>A worker changes its own position and messages only.\<close>

lemma send_result_frame:
  assumes "send_result w r s = Some s'"
  shows "task_q s' = task_q s" "tw s' = tw s" "tp s' = tp s" "th s' = th s" "touts s' = touts s" "children s' = children s"
    "result_q s' = (result_q s)(w := result_q s w @ [r])"
    "registered s' = (if result_q s w = [] \<and> registered s w then (registered s)(w := False) else registered s)"
    "signals s' = (if result_q s w = [] \<and> registered s w then signals s @ [w] else signals s)"
    "length (result_q s w) < TASK_MSGS"
  using assms by (auto simp: send_result_def Let_def split: if_splits)

lemma sum_got_upd:
  fixes g g' :: "nat \<Rightarrow> 'b multiset"
  assumes "w < n" and "\<And>v. v \<noteq> w \<Longrightarrow> g' v = g v" and "g' w = g w + m"
  shows "(\<Sum>v<n. g' v) = (\<Sum>v<n. g v) + m"
proof -
  have "(\<Sum>v<n. g' v) + g w = (\<Sum>v<n. g v) + g' w" using assms(1,2) by (rule sum_one_changes)
  with assms(3) show ?thesis by (simp add: ac_simps)
qed

text \<open>A worker that a step does not touch.\<close>

lemma worker_inv_same:
  assumes "tw s' w = tw s w" "result_q s' w = result_q s w" "got_of w (touts s') = got_of w (touts s)"
    "sent_of w (touts s') = sent_of w (touts s)" "shown_of w (touts s') = shown_of w (touts s)"
  shows "worker_inv add n s' w = worker_inv add n s w"
  by (simp only: worker_inv_def assms)

lemma worker_step_inv:
  assumes inv: "workers_inv add n s" and st: "task_worker add w ok s = Some s'"
  shows "workers_inv add n s'"
proof -
  have W: "worker_inv add n s v" for v using inv by (simp add: workers_inv_def)
  have Q: "queue_inv n s" using inv by (simp add: workers_inv_def)
  have "tw s w \<noteq> TwNew" using st by (auto simp: task_worker_def)
  with W [of w] have w: "w < n" by (auto simp: worker_inv_def not_le [symmetric])
  have other: "worker_inv add n s' v = worker_inv add n s v" if "v \<noteq> w" for v
    using st that by (intro worker_inv_same; cases "tw s w")
      (auto simp: task_worker_def Let_def send_result_frame split: if_splits list.splits)
  have self: "worker_inv add n s' w \<and> queue_inv n s'"
  proof (cases "tw s w")
    case (TwReceive i)
    show ?thesis
    proof (cases "i < 5")
      case True
      with st TwReceive obtain t ts where t: "task_q s = t # ts"
        and s': "s' = task_say (GotTask w t) (tw_at w (TwSend i t) (s\<lparr>task_q := ts\<rparr>))"
        by (auto simp: task_worker_def split: list.splits)
      have "(\<Sum>v<n. mset (got_of v (touts s'))) = (\<Sum>v<n. mset (got_of v (touts s))) + {#t#}"
        using w by (intro sum_got_upd [of w]) (simp_all add: s')
      with W [of w] Q TwReceive True t show ?thesis by (auto simp: s' worker_inv_def queue_inv_def)
    next
      case False
      with st TwReceive have "s' = task_say (WorkerExits w) (tw_at w TwEnd s)" by (simp add: task_worker_def)
      with W [of w] Q w TwReceive False show ?thesis by (auto simp: worker_inv_def queue_inv_def)
    qed
  next
    case (TwSend i t)
    then obtain u where u: "send_result w (add (fst t) (snd t)) s = Some u"
      and s': "s' = task_say (SentResult w (add (fst t) (snd t))) (tw_at w (TwReceive (Suc i)) u)"
      using st by (auto simp: task_worker_def Let_def)
    note f = send_result_frame [OF u]
    from W [of w] TwSend Q w show ?thesis
      by (auto simp: s' f worker_inv_def queue_inv_def split: prod.splits)
  qed (use st W [of w] Q w in \<open>(auto simp: task_worker_def worker_inv_def queue_inv_def split: if_splits)[1]\<close>)+
  have "worker_inv add n s' v" for v using W [of v] other [of v] self by (cases "v = w") auto
  with self show ?thesis by (simp add: workers_inv_def)
qed

lemma register_frame:
  assumes "register i s = Some s'"
  shows "\<not> registered s i" "s' = s\<lparr>registered := (registered s)(i := True)\<rparr>"
  using assms by (auto simp: register_def split: if_splits)

lemma handler_step_inv:
  assumes inv: "workers_inv add n s" and st: "mq_handler s = Some s'"
  shows "workers_inv add n s'"
proof -
  have W: "worker_inv add n s v" for v using inv by (simp add: workers_inv_def)
  have Q: "queue_inv n s'"
    using inv st by (cases "th s") (auto simp: workers_inv_def queue_inv_def mq_handler_def dest!: register_frame(2)
      split: list.splits option.splits if_splits)
  have "worker_inv add n s' v" for v
  proof (cases "th s = ThReceive v \<and> v < children s \<and> result_q s v \<noteq> []")
    case True
    with st W [of v] show ?thesis by (auto simp: mq_handler_def worker_inv_def split: list.splits)
  next
    case False
    with st have "worker_inv add n s' v = worker_inv add n s v"
      by (intro worker_inv_same; cases "th s")
        (auto simp: mq_handler_def dest!: register_frame(2) split: list.splits option.splits if_splits)
    with W show ?thesis by simp
  qed
  with Q show ?thesis by (simp add: workers_inv_def)
qed

lemma main_frame:
  assumes "task_main tenth n T1 T2 r1 r2 ok s = Some s'"
  shows "result_q s' = result_q s" "th s' = th s" "signals s' = signals s" "got_of w (touts s') = got_of w (touts s)"
    "sent_of w (touts s') = sent_of w (touts s)" "shown_of w (touts s') = shown_of w (touts s)"
    "tw s' = tw s \<or> (\<exists>i. tp s = TpFork i \<and> i < n \<and> tw s' = (tw s)(children s := TwOpen))"
  using assms by (cases "tp s"; auto simp: task_main_def Let_def dest!: register_frame(2) split: if_splits option.splits)+

lemma main_step_inv:
  assumes inv: "workers_inv add n s" and st: "task_main tenth n T1 T2 r1 r2 ok s = Some s'"
    and p: "tp s = TpGone \<or> parent_inv n s"
  shows "workers_inv add n s'"
proof -
  have W: "worker_inv add n s v" for v using inv by (simp add: workers_inv_def)
  have Q: "queue_inv n s'"
    using inv st main_frame [OF st] by (cases "tp s") (auto simp: workers_inv_def queue_inv_def task_main_def Let_def
      dest!: register_frame(2) split: option.splits if_splits)
  have new: "children s = i \<and> tw s i = TwNew" if "tp s = TpFork i" for i
    using p that by (auto simp: parent_inv_def watched_def)
  have "worker_inv add n s' v" for v
  proof (cases "tw s' v = tw s v")
    case True
    then have "worker_inv add n s' v = worker_inv add n s v" by (intro worker_inv_same) (simp_all add: main_frame(1-6) [OF st])
    with W show ?thesis by simp
  next
    case False
    then obtain i where "tp s = TpFork i" "i < n" "v = i" "tw s' i = TwOpen"
      using main_frame(7) [OF st] new by (auto split: if_splits)
    with W [of v] new [of i] main_frame(1-6) [OF st] show ?thesis by (auto simp: worker_inv_def)
  qed
  with Q show ?thesis by (simp add: workers_inv_def)
qed


text \<open>The parent's bookkeeping.\<close>

lemma watched_same:
  assumes "tw s' w = TwNew \<longleftrightarrow> tw s w = TwNew" "children s' = children s" "registered s' w = registered s w"
    "signals s' = signals s" "th s' = th s" "enrolled n (tp s') = enrolled n (tp s)" "result_q s' w = result_q s w"
  shows "watched n s' w = watched n s w"
  by (simp only: watched_def tokens_def noticed_def assms)

lemma send_watched:
  assumes u: "send_result w r s = Some u" and inv: "\<And>v. watched n s v" and tok: "tokens s w = 1"
  shows "watched n u v"
proof (cases "v = w")
  case False
  with inv [of v] show ?thesis by (simp add: watched_def tokens_def noticed_def send_result_frame [OF u] split: handler_pc.split)
next
  case True
  have "count_list (signals s) w = Suc 0 \<Longrightarrow> w \<in> set (signals s)" using count_notin [of w "signals s"] by fastforce
  with True inv [of w] tok show ?thesis
    by (auto simp: watched_def tokens_def noticed_def send_result_frame [OF u] split: if_splits handler_pc.split)
qed

lemma worker_step_parent:
  assumes W: "workers_inv add n s" and inv: "parent_inv n s" and st: "task_worker add w ok s = Some s'"
    and run: "tp s \<noteq> TpExit 0"
  shows "tp s' = TpExit 1 \<or> parent_inv n s'"
proof -
  have V: "watched n s v" for v using inv by (simp add: parent_inv_def)
  have Ww: "worker_inv add n s v" for v using W by (simp add: workers_inv_def)
  have at: "tw s w \<noteq> TwNew" "tw s w \<noteq> TwEnd" using st by (auto simp: task_worker_def)
  with Ww [of w] have w: "w < n" by (auto simp: worker_inv_def not_le [symmetric])
  have new: "tw s' v = TwNew \<longleftrightarrow> tw s v = TwNew" "v \<noteq> w \<Longrightarrow> tw s' v = tw s v" if "tp s' \<noteq> TpExit 1" for v
    using st that by (cases "tw s w"; auto simp: task_worker_def Let_def send_result_frame split: if_splits list.splits)+
  have same: "tp s' = tp s" "children s' = children s" "th s' = th s" "queued_of (touts s') = queued_of (touts s)"
    if "tp s' \<noteq> TpExit 1"
    using st that by (cases "tw s w"; auto simp: task_worker_def Let_def send_result_frame split: if_splits list.splits)+
  have "(\<forall>v. watched n s' v) \<and> (early (tp s) \<longrightarrow> signals s' = signals s)" if ne: "tp s' \<noteq> TpExit 1"
  proof (cases "tw s w")
    case (TwSend i t)
    then obtain u where u: "send_result w (add (fst t) (snd t)) s = Some u"
      and s': "s' = task_say (SentResult w (add (fst t) (snd t))) (tw_at w (TwReceive (Suc i)) u)"
      using st by (auto simp: task_worker_def Let_def)
    have "got_of w (touts s) \<noteq> []" using Ww [of w] TwSend by (auto simp: worker_inv_def)
    moreover have "mset (queued_of (touts s)) = mset (got_of w (touts s)) + (\<Sum>v\<in>{..<n} - {w}. mset (got_of v (touts s))) + mset (task_q s)"
      using W w by (simp add: workers_inv_def queue_inv_def sum.remove [of "{..<n}" w])
    ultimately have "queued_of (touts s) \<noteq> []" by auto
    then have "queued_by n (tp s) \<noteq> 0" using inv unfolding parent_inv_def by (metis length_0_conv)
    then have en: "enrolled n (tp s) = n" "\<not> early (tp s)" by (cases "tp s"; simp)+
    with V [of w] w have tok: "tokens s w = 1" by (simp add: watched_def)
    have "watched n s' v = watched n u v" for v
      using at(1) by (intro watched_same) (auto simp: s' send_result_frame [OF u])
    with send_watched [OF u V tok] en show ?thesis by simp
  next
    case TwOpen
    with st ne have "watched n s' v = watched n s v" for v
      by (intro watched_same new(1) same) (auto simp: task_worker_def split: if_splits)
    with V TwOpen st show ?thesis by (auto simp: task_worker_def split: if_splits)
  next
    case (TwReceive i)
    with st ne have "watched n s' v = watched n s v" for v
      by (intro watched_same new(1) same) (auto simp: task_worker_def split: if_splits list.splits)
    with V TwReceive st show ?thesis by (auto simp: task_worker_def split: if_splits list.splits)
  qed (use at in simp_all)
  with same inv new w at run show ?thesis by (auto simp: parent_inv_def)
qed


lemma handler_step_parent:
  assumes W: "workers_inv add n s" and inv: "parent_inv n s" and st: "mq_handler s = Some s'" and run: "tp s \<noteq> TpExit 0"
  shows "parent_inv n s'"
proof -
  have V: "watched n s v" for v using inv by (simp add: parent_inv_def)
  have rest: "tw s' = tw s" "children s' = children s" "queued_of (touts s') = queued_of (touts s)"
    using st by (cases "th s"; auto simp: mq_handler_def dest!: register_frame(2) split: list.splits option.splits if_splits)+
  have "\<not> registered s i" if "th s = ThNotify i" for i
    using V [of i] that by (auto simp: watched_def tokens_def of_bool_def split: if_splits)
  then have tp: "tp s' = tp s"
    using st by (cases "th s") (auto simp: mq_handler_def register_def split: list.splits option.splits if_splits)
  have kids: "w < children s" if "result_q s w \<noteq> []" for w
  proof -
    have "worker_inv add n s w" using W by (simp add: workers_inv_def)
    with that have "tw s w \<noteq> TwNew" by (auto simp: worker_inv_def)
    with V [of w] show ?thesis by (simp add: watched_def)
  qed
  have tok: "tokens s' w = tokens s w" for w
    using st tp by (cases "th s") (auto simp: mq_handler_def tokens_def register_def split: list.splits if_splits)
  have "result_q s' w \<noteq> [] \<Longrightarrow> result_q s w \<noteq> [] \<and> (noticed s w \<longrightarrow> noticed s' w)" for w
    using st tp kids [of w]
    by (cases "th s") (auto simp: mq_handler_def noticed_def register_def Suc_le_eq le_less split: list.splits if_splits)
  then have "watched n s' w" for w
    using V [of w] tok tp rest by (auto simp: watched_def)
  moreover have "\<not> early (tp s)" using st inv by (auto simp: parent_inv_def mq_handler_def split: list.splits)
  ultimately show ?thesis using inv tp rest run by (simp add: parent_inv_def)
qed


text \<open>The steps of the parent that create a child, register, or leave the books as they are.\<close>

lemma fork_watched:
  assumes "watched n s v" and "children s = i" and "tp s = TpFork i"
  shows "watched n (tw_at i TwOpen (s\<lparr>children := Suc i, tp := TpFork (Suc i)\<rparr>)) v"
  using assms by (auto simp: watched_def tokens_def noticed_def less_Suc_eq)

lemma notify_watched:
  assumes "watched n s v" and "tp s = TpNotify i" and "signals s = []" and "th s = ThIdle" and "\<not> registered s i"
  shows "watched n (s\<lparr>registered := (registered s)(i := True), tp := TpOpen (Suc i)\<rparr>) v"
  using assms by (auto simp: watched_def tokens_def noticed_def less_Suc_eq)

lemma main_watched:
  assumes inv: "parent_inv n s" and idle: "th s = ThIdle" and st: "task_main tenth n T1 T2 r1 r2 ok s = Some s'"
  shows "tp s' = TpGone \<or> tp s' = TpExit 1 \<or> watched n s' v"
proof -
  have V: "watched n s v" for v using inv by (simp add: parent_inv_def)
  have ch: "children s = forked n (tp s)" and rg: "parent_range n (tp s)" using inv by (simp_all add: parent_inv_def)
  have same: "watched n s' v" if "tw s' = tw s" "children s' = children s" "registered s' = registered s"
    "enrolled n (tp s') = enrolled n (tp s)"
    using V [of v] that main_frame(1-3) [OF st] watched_same [of s' v s n] by simp
  show ?thesis
  proof (cases "tp s")
    case TpQueue
    with st same show ?thesis by (auto simp: task_main_def split: if_splits)
  next
    case (TpFork i)
    with st same fork_watched [OF V _ TpFork] ch show ?thesis by (auto simp: task_main_def split: if_splits)
  next
    case (TpOpen i)
    with st same rg show ?thesis by (auto simp: task_main_def split: if_splits)
  next
    case (TpNotify i)
    have "signals s = []" using inv TpNotify by (simp add: parent_inv_def)
    with TpNotify notify_watched [OF V TpNotify _ idle, of v] st show ?thesis
      by (auto simp: task_main_def register_def split: if_splits)
  next
    case (TpSend i)
    with st same show ?thesis by (auto simp: task_main_def Let_def split: if_splits)
  next
    case (TpPause i)
    with st same show ?thesis by (auto simp: task_main_def split: if_splits)
  next
    case TpWait
    with st same show ?thesis by (auto simp: task_main_def split: if_splits)
  next
    case TpUnlink
    with st same show ?thesis by (auto simp: task_main_def split: if_splits)
  next
    case TpSleep
    with st same show ?thesis by (auto simp: task_main_def split: if_splits)
  qed (use st in \<open>simp_all add: task_main_def\<close>)
qed

lemma main_step_parent:
  assumes inv: "parent_inv n s" and idle: "th s = ThIdle" and st: "task_main tenth n T1 T2 r1 r2 ok s = Some s'"
  shows "tp s' = TpGone \<or> tp s' = TpExit 1 \<or> parent_inv n s'"
proof -
  note f = main_frame [OF st]
  have old: "parent_range n (tp s)" "length (queued_of (touts s)) = queued_by n (tp s)" "children s = forked n (tp s)"
    "tp s \<in> {TpUnlink, TpSleep, TpExit 0} \<longrightarrow> (\<forall>w < n. tw s w = TwEnd)"
    using inv by (simp_all add: parent_inv_def)
  have "tp s' = TpGone \<or> tp s' = TpExit 1 \<or> parent_range n (tp s') \<and> length (queued_of (touts s')) = queued_by n (tp s')
     \<and> children s' = forked n (tp s') \<and> (early (tp s') \<longrightarrow> early (tp s))
     \<and> (tp s' \<in> {TpUnlink, TpSleep, TpExit 0} \<longrightarrow> (\<forall>w < n. tw s' w = TwEnd)) \<and> (tp s' = TpExit 0 \<longrightarrow> signals s' = [])"
  proof (cases "tp s")
    case (TpNotify i)
    with st old show ?thesis by (cases "registered s i") (auto simp: task_main_def register_def)
  next
    case (TpSend i)
    with st old show ?thesis
      by (cases "i < 5 * n"; cases "length (task_q s) < TASK_MSGS") (simp_all add: task_main_def Let_def, auto)
  next
    case (TpFork i)
    with st old show ?thesis by (cases "i < n"; cases ok) (simp_all add: task_main_def, auto)
  next
    case (TpOpen i)
    with st old show ?thesis by (cases "i < n"; cases ok) (simp_all add: task_main_def, auto)
  next
    case (TpPause i)
    with st old show ?thesis by (cases "T2 - T1 = 0") (simp_all add: task_main_def, auto)
  next
    case TpWait
    with old(3) have "children s = n" by simp
    with TpWait st have "s' = task_say AllFinished (s\<lparr>tp := TpUnlink\<rparr>)" "\<forall>w < n. tw s w = TwEnd"
      by (simp_all add: task_main_def split: if_split_asm)
    with TpWait old(2) \<open>children s = n\<close> show ?thesis by simp
  qed (use st old in \<open>(cases ok; simp add: task_main_def split: if_splits; force)[1]\<close>)+
  moreover have "signals s = [] \<or> \<not> early (tp s)" using inv unfolding parent_inv_def by blast
  moreover have "tp s' = TpGone \<or> tp s' = TpExit 1 \<or> (\<forall>v. watched n s' v)" using main_watched [OF inv idle st] by blast
  ultimately show ?thesis unfolding parent_inv_def using idle f(2,3) by metis
qed

lemma task_step_inv:
  assumes inv: "task_inv add n s" and st: "task_program tenth add n T1 T2 a s = Some s'"
  shows "task_inv add n s'"
proof -
  have W: "workers_inv add n s" and P: "tp s = TpGone \<or> parent_inv n s" and run: "tp s \<noteq> TpExit c" for c
    using inv st by (auto simp: task_inv_def task_program_def split: parent_pc.splits)
  show ?thesis
  proof (cases a)
    case (TaskWorker w ok)
    with st run have w: "task_worker add w ok s = Some s'" by (auto simp: task_program_def split: parent_pc.splits)
    have "tp s' = tp s \<or> tp s' = TpExit 1"
      using w by (cases "tw s w") (auto simp: task_worker_def Let_def send_result_frame split: if_splits list.splits)
    with P worker_step_parent [OF W _ w run] worker_step_inv [OF W w] show ?thesis by (auto simp: task_inv_def)
  next
    case TaskHandler
    with st run have h: "mq_handler s = Some s'" and ne: "tp s \<noteq> TpGone"
      by (auto simp: task_program_def split: parent_pc.splits if_splits)
    with P handler_step_parent [OF W _ h run] handler_step_inv [OF W h] show ?thesis by (auto simp: task_inv_def)
  next
    case (TaskMain r1 r2 ok)
    with st run have m: "task_main tenth n T1 T2 r1 r2 ok s = Some s'" and idle: "th s = ThIdle"
      by (auto simp: task_program_def split: parent_pc.splits if_splits)
    have "tp s \<noteq> TpGone" using m by (auto simp: task_main_def)
    with P main_step_parent [OF _ idle m] main_step_inv [OF W m P] show ?thesis by (auto simp: task_inv_def)
  qed
qed

lemma task_reachable_inv: "reachable (task_program tenth add n T1 T2) task_start s \<Longrightarrow> task_inv add n s"
  by (erule reachable_invariant) (rule task_start_inv, rule task_step_inv)


section \<open>Some schedule completes every run\<close>

fun worker_work :: "nat \<Rightarrow> 'f worker_pc \<Rightarrow> nat" where
  "worker_work n TwNew = 3 + 5 * (n + 7)"
| "worker_work n TwOpen = 2 + 5 * (n + 7)"
| "worker_work n (TwReceive i) = 1 + (5 - i) * (n + 7)"
| "worker_work n (TwSend i t) = (5 - i) * (n + 7)"
| "worker_work n TwEnd = 0"

fun parent_work_left :: "nat \<Rightarrow> parent_pc \<Rightarrow> nat" where
  "parent_work_left n TpQueue = 22 * n + 50"
| "parent_work_left n (TpFork i) = 20 * n + 40 + (n - i)"
| "parent_work_left n (TpOpen i) = 10 * n + 20 + 2 * (n - i)"
| "parent_work_left n (TpNotify i) = 10 * n + 19 + 2 * (n - i)"
| "parent_work_left n (TpSend i) = 10 + 2 * (5 * n - i)"
| "parent_work_left n (TpPause i) = 11 + 2 * (5 * n - i)"
| "parent_work_left n TpWait = 4" | "parent_work_left n TpUnlink = 3" | "parent_work_left n TpSleep = 2"
| "parent_work_left n (TpExit c) = 0" | "parent_work_left n TpGone = 0"

fun handler_work :: "nat \<Rightarrow> handler_pc \<Rightarrow> nat" where
  "handler_work n ThIdle = 0" | "handler_work n (ThNotify i) = n + 2" | "handler_work n (ThReceive j) = Suc (n - j)"

definition worker_share :: "nat \<Rightarrow> 'f tasksys \<Rightarrow> nat \<Rightarrow> nat" where
  "worker_share n s w = worker_work n (tw s w) + length (result_q s w)"

definition task_work :: "nat \<Rightarrow> 'f tasksys \<Rightarrow> nat" where
  "task_work n s = (\<Sum>w<n. worker_share n s w) + length (signals s) * (n + 3) + handler_work n (th s)
     + parent_work_left n (tp s)"

definition going :: "'f tasksys \<Rightarrow> bool" where
  "going s \<longleftrightarrow> tp s \<noteq> TpGone \<and> (\<forall>c. tp s \<noteq> TpExit c)"

lemma share_less:
  assumes "w < n" and "\<And>v. v \<noteq> w \<Longrightarrow> worker_share n s' v = worker_share n s v"
    and "worker_share n s' w + d' < worker_share n s w + d"
  shows "(\<Sum>v<n. worker_share n s' v) + d' < (\<Sum>v<n. worker_share n s v) + d"
  using sum_one_changes [where f = "worker_share n s" and f' = "worker_share n s'", OF assms(1,2)] assms(3) by simp

text \<open>A worker that has a task to take, or need not take one, can go on.\<close>

lemma worker_goes:
  assumes inv: "task_inv add n s" and go: "going s" and w: "w < n" "tw s w \<noteq> TwNew" "tw s w \<noteq> TwEnd"
    and can: "task_q s \<noteq> [] \<or> 5 \<le> length (got_of w (touts s))"
  shows "\<exists>s'. task_program tenth add n T1 T2 (TaskWorker w True) s = Some s' \<and> task_work n s' < task_work n s \<and> tp s' = tp s"
proof -
  have W: "worker_inv add n s w" using inv by (simp add: task_inv_def workers_inv_def)
  have st: "task_program tenth add n T1 T2 (TaskWorker w True) s = task_worker add w True s"
    using go by (auto simp: going_def task_program_def split: parent_pc.split)
  have less: "task_work n s' < task_work n s"
    if "\<And>v. v \<noteq> w \<Longrightarrow> worker_share n s' v = worker_share n s v" "th s' = th s" "tp s' = tp s"
      "worker_share n s' w + length (signals s') * (n + 3) < worker_share n s w + length (signals s) * (n + 3)" for s'
    using share_less [OF w(1) that(1,4)] that(2,3) by (simp add: task_work_def)
  show ?thesis
  proof (cases "tw s w")
    case TwOpen
    then show ?thesis unfolding st by (auto simp: task_worker_def worker_share_def intro!: less)
  next
    case (TwReceive i)
    show ?thesis
    proof (cases "i < 5")
      case True
      with can W TwReceive obtain t ts where "task_q s = t # ts" by (cases "task_q s") (auto simp: worker_inv_def)
      with TwReceive True show ?thesis unfolding st by (auto simp: task_worker_def worker_share_def intro!: less)
    next
      case False
      with TwReceive show ?thesis unfolding st by (auto simp: task_worker_def worker_share_def intro!: less)
    qed
  next
    case (TwSend i t)
    define res where "res = add (fst t) (snd t)"
    have i: "i < 5" and len: "length (result_q s w) < TASK_MSGS"
      using W TwSend by (auto simp: worker_inv_def TASK_MSGS_def dest!: arg_cong [where f = length])
    then obtain u where u: "send_result w res s = Some u" by (simp add: send_result_def Let_def)
    define s' where "s' = task_say (SentResult w res) (tw_at w (TwReceive (Suc i)) u)"
    have "task_worker add w True s = Some s'" using TwSend u by (simp add: task_worker_def s'_def res_def Let_def)
    moreover have "5 - i = Suc (4 - i)" using i by simp
    then have "task_work n s' < task_work n s"
      using TwSend i by (intro less) (auto simp: s'_def send_result_frame [OF u] worker_share_def)
    ultimately show ?thesis unfolding st by (simp add: s'_def send_result_frame [OF u])
  qed (use w in simp_all)
qed


lemma handler_goes:
  assumes inv: "task_inv add n s" and go: "going s" and busy: "th s \<noteq> ThIdle \<or> signals s \<noteq> []"
  shows "\<exists>s'. task_program tenth add n T1 T2 TaskHandler s = Some s' \<and> task_work n s' < task_work n s \<and> tp s' = tp s"
proof -
  have P: "parent_inv n s" using inv go by (auto simp: task_inv_def going_def)
  then have V: "watched n s v" for v by (simp add: parent_inv_def)
  have "\<not> early (tp s)" using P busy by (auto simp: parent_inv_def)
  then have kids: "children s = n" using P go by (cases "tp s") (auto simp: parent_inv_def going_def)
  have st: "task_program tenth add n T1 T2 TaskHandler s = mq_handler s"
    using go by (auto simp: going_def task_program_def split: parent_pc.split)
  have free: "\<not> registered s i" if "th s = ThNotify i" for i
    using V [of i] that by (auto simp: watched_def tokens_def of_bool_def split: if_splits)
  show ?thesis
  proof (cases "th s")
    case ThIdle
    with busy obtain i "is" where "signals s = i # is" by (cases "signals s") auto
    with ThIdle show ?thesis unfolding st by (simp add: mq_handler_def task_work_def worker_share_def)
  next
    case (ThNotify i)
    with free show ?thesis unfolding st by (simp add: mq_handler_def register_def task_work_def worker_share_def)
  next
    case (ThReceive j)
    show ?thesis
    proof (cases "j < n \<and> result_q s j \<noteq> []")
      case True
      then obtain r rs where q: "result_q s j = r # rs" by (cases "result_q s j") auto
      define s' where "s' = task_say (ResultFrom j r) (s\<lparr>result_q := (result_q s)(j := rs)\<rparr>)"
      have "mq_handler s = Some s'" using ThReceive True q kids by (simp add: mq_handler_def s'_def)
      moreover have "(\<Sum>v<n. worker_share n s' v) + 0 < (\<Sum>v<n. worker_share n s v) + 0"
        using True q by (intro share_less [of j]) (auto simp: worker_share_def s'_def)
      ultimately show ?thesis unfolding st by (simp add: task_work_def s'_def)
    next
      case False
      with ThReceive kids show ?thesis unfolding st
        by (cases "j < n") (auto simp: mq_handler_def task_work_def worker_share_def)
    qed
  qed
qed

lemma some_worker_idle:
  assumes inv: "task_inv add n s" and "length (queued_of (touts s)) < 5 * n + length (task_q s)"
  shows "\<exists>w < n. length (got_of w (touts s)) < 5"
proof (rule ccontr)
  assume "\<not> ?thesis"
  then have "5 \<le> length (got_of w (touts s))" if "w < n" for w using that by (meson not_le)
  then have "(\<Sum>w<n. 5) \<le> (\<Sum>w<n. length (got_of w (touts s)))" by (intro sum_mono) simp
  moreover have "size (mset (queued_of (touts s))) = (\<Sum>w<n. length (got_of w (touts s))) + length (task_q s)"
    using inv by (simp add: task_inv_def workers_inv_def queue_inv_def del: size_mset) (simp add: size_multiset_sum)
  ultimately show False using assms(2) by simp
qed


lemma parent_goes:
  assumes inv: "task_inv add n s" and go: "going s" and idle: "th s = ThIdle" "signals s = []" and T: "T1 \<noteq> T2"
    and can: "length (task_q s) < TASK_MSGS \<or> (\<forall>i. tp s \<noteq> TpSend i \<or> i = 5 * n)"
      "tp s = TpWait \<longrightarrow> (\<forall>w < n. tw s w = TwEnd)"
  shows "\<exists>s'. task_program tenth add n T1 T2 (TaskMain 0 0 True) s = Some s' \<and> task_work n s' < task_work n s
    \<and> tp s' \<noteq> TpGone \<and> tp s' \<noteq> TpExit 1"
proof -
  have P: "parent_inv n s" using inv go by (auto simp: task_inv_def going_def)
  then have V: "watched n s v" for v by (simp add: parent_inv_def)
  have rg: "parent_range n (tp s)" and kids: "children s = forked n (tp s)" using P by (simp_all add: parent_inv_def)
  have st: "task_program tenth add n T1 T2 (TaskMain 0 0 True) s = task_main tenth n T1 T2 0 0 True s"
    using go idle by (auto simp: going_def task_program_def split: parent_pc.split)
  have less: "task_work n s' < task_work n s"
    if "\<And>w. worker_share n s' w \<le> worker_share n s w" "th s' = th s" "signals s' = signals s"
      "parent_work_left n (tp s') < parent_work_left n (tp s)" for s'
    using sum_mono [of "{..<n}" "worker_share n s'" "worker_share n s"] that by (simp add: task_work_def)
  note d = task_main_def worker_share_def
  show ?thesis
  proof (cases "tp s")
    case (TpFork i)
    have "tw s (children s) = TwNew" using V [of "children s"] by (simp add: watched_def)
    moreover have "tw s i = TwNew" using calculation kids TpFork by simp
    ultimately show ?thesis unfolding st using TpFork rg by (cases "i < n"; simp add: d; intro less conjI) (auto simp: d)
  next
    case (TpNotify i)
    have "\<not> registered s i" using V [of i] TpNotify by (auto simp: watched_def tokens_def)
    with TpNotify rg show ?thesis unfolding st by (auto simp: d register_def intro!: less)
  next
    case (TpSend i)
    with can rg show ?thesis unfolding st by (cases "i < 5 * n") (auto simp: d Let_def intro!: less)
  next
    case (TpOpen i)
    with rg show ?thesis unfolding st by (cases "i < n") (auto simp: d intro!: less)
  next
    case TpWait
    then have "\<forall>w < children s. tw s w = TwEnd" using can(2) kids by simp
    with TpWait show ?thesis unfolding st by (simp add: d) (intro less, auto simp: d)
  qed (use go idle T in \<open>(unfold st, auto simp: d going_def intro!: less)[1]\<close>)+
qed


lemma worker_ok_length: "worker_ok add p got sent \<Longrightarrow> length got \<le> 5"
  by (cases "(add, p, got, sent)" rule: worker_ok.cases) auto

lemma all_workers_served:
  assumes inv: "task_inv add n s" and "length (queued_of (touts s)) = 5 * n" and "task_q s = []" and "v < n"
  shows "5 \<le> length (got_of v (touts s))"
proof (rule ccontr)
  assume less: "\<not> 5 \<le> length (got_of v (touts s))"
  have "worker_ok add (tw s w) (got_of w (touts s)) (sent_of w (touts s))" for w
    using inv unfolding task_inv_def workers_inv_def worker_inv_def by blast
  from this have "length (got_of w (touts s)) \<le> 5" for w by (rule worker_ok_length)
  then have "(\<Sum>w<n. length (got_of w (touts s))) < (\<Sum>w<n. 5)" using less assms(4)
    by (intro sum_strict_mono_ex1 ballI bexI [of _ v]) auto
  moreover have "size (mset (queued_of (touts s))) = (\<Sum>w<n. length (got_of w (touts s)))"
    using inv assms(3) by (simp add: task_inv_def workers_inv_def queue_inv_def del: size_mset) (simp add: size_multiset_sum)
  ultimately show False using assms(2) by simp
qed

lemma exit_codes: "task_program tenth add n T1 T2 a s = Some s' \<Longrightarrow> tp s' = TpExit c \<Longrightarrow> c = 0 \<or> c = 1"
proof (cases a)
  case (TaskWorker w ok)
  then show "task_program tenth add n T1 T2 a s = Some s' \<Longrightarrow> tp s' = TpExit c \<Longrightarrow> c = 0 \<or> c = 1"
    by (cases "tw s w") (auto simp: task_program_def task_worker_def Let_def send_result_frame split: if_splits list.splits parent_pc.splits)
next
  case TaskHandler
  then show "task_program tenth add n T1 T2 a s = Some s' \<Longrightarrow> tp s' = TpExit c \<Longrightarrow> c = 0 \<or> c = 1"
    by (cases "th s") (auto simp: task_program_def mq_handler_def dest!: register_frame(2)
      split: if_splits list.splits option.splits parent_pc.splits)
next
  case (TaskMain r1 r2 ok)
  then show "task_program tenth add n T1 T2 a s = Some s' \<Longrightarrow> tp s' = TpExit c \<Longrightarrow> c = 0 \<or> c = 1"
    by (cases "tp s") (auto simp: task_program_def task_main_def Let_def dest!: register_frame(2) split: if_splits option.splits)
qed

lemma someone_goes:
  assumes inv: "task_inv add n s" and go: "going s" and T: "T1 \<noteq> T2"
  shows "\<exists>a s'. task_program tenth add n T1 T2 a s = Some s' \<and> task_work n s' < task_work n s
    \<and> tp s' \<noteq> TpGone \<and> tp s' \<noteq> TpExit 1"
proof (cases "th s \<noteq> ThIdle \<or> signals s \<noteq> []")
  case True
  then show ?thesis using handler_goes [where tenth = tenth and ?T1.0 = T1 and ?T2.0 = T2, OF inv go True] go by (metis going_def)
next
  case False
  have P: "parent_inv n s" using inv go by (auto simp: task_inv_def going_def)
  show ?thesis
  proof (cases "(length (task_q s) < TASK_MSGS \<or> (\<forall>i. tp s \<noteq> TpSend i \<or> i = 5 * n))
      \<and> (tp s = TpWait \<longrightarrow> (\<forall>w < n. tw s w = TwEnd))")
    case True
    with False show ?thesis using parent_goes [where tenth = tenth, OF inv go _ _ T] by blast
  next
    case stuck: False
    have W: "worker_inv add n s w" for w using inv by (simp add: task_inv_def workers_inv_def)
    have "\<exists>w < n. tw s w \<noteq> TwNew \<and> tw s w \<noteq> TwEnd \<and> (task_q s \<noteq> [] \<or> 5 \<le> length (got_of w (touts s)))"
    proof (cases "tp s = TpWait")
      case wait: True
      with stuck obtain w where w: "w < n" "tw s w \<noteq> TwEnd" by auto
      have "tw s w \<noteq> TwNew" using P wait w by (auto simp: parent_inv_def watched_def)
      moreover have "length (queued_of (touts s)) = 5 * n" using P wait by (simp add: parent_inv_def)
      ultimately show ?thesis using w all_workers_served [OF inv] by blast
    next
      case False
      with stuck obtain i where i: "tp s = TpSend i" "i \<noteq> 5 * n" "\<not> length (task_q s) < TASK_MSGS" by auto
      then have "length (queued_of (touts s)) < 5 * n" using P by (auto simp: parent_inv_def)
      then obtain w where w: "w < n" "length (got_of w (touts s)) < 5" using some_worker_idle [OF inv] by auto
      have "tw s w \<noteq> TwNew" using P i w by (auto simp: parent_inv_def watched_def)
      moreover have "tw s w \<noteq> TwEnd" using W [of w] w by (auto simp: worker_inv_def)
      moreover have "task_q s \<noteq> []" using i by (auto simp: TASK_MSGS_def)
      ultimately show ?thesis using w by blast
    qed
    then show ?thesis using worker_goes [where tenth = tenth and ?T1.0 = T1 and ?T2.0 = T2, OF inv go] go by (metis going_def)
  qed
qed

section \<open>Properties\<close>

text \<open>
  C22. \<open>example.c\<close> (Lab 6): when the parent exits normally, every task has been done and shown. For any
  number of workers and every interleaving of the processes and of the signal handler, 5 n tasks were
  queued, each was taken by exactly one worker, every worker took 5, and what the handler printed for
  a worker are the sums of its tasks in the order in which it took them; no notification is lost.
\<close>

theorem all_results_shown:
  assumes "reachable (task_program tenth add n T1 T2) task_start s" and "tp s = TpExit 0"
  shows "length (queued_of (touts s)) = 5 * n \<and> mset (queued_of (touts s)) = (\<Sum>w<n. mset (got_of w (touts s)))
    \<and> (\<forall>w < n. length (got_of w (touts s)) = 5
        \<and> shown_of w (touts s) = map (\<lambda>(a, b). add a b) (got_of w (touts s)))"
proof -
  have inv: "task_inv add n s" using task_reachable_inv [OF assms(1)] .
  then have P: "parent_inv n s" and W: "worker_inv add n s w" and Q: "queue_inv n s" for w
    using assms(2) by (auto simp: task_inv_def workers_inv_def)
  have "result_q s w = []" for w
  proof (rule ccontr)
    assume "result_q s w \<noteq> []"
    then have "noticed s w" using P by (simp add: parent_inv_def watched_def)
    with P assms(2) show False by (simp add: parent_inv_def noticed_def)
  qed
  moreover have "tw s w = TwEnd" if "w < n" for w using P assms(2) that by (simp add: parent_inv_def)
  ultimately have done_all: "length (got_of w (touts s)) = 5 \<and> shown_of w (touts s) = map (\<lambda>(a, b). add a b) (got_of w (touts s))"
    if "w < n" for w using W [of w] that by (auto simp: worker_inv_def)
  have len: "length (queued_of (touts s)) = 5 * n" using P assms(2) by (simp add: parent_inv_def)
  have "size (mset (queued_of (touts s))) = (\<Sum>w<n. length (got_of w (touts s))) + length (task_q s)"
    using Q by (simp add: queue_inv_def del: size_mset) (simp add: size_multiset_sum)
  then have "task_q s = []" using len done_all by simp
  with Q len done_all show ?thesis by (simp add: queue_inv_def)
qed

text \<open>
  C23. \<open>example.c\<close> (Lab 6): the processes never wait for each other for ever. When the two times
  differ, from every state in which the parent is neither killed nor at its end some schedule leads to
  its normal exit.
\<close>

theorem workers_can_finish:
  assumes "reachable (task_program tenth add n T1 T2) task_start s" and "T1 \<noteq> T2" and "going s"
  shows "\<exists>as t. run (task_program tenth add n T1 T2) as s = Some t \<and> tp t = TpExit 0"
proof -
  let ?P = "\<lambda>s. task_inv add n s \<and> tp s \<noteq> TpGone \<and> tp s \<noteq> TpExit 1 \<and> (\<forall>c. tp s = TpExit c \<longrightarrow> c = 0)"
  have "\<exists>as t. run (task_program tenth add n T1 T2) as s = Some t \<and> ?P t \<and> \<not> going t"
  proof (rule progress_by_measure [where work = "task_work n"])
    show "?P s" using task_reachable_inv [OF assms(1)] assms(3) by (simp add: going_def)
  next
    fix s :: "'a tasksys"
    assume P: "?P s" and "\<not> \<not> going s"
    then obtain a s' where st: "task_program tenth add n T1 T2 a s = Some s'" "task_work n s' < task_work n s"
      "tp s' \<noteq> TpGone" "tp s' \<noteq> TpExit 1"
      using someone_goes [where tenth = tenth, OF _ _ assms(2)] by blast
    moreover have "task_inv add n s'" using P st(1) by (blast intro: task_step_inv)
    moreover have "c = 0" if "tp s' = TpExit c" for c
      using exit_codes [OF st(1) that] st(4) that by auto
    ultimately show "\<exists>as t. run (task_program tenth add n T1 T2) as s = Some t \<and> ?P t \<and> task_work n t < task_work n s"
      by (intro exI [of _ "[a]"] exI [of _ s']) simp
  qed
  then show ?thesis unfolding going_def by blast
qed


text \<open>A schedule of two workers that ends normally: each takes five tasks and sends their sums.\<close>

definition one_task :: "nat \<Rightarrow> task_actor list" where
  "one_task w = [TaskMain 30 40 True, TaskWorker w True, TaskWorker w True, TaskMain 0 0 True]
     @ replicate 6 TaskHandler"

definition two_workers :: "task_actor list" where
  "two_workers = replicate 9 (TaskMain 0 0 True) @ [TaskWorker 0 True, TaskWorker 1 True]
     @ concat (replicate 5 (one_task 0 @ one_task 1)) @ [TaskWorker 0 True, TaskWorker 1 True]
     @ replicate 4 (TaskMain 0 0 True)"

lemma all_results_shown_witness:
  "\<exists>s. reachable (task_program int (+) 2 100 200) task_start s \<and> tp s = TpExit 0
    \<and> shown_of 1 (touts s) = map (\<lambda>(a, b). a + b) (got_of 1 (touts s)) \<and> shown_of 1 (touts s) = replicate 5 70"
proof -
  have "map_option (\<lambda>s. (tp s, shown_of 1 (touts s))) (run (task_program int (+) 2 100 200) two_workers task_start)
      = Some (TpExit 0, replicate 5 70)" by code_simp
  then obtain s where s: "reachable (task_program int (+) 2 100 200) task_start s" "tp s = TpExit 0"
    "shown_of 1 (touts s) = replicate 5 70"
    using reachable_obs [of "\<lambda>s. (tp s, shown_of 1 (touts s))"] by blast
  with all_results_shown [OF s(1,2)] show ?thesis by auto
qed

lemma workers_can_finish_witness:
  "\<exists>s as t. reachable (task_program int (+) 2 100 200) task_start s \<and> going s
    \<and> run (task_program int (+) 2 100 200) as s = Some t \<and> tp t = TpExit 0"
proof -
  have "reachable (task_program int (+) 2 100 200) task_start task_start" by (rule reachable.start)
  moreover have "going task_start" by (simp add: going_def task_start_def)
  ultimately show ?thesis using workers_can_finish [of int "(+)" 2 100 200 task_start] by (simp, blast)
qed

text \<open>Where the parent is when the times are equal, and what it has queued then.\<close>

fun crash_inv :: "parent_pc \<Rightarrow> 'a list \<Rightarrow> bool" where
  "crash_inv (TpSend i) q = (i = 0 \<and> q = [])" | "crash_inv (TpPause i) q = (length q \<le> 1)"
| "crash_inv TpGone q = (length q \<le> 1)" | "crash_inv (TpExit c) q = (length q \<le> 1 \<and> c \<noteq> 0)"
| "crash_inv TpWait q = False" | "crash_inv TpUnlink q = False" | "crash_inv TpSleep q = False"
| "crash_inv p q = (q = [])"

lemma crash_inv_length: "crash_inv p q \<Longrightarrow> length q \<le> 1 \<and> p \<noteq> TpExit 0"
  by (cases "(p, q)" rule: crash_inv.cases) auto

lemma crash_inv_step:
  assumes "0 < n" and P: "crash_inv (tp s) (queued_of (touts s))" and st: "task_program tenth add n T T a s = Some s'"
  shows "crash_inv (tp s') (queued_of (touts s'))"
proof (cases a)
  case (TaskMain r1 r2 ok)
  with st have "task_main tenth n T T r1 r2 ok s = Some s'" by (auto simp: task_program_def split: if_splits parent_pc.splits)
  with P assms(1) show ?thesis
    by (cases "tp s") ((auto simp: task_main_def Let_def dest!: register_frame(2) split: if_splits option.splits)[1])+
next
  case (TaskWorker w ok)
  with st have "task_worker add w ok s = Some s'" by (auto simp: task_program_def split: parent_pc.splits)
  then have "queued_of (touts s') = queued_of (touts s) \<and> (tp s' = tp s \<or> tp s' = TpExit 1)"
    by (cases "tw s w") (auto simp: task_worker_def Let_def send_result_frame split: if_splits list.splits)
  with P crash_inv_length [OF P] show ?thesis by auto
next
  case TaskHandler
  with st have "mq_handler s = Some s'" by (auto simp: task_program_def split: if_splits parent_pc.splits)
  then have "queued_of (touts s') = queued_of (touts s) \<and> (tp s' = tp s \<or> tp s' = TpExit 1)"
    by (cases "th s") (auto simp: mq_handler_def dest!: register_frame(2) split: if_splits list.splits option.splits)
  with P crash_inv_length [OF P] show ?thesis by auto
qed

text \<open>
  \<open>example.c\<close> (Lab 6): \<open>main\<close> accepts equal times although the usage asks for T1 < T2, and then
  \<open>rand() % (T2 - T1)\<close> divides by zero: the parent dies after at most one task has been queued and
  never comes to its normal exit.
\<close>

theorem equal_times_crash:
  assumes "reachable (task_program tenth add n T T) task_start s" and "0 < n"
  shows "length (queued_of (touts s)) \<le> 1 \<and> tp s \<noteq> TpExit 0"
proof -
  have "crash_inv (tp s) (queued_of (touts s))" using assms(1)
  proof (rule reachable_invariant)
    show "crash_inv (tp task_start) (queued_of (touts task_start))" by (simp add: task_start_def)
  qed (rule crash_inv_step [OF assms(2)])
  then show ?thesis by (rule crash_inv_length)
qed

lemma equal_times_crash_witness:
  "worker_args [''prog'', ''2'', ''100'', ''100''] = Some (2, 100, 100)
    \<and> (\<exists>s. reachable (task_program int (+) 2 100 100) task_start s \<and> tp s = TpGone \<and> queued_of (touts s) = [(30, 40)]
        \<and> length (queued_of (touts s)) \<le> 1)"
proof -
  have "map_option (\<lambda>s. (tp s, queued_of (touts s)))
      (run (task_program int (+) 2 100 100) (replicate 9 (TaskMain 0 0 True) @ [TaskMain 30 40 True, TaskMain 0 0 True]) task_start)
      = Some (TpGone, [(30, 40)])" by code_simp
  then obtain s where s: "reachable (task_program int (+) 2 100 100) task_start s" "tp s = TpGone"
    "queued_of (touts s) = [(30, 40)]"
    using reachable_obs [of "\<lambda>s. (tp s, queued_of (touts s))"] by blast
  have "worker_args [''prog'', ''2'', ''100'', ''100''] = Some (2, 100, 100)" by code_simp
  with s equal_times_crash [OF s(1)] show ?thesis by auto
qed

end
