(* ===== verification/Board.thy ===== *)
theory Board
  imports Threads Sockets
begin

text \<open>
  \<open>Lab - 7/Tutorial/server.c\<close> and \<open>client.c\<close>: a board with points in shared memory. A client takes the
  robust mutex, may die with it, and otherwise looks at a field: its points are taken once, an empty
  field ends the game. The server shows the board until SIGINT. Clients are numbered from 0; the server
  owns a mutex as 0, client \<open>t\<close> as \<open>Suc t\<close>.
\<close>

section \<open>Robust mutexes\<close>

text \<open>
  The flag of \<open>Owned\<close> is cleared when the owner before died and \<open>pthread_mutex_consistent\<close> has not been
  called: given back so, the mutex is lost for ever.
\<close>

datatype robust = Unlocked | Owned nat bool | OwnerDied | Lost | Destroyed

datatype lock_result = Taken | EOWNERDEAD | ENOTRECOVERABLE | NoMutex

definition robust_lock :: "nat \<Rightarrow> robust \<Rightarrow> (lock_result \<times> robust) option" where
  "robust_lock t m =
     (case m of
        Unlocked \<Rightarrow> Some (Taken, Owned t True)
      | Owned u c \<Rightarrow> None
      | OwnerDied \<Rightarrow> Some (EOWNERDEAD, Owned t False)
      | Lost \<Rightarrow> Some (ENOTRECOVERABLE, Lost)
      | Destroyed \<Rightarrow> Some (NoMutex, Destroyed))"

definition robust_consistent :: "nat \<Rightarrow> robust \<Rightarrow> robust" where
  "robust_consistent t m = (if m = Owned t False then Owned t True else m)"

definition robust_unlock :: "nat \<Rightarrow> robust \<Rightarrow> robust" where
  "robust_unlock t m = (if m = Owned t True then Unlocked else if m = Owned t False then Lost else m)"

definition robust_death :: "nat \<Rightarrow> robust \<Rightarrow> robust" where
  "robust_death t m = (case m of Owned u c \<Rightarrow> if u = t then OwnerDied else m | _ \<Rightarrow> m)"

section \<open>The program\<close>

text \<open>The fields that fit behind the mutex, of 40 bytes, and the byte for \<open>N\<close>.\<close>

definition SHM_SIZE :: nat where "SHM_SIZE = 1024"

definition board_room :: nat where "board_room = SHM_SIZE - 40 - 1"

datatype board_client =
  BcNew | BcReadN | BcLock nat | BcConsistent nat | BcDraw nat | BcOps | BcPick nat | BcLook nat nat | BcClear nat nat
| BcUnlock nat | BcSleep nat | BcLeave | BcEnd | BcDead | BcFailed | BcUndefined

datatype board_server =
  BsOpen | BsSize | BsMap | BsN | BsFill nat | BsMutex | BsMask | BsThread | BsTop | BsTest | BsRunUnlock | BsLock
| BsConsistent | BsPrint nat | BsUnlock | BsSleep | BsJoin | BsDestroy | BsUnlink | BsExit int | BsUndefined

datatype sig_thread = SgNew | SgWait | SgLock | SgSet | SgUnlock | SgEnd

datatype board_out = Ops nat | Trying nat nat nat | Found nat nat int | GameOver nat int | FieldIs int

datatype board_actor = BoardClient nat nat nat nat | BoardServer nat bool | SigThread | Interrupt

record boardsys =
  shm_exists :: bool
  shm_sized :: bool
  bd_mutex :: robust
  N_shared :: nat
  board :: "int list"
  run_mutex :: "nat option"
  running :: bool
  sigint :: bool
  bc :: "nat \<Rightarrow> board_client"
  score :: "nat \<Rightarrow> int"
  bs :: board_server
  sg :: sig_thread
  bouts :: "board_out list"

definition bc_at :: "nat \<Rightarrow> board_client \<Rightarrow> boardsys \<Rightarrow> boardsys" where
  "bc_at t p s = s\<lparr>bc := (bc s)(t := p)\<rparr>"

definition board_say :: "board_out \<Rightarrow> boardsys \<Rightarrow> boardsys" where
  "board_say x s = s\<lparr>bouts := bouts s @ [x]\<rparr>"

definition client_dies :: "nat \<Rightarrow> boardsys \<Rightarrow> boardsys" where
  "client_dies t s = bc_at t BcDead (s\<lparr>bd_mutex := robust_death (Suc t) (bd_mutex s)\<rparr>)"

text \<open>
  A client; the position holds its \<open>N\<close> and the field's index. A memory object without size raises
  SIGBUS when it is read, and \<open>rand() % 0\<close> SIGFPE. To use a destroyed mutex is undefined.
\<close>

definition client_unlock :: "nat \<Rightarrow> board_client \<Rightarrow> boardsys \<Rightarrow> boardsys" where
  "client_unlock t p s =
     (if bd_mutex s = Destroyed then bc_at t BcUndefined s
      else bc_at t p (s\<lparr>bd_mutex := robust_unlock (Suc t) (bd_mutex s)\<rparr>))"

definition board_client :: "nat \<Rightarrow> nat \<Rightarrow> nat \<Rightarrow> nat \<Rightarrow> boardsys \<Rightarrow> boardsys option" where
  "board_client t d x y s =
     (case bc s t of
        BcNew \<Rightarrow> Some (bc_at t (if shm_exists s then BcReadN else BcFailed) s)
      | BcReadN \<Rightarrow> Some (if shm_sized s then bc_at t (BcLock (N_shared s)) (s\<lparr>score := (score s)(t := 0)\<rparr>) else client_dies t s)
      | BcLock N \<Rightarrow>
          (case robust_lock (Suc t) (bd_mutex s) of
             None \<Rightarrow> None
           | Some (r, m) \<Rightarrow> Some (bc_at t (case r of Taken \<Rightarrow> BcDraw N | EOWNERDEAD \<Rightarrow> BcConsistent N
               | ENOTRECOVERABLE \<Rightarrow> BcFailed | NoMutex \<Rightarrow> BcUndefined) (s\<lparr>bd_mutex := m\<rparr>)))
      | BcConsistent N \<Rightarrow> Some (bc_at t (BcDraw N) (s\<lparr>bd_mutex := robust_consistent (Suc t) (bd_mutex s)\<rparr>))
      | BcDraw N \<Rightarrow> Some (if 1 + d mod 9 = 1 then board_say (Ops t) (bc_at t BcOps s) else bc_at t (BcPick N) s)
      | BcOps \<Rightarrow> Some (client_dies t s)
      | BcPick N \<Rightarrow>
          if N = 0 then Some (client_dies t s)
          else Some (board_say (Trying t (x mod N) (y mod N)) (bc_at t (BcLook N (N * (y mod N) + x mod N)) s))
      | BcLook N c \<Rightarrow>
          let p = board s ! c in
          if p = 0 then Some (board_say (GameOver t (score s t)) (bc_at t BcLeave s))
          else Some (board_say (Found t c p) (bc_at t (BcClear N c) (s\<lparr>score := (score s)(t := score s t + p)\<rparr>)))
      | BcClear N c \<Rightarrow> Some (bc_at t (BcUnlock N) (s\<lparr>board := (board s)[c := 0]\<rparr>))
      | BcUnlock N \<Rightarrow> Some (client_unlock t (BcSleep N) s)
      | BcSleep N \<Rightarrow> Some (bc_at t (BcLock N) s)
      | BcLeave \<Rightarrow> Some (client_unlock t BcEnd s)
      | _ \<Rightarrow> None)"

text \<open>\<open>sighandling\<close>: the thread that waits for SIGINT.\<close>

definition sighandling :: "boardsys \<Rightarrow> boardsys option" where
  "sighandling s =
     (case sg s of
        SgWait \<Rightarrow> if sigint s then Some (s\<lparr>sg := SgLock\<rparr>) else None
      | SgLock \<Rightarrow> map_option (\<lambda>m. s\<lparr>run_mutex := m, sg := SgSet\<rparr>) (pthread_mutex_lock 1 (run_mutex s))
      | SgSet \<Rightarrow> Some (s\<lparr>running := False, sg := SgUnlock\<rparr>)
      | SgUnlock \<Rightarrow> Some (s\<lparr>run_mutex := pthread_mutex_unlock 1 (run_mutex s), sg := SgEnd\<rparr>)
      | _ \<Rightarrow> None)"

text \<open>
  The server; \<open>r\<close> is the result of \<open>rand\<close> and \<open>ok\<close> the outcome of a call that may fail. New memory is
  zero, and a mutex of zeroes is an unlocked one. The loop is left with \<open>run_mutex\<close> locked.
\<close>

definition server_lock :: "boardsys \<Rightarrow> boardsys option" where
  "server_lock s =
     (case robust_lock 0 (bd_mutex s) of
        None \<Rightarrow> None
      | Some (r, m) \<Rightarrow> Some (s\<lparr>bd_mutex := m, bs := (case r of Taken \<Rightarrow> BsPrint 0 | EOWNERDEAD \<Rightarrow> BsConsistent
          | _ \<Rightarrow> BsExit 1)\<rparr>))"

definition server_main :: "nat \<Rightarrow> nat \<Rightarrow> bool \<Rightarrow> boardsys \<Rightarrow> boardsys option" where
  "server_main N r ok s =
     (case bs s of
        BsOpen \<Rightarrow> Some (if ok then s\<lparr>shm_exists := True, bs := BsSize\<rparr> else s\<lparr>bs := BsExit 1\<rparr>)
      | BsSize \<Rightarrow>
          Some (if ok then s\<lparr>shm_sized := True, bd_mutex := Unlocked, N_shared := 0, board := replicate board_room 0, bs := BsMap\<rparr>
            else s\<lparr>bs := BsExit 1\<rparr>)
      | BsMap \<Rightarrow> Some (s\<lparr>bs := if ok then BsN else BsExit 1\<rparr>)
      | BsN \<Rightarrow> Some (s\<lparr>N_shared := N, bs := BsFill 0\<rparr>)
      | BsFill i \<Rightarrow>
          if i < N * N then
            Some (if i < board_room then s\<lparr>board := (board s)[i := int (1 + r mod 9)], bs := BsFill (Suc i)\<rparr>
              else s\<lparr>bs := BsUndefined\<rparr>)
          else Some (s\<lparr>bs := BsMutex\<rparr>)
      | BsMutex \<Rightarrow> Some (s\<lparr>bd_mutex := Unlocked, bs := BsMask\<rparr>)
      | BsMask \<Rightarrow> Some (s\<lparr>bs := if ok then BsThread else BsExit 1\<rparr>)
      | BsThread \<Rightarrow> Some (s\<lparr>sg := if ok then SgWait else SgNew, bs := BsTop\<rparr>)
      | BsTop \<Rightarrow> map_option (\<lambda>m. s\<lparr>run_mutex := m, bs := BsTest\<rparr>) (pthread_mutex_lock 0 (run_mutex s))
      | BsTest \<Rightarrow> Some (s\<lparr>bs := if running s then BsRunUnlock else BsJoin\<rparr>)
      | BsRunUnlock \<Rightarrow> Some (s\<lparr>run_mutex := pthread_mutex_unlock 0 (run_mutex s), bs := BsLock\<rparr>)
      | BsLock \<Rightarrow> server_lock s
      | BsConsistent \<Rightarrow> Some (s\<lparr>bd_mutex := robust_consistent 0 (bd_mutex s), bs := BsPrint 0\<rparr>)
      | BsPrint i \<Rightarrow>
          if i < N * N then Some (board_say (FieldIs (board s ! i)) (s\<lparr>bs := BsPrint (Suc i)\<rparr>))
          else Some (s\<lparr>bs := BsUnlock\<rparr>)
      | BsUnlock \<Rightarrow> Some (s\<lparr>bd_mutex := robust_unlock 0 (bd_mutex s), bs := BsSleep\<rparr>)
      | BsSleep \<Rightarrow> Some (s\<lparr>bs := BsTop\<rparr>)
      | BsJoin \<Rightarrow> if sg s = SgEnd then Some (s\<lparr>bs := BsDestroy\<rparr>) else None
      | BsDestroy \<Rightarrow> Some (s\<lparr>bd_mutex := Destroyed, bs := BsUnlink\<rparr>)
      | BsUnlink \<Rightarrow> Some (s\<lparr>shm_exists := False, bs := BsExit 0\<rparr>)
      | _ \<Rightarrow> None)"

text \<open>SIGINT ends the server as long as it is not blocked.\<close>

fun starting :: "board_server \<Rightarrow> bool" where
  "starting BsOpen = True" | "starting BsSize = True" | "starting BsMap = True" | "starting BsN = True"
| "starting (BsFill i) = True" | "starting BsMutex = True" | "starting _ = False"

definition interrupt :: "boardsys \<Rightarrow> boardsys option" where
  "interrupt s =
     (case bs s of
        BsExit c \<Rightarrow> None | BsUndefined \<Rightarrow> None
      | p \<Rightarrow> Some (if starting p \<or> p = BsMask then s\<lparr>bs := BsExit 130\<rparr> else s\<lparr>sigint := True\<rparr>))"

definition board_program :: "nat \<Rightarrow> board_actor \<Rightarrow> boardsys \<Rightarrow> boardsys option" where
  "board_program N a s =
     (case a of
        BoardClient t d x y \<Rightarrow> board_client t d x y s
      | BoardServer r ok \<Rightarrow> server_main N r ok s
      | SigThread \<Rightarrow> (case bs s of BsExit c \<Rightarrow> None | _ \<Rightarrow> sighandling s)
      | Interrupt \<Rightarrow> interrupt s)"

definition board_start :: boardsys where
  "board_start = \<lparr>shm_exists = False, shm_sized = False, bd_mutex = Unlocked, N_shared = 0, board = [], run_mutex = None,
     running = True, sigint = False, bc = (\<lambda>_. BcNew), score = (\<lambda>_. 0), bs = BsOpen, sg = SgNew, bouts = []\<rparr>"

text \<open>\<open>main\<close> of the server checks its argument against other bounds than the usage names.\<close>

definition board_size :: "string list \<Rightarrow> nat option" where
  "board_size argv =
     (if length argv \<noteq> 2 then None
      else let N = atoi (argv ! 1) in if N < 3 \<or> 100 \<le> N then None else Some (nat N))"

text \<open>\<open>main\<close> of the client up to the board.\<close>

definition client_args :: "string list \<Rightarrow> int option" where
  "client_args argv =
     (if length argv \<noteq> 2 then None else let pid = atoi (argv ! 1) in if pid = 0 then None else Some pid)"


text \<open>The server's state when the board is filled and the mutex made, before any client has come.\<close>

definition board_ready :: "nat \<Rightarrow> int list \<Rightarrow> boardsys" where
  "board_ready N cells = board_start\<lparr>shm_exists := True, shm_sized := True, N_shared := N,
     board := cells @ replicate (board_room - N * N) 0, bs := BsMask\<rparr>"

section \<open>The mutex\<close>

fun client_holds :: "board_client \<Rightarrow> bool" where
  "client_holds (BcConsistent N) = True" | "client_holds (BcDraw N) = True" | "client_holds BcOps = True"
| "client_holds (BcPick N) = True" | "client_holds (BcLook N c) = True" | "client_holds (BcClear N c) = True"
| "client_holds (BcUnlock N) = True" | "client_holds BcLeave = True" | "client_holds _ = False"

fun server_holds :: "board_server \<Rightarrow> bool" where
  "server_holds BsConsistent = True" | "server_holds (BsPrint i) = True" | "server_holds BsUnlock = True"
| "server_holds _ = False"

definition holder :: "boardsys \<Rightarrow> nat \<Rightarrow> bool" where
  "holder s u = (case u of 0 \<Rightarrow> server_holds (bs s) | Suc t \<Rightarrow> client_holds (bc s t))"

fun client_repairs :: "board_client \<Rightarrow> bool" where
  "client_repairs (BcConsistent N) = True" | "client_repairs _ = False"

definition repairing :: "boardsys \<Rightarrow> nat \<Rightarrow> bool" where
  "repairing s u = (case u of 0 \<Rightarrow> bs s = BsConsistent | Suc t \<Rightarrow> client_repairs (bc s t))"

lemma holder_simps [simp]:
  "holder s 0 = server_holds (bs s)" "holder s (Suc t) = client_holds (bc s t)"
  "repairing s 0 \<longleftrightarrow> bs s = BsConsistent" "repairing s (Suc t) = client_repairs (bc s t)"
  by (simp_all add: holder_def repairing_def)

definition mutex_ok :: "robust \<Rightarrow> (nat \<Rightarrow> bool) \<Rightarrow> (nat \<Rightarrow> bool) \<Rightarrow> bool" where
  "mutex_ok m hold rep \<longleftrightarrow>
     (case m of
        Owned u c \<Rightarrow> (\<forall>v. hold v \<longleftrightarrow> v = u) \<and> (c \<longleftrightarrow> \<not> rep u)
      | Lost \<Rightarrow> False
      | Destroyed \<Rightarrow> \<not> hold 0 \<and> (\<forall>u v. hold u \<and> hold v \<longrightarrow> u = v)
      | _ \<Rightarrow> \<forall>v. \<not> hold v)"

lemma mutex_ok_exclusive: "mutex_ok m hold rep \<Longrightarrow> hold u \<Longrightarrow> hold v \<Longrightarrow> u = v"
  by (auto simp: mutex_ok_def split: robust.splits)

text \<open>The ways in which the mutex changes, by an actor \<open>u\<close> whose position changes with it.\<close>

definition moves :: "nat \<Rightarrow> robust \<Rightarrow> bool \<Rightarrow> bool \<Rightarrow> robust \<Rightarrow> bool \<Rightarrow> bool \<Rightarrow> bool" where
  "moves u m h r m' h' r' \<longleftrightarrow>
     m' = m \<and> h' = h \<and> (h \<longrightarrow> r' = r)
     \<or> \<not> h \<and> h' \<and> (m = Unlocked \<and> m' = Owned u True \<and> \<not> r' \<or> m = OwnerDied \<and> m' = Owned u False \<and> r')
     \<or> h \<and> r \<and> h' \<and> \<not> r' \<and> m' = robust_consistent u m
     \<or> h \<and> \<not> h' \<and> \<not> r \<and> m \<noteq> Destroyed \<and> m' = robust_unlock u m
     \<or> h \<and> \<not> h' \<and> m' = robust_death u m
     \<or> h \<and> \<not> h' \<and> m = Destroyed \<and> m' = m"

lemma mutex_ok_moves:
  assumes ok: "mutex_ok m hold rep" and mv: "moves u m (hold u) (rep u) m' (hold' u) (rep' u)"
    and same: "\<And>v. v \<noteq> u \<Longrightarrow> hold' v = hold v \<and> rep' v = rep v" and "u = 0 \<Longrightarrow> m \<noteq> Destroyed"
  shows "mutex_ok m' hold' rep'"
proof -
  obtain b c where at: "hold' u = b" "rep' u = c" by blast
  have upd: "hold' = hold(u := b)" "rep' = rep(u := c)" using same at by (auto simp: fun_eq_iff)
  show ?thesis
    using mv unfolding moves_def at unfolding upd
  proof (elim disjE conjE, goal_cases stay take take_over repair give die leave)
    case stay
    then have "hold(u := b) = hold" by auto
    with stay ok show ?case by (cases m) (auto simp: mutex_ok_def)
  qed (use ok in \<open>(cases m; auto simp: mutex_ok_def robust_consistent_def robust_unlock_def robust_death_def)[1]\<close>)+
qed


section \<open>The invariant\<close>

fun client_fits :: "nat \<Rightarrow> board_client \<Rightarrow> bool" where
  "client_fits N (BcLock n) = (n = N)" | "client_fits N (BcConsistent n) = (n = N)" | "client_fits N (BcDraw n) = (n = N)"
| "client_fits N (BcPick n) = (n = N)" | "client_fits N (BcLook n c) = (n = N \<and> c < N * N)"
| "client_fits N (BcClear n c) = (n = N \<and> c < N * N)" | "client_fits N (BcUnlock n) = (n = N)"
| "client_fits N (BcSleep n) = (n = N)" | "client_fits N BcDead = True" | "client_fits N _ = True"

definition found_at :: "nat \<Rightarrow> board_out list \<Rightarrow> int list" where
  "found_at c os = concat (map (\<lambda>x. case x of Found t d p \<Rightarrow> if d = c then [p] else [] | _ \<Rightarrow> []) os)"

definition points_of :: "nat \<Rightarrow> board_out list \<Rightarrow> int" where
  "points_of t os = sum_list (map (\<lambda>x. case x of Found u c p \<Rightarrow> if u = t then p else 0 | _ \<Rightarrow> 0) os)"

lemma found_simps [simp]:
  "found_at c [] = []" "points_of t [] = 0"
  "found_at c (os @ [x]) = found_at c os @ (case x of Found t d p \<Rightarrow> if d = c then [p] else [] | _ \<Rightarrow> [])"
  "points_of t (os @ [x]) = points_of t os + (case x of Found u c p \<Rightarrow> if u = t then p else 0 | _ \<Rightarrow> 0)"
  by (simp_all add: found_at_def points_of_def)

text \<open>A field is untouched, found and about to be cleared, or found and empty.\<close>

definition clearing :: "nat \<Rightarrow> boardsys \<Rightarrow> bool" where
  "clearing c s \<longleftrightarrow> (\<exists>t N. bc s t = BcClear N c)"

definition field_ok :: "int list \<Rightarrow> boardsys \<Rightarrow> nat \<Rightarrow> bool" where
  "field_ok cells s c \<longleftrightarrow>
     (if clearing c s then found_at c (bouts s) = [cells ! c] \<and> board s ! c = cells ! c
      else found_at c (bouts s) = [] \<and> board s ! c = cells ! c \<or> found_at c (bouts s) = [cells ! c] \<and> board s ! c = 0)"

text \<open>A player that has not begun has no points yet.\<close>

fun began :: "board_client \<Rightarrow> bool" where
  "began BcNew = False" | "began BcReadN = False" | "began BcFailed = False" | "began _ = True"

definition board_inv :: "nat \<Rightarrow> int list \<Rightarrow> boardsys \<Rightarrow> bool" where
  "board_inv N cells s \<longleftrightarrow> N_shared s = N \<and> shm_sized s \<and> length (board s) = board_room \<and> \<not> starting (bs s)
     \<and> (\<forall>t. client_fits N (bc s t)) \<and> mutex_ok (bd_mutex s) (holder s) (repairing s)
     \<and> (\<forall>c < N * N. field_ok cells s c)
     \<and> (\<forall>t. points_of t (bouts s) = (if began (bc s t) then score s t else 0))
     \<and> (bd_mutex s = Destroyed \<longleftrightarrow> bs s = BsUnlink \<or> bs s = BsExit 0)"

definition board_args :: "nat \<Rightarrow> int list \<Rightarrow> bool" where
  "board_args N cells \<longleftrightarrow> 0 < N \<and> N * N \<le> board_room \<and> length cells = N * N \<and> (\<forall>p \<in> set cells. p \<noteq> 0)"

lemma board_frame [simp]:
  "bc (bc_at t p s) = (bc s)(t := p)" "bd_mutex (bc_at t p s) = bd_mutex s" "board (bc_at t p s) = board s"
  "score (bc_at t p s) = score s" "bouts (bc_at t p s) = bouts s" "bs (bc_at t p s) = bs s" "N_shared (bc_at t p s) = N_shared s"
  "shm_sized (bc_at t p s) = shm_sized s" "bc (board_say x s) = bc s" "bd_mutex (board_say x s) = bd_mutex s"
  "board (board_say x s) = board s" "score (board_say x s) = score s" "bouts (board_say x s) = bouts s @ [x]"
  "bs (board_say x s) = bs s" "N_shared (board_say x s) = N_shared s" "shm_sized (board_say x s) = shm_sized s"
  by (simp_all add: bc_at_def board_say_def)

lemmas client_steps = board_client_def client_dies_def client_unlock_def

text \<open>What a client's step leaves alone.\<close>

lemma client_frame:
  assumes "board_client t d x y s = Some s'"
  shows "bs s' = bs s" "N_shared s' = N_shared s" "shm_sized s' = shm_sized s" "length (board s') = length (board s)"
    "u \<noteq> t \<Longrightarrow> bc s' u = bc s u" "u \<noteq> t \<Longrightarrow> score s' u = score s u" "u \<noteq> t \<Longrightarrow> points_of u (bouts s') = points_of u (bouts s)"
  using assms by (cases "bc s t"; auto simp: client_steps Let_def split: if_splits option.splits lock_result.splits)+

lemma moves_intros:
  "(h \<Longrightarrow> r' = r) \<Longrightarrow> moves u m h r m h r'"
  "moves u Unlocked False r (Owned u True) True False" "moves u OwnerDied False r (Owned u False) True True"
  "moves u m True True (robust_consistent u m) True False"
  "m \<noteq> Destroyed \<Longrightarrow> moves u m True False (robust_unlock u m) False r'"
  "moves u m True r (robust_death u m) False r'" "moves u Destroyed True r Destroyed False r'"
  by (auto simp: moves_def)

lemma client_moves:
  assumes st: "board_client t d x y s = Some s'" and ok: "mutex_ok (bd_mutex s) (holder s) (repairing s)"
  shows "moves (Suc t) (bd_mutex s) (client_holds (bc s t)) (client_repairs (bc s t)) (bd_mutex s')
    (client_holds (bc s' t)) (client_repairs (bc s' t))"
proof (cases "bc s t")
  case (BcLock n)
  with st show ?thesis
    by (cases "bd_mutex s") (auto simp: board_client_def robust_lock_def intro!: moves_intros)
next
  case BcReadN
  have "robust_death (Suc t) (bd_mutex s) = bd_mutex s"
    using ok BcReadN by (cases "bd_mutex s") (auto simp: mutex_ok_def robust_death_def dest!: spec [of _ "Suc t"])
  with BcReadN st show ?thesis by (auto simp: board_client_def client_dies_def intro!: moves_intros split: if_splits)
next
  case (BcUnlock n)
  with st show ?thesis by (cases "bd_mutex s = Destroyed") (auto simp: board_client_def client_unlock_def intro!: moves_intros)
next
  case BcLeave
  with st show ?thesis by (cases "bd_mutex s = Destroyed") (auto simp: board_client_def client_unlock_def intro!: moves_intros)
qed (use st in \<open>(auto simp: board_client_def client_dies_def Let_def intro!: moves_intros split: if_splits)[1]\<close>)+


lemma client_field:
  assumes st: "board_client t d x y s = Some s'" and ok: "mutex_ok (bd_mutex s) (holder s) (repairing s)"
    and f: "field_ok cells s c" and c: "c < length (board s)" and nz: "cells ! c \<noteq> 0"
  shows "field_ok cells s' c"
proof -
  have alone: "u = t" if "client_holds (bc s u)" "client_holds (bc s t)" for u
    using mutex_ok_exclusive [OF ok, of "Suc u" "Suc t"] that by simp
  have other: "clearing c s' \<longleftrightarrow> clearing c s" if "\<forall>N. bc s t \<noteq> BcClear N c \<and> bc s' t \<noteq> BcClear N c"
    using that client_frame(5) [OF st] by (metis clearing_def)
  consider (look) N where "bc s t = BcLook N c" | (clear) N where "bc s t = BcClear N c"
    | (else) "\<forall>N. bc s t \<noteq> BcLook N c \<and> bc s t \<noteq> BcClear N c" by blast
  then show ?thesis
  proof cases
    case look
    then have "\<not> clearing c s" using alone [of "_"] by (metis clearing_def board_client.distinct client_holds.simps(5,6))
    with look st f nz show ?thesis
      by (auto simp: board_client_def Let_def field_ok_def clearing_def split: if_splits)
  next
    case clear
    then have "clearing c s" by (auto simp: clearing_def)
    moreover have "\<not> clearing c s'"
    proof -
      have "bc s u \<noteq> BcClear M c" if "u \<noteq> t" for u M using alone [of u] that clear by auto
      with clear st show ?thesis by (auto simp: board_client_def clearing_def split: if_splits)
    qed
    ultimately show ?thesis using clear st f c by (auto simp: board_client_def field_ok_def)
  next
    case else
    have "bc s' t \<noteq> BcClear N c" "board s' ! c = board s ! c" "found_at c (bouts s') = found_at c (bouts s)" for N
      using st else by (cases "bc s t"; auto simp: client_steps Let_def split: if_splits option.splits lock_result.splits)+
    with else other f show ?thesis by (simp add: field_ok_def)
  qed
qed


lemma client_points:
  assumes "board_client t d x y s = Some s'" and "points_of t (bouts s) = (if began (bc s t) then score s t else 0)" and "shm_sized s"
    and "bd_mutex s \<noteq> Lost"
  shows "points_of t (bouts s') = (if began (bc s' t) then score s' t else 0)"
  using assms
  by (cases "bc s t") (auto simp: client_steps robust_lock_def Let_def split: if_splits option.splits lock_result.splits robust.splits)

lemma square_index: "x < N \<Longrightarrow> y < N \<Longrightarrow> N * y + x < N * (N :: nat)"
proof -
  assume "x < N" "y < N"
  then have "N * y + x < N * Suc y" by simp
  also have "\<dots> \<le> N * N" using \<open>y < N\<close> by (intro mult_le_mono2) simp
  finally show ?thesis .
qed

lemma client_fits_step:
  assumes "board_client t d x y s = Some s'" and "client_fits (N_shared s) (bc s t)"
  shows "client_fits (N_shared s) (bc s' t)"
  using assms
  by (cases "bc s t") (auto simp: client_steps Let_def square_index split: if_splits option.splits lock_result.splits)

lemma moves_destroyed: "moves u m h r m' h' r' \<Longrightarrow> m' = Destroyed \<longleftrightarrow> m = Destroyed"
  by (cases m) (auto simp: moves_def robust_consistent_def robust_unlock_def robust_death_def split: if_splits)

lemma client_inv:
  assumes inv: "board_inv N cells s" and args: "board_args N cells" and st: "board_client t d x y s = Some s'"
  shows "board_inv N cells s'"
proof -
  note f = client_frame [OF st]
  have ok: "mutex_ok (bd_mutex s) (holder s) (repairing s)" and len: "length (board s) = board_room"
    and N: "N_shared s = N" and sized: "shm_sized s" and gone: "bd_mutex s = Destroyed \<longleftrightarrow> bs s = BsUnlink \<or> bs s = BsExit 0"
    using inv by (simp_all add: board_inv_def)
  have lost: "bd_mutex s \<noteq> Lost" using ok by (auto simp: mutex_ok_def)
  have "client_fits N (bc s' u)" for u
    using inv client_fits_step [OF st] f(5) [of u] by (cases "u = t") (auto simp: board_inv_def)
  moreover have "mutex_ok (bd_mutex s') (holder s') (repairing s')"
  proof (rule mutex_ok_moves [OF ok, of "Suc t"])
    show "holder s' v = holder s v \<and> repairing s' v = repairing s v" if "v \<noteq> Suc t" for v
      using that f(1,5) by (cases v) auto
  qed (use client_moves [OF st ok] in simp_all)
  moreover have "field_ok cells s' c" if "c < N * N" for c
    using client_field [OF st ok, of cells c] inv args that len by (auto simp: board_inv_def board_args_def)
  moreover have "points_of u (bouts s') = (if began (bc s' u) then score s' u else 0)" for u
    using inv client_points [OF st _ sized lost] f(5-7) [of u] by (cases "u = t") (auto simp: board_inv_def)
  ultimately show ?thesis
    using inv f(1-4) moves_destroyed [OF client_moves [OF st ok]] by (simp add: board_inv_def)
qed


text \<open>The server changes the mutex and its own position only.\<close>

lemma server_inv:
  assumes inv: "board_inv N cells s" and st: "server_main N r b s = Some s'"
  shows "board_inv N cells s'"
proof -
  have ok: "mutex_ok (bd_mutex s) (holder s) (repairing s)" and gone: "bd_mutex s = Destroyed \<longleftrightarrow> bs s = BsUnlink \<or> bs s = BsExit 0"
    and late: "\<not> starting (bs s)"
    using inv by (simp_all add: board_inv_def)
  have same: "N_shared s' = N_shared s" "shm_sized s' = shm_sized s" "board s' = board s" "bc s' = bc s" "score s' = score s"
    "\<not> starting (bs s')" "points_of t (bouts s') = points_of t (bouts s)" "found_at c (bouts s') = found_at c (bouts s)" for t c
    using st late by (cases "bs s"; auto simp: server_main_def server_lock_def split: if_splits option.splits lock_result.splits)+
  have "mutex_ok (bd_mutex s') (holder s') (repairing s') \<and> (bd_mutex s' = Destroyed \<longleftrightarrow> bs s' = BsUnlink \<or> bs s' = BsExit 0)"
  proof (cases "bs s = BsDestroy")
    case True
    with st ok same(4) show ?thesis
      by (cases "bd_mutex s") (auto simp: server_main_def mutex_ok_def holder_def split: nat.splits)
  next
    case False
    have m: "moves 0 (bd_mutex s) (server_holds (bs s)) (bs s = BsConsistent) (bd_mutex s') (server_holds (bs s')) (bs s' = BsConsistent)"
    proof (cases "bs s = BsLock")
      case True
      with st False gone show ?thesis
        by (cases "bd_mutex s") (auto simp: server_main_def server_lock_def robust_lock_def intro!: moves_intros)
    next
      case other: False
      show ?thesis
        using st False late gone other
        by (cases "bs s") ((auto simp: server_main_def intro!: moves_intros split: if_splits)[1])+
    qed
    have "mutex_ok (bd_mutex s') (holder s') (repairing s')"
    proof (cases "bd_mutex s = Destroyed")
      case True
      then have "bd_mutex s' = Destroyed" using moves_destroyed [OF m] by simp
      moreover have "\<not> server_holds (bs s')" using True m gone by (auto simp: moves_def)
      ultimately show ?thesis using ok True same(4) by (auto simp: mutex_ok_def holder_def split: nat.splits)
    next
      case False
      have "holder s' v = holder s v \<and> repairing s' v = repairing s v" if "v \<noteq> 0" for v
        using that same(4) by (cases v) auto
      with False m show ?thesis by (intro mutex_ok_moves [OF ok, of 0]) auto
    qed
    moreover have "bs s' = BsUnlink \<or> bs s' = BsExit 0 \<longleftrightarrow> bs s = BsUnlink \<or> bs s = BsExit 0"
      using st False late
      by (cases "bs s") ((auto simp: server_main_def server_lock_def split: if_splits option.splits lock_result.splits)[1])+
    ultimately show ?thesis using gone moves_destroyed [OF m] by simp
  qed
  then show ?thesis using inv same unfolding board_inv_def field_ok_def clearing_def by simp
qed


lemma interrupt_inv:
  assumes inv: "board_inv N cells s" and st: "interrupt s = Some s'"
  shows "board_inv N cells s'"
proof -
  have late: "\<not> starting (bs s)" using inv by (simp add: board_inv_def)
  consider (ends) "bs s = BsMask" "s' = s\<lparr>bs := BsExit 130\<rparr>" | (sees) "s' = s\<lparr>sigint := True\<rparr>"
    using st late by (cases "bs s") (simp_all add: interrupt_def)
  then have "N_shared s' = N_shared s \<and> shm_sized s' = shm_sized s \<and> board s' = board s \<and> bc s' = bc s \<and> score s' = score s
    \<and> bd_mutex s' = bd_mutex s \<and> bouts s' = bouts s \<and> (bs s' = bs s \<or> bs s = BsMask \<and> bs s' = BsExit 130)"
    by cases simp_all
  then have same: "N_shared s' = N_shared s" "shm_sized s' = shm_sized s" "board s' = board s" "bc s' = bc s" "score s' = score s"
    "bd_mutex s' = bd_mutex s" "bouts s' = bouts s" and at: "bs s' = bs s \<or> bs s = BsMask \<and> bs s' = BsExit 130" by blast+
  have "holder s' = holder s" "repairing s' = repairing s"
    using at same(4) by (auto simp: holder_def repairing_def fun_eq_iff split: nat.split)
  moreover have "\<not> starting (bs s')" "bs s' = BsUnlink \<or> bs s' = BsExit 0 \<longleftrightarrow> bs s = BsUnlink \<or> bs s = BsExit 0"
    using at late by auto
  ultimately show ?thesis using inv same by (simp add: board_inv_def field_ok_def clearing_def)
qed

lemma sighandling_inv:
  assumes inv: "board_inv N cells s" and st: "sighandling s = Some s'"
  shows "board_inv N cells s'"
proof -
  have "N_shared s' = N_shared s" "shm_sized s' = shm_sized s" "board s' = board s" "bc s' = bc s" "score s' = score s"
    "bs s' = bs s" "bd_mutex s' = bd_mutex s" "bouts s' = bouts s"
    using st by (cases "sg s"; auto simp: sighandling_def split: if_splits)+
  moreover from this have "holder s' = holder s" "repairing s' = repairing s"
    by (auto simp: holder_def repairing_def fun_eq_iff split: nat.split)
  ultimately show ?thesis using inv by (simp add: board_inv_def field_ok_def clearing_def)
qed

lemma board_step_inv:
  assumes args: "board_args N cells" and inv: "board_inv N cells s" and st: "board_program N a s = Some s'"
  shows "board_inv N cells s'"
proof (cases a)
  case (BoardClient t d x y)
  with st client_inv [OF inv args] show ?thesis by (simp add: board_program_def)
next
  case (BoardServer r ok)
  with st server_inv [OF inv] show ?thesis by (simp add: board_program_def)
next
  case SigThread
  with st have "sighandling s = Some s'" by (simp add: board_program_def split: board_server.splits)
  then show ?thesis by (rule sighandling_inv [OF inv])
next
  case Interrupt
  with st interrupt_inv [OF inv] show ?thesis by (simp add: board_program_def)
qed

lemma board_ready_inv:
  assumes "board_args N cells"
  shows "board_inv N cells (board_ready N cells)"
proof -
  have "mutex_ok Unlocked (holder (board_ready N cells)) (repairing (board_ready N cells))"
    by (simp add: mutex_ok_def holder_def board_ready_def board_start_def split: nat.split)
  with assms show ?thesis
    by (simp add: board_inv_def board_args_def board_ready_def board_start_def field_ok_def clearing_def nth_append)
qed

lemma board_reachable_inv:
  assumes "board_args N cells" and "reachable (board_program N) (board_ready N cells) s"
  shows "board_inv N cells s"
  using assms(2) by (rule reachable_invariant) (rule board_ready_inv [OF assms(1)], rule board_step_inv [OF assms(1)])

section \<open>Properties\<close>


text \<open>The client 1 dies with the mutex; the client 0 takes it over and finds five points.\<close>

definition takeover :: "board_actor list" where
  "takeover = replicate 5 (BoardClient 1 0 0 0) @ replicate 7 (BoardClient 0 1 2 1)"

lemma takeover_run:
  "map_option (\<lambda>s. (bc s 0, bc s 1, found_at 5 (bouts s), bd_mutex s)) (run (board_program 3) takeover (board_ready 3 (replicate 9 5)))
    = Some (BcClear 3 5, BcDead, [5], Owned 1 True)"
  by code_simp

lemma nine_fives: "board_args 3 (replicate 9 5)"
  by (simp add: board_args_def board_room_def SHM_SIZE_def)


text \<open>
  C29. The board of lab 7: the mutex survives its owners. It is never lost for want of
  \<open>pthread_mutex_consistent\<close>, no client ever fails on it, and as long as the server runs, whoever
  owns it is a process that can make a step; nobody waits for a dead process.
\<close>

theorem mutex_survives:
  assumes "board_args N cells" and "reachable (board_program N) (board_ready N cells) s"
  shows "bd_mutex s \<noteq> Lost
    \<and> (\<forall>u c. bd_mutex s = Owned u c \<longrightarrow> (\<exists>a s'. board_program N a s = Some s'
        \<and> (case u of 0 \<Rightarrow> \<exists>r b. a = BoardServer r b | Suc t \<Rightarrow> bc s t \<noteq> BcDead \<and> (\<exists>d x y. a = BoardClient t d x y))))"
proof -
  have inv: "board_inv N cells s" using board_reachable_inv [OF assms] .
  then have ok: "mutex_ok (bd_mutex s) (holder s) (repairing s)" by (simp add: board_inv_def)
  have "\<exists>s'. board_program N (BoardServer 0 True) s = Some s'" if "server_holds (bs s)"
    using that by (cases "bs s") (auto simp: board_program_def server_main_def)
  moreover have "bc s t \<noteq> BcDead \<and> (\<exists>s'. board_program N (BoardClient t 0 0 0) s = Some s')" if "client_holds (bc s t)" for t
    using that by (cases "bc s t") (auto simp: board_program_def board_client_def Let_def)
  moreover have "holder s u" if "bd_mutex s = Owned u c" for u c using ok that by (simp add: mutex_ok_def)
  moreover have "bd_mutex s \<noteq> Lost" using ok by (auto simp: mutex_ok_def)
  ultimately have run: "server_holds (bs s) \<Longrightarrow> \<exists>s'. board_program N (BoardServer 0 True) s = Some s'"
    "client_holds (bc s t) \<Longrightarrow> bc s t \<noteq> BcDead \<and> (\<exists>s'. board_program N (BoardClient t 0 0 0) s = Some s')"
    "bd_mutex s = Owned u c \<Longrightarrow> holder s u" "bd_mutex s \<noteq> Lost" for t u c by blast+
  have "\<exists>a s'. board_program N a s = Some s'
      \<and> (case u of 0 \<Rightarrow> \<exists>r b. a = BoardServer r b | Suc t \<Rightarrow> bc s t \<noteq> BcDead \<and> (\<exists>d x y. a = BoardClient t d x y))"
    if "bd_mutex s = Owned u c" for u c
  proof (cases u)
    case 0
    with run(1,3) that show ?thesis by (intro exI [of _ "BoardServer 0 True"]) auto
  next
    case (Suc t)
    with run(2) [of t] run(3) that show ?thesis by (intro exI [of _ "BoardClient t 0 0 0"]) auto
  qed
  with run(4) show ?thesis by blast
qed


lemma mutex_survives_witness:
  "\<exists>s. reachable (board_program 3) (board_ready 3 (replicate 9 5)) s \<and> bc s 1 = BcDead \<and> bd_mutex s = Owned 1 True
    \<and> bc s 0 \<noteq> BcDead \<and> (\<exists>a s'. board_program 3 a s = Some s' \<and> (\<exists>d x y. a = BoardClient 0 d x y))"
proof -
  obtain s where s: "reachable (board_program 3) (board_ready 3 (replicate 9 5)) s" "bc s 1 = BcDead" "bd_mutex s = Owned 1 True"
    using reachable_obs [OF takeover_run] by auto
  with mutex_survives [OF nine_fives s(1)] show ?thesis by (intro exI [of _ s]) auto
qed

section \<open>From the start\<close>

text \<open>The steps by which the server fills the board; \<open>rs\<close> are the results of \<open>rand\<close>.\<close>

definition filling :: "nat list \<Rightarrow> board_actor list" where
  "filling rs = map (\<lambda>r. BoardServer r True) rs"

definition points_drawn :: "nat list \<Rightarrow> int list" where
  "points_drawn rs = map (\<lambda>r. int (1 + r mod 9)) rs"

lemma fill_run:
  assumes "bs s = BsFill (length xs)" and "board s = xs @ replicate m 0" and "length rs \<le> m"
    and "length xs + m = board_room" and "length xs + length rs \<le> N * N"
  shows "run (board_program N) (filling rs) s
    = Some (s\<lparr>board := xs @ points_drawn rs @ replicate (m - length rs) 0, bs := BsFill (length xs + length rs)\<rparr>)"
  using assms
proof (induction rs arbitrary: s xs m)
  case Nil
  then have "s\<lparr>board := board s, bs := bs s\<rparr> = s" by simp
  with Nil show ?case by (simp add: filling_def points_drawn_def)
next
  case (Cons r rs)
  then obtain k where m: "m = Suc k" by (cases m) auto
  let ?s = "s\<lparr>board := (xs @ [int (1 + r mod 9)]) @ replicate k 0, bs := BsFill (length (xs @ [int (1 + r mod 9)]))\<rparr>"
  have "board_program N (BoardServer r True) s = Some ?s"
    using Cons.prems m by (simp add: board_program_def server_main_def list_update_append)
  moreover have "run (board_program N) (filling rs) ?s = Some (?s\<lparr>board := (xs @ [int (1 + r mod 9)]) @ points_drawn rs
      @ replicate (k - length rs) 0, bs := BsFill (length (xs @ [int (1 + r mod 9)]) + length rs)\<rparr>)"
    using Cons.prems m by (intro Cons.IH) simp_all
  ultimately show ?case using m by (simp add: filling_def points_drawn_def)
qed

definition server_opens :: "board_actor list" where
  "server_opens = replicate 4 (BoardServer 0 True)"

definition board_open :: "nat \<Rightarrow> boardsys" where
  "board_open N = board_start\<lparr>shm_exists := True, shm_sized := True, N_shared := N, board := replicate board_room 0, bs := BsFill 0\<rparr>"

lemma open_run: "run (board_program N) server_opens board_start = Some (board_open N)"
  by (simp add: server_opens_def numeral_eq_Suc board_program_def server_main_def board_start_def board_open_def)

text \<open>
  The server of lab 7: for every size whose board fits into the shared memory and whatever \<open>rand\<close>
  returns, the server on its own comes to the state from which the game is played, with one to nine
  points on every field.
\<close>

theorem server_gets_ready:
  assumes "length rs = N * N" and "N * N \<le> board_room" and "0 < N"
  shows "run (board_program N) (server_opens @ filling rs @ [BoardServer 0 True, BoardServer 0 True]) board_start
      = Some (board_ready N (points_drawn rs)) \<and> board_args N (points_drawn rs)"
proof -
  have "run (board_program N) (filling rs) (board_open N)
      = Some (board_open N\<lparr>board := [] @ points_drawn rs @ replicate (board_room - length rs) 0, bs := BsFill (0 + length rs)\<rparr>)"
    using fill_run [of "board_open N" "[]" board_room rs N] assms by (simp add: board_open_def)
  then show ?thesis
    using assms
    by (simp add: run_append open_run board_program_def server_main_def board_args_def points_drawn_def)
      (simp add: board_open_def board_ready_def board_start_def)
qed

lemma server_gets_ready_witness:
  "run (board_program 3) (server_opens @ filling [0, 1, 2, 3, 4, 5, 6, 7, 8] @ [BoardServer 0 True, BoardServer 0 True]) board_start
     = Some (board_ready 3 [1, 2, 3, 4, 5, 6, 7, 8, 9])"
  using server_gets_ready [of "[0, 1, 2, 3, 4, 5, 6, 7, 8]" 3]
  by (simp add: points_drawn_def board_room_def SHM_SIZE_def)

text \<open>
  C30. The server of lab 7: its usage says that the board has at most 30 rows and its shared memory has
  room for 31, but \<open>main\<close> accepts up to 99. With 32 rows or more the server writes behind the shared
  memory, whatever it draws.
\<close>

theorem large_board_overflows:
  assumes "32 \<le> N" and "length rs = board_room"
  shows "\<exists>s. run (board_program N) (server_opens @ filling rs @ [BoardServer 0 True]) board_start = Some s \<and> bs s = BsUndefined"
proof -
  have "32 * 32 \<le> N * N" using assms(1) by (rule mult_le_mono) (rule assms(1))
  then have big: "board_room < N * N" by (simp add: board_room_def SHM_SIZE_def)
  have "run (board_program N) (filling rs) (board_open N)
      = Some (board_open N\<lparr>board := [] @ points_drawn rs @ replicate (board_room - length rs) 0, bs := BsFill (0 + length rs)\<rparr>)"
    using fill_run [of "board_open N" "[]" board_room rs N] assms(2) big by (simp add: board_open_def)
  then show ?thesis using assms(2) big by (simp add: run_append open_run board_program_def server_main_def)
qed

lemma large_board_overflows_witness:
  "board_size [''server'', ''99''] = Some 99
    \<and> (\<exists>s. run (board_program 99) (server_opens @ filling (replicate board_room 0) @ [BoardServer 0 True]) board_start = Some s
        \<and> bs s = BsUndefined)"
proof -
  have "board_size [''server'', ''99''] = Some 99" by code_simp
  then show ?thesis using large_board_overflows [of 99 "replicate board_room 0"] by simp
qed

text \<open>
  Lab 7: a client that starts between the filling of the board and \<open>pthread_mutex_init\<close> breaks the
  exclusion: the new mutex frees the one that it holds, and two clients take the points of one field.
\<close>

theorem early_clients_share_points:
  "\<exists>s. reachable (board_program 3) board_start s \<and> found_at 0 (bouts s) = [5, 5] \<and> score s 0 = 5 \<and> score s 1 = 5"
proof -
  let ?visit = "\<lambda>t. replicate 6 (BoardClient t 1 0 0)"
  let ?s = "board_open 3\<lparr>board := points_drawn (replicate 9 4) @ replicate (board_room - 9) 0, bs := BsFill 9\<rparr>"
  have "run (board_program 3) (server_opens @ filling (replicate 9 4)) board_start = Some ?s"
    using fill_run [of "board_open 3" "[]" board_room "replicate 9 4" 3]
    by (simp add: run_append open_run board_open_def board_room_def SHM_SIZE_def)
  moreover have "map_option (\<lambda>s. (found_at 0 (bouts s), score s 0, score s 1))
      (run (board_program 3) (BoardServer 0 True # ?visit 0 @ [BoardServer 0 True] @ ?visit 1) ?s) = Some ([5, 5], 5, 5)"
    by code_simp
  ultimately have "map_option (\<lambda>s. (found_at 0 (bouts s), score s 0, score s 1))
      (run (board_program 3) ((server_opens @ filling (replicate 9 4)) @ (BoardServer 0 True # ?visit 0 @ [BoardServer 0 True] @ ?visit 1)) board_start)
      = Some ([5, 5], 5, 5)"
    by (simp only: run_append [of _ "server_opens @ filling (replicate 9 4)"] option.case)
  from reachable_obs [OF this] show ?thesis by auto
qed

end
