(* ===== verification/Integral.thy ===== *)
theory Integral
  imports Threads Sockets
begin

text \<open>
  \<open>Lab - 7/examp.c\<close>: processes that share counters in a memory object for a Monte Carlo integral. The
  first process creates the object, each counts itself in and out under a named semaphore, and the
  last one prints the result and removes the object and the semaphore. A name is bound to the number
  of the object that it leads to; unlinking frees the name, not the object. The interval \<open>(a, b)\<close> is a
  value of any type. \<open>ERR\<close> comes from \<open>macros.h\<close>, which the repository lacks; all that is used of it is
  that it does not return.
\<close>

section \<open>Points\<close>

text \<open>\<open>hs\<close> tells which of the random points are under the curve; the loop counts in its own index.\<close>

function randomize_from :: "int \<Rightarrow> int \<Rightarrow> bool list \<Rightarrow> int" where
  "randomize_from N i hs =
     (if i < N then randomize_from N (if hs \<noteq> [] \<and> hd hs then i + 2 else i + 1) (tl hs) else i)"
  by pat_completeness auto
termination by (relation "measure (\<lambda>(N, i, hs). nat (N - i))") auto

declare randomize_from.simps [simp del]

definition randomize_points :: "int \<Rightarrow> bool list \<Rightarrow> int" where
  "randomize_points N hs = randomize_from N 0 hs"

lemma randomize_from_bounds: "i \<le> N \<Longrightarrow> N \<le> randomize_from N i hs \<and> randomize_from N i hs \<le> N + 1"
proof (induction N i hs rule: randomize_from.induct)
  case (1 N i hs)
  then show ?case
    by (cases "i + 2 \<le> N") (auto simp: randomize_from.simps [of N] )
qed

section \<open>The program\<close>

record 'r shared_mem =
  workers :: "64 word"
  tried :: "64 word"
  hit :: "64 word"
  lock_owner :: "nat option"
  interval :: "'r option"
  sized :: bool

text \<open>
  The positions hold the semaphore \<open>g\<close> and, up to \<open>mmap\<close>, the memory object \<open>m\<close>. \<open>ImStuck\<close> and
  \<open>ImStuckEnd\<close> are the ends of a process that has not posted the semaphore it took, in \<open>mem_init\<close> and in
  \<open>finish\<close>, \<open>ImGone\<close> the end after so many batches of a process that has not counted itself out, and
  \<open>ImFailed\<close> every other end by an error.
\<close>

datatype integral_pc =
  ImNew | ImWait nat | ImCreate nat | ImReopen nat | ImSize nat nat | ImMap nat nat bool | ImInit nat nat
| ImCheck nat | ImLock nat | ImLoad nat | ImStore nat "64 word" | ImUnlock nat | ImPost nat
| ImRand nat | ImWLock nat int | ImHit nat int | ImTried nat | ImPartial nat | ImWUnlock nat
| ImFOpen | ImFWait nat | ImDec nat | ImDecStore nat "64 word" | ImFLock nat | ImResult nat | ImFUnlock nat
| ImDestroy nat | ImUnlinkShm nat | ImUnlinkSem nat | ImLeave nat | ImFPost nat | ImReturning | ImEnd
| ImPostFail nat | ImStuck nat | ImStuckEnd nat | ImGone nat | ImFailed

datatype integral_out = Partial nat "64 word" "64 word" | Result "64 word" "64 word" | Returning nat

record 'r intsys =
  sem_name :: "nat option"
  sem_next :: nat
  sem_val :: "nat \<Rightarrow> nat"
  shm_name :: "nat option"
  shm_next :: nat
  shm :: "nat \<Rightarrow> 'r shared_mem"
  shmem :: "nat \<Rightarrow> nat option"
  im :: "nat \<Rightarrow> integral_pc"
  im_outs :: "integral_out list"

definition im_at :: "nat \<Rightarrow> integral_pc \<Rightarrow> 'r intsys \<Rightarrow> 'r intsys" where
  "im_at i p s = s\<lparr>im := (im s)(i := p)\<rparr>"

definition im_say :: "integral_out \<Rightarrow> 'r intsys \<Rightarrow> 'r intsys" where
  "im_say x s = s\<lparr>im_outs := im_outs s @ [x]\<rparr>"

text \<open>\<open>shmem\<close> of process \<open>i\<close>: the object that it has mapped.\<close>

definition mine :: "nat \<Rightarrow> 'r intsys \<Rightarrow> nat" where
  "mine i s = the (shmem s i)"

definition my_mem :: "nat \<Rightarrow> 'r intsys \<Rightarrow> 'r shared_mem" where
  "my_mem i s = shm s (mine i s)"

definition with_shm :: "nat \<Rightarrow> ('r shared_mem \<Rightarrow> 'r shared_mem) \<Rightarrow> 'r intsys \<Rightarrow> 'r intsys" where
  "with_shm m f s = s\<lparr>shm := (shm s)(m := f (shm s m))\<rparr>"

definition with_mine :: "nat \<Rightarrow> ('r shared_mem \<Rightarrow> 'r shared_mem) \<Rightarrow> 'r intsys \<Rightarrow> 'r intsys" where
  "with_mine i f s = with_shm (mine i s) f s"

text \<open>\<open>sem_open\<close> with \<open>O_CREAT\<close> and the value 1; \<open>sem_timedwait\<close> with \<open>clock_gettime\<close> before it: it takes
  the semaphore or blocks, or one of them fails, as it does when the time is over.\<close>

definition sem_open :: "'r intsys \<Rightarrow> nat \<times> 'r intsys" where
  "sem_open s =
     (case sem_name s of
        Some g \<Rightarrow> (g, s)
      | None \<Rightarrow> (sem_next s, s\<lparr>sem_name := Some (sem_next s), sem_next := Suc (sem_next s),
          sem_val := (sem_val s)(sem_next s := 1)\<rparr>))"

definition sem_timedwait :: "nat \<Rightarrow> nat \<Rightarrow> integral_pc \<Rightarrow> integral_pc \<Rightarrow> bool \<Rightarrow> 'r intsys \<Rightarrow> 'r intsys option" where
  "sem_timedwait i g p q ok s =
     (if ok then map_option (\<lambda>v. im_at i p (s\<lparr>sem_val := (sem_val s)(g := v)\<rparr>)) (sem_wait (sem_val s g))
      else Some (im_at i q s))"

definition post :: "nat \<Rightarrow> 'r intsys \<Rightarrow> 'r intsys" where
  "post g s = s\<lparr>sem_val := (sem_val s)(g := sem_post (sem_val s g))\<rparr>"

definition lock_shm :: "nat \<Rightarrow> integral_pc \<Rightarrow> 'r intsys \<Rightarrow> 'r intsys option" where
  "lock_shm i p s =
     map_option (\<lambda>l. im_at i p (with_mine i (\<lambda>h. h\<lparr>lock_owner := l\<rparr>) s)) (pthread_mutex_lock i (lock_owner (my_mem i s)))"

definition unlock_shm :: "nat \<Rightarrow> integral_pc \<Rightarrow> 'r intsys \<Rightarrow> 'r intsys" where
  "unlock_shm i p s = im_at i p (with_mine i (\<lambda>h. h\<lparr>lock_owner := pthread_mutex_unlock i (lock_owner h)\<rparr>) s)"

text \<open>
  \<open>mem_init\<close>; \<open>r\<close> is the own interval, \<open>ok\<close> the outcome of a call that may fail. The functions of
  pthread do not set \<open>errno\<close>, which is 0 when it is tested.
\<close>

definition new_mem :: "'r shared_mem" where
  "new_mem = \<lparr>workers = 0, tried = 0, hit = 0, lock_owner = None, interval = None, sized = False\<rparr>"

definition init_mem :: "nat \<Rightarrow> 'r \<Rightarrow> 'r shared_mem \<Rightarrow> 'r shared_mem" where
  "init_mem k r h =
     (if k = 0 then h\<lparr>workers := 1\<rparr> else if k = 1 then h\<lparr>tried := 0\<rparr> else if k = 2 then h\<lparr>hit := 0\<rparr>
      else if k = 3 then h\<lparr>interval := Some r\<rparr> else h\<lparr>lock_owner := None\<rparr>)"

definition mem_init :: "nat \<Rightarrow> 'r \<Rightarrow> bool \<Rightarrow> 'r intsys \<Rightarrow> 'r intsys option" where
  "mem_init i r ok s =
     (case im s i of
        ImNew \<Rightarrow> Some (if ok then (case sem_open s of (g, s) \<Rightarrow> im_at i (ImWait g) s) else im_at i ImFailed s)
      | ImWait g \<Rightarrow> sem_timedwait i g (ImCreate g) ImFailed ok s
      | ImCreate g \<Rightarrow>
          Some (if \<not> ok then im_at i (ImPostFail g) s
            else case shm_name s of
              Some m \<Rightarrow> im_at i (ImReopen g) s
            | None \<Rightarrow> im_at i (ImSize g (shm_next s)) (with_shm (shm_next s) (\<lambda>_. new_mem)
                (s\<lparr>shm_name := Some (shm_next s), shm_next := Suc (shm_next s)\<rparr>)))
      | ImReopen g \<Rightarrow>
          Some (case shm_name s of
              Some m \<Rightarrow> im_at i (if ok then ImMap g m False else ImPostFail g) s
            | None \<Rightarrow> im_at i (ImPostFail g) s)
      | ImSize g m \<Rightarrow>
          Some (if ok then im_at i (ImMap g m True) (with_shm m (\<lambda>h. h\<lparr>sized := True\<rparr>) s)
            else im_at i (ImPostFail g) (s\<lparr>shm_name := None\<rparr>))
      | ImMap g m b \<Rightarrow>
          Some (if ok then im_at i (if b then ImInit g 0 else ImCheck g) (s\<lparr>shmem := (shmem s)(i := Some m)\<rparr>)
            else im_at i (ImPostFail g) (if b then s\<lparr>shm_name := None\<rparr> else s))
      | ImInit g k \<Rightarrow>
          Some (im_at i (if k < 4 then ImInit g (Suc k) else ImPost g) (with_mine i (init_mem k r) s))
      | ImCheck g \<Rightarrow>
          Some (im_at i (if sized (my_mem i s) \<and> interval (my_mem i s) = Some r then ImLock g else ImStuck g) s)
      | ImLock g \<Rightarrow> lock_shm i (ImLoad g) s
      | ImLoad g \<Rightarrow> Some (im_at i (ImStore g (workers (my_mem i s))) s)
      | ImStore g v \<Rightarrow> Some (im_at i (ImUnlock g) (with_mine i (\<lambda>h. h\<lparr>workers := v + 1\<rparr>) s))
      | ImUnlock g \<Rightarrow> Some (unlock_shm i (ImPost g) s)
      | ImPost g \<Rightarrow> Some (im_at i (if ok then ImRand 3 else ImGone 0) (post g s))
      | ImPostFail g \<Rightarrow> Some (im_at i ImFailed (post g s))
      | _ \<Rightarrow> None)"

text \<open>\<open>work\<close>, with the number of batches left.\<close>

definition work :: "nat \<Rightarrow> int \<Rightarrow> bool list \<Rightarrow> 'r intsys \<Rightarrow> 'r intsys option" where
  "work i N hs s =
     (case im s i of
        ImRand t \<Rightarrow> Some (im_at i (if t = 0 then ImFOpen else ImWLock (t - 1) (randomize_points N hs)) s)
      | ImWLock t res \<Rightarrow> lock_shm i (ImHit t res) s
      | ImHit t res \<Rightarrow> Some (im_at i (ImTried t) (with_mine i (\<lambda>h. h\<lparr>hit := hit h + word_of_int res\<rparr>) s))
      | ImTried t \<Rightarrow> Some (im_at i (ImPartial t) (with_mine i (\<lambda>h. h\<lparr>tried := tried h + word_of_int N\<rparr>) s))
      | ImPartial t \<Rightarrow> Some (im_say (Partial i (hit (my_mem i s)) (tried (my_mem i s))) (im_at i (ImWUnlock t) s))
      | ImWUnlock t \<Rightarrow> Some (unlock_shm i (ImRand t) s)
      | _ \<Rightarrow> None)"

text \<open>\<open>finish\<close> with \<open>mem_destroy\<close> and \<open>mem_close\<close>.\<close>

definition finish :: "nat \<Rightarrow> bool \<Rightarrow> 'r intsys \<Rightarrow> 'r intsys option" where
  "finish i ok s =
     (case im s i of
        ImFOpen \<Rightarrow> Some (if ok then (case sem_open s of (g, s) \<Rightarrow> im_at i (ImFWait g) s) else im_at i (ImGone 3) s)
      | ImFWait g \<Rightarrow> sem_timedwait i g (ImDec g) (ImGone 3) ok s
      | ImDec g \<Rightarrow> Some (im_at i (ImDecStore g (workers (my_mem i s))) s)
      | ImDecStore g v \<Rightarrow>
          Some (im_at i (if v - 1 = 0 then ImFLock g else ImLeave g) (with_mine i (\<lambda>h. h\<lparr>workers := v - 1\<rparr>) s))
      | ImFLock g \<Rightarrow> lock_shm i (ImResult g) s
      | ImResult g \<Rightarrow> Some (im_say (Result (hit (my_mem i s)) (tried (my_mem i s))) (im_at i (ImFUnlock g) s))
      | ImFUnlock g \<Rightarrow> Some (unlock_shm i (ImDestroy g) s)
      | ImDestroy g \<Rightarrow> Some (im_at i (ImUnlinkShm g) s)
      | ImUnlinkShm g \<Rightarrow>
          Some (if shm_name s = None then im_at i (ImStuckEnd g) s else im_at i (ImUnlinkSem g) (s\<lparr>shm_name := None\<rparr>))
      | ImUnlinkSem g \<Rightarrow>
          Some (if sem_name s = None then im_at i (ImStuckEnd g) s else im_at i (ImFPost g) (s\<lparr>sem_name := None\<rparr>))
      | ImLeave g \<Rightarrow> Some (im_at i (ImFPost g) s)
      | ImFPost g \<Rightarrow> Some (im_at i ImReturning (post g s))
      | ImReturning \<Rightarrow> Some (im_say (Returning i) (im_at i ImEnd s))
      | _ \<Rightarrow> None)"

text \<open>The arguments, with \<open>atof\<close> and the two constants of \<open>float\<close>; \<open>main\<close> goes on after \<open>usage\<close>.\<close>

definition integral_args :: "(string \<Rightarrow> 'f) \<Rightarrow> 'f \<Rightarrow> 'f \<Rightarrow> string list \<Rightarrow> 'f \<times> 'f \<times> int" where
  "integral_args atof minus_one one argv =
     (if length argv = 4 then (atof (argv ! 1), atof (argv ! 2), atoi (argv ! 3))
      else if length argv = 3 then (atof (argv ! 1), atof (argv ! 2), 1000)
      else if length argv = 2 then (atof (argv ! 1), one, 1000)
      else (minus_one, one, 1000))"

datatype integral_actor = IntProc nat bool "bool list"

text \<open>\<open>K\<close> processes; process \<open>i\<close> has the batch size \<open>N i\<close> and the interval \<open>r i\<close>.\<close>

definition integral_process :: "nat \<Rightarrow> int \<Rightarrow> 'r \<Rightarrow> bool \<Rightarrow> bool list \<Rightarrow> 'r intsys \<Rightarrow> 'r intsys option" where
  "integral_process i N r ok hs s =
     (case mem_init i r ok s of
        Some s' \<Rightarrow> Some s'
      | None \<Rightarrow> (case work i N hs s of Some s' \<Rightarrow> Some s' | None \<Rightarrow> finish i ok s))"

definition integral_program :: "nat \<Rightarrow> (nat \<Rightarrow> int) \<Rightarrow> (nat \<Rightarrow> 'r) \<Rightarrow> integral_actor \<Rightarrow> 'r intsys \<Rightarrow> 'r intsys option" where
  "integral_program K N r a s = (case a of IntProc i ok hs \<Rightarrow> if i < K then integral_process i (N i) (r i) ok hs s else None)"

definition integral_start :: "'r intsys" where
  "integral_start = \<lparr>sem_name = None, sem_next = 0, sem_val = (\<lambda>_. 0), shm_name = None, shm_next = 0, shm = (\<lambda>_. new_mem),
     shmem = (\<lambda>_. None), im = (\<lambda>_. ImNew), im_outs = []\<rparr>"

section \<open>Steps\<close>

lemma im_frame [simp]:
  "im (im_at i p s) = (im s)(i := p)" "shm (im_at i p s) = shm s" "shmem (im_at i p s) = shmem s" "sem_val (im_at i p s) = sem_val s"
  "sem_name (im_at i p s) = sem_name s" "sem_next (im_at i p s) = sem_next s" "shm_name (im_at i p s) = shm_name s"
  "shm_next (im_at i p s) = shm_next s" "im (im_say x s) = im s" "shm (im_say x s) = shm s" "shmem (im_say x s) = shmem s"
  "sem_val (im_say x s) = sem_val s" "sem_name (im_say x s) = sem_name s" "sem_next (im_say x s) = sem_next s"
  "shm_name (im_say x s) = shm_name s" "shm_next (im_say x s) = shm_next s"
  "im (with_shm m f s) = im s" "shmem (with_shm m f s) = shmem s" "sem_val (with_shm m f s) = sem_val s"
  "sem_name (with_shm m f s) = sem_name s" "sem_next (with_shm m f s) = sem_next s" "shm_name (with_shm m f s) = shm_name s"
  "shm_next (with_shm m f s) = shm_next s" "shm (with_shm m f s) = (shm s)(m := f (shm s m))"
  by (simp_all add: im_at_def im_say_def with_shm_def)

lemma post_frame [simp]:
  "im (post g s) = im s" "shm (post g s) = shm s" "shmem (post g s) = shmem s" "sem_name (post g s) = sem_name s"
  "sem_next (post g s) = sem_next s" "shm_name (post g s) = shm_name s" "shm_next (post g s) = shm_next s"
  "sem_val (post g s) = (sem_val s)(g := Suc (sem_val s g))"
  by (simp_all add: post_def sem_post_def)

lemmas int_steps = integral_process_def mem_init_def work_def finish_def lock_shm_def unlock_shm_def sem_timedwait_def
  with_mine_def sem_open_def


section \<open>The semaphore\<close>

text \<open>A process between \<open>sem_timedwait\<close> and \<open>sem_post\<close>, and its semaphore.\<close>

fun holds :: "integral_pc \<Rightarrow> bool" where
  "holds (ImCreate g) = True" | "holds (ImReopen g) = True" | "holds (ImSize g m) = True" | "holds (ImMap g m b) = True"
| "holds (ImInit g k) = True" | "holds (ImCheck g) = True" | "holds (ImLock g) = True" | "holds (ImLoad g) = True"
| "holds (ImStore g v) = True" | "holds (ImUnlock g) = True" | "holds (ImPost g) = True" | "holds (ImDec g) = True"
| "holds (ImDecStore g v) = True" | "holds (ImFLock g) = True" | "holds (ImResult g) = True" | "holds (ImFUnlock g) = True"
| "holds (ImDestroy g) = True" | "holds (ImUnlinkShm g) = True" | "holds (ImUnlinkSem g) = True" | "holds (ImLeave g) = True"
| "holds (ImFPost g) = True" | "holds (ImPostFail g) = True" | "holds (ImStuck g) = True" | "holds (ImStuckEnd g) = True"
| "holds _ = False"

fun sem_used :: "integral_pc \<Rightarrow> nat option" where
  "sem_used (ImWait g) = Some g" | "sem_used (ImCreate g) = Some g" | "sem_used (ImReopen g) = Some g"
| "sem_used (ImSize g m) = Some g" | "sem_used (ImMap g m b) = Some g" | "sem_used (ImInit g k) = Some g"
| "sem_used (ImCheck g) = Some g" | "sem_used (ImLock g) = Some g" | "sem_used (ImLoad g) = Some g"
| "sem_used (ImStore g v) = Some g" | "sem_used (ImUnlock g) = Some g" | "sem_used (ImPost g) = Some g"
| "sem_used (ImFWait g) = Some g" | "sem_used (ImDec g) = Some g" | "sem_used (ImDecStore g v) = Some g"
| "sem_used (ImFLock g) = Some g" | "sem_used (ImResult g) = Some g" | "sem_used (ImFUnlock g) = Some g"
| "sem_used (ImDestroy g) = Some g" | "sem_used (ImUnlinkShm g) = Some g" | "sem_used (ImUnlinkSem g) = Some g"
| "sem_used (ImLeave g) = Some g" | "sem_used (ImFPost g) = Some g" | "sem_used (ImPostFail g) = Some g"
| "sem_used (ImStuck g) = Some g" | "sem_used (ImStuckEnd g) = Some g" | "sem_used _ = None"

text \<open>The name of the semaphore has not been removed.\<close>

definition intact :: "'r intsys \<Rightarrow> bool" where
  "intact s \<longleftrightarrow> sem_name s = None \<and> sem_next s = 0 \<or> sem_name s = Some 0 \<and> sem_next s = 1"

definition held :: "nat \<Rightarrow> 'r intsys \<Rightarrow> nat" where
  "held K s = (\<Sum>i<K. of_bool (holds (im s i)))"

definition sem_inv :: "nat \<Rightarrow> 'r intsys \<Rightarrow> bool" where
  "sem_inv K s \<longleftrightarrow> (if sem_next s = 0 then \<forall>i. im s i = ImNew \<or> im s i = ImFailed
     else sem_val s 0 + held K s = 1 \<and> (\<forall>i. sem_used (im s i) \<in> {None, Some 0}))"

lemma process_frame:
  assumes "integral_process i N r ok hs s = Some s'" and "j \<noteq> i"
  shows "im s' j = im s j \<and> shmem s' j = shmem s j"
  using assms by (cases "im s i") (auto simp: int_steps split: option.splits if_splits)

lemma process_sem:
  assumes st: "integral_process i N r ok hs s = Some s'" and at: "sem_name s = Some 0" "sem_next s = 1"
    and used: "sem_used (im s i) \<in> {None, Some 0}"
  shows "sem_next s' = 1 \<and> (sem_name s' = Some 0 \<or> sem_name s' = None) \<and> sem_used (im s' i) \<in> {None, Some 0}
    \<and> sem_val s' 0 + of_bool (holds (im s' i)) = sem_val s 0 + of_bool (holds (im s i))"
  using assms by (cases "im s i") (auto simp: int_steps sem_wait_def split: option.splits if_splits)


lemma process_early:
  assumes "integral_process i N r ok hs s = Some s'" and "intact s" "sem_next s = 0" and "im s i = ImNew \<or> im s i = ImFailed"
  shows "(im s' i = ImFailed \<and> sem_next s' = 0) \<or> (im s' i = ImWait 0 \<and> sem_next s' = 1 \<and> sem_name s' = Some 0 \<and> sem_val s' 0 = 1)"
  using assms by (auto simp: int_steps intact_def split: option.splits if_splits)

text \<open>Once the name is gone it is never bound to the first semaphore again.\<close>

lemma intact_back:
  assumes "integral_process i N r ok hs s = Some s'" and "intact s'" and "\<forall>g. sem_name s = Some g \<longrightarrow> g < sem_next s"
  shows "intact s"
  using assms by (cases "im s i") (auto simp: int_steps intact_def split: option.splits if_splits)

lemma names_step:
  assumes "integral_process i N r ok hs s = Some s'" and "\<forall>g. sem_name s = Some g \<longrightarrow> g < sem_next s"
  shows "\<forall>g. sem_name s' = Some g \<longrightarrow> g < sem_next s'"
  using assms by (cases "im s i") (auto simp: int_steps split: option.splits if_splits)

lemma held_upd:
  assumes "i < K" and "\<And>j. j \<noteq> i \<Longrightarrow> im s' j = im s j"
  shows "held K s' + of_bool (holds (im s i)) = held K s + of_bool (holds (im s' i))"
  unfolding held_def by (rule sum_one_changes) (use assms in auto)

lemma sem_inv_step:
  assumes "sem_inv K s" and ok: "intact s" and "i < K" and st: "integral_process i N r ok hs s = Some s'"
  shows "sem_inv K s'"
proof -
  have other: "im s' j = im s j" if "j \<noteq> i" for j using process_frame [OF st that] by simp
  note h = held_upd [OF assms(3), of s' s, OF other]
  show ?thesis
  proof (cases "sem_next s = 0")
    case True
    then have each: "im s j = ImNew \<or> im s j = ImFailed" for j using assms(1) by (simp add: sem_inv_def)
    have "\<not> holds (im s j)" for j using each [of j] by auto
    then have none: "held K s = 0" by (simp add: held_def)
    from process_early [OF st ok True each] show ?thesis
    proof (elim disjE conjE)
      assume "im s' i = ImFailed" "sem_next s' = 0"
      moreover have "im s' j = ImNew \<or> im s' j = ImFailed" for j using each [of j] other [of j] calculation by (cases "j = i") auto
      ultimately show ?thesis by (simp add: sem_inv_def)
    next
      assume n: "im s' i = ImWait 0" "sem_next s' = 1" "sem_name s' = Some 0" "sem_val s' 0 = 1"
      have "held K s' = 0" using h none n(1) each [of i] by auto
      moreover have "sem_used (im s' j) \<in> {None, Some 0}" for j
        using each [of j] other [of j] n(1) by (cases "j = i") auto
      ultimately show ?thesis using n by (simp add: sem_inv_def)
    qed
  next
    case False
    with ok have at: "sem_name s = Some 0" "sem_next s = 1" by (auto simp: intact_def)
    have used: "sem_used (im s j) \<in> {None, Some 0}" for j using assms(1) at by (simp add: sem_inv_def)
    note p = process_sem [OF st at used]
    have "sem_used (im s' j) \<in> {None, Some 0}" for j using used [of j] other [of j] p by (cases "j = i") auto
    moreover have "sem_val s' 0 + held K s' = 1" using p h assms(1) at by (simp add: sem_inv_def)
    ultimately show ?thesis using p by (simp add: sem_inv_def)
  qed
qed

lemma sem_exclusive:
  assumes "sem_inv K s" and "i < K" "j < K" and "holds (im s i)" "holds (im s j)"
  shows "i = j"
proof (rule ccontr)
  assume ne: "i \<noteq> j"
  have "sem_next s \<noteq> 0"
  proof
    assume "sem_next s = 0"
    then have "im s i = ImNew \<or> im s i = ImFailed" using assms(1) by (simp add: sem_inv_def)
    with assms(4) show False by auto
  qed
  then have "held K s \<le> 1" using assms(1) by (simp add: sem_inv_def)
  moreover have "(\<Sum>k \<in> {i, j}. of_bool (holds (im s k))) \<le> held K s"
    unfolding held_def using assms(2,3) by (intro sum_mono2) auto
  ultimately show False using ne assms(4,5) by simp
qed

section \<open>The memory objects\<close>

text \<open>The object that a process has opened or mapped; whether it is still making it.\<close>

definition object :: "nat \<Rightarrow> 'r intsys \<Rightarrow> nat option" where
  "object i s = (case im s i of ImSize g m \<Rightarrow> Some m | ImMap g m b \<Rightarrow> Some m | _ \<Rightarrow> shmem s i)"

fun creating :: "integral_pc \<Rightarrow> bool" where
  "creating (ImSize g m) = True" | "creating (ImMap g m b) = b" | "creating (ImInit g k) = True" | "creating _ = False"

text \<open>Positions behind \<open>mmap\<close>, and those in which the process is counted in \<open>workers\<close>.\<close>

fun unmapped :: "integral_pc \<Rightarrow> bool" where
  "unmapped ImNew = True" | "unmapped (ImWait g) = True" | "unmapped (ImCreate g) = True" | "unmapped (ImReopen g) = True"
| "unmapped (ImSize g m) = True" | "unmapped (ImMap g m b) = True" | "unmapped (ImPostFail g) = True" | "unmapped ImFailed = True"
| "unmapped _ = False"

fun counted :: "integral_pc \<Rightarrow> bool" where
  "counted (ImInit g k) = (0 < k)" | "counted (ImUnlock g) = True" | "counted (ImPost g) = True" | "counted (ImRand t) = True"
| "counted (ImWLock t v) = True" | "counted (ImHit t v) = True" | "counted (ImTried t) = True" | "counted (ImPartial t) = True"
| "counted (ImWUnlock t) = True" | "counted ImFOpen = True" | "counted (ImFWait g) = True" | "counted (ImDec g) = True"
| "counted (ImDecStore g v) = True" | "counted (ImGone k) = True" | "counted _ = False"

definition objects_inv :: "nat \<Rightarrow> 'r intsys \<Rightarrow> bool" where
  "objects_inv K s \<longleftrightarrow> (\<forall>m. shm_name s = Some m \<longrightarrow> m < shm_next s) \<and> (\<forall>i m. object i s = Some m \<longrightarrow> m < shm_next s)
     \<and> (\<forall>i. unmapped (im s i) \<longleftrightarrow> shmem s i = None) \<and> (\<forall>i. K \<le> i \<longrightarrow> im s i = ImNew)
     \<and> (\<forall>i j. creating (im s i) \<and> i \<noteq> j \<longrightarrow> object i s \<noteq> object j s)"


lemma object_frame:
  assumes "integral_process i N r ok hs s = Some s'" and "j \<noteq> i"
  shows "object j s' = object j s"
  using process_frame [OF assms] by (simp add: object_def split: integral_pc.split)

text \<open>What a step does to the objects: it keeps its own, gives it up, opens one by name or makes a new one.\<close>

lemma object_keep:
  assumes "integral_process i N r ok hs s = Some s'" and "unmapped (im s i) \<longleftrightarrow> shmem s i = None"
    and "\<forall>g. im s i \<noteq> ImCreate g \<and> im s i \<noteq> ImReopen g"
  shows "object i s' = object i s \<or> object i s' = None \<and> \<not> creating (im s' i)" "shm_next s' = shm_next s"
    "creating (im s' i) \<Longrightarrow> creating (im s i)" "shm_name s' = shm_name s \<or> shm_name s' = None"
  using assms by (cases "im s i"; simp add: int_steps object_def split: option.splits if_splits; force)+

lemma object_reopen:
  assumes "integral_process i N r ok hs s = Some s'" and "shmem s i = None" and "im s i = ImReopen g"
  shows "object i s' = shm_name s \<or> object i s' = None" "shm_next s' = shm_next s" "\<not> creating (im s' i)" "shm_name s' = shm_name s"
  using assms by (auto simp: int_steps object_def split: option.splits if_splits)

lemma object_create:
  assumes "integral_process i N r ok hs s = Some s'" and "shmem s i = None" and "im s i = ImCreate g"
  shows "object i s' = None \<and> \<not> creating (im s' i) \<and> shm_next s' = shm_next s \<and> shm_name s' = shm_name s
    \<or> object i s' = Some (shm_next s) \<and> shm_next s' = Suc (shm_next s) \<and> shm_name s' = Some (shm_next s)"
  using assms by (auto simp: int_steps object_def split: option.splits if_splits)

lemma unmapped_step:
  assumes "integral_process i N r ok hs s = Some s'" and "unmapped (im s i) \<longleftrightarrow> shmem s i = None"
  shows "unmapped (im s' i) \<longleftrightarrow> shmem s' i = None"
  using assms by (cases "im s i") (auto simp: int_steps split: option.splits if_splits)

lemma objects_change:
  assumes inv: "objects_inv K s" and i: "i < K" and st: "integral_process i N r ok hs s = Some s'"
    and grow: "shm_next s \<le> shm_next s'" and nm: "\<And>m. shm_name s' = Some m \<Longrightarrow> m < shm_next s'"
    and ob: "\<And>m. object i s' = Some m \<Longrightarrow> m < shm_next s'"
    and c1: "\<And>j. creating (im s' i) \<Longrightarrow> j \<noteq> i \<Longrightarrow> object i s' \<noteq> object j s"
    and c2: "\<And>j. creating (im s j) \<Longrightarrow> j \<noteq> i \<Longrightarrow> object j s \<noteq> object i s'"
  shows "objects_inv K s'"
proof -
  have U: "unmapped (im s j) \<longleftrightarrow> shmem s j = None" and O: "object j s = Some m \<Longrightarrow> m < shm_next s"
    and out: "K \<le> j \<Longrightarrow> im s j = ImNew" and C: "creating (im s j) \<Longrightarrow> j \<noteq> k \<Longrightarrow> object j s \<noteq> object k s" for j k m
    using inv unfolding objects_inv_def by blast+
  have other: "im s' j = im s j" "shmem s' j = shmem s j" "object j s' = object j s" if "j \<noteq> i" for j
    using process_frame [OF st that] object_frame [OF st that] by simp_all
  show ?thesis
    unfolding objects_inv_def
  proof (intro conjI allI impI)
    show "m < shm_next s'" if "object j s' = Some m" for j m
      using that ob O [of j m] other(3) [of j] grow by (cases "j = i") auto
    show "unmapped (im s' j) \<longleftrightarrow> shmem s' j = None" for j
      using unmapped_step [OF st U] U [of j] other [of j] by (cases "j = i") auto
    show "im s' j = ImNew" if "K \<le> j" for j using out [OF that] other(1) [of j] i that by auto
    show "object j s' \<noteq> object k s'" if "creating (im s' j) \<and> j \<noteq> k" for j k
      using that c1 [of k] c2 [of j] C [of j k] other [of j] other [of k] by (cases "j = i"; cases "k = i") auto
  qed (rule nm)
qed

text \<open>While one process opens an object by name, no other is making it: both would hold the semaphore.\<close>

lemma nobody_creates:
  assumes "objects_inv K s" and "sem_inv K s" and "i < K" and "holds (im s i)" and "j \<noteq> i"
  shows "\<not> creating (im s j)"
proof
  assume c: "creating (im s j)"
  then have "holds (im s j)" by (cases "im s j") auto
  moreover have "j < K" using c assms(1) by (cases "K \<le> j") (auto simp: objects_inv_def)
  ultimately show False using sem_exclusive [OF assms(2,3)] assms(4,5) by blast
qed

lemma objects_step:
  assumes inv: "objects_inv K s" and sem: "sem_inv K s" and i: "i < K" and st: "integral_process i N r ok hs s = Some s'"
  shows "objects_inv K s'"
proof -
  have U: "unmapped (im s j) \<longleftrightarrow> shmem s j = None" and name: "shm_name s = Some m \<Longrightarrow> m < shm_next s"
    and O: "object j s = Some m \<Longrightarrow> m < shm_next s" and C: "creating (im s j) \<Longrightarrow> j \<noteq> k \<Longrightarrow> object j s \<noteq> object k s" for j k m
    using inv unfolding objects_inv_def by blast+
  have made: "object j s \<noteq> None" if "creating (im s j)" for j
    using that U [of j] by (cases "im s j") (auto simp: object_def)
  consider (create) g where "im s i = ImCreate g" | (reopen) g where "im s i = ImReopen g"
    | (keep) "\<forall>g. im s i \<noteq> ImCreate g \<and> im s i \<noteq> ImReopen g" by blast
  then show ?thesis
  proof cases
    case create
    then have "shmem s i = None" using U [of i] by simp
    note c = object_create [OF st this create]
    have "object j s \<noteq> Some (shm_next s)" for j using O [of j "shm_next s"] by auto
    then show ?thesis using c name made by (intro objects_change [OF inv i st]) (elim disjE conjE; force)+
  next
    case reopen
    then have n: "shmem s i = None" using U [of i] by simp
    show ?thesis
      using object_reopen [OF st n reopen] name nobody_creates [OF inv sem i] reopen by (intro objects_change [OF inv i st]) auto
  next
    case keep
    note k = object_keep [OF st U keep]
    show ?thesis
    proof (rule objects_change [OF inv i st])
      show "object i s' \<noteq> object j s" if "creating (im s' i)" "j \<noteq> i" for j
        using k(1,3) that C [of i j] by auto
      show "object j s \<noteq> object i s'" if "creating (im s j)" "j \<noteq> i" for j
        using k(1) that C [of j i] made [of j] by auto
    qed (use k name O in auto)
  qed
qed


section \<open>The counters\<close>

text \<open>How many batches a process has added to \<open>tried\<close>, and to \<open>hit\<close>.\<close>

fun batches :: "integral_pc \<Rightarrow> nat" where
  "batches (ImRand t) = 3 - t" | "batches (ImWLock t v) = 2 - t" | "batches (ImHit t v) = 2 - t" | "batches (ImTried t) = 2 - t"
| "batches (ImPartial t) = 3 - t" | "batches (ImWUnlock t) = 3 - t" | "batches (ImGone k) = k"
| "batches ImFOpen = 3" | "batches (ImFWait g) = 3" | "batches (ImDec g) = 3" | "batches (ImDecStore g v) = 3"
| "batches (ImFLock g) = 3" | "batches (ImResult g) = 3" | "batches (ImFUnlock g) = 3" | "batches (ImDestroy g) = 3"
| "batches (ImUnlinkShm g) = 3" | "batches (ImUnlinkSem g) = 3" | "batches (ImLeave g) = 3" | "batches (ImFPost g) = 3"
| "batches ImReturning = 3" | "batches ImEnd = 3" | "batches (ImStuckEnd g) = 3" | "batches _ = 0"

fun hit_batches :: "integral_pc \<Rightarrow> nat" where
  "hit_batches (ImTried t) = 3 - t" | "hit_batches p = batches p"

fun left_ok :: "integral_pc \<Rightarrow> bool" where
  "left_ok (ImRand t) = (t \<le> 3)" | "left_ok (ImWLock t v) = (t \<le> 2)" | "left_ok (ImHit t v) = (t \<le> 2)"
| "left_ok (ImTried t) = (t \<le> 2)" | "left_ok (ImPartial t) = (t \<le> 2)" | "left_ok (ImWUnlock t) = (t \<le> 2)" | "left_ok _ = True"

text \<open>What process \<open>i\<close> has added to the three counters of the object \<open>m\<close>; \<open>F\<close> are its hits.\<close>

definition in_workers :: "'r intsys \<Rightarrow> nat \<Rightarrow> nat \<Rightarrow> 64 word" where
  "in_workers s m i = of_bool (counted (im s i) \<and> shmem s i = Some m)"

definition in_tried :: "(nat \<Rightarrow> int) \<Rightarrow> 'r intsys \<Rightarrow> nat \<Rightarrow> nat \<Rightarrow> 64 word" where
  "in_tried N s m i = (if shmem s i = Some m then word_of_int (N i * int (batches (im s i))) else 0)"

definition in_hit :: "(nat \<Rightarrow> int) \<Rightarrow> 'r intsys \<Rightarrow> nat \<Rightarrow> nat \<Rightarrow> 64 word" where
  "in_hit F s m i = (if shmem s i = Some m then word_of_int (F i) else 0)"

text \<open>The value that a process is about to store is still right, and who prints the result is the last.\<close>

definition fresh_value :: "nat \<Rightarrow> 'r intsys \<Rightarrow> bool" where
  "fresh_value i s \<longleftrightarrow>
     (case im s i of
        ImStore g v \<Rightarrow> v = workers (my_mem i s) | ImDecStore g v \<Rightarrow> v = workers (my_mem i s)
      | ImFLock g \<Rightarrow> workers (my_mem i s) = 0 | ImResult g \<Rightarrow> workers (my_mem i s) = 0 | _ \<Rightarrow> True)"

fun result_ok :: "int \<Rightarrow> integral_pc \<Rightarrow> bool" where
  "result_ok N (ImWLock t v) = (N \<le> v \<and> v \<le> N + 1)" | "result_ok N (ImHit t v) = (N \<le> v \<and> v \<le> N + 1)" | "result_ok N _ = True"

text \<open>The objects that a process is about to set to 0 are 0 already.\<close>

definition clean :: "nat \<Rightarrow> 'r intsys \<Rightarrow> bool" where
  "clean i s \<longleftrightarrow> (let zero = (\<lambda>m. workers (shm s m) = 0 \<and> tried (shm s m) = 0 \<and> hit (shm s m) = 0) in
     (case im s i of ImCreate g \<Rightarrow> zero (shm_next s)
      | ImInit g k \<Rightarrow> (k = 0 \<longrightarrow> workers (my_mem i s) = 0) \<and> tried (my_mem i s) = 0 \<and> hit (my_mem i s) = 0 | _ \<Rightarrow> True))"

lemma workers_step:
  assumes "integral_process i N r ok hs s = Some s'" and "unmapped (im s i) \<longleftrightarrow> shmem s i = None"
    and "clean i s" and "fresh_value i s"
  shows "workers (shm s' m) + in_workers s m i = workers (shm s m) + in_workers s' m i"
  using assms
  by (cases "im s i") (auto simp: int_steps in_workers_def clean_def Let_def fresh_value_def my_mem_def mine_def new_mem_def
      init_mem_def split: option.splits if_splits)

lemma tried_step:
  assumes "integral_process i (N i) r ok hs s = Some s'" and "unmapped (im s i) \<longleftrightarrow> shmem s i = None"
    and "clean i s" and "left_ok (im s i)"
  shows "tried (shm s' m) + in_tried N s m i = tried (shm s m) + in_tried N s' m i"
  using assms
  by (cases "im s i") (auto simp: int_steps in_tried_def clean_def Let_def my_mem_def mine_def new_mem_def
      init_mem_def Suc_diff_le algebra_simps split: option.splits if_splits)


text \<open>What a step adds to the hits of its process.\<close>

definition add_hits :: "nat \<Rightarrow> 'r intsys \<Rightarrow> (nat \<Rightarrow> int) \<Rightarrow> nat \<Rightarrow> int" where
  "add_hits i s F = (case im s i of ImHit t res \<Rightarrow> F(i := F i + res) | _ \<Rightarrow> F)"

lemma hit_step:
  assumes "integral_process i N r ok hs s = Some s'" and "unmapped (im s i) \<longleftrightarrow> shmem s i = None"
    and "clean i s" and "hit_batches (im s i) = 0 \<longrightarrow> F i = 0"
  shows "hit (shm s' m) + in_hit F s m i = hit (shm s m) + in_hit (add_hits i s F) s' m i"
  using assms
  by (cases "im s i") (auto simp: int_steps in_hit_def clean_def Let_def my_mem_def mine_def new_mem_def add_hits_def
      init_mem_def algebra_simps split: option.splits if_splits)

text \<open>The bounds of the batches.\<close>

definition batch_ok :: "int \<Rightarrow> int \<Rightarrow> integral_pc \<Rightarrow> bool" where
  "batch_ok N f p \<longleftrightarrow> left_ok p \<and> result_ok N p \<and> N * int (hit_batches p) \<le> f \<and> f \<le> (N + 1) * int (hit_batches p)"

lemma randomize_points_bounds: "0 \<le> N \<Longrightarrow> N \<le> randomize_points N hs \<and> randomize_points N hs \<le> N + 1"
  unfolding randomize_points_def by (rule randomize_from_bounds)

lemma batch_step:
  assumes "integral_process i N r ok hs s = Some s'" and "batch_ok N (F i) (im s i)" and "0 \<le> N"
  shows "batch_ok N (add_hits i s F i) (im s' i)"
  using assms randomize_points_bounds [of N hs]
  by (cases "im s i") (auto simp: int_steps batch_ok_def add_hits_def Suc_diff_le algebra_simps split: option.splits if_splits)

text \<open>Without the semaphore nobody changes \<open>workers\<close>.\<close>

lemma workers_kept:
  assumes "integral_process i N r ok hs s = Some s'" and "\<not> holds (im s i)"
  shows "workers (shm s' m) = workers (shm s m)"
  using assms by (cases "im s i") (auto simp: int_steps split: option.splits if_splits)

lemma fresh_own:
  assumes "integral_process i N r ok hs s = Some s'" and "fresh_value i s"
  shows "fresh_value i s'"
  using assms by (cases "im s i") (auto simp: int_steps fresh_value_def my_mem_def mine_def split: option.splits if_splits)

lemma fresh_step:
  assumes "\<And>j. fresh_value j s" and inv: "sem_inv K s" "objects_inv K s" and "i < K" and st: "integral_process i N r ok hs s = Some s'"
  shows "fresh_value j s'"
proof (cases "j = i")
  case False
  show ?thesis
  proof (cases "holds (im s j)")
    case True
    with inv(2) have "j < K" by (metis holds.simps(25) linorder_not_less objects_inv_def)
    with False True inv(1) assms(4) have "\<not> holds (im s i)" using sem_exclusive by blast
    with False st show ?thesis
      using assms(1) [of j] process_frame [OF st False]
      by (simp add: fresh_value_def my_mem_def mine_def workers_kept split: integral_pc.split_asm)
  next
    case nh: False
    with process_frame [OF st False] have "\<not> holds (im s' j)" by simp
    then show ?thesis by (auto simp: fresh_value_def split: integral_pc.split)
  qed
qed (simp add: fresh_own [OF st assms(1)])


section \<open>The invariant\<close>

definition counters_inv :: "nat \<Rightarrow> (nat \<Rightarrow> int) \<Rightarrow> (nat \<Rightarrow> int) \<Rightarrow> 'r intsys \<Rightarrow> bool" where
  "counters_inv K N F s \<longleftrightarrow> (\<forall>m. workers (shm s m) = (\<Sum>i<K. in_workers s m i) \<and> tried (shm s m) = (\<Sum>i<K. in_tried N s m i)
       \<and> hit (shm s m) = (\<Sum>i<K. in_hit F s m i))
     \<and> (\<forall>i. batch_ok (N i) (F i) (im s i)) \<and> (\<forall>i. fresh_value i s)"

definition integral_inv :: "nat \<Rightarrow> (nat \<Rightarrow> int) \<Rightarrow> (nat \<Rightarrow> int) \<Rightarrow> 'r intsys \<Rightarrow> bool" where
  "integral_inv K N F s \<longleftrightarrow> sem_inv K s \<and> objects_inv K s \<and> counters_inv K N F s"

lemma share_step:
  fixes f f' :: "nat \<Rightarrow> 64 word"
  assumes "i < K" and "\<And>j. j \<noteq> i \<Longrightarrow> f' j = f j" and "q = (\<Sum>j<K. f j)" and "q' + f i = q + f' i"
  shows "q' = (\<Sum>j<K. f' j)"
proof -
  have "(\<Sum>j<K. f' j) + f i = q + f' i" using sum_one_changes [of i K f' f] assms(1-3) by simp
  with assms(4) show ?thesis by (metis add_right_cancel)
qed

lemma no_batches: "batch_ok n f p \<Longrightarrow> hit_batches p = 0 \<Longrightarrow> f = 0" "left_ok p \<Longrightarrow> hit_batches p = 0 \<Longrightarrow> batches p = 0"
  by (simp add: batch_ok_def) (cases p; simp)

lemma mapped_object:
  assumes "objects_inv K s" and "shmem s j = Some m"
  shows "object j s = Some m"
proof -
  have "\<not> unmapped (im s j)" using assms by (simp add: objects_inv_def)
  with assms(2) show ?thesis by (auto simp: object_def split: integral_pc.split)
qed

text \<open>An object without workers is 0; a new object, and one that only its creator has, is clean.\<close>

lemma zero_workers:
  assumes "counters_inv K N F s" and "\<And>j. shmem s j = Some m \<Longrightarrow> \<not> counted (im s j)"
  shows "workers (shm s m) = 0"
proof -
  have "in_workers s m j = 0" for j using assms(2) by (auto simp: in_workers_def)
  with assms(1) show ?thesis by (simp add: counters_inv_def)
qed

lemma zero_points:
  assumes "counters_inv K N F s" and none: "\<And>j. shmem s j = Some m \<Longrightarrow> hit_batches (im s j) = 0"
  shows "tried (shm s m) = 0 \<and> hit (shm s m) = 0"
proof -
  have "in_tried N s m j = 0 \<and> in_hit F s m j = 0" for j
  proof (cases "shmem s j = Some m")
    case True
    have "batch_ok (N j) (F j) (im s j)" using assms(1) by (simp add: counters_inv_def)
    with none [OF True] no_batches have "F j = 0 \<and> batches (im s j) = 0" by (auto simp: batch_ok_def)
    then show ?thesis by (simp add: in_tried_def in_hit_def)
  qed (simp add: in_tried_def in_hit_def)
  with assms(1) show ?thesis by (simp add: counters_inv_def)
qed

lemma creator_clean:
  assumes obj: "objects_inv K s" and cnt: "counters_inv K N F s"
  shows "clean i s"
proof -
  have small: "object j s = Some m \<Longrightarrow> m < shm_next s" and map: "unmapped (im s j) \<longleftrightarrow> shmem s j = None"
    and alone: "creating (im s j) \<Longrightarrow> j \<noteq> k \<Longrightarrow> object j s \<noteq> object k s" for j k m
    using obj unfolding objects_inv_def by blast+
  consider (create) g where "im s i = ImCreate g" | (init) g k where "im s i = ImInit g k"
    | (no) "\<forall>g k. im s i \<noteq> ImCreate g \<and> im s i \<noteq> ImInit g k" by blast
  then show ?thesis
  proof cases
    case create
    have "shmem s j \<noteq> Some (shm_next s)" for j using mapped_object [OF obj] small by blast
    then have "workers (shm s (shm_next s)) = 0" "tried (shm s (shm_next s)) = 0 \<and> hit (shm s (shm_next s)) = 0"
      using zero_workers [OF cnt] zero_points [OF cnt] by blast+
    then show ?thesis using create by (simp add: clean_def Let_def)
  next
    case init
    then obtain m where m: "shmem s i = Some m" using map [of i] by auto
    have "j = i" if "shmem s j = Some m" for j
      using alone [of i j] mapped_object [OF obj that] mapped_object [OF obj m] init by auto
    then have "workers (shm s m) = 0 \<or> 0 < k" "tried (shm s m) = 0 \<and> hit (shm s m) = 0"
      using zero_workers [OF cnt, of m] zero_points [OF cnt, of m] init by fastforce+
    then show ?thesis using init m by (auto simp: clean_def Let_def my_mem_def mine_def)
  next
    case no
    then show ?thesis by (simp add: clean_def split: integral_pc.split)
  qed
qed

lemma integral_step:
  assumes inv: "integral_inv K N F s" and ok: "intact s" and N: "\<And>i. 0 \<le> N i" and st: "integral_program K N r a s = Some s'"
  shows "\<exists>F'. integral_inv K N F' s'"
proof -
  obtain i b hs where a: "a = IntProc i b hs" by (cases a)
  with st have i: "i < K" and st: "integral_process i (N i) (r i) b hs s = Some s'"
    by (auto simp: integral_program_def split: if_splits)
  from inv have sem: "sem_inv K s" and obj: "objects_inv K s" and cnt: "counters_inv K N F s"
    by (simp_all add: integral_inv_def)
  have U: "unmapped (im s i) \<longleftrightarrow> shmem s i = None" using obj by (simp add: objects_inv_def)
  have B: "batch_ok (N j) (F j) (im s j)" and f: "fresh_value j s"
    and q: "workers (shm s m) = (\<Sum>i<K. in_workers s m i)" "tried (shm s m) = (\<Sum>i<K. in_tried N s m i)"
      "hit (shm s m) = (\<Sum>i<K. in_hit F s m i)" for j m
    using cnt by (simp_all only: counters_inv_def)
  have cl: "clean i s" by (rule creator_clean [OF obj cnt])
  let ?F = "add_hits i s F"
  have F: "?F j = F j" if "j \<noteq> i" for j using that by (simp add: add_hits_def split: integral_pc.split)
  have other: "im s' j = im s j" "shmem s' j = shmem s j" if "j \<noteq> i" for j using process_frame [OF st that] by simp_all
  have "hit_batches (im s i) = 0 \<longrightarrow> F i = 0" using B [of i] by (auto simp: batch_ok_def)
  note steps = workers_step [OF st U cl f] tried_step [of i N, OF st U cl] hit_step [where F = F, OF st U cl this]
  have "workers (shm s' m) = (\<Sum>i<K. in_workers s' m i)" for m
    by (rule share_step [where f = "in_workers s m" and f' = "in_workers s' m", OF i _ q(1) steps(1)]) (simp add: in_workers_def other)
  moreover have "tried (shm s' m) = (\<Sum>i<K. in_tried N s' m i)" for m
    by (rule share_step [where f = "in_tried N s m" and f' = "in_tried N s' m", OF i _ q(2) steps(2)]) (use B [of i] in \<open>simp_all add: in_tried_def other batch_ok_def\<close>)
  moreover have "hit (shm s' m) = (\<Sum>i<K. in_hit ?F s' m i)" for m
    by (rule share_step [where f = "in_hit F s m" and f' = "in_hit ?F s' m", OF i _ q(3) steps(3)]) (simp add: in_hit_def other F)
  moreover have "batch_ok (N j) (?F j) (im s' j)" for j
    using batch_step [where F = F, OF st B [of i] N] B [of j] by (cases "j = i") (simp_all add: F other)
  moreover have "fresh_value j s'" for j by (rule fresh_step [OF f sem obj i st])
  ultimately have "counters_inv K N ?F s'" by (simp add: counters_inv_def)
  then show ?thesis
    using sem_inv_step [OF sem ok i st] objects_step [OF obj sem i st] by (auto simp: integral_inv_def)
qed

lemma integral_start_inv: "integral_inv K N (\<lambda>_. 0) integral_start"
  by (simp add: integral_inv_def integral_start_def sem_inv_def objects_inv_def object_def counters_inv_def new_mem_def
      in_workers_def in_tried_def in_hit_def batch_ok_def fresh_value_def)

lemma integral_reachable:
  assumes "reachable (integral_program K N r) integral_start s" and "\<And>i. 0 \<le> N i" and "intact s"
  shows "\<exists>F. integral_inv K N F s"
proof -
  have "(\<forall>g. sem_name s = Some g \<longrightarrow> g < sem_next s) \<and> (intact s \<longrightarrow> (\<exists>F. integral_inv K N F s))"
    using assms(1)
  proof (rule reachable_invariant)
    show "(\<forall>g. sem_name integral_start = Some g \<longrightarrow> g < sem_next integral_start)
        \<and> (intact integral_start \<longrightarrow> (\<exists>F. integral_inv K N F integral_start))"
      using integral_start_inv by (auto simp: integral_start_def)
  next
    fix a u v
    assume u: "(\<forall>g. sem_name u = Some g \<longrightarrow> g < sem_next u) \<and> (intact u \<longrightarrow> (\<exists>F. integral_inv K N F u))"
      and st: "integral_program K N r a u = Some v"
    from st obtain i b hs where p: "integral_process i (N i) (r i) b hs u = Some v"
      by (cases a) (auto simp: integral_program_def split: if_splits)
    show "(\<forall>g. sem_name v = Some g \<longrightarrow> g < sem_next v) \<and> (intact v \<longrightarrow> (\<exists>F. integral_inv K N F v))"
      using names_step [OF p] intact_back [OF p] integral_step [OF _ _ assms(2) st] u by blast
  qed
  with assms(3) show ?thesis by blast
qed


section \<open>The result\<close>

text \<open>The processes that use the same object.\<close>

definition team :: "nat \<Rightarrow> 'r intsys \<Rightarrow> nat \<Rightarrow> nat set" where
  "team K s i = {j. j < K \<and> shmem s j = shmem s i}"

lemma team_sum:
  fixes f :: "nat \<Rightarrow> int"
  assumes "shmem s i = Some m"
  shows "(\<Sum>j<K. if shmem s j = Some m then word_of_int (f j) else 0 :: 64 word) = word_of_int (\<Sum>j\<in>team K s i. f j)"
proof -
  have "team K s i = {j \<in> {..<K}. shmem s j = Some m}" using assms by (auto simp: team_def)
  moreover have "(\<Sum>j\<in>{j \<in> {..<K}. shmem s j = Some m}. word_of_int (f j)) =
      (\<Sum>j<K. if shmem s j = Some m then word_of_int (f j) else 0 :: 64 word)"
    by (rule sum.inter_filter) simp
  ultimately show ?thesis by simp
qed

lemma no_workers_left:
  assumes "counters_inv K N F s" and "workers (shm s m) = 0" and "K < 2 ^ 64" and "j < K" "shmem s j = Some m"
  shows "\<not> counted (im s j)"
proof
  let ?C = "{..<K} \<inter> {i. counted (im s i) \<and> shmem s i = Some m}"
  assume "counted (im s j)"
  then have "0 < card ?C" using assms(4,5) by (auto simp: card_gt_0_iff)
  moreover have "card ?C \<le> K" using card_mono [of "{..<K}" ?C] by simp
  moreover have "(\<Sum>i<K. in_workers s m i) = 0" using assms(1,2) by (simp add: counters_inv_def)
  then have "of_nat (card ?C) = (0 :: 64 word)" unfolding in_workers_def by simp
  then have "2 ^ 64 dvd card ?C" by (simp add: word_of_nat_eq_0_iff)
  ultimately show False using assms(3) by (meson le_less_trans nat_dvd_not_less)
qed

lemma last_is_last:
  assumes inv: "integral_inv K N F s" and i: "i < K" "im s i = ImResult g" and "K < 2 ^ 64" and j: "j \<in> team K s i" "j \<noteq> i"
  shows "im s j = ImReturning \<or> im s j = ImEnd"
proof -
  from inv have sem: "sem_inv K s" and obj: "objects_inv K s" and cnt: "counters_inv K N F s"
    by (simp_all add: integral_inv_def)
  have U: "unmapped (im s j) \<longleftrightarrow> shmem s j = None" for j using obj by (simp add: objects_inv_def)
  obtain m where m: "shmem s i = Some m" using U [of i] i by auto
  have "fresh_value i s" using cnt by (simp add: counters_inv_def)
  then have "workers (shm s m) = 0" using i m by (simp add: fresh_value_def my_mem_def mine_def)
  then have "\<not> counted (im s j)" using no_workers_left [OF cnt _ assms(4)] j m by (simp add: team_def)
  moreover have "\<not> holds (im s j)" using sem_exclusive [OF sem i(1), of j] i(2) j by (auto simp: team_def)
  moreover have "\<not> unmapped (im s j)" using U [of j] j m by (simp add: team_def)
  ultimately show ?thesis by (cases "im s j") auto
qed



definition alone_for :: "nat \<Rightarrow> nat \<Rightarrow> integral_actor list" where
  "alone_for n i = replicate n (IntProc i True [True, False])"

definition two_members :: "integral_actor list" where
  "two_members = alone_for 11 0 @ alone_for 37 1 @ alone_for 24 0"


text \<open>The results printed so far.\<close>

definition results :: "'r intsys \<Rightarrow> integral_out list" where
  "results s = filter (\<lambda>x. case x of Result h t \<Rightarrow> True | _ \<Rightarrow> False) (im_outs s)"

lemma outside_step:
  assumes "integral_process i N r ok hs s = Some s'" and "\<not> holds (im s i)" and "intact s" and "0 < sem_next s"
  shows "intact s'" "results s' = results s"
  using assms by (cases "im s i"; auto simp: int_steps intact_def results_def im_say_def im_at_def with_shm_def
      split: option.splits if_splits)+



text \<open>
  \<open>examp.c\<close>, after the name of the semaphore has been removed: a process that still waits for it and
  one that makes a new semaphore are both between wait and post. One has created the memory object
  and not yet given it a size when the other opens it, with the same interval, and dies of SIGBUS.
\<close>

theorem stale_semaphore_unsafe:
  "\<exists>s. reachable (integral_program 3 (\<lambda>_. 2) (\<lambda>_. 0 :: nat)) integral_start s
     \<and> im s 1 = ImSize 0 1 \<and> im s 2 = ImStuck 1"
proof -
  have "map_option (\<lambda>s. (im s 1, im s 2))
      (run (integral_program 3 (\<lambda>_. 2) (\<lambda>_. 0 :: nat)) (alone_for 1 1 @ alone_for 42 0 @ alone_for 2 1 @ alone_for 6 2) integral_start)
      = Some (ImSize 0 1, ImStuck 1)"
    by code_simp
  from reachable_obs [OF this] show ?thesis by simp
qed



end
