(* ===== verification/Exam.thy ===== *)
theory Exam
  imports Threads Sockets
begin

text \<open>
  \<open>Lab - 5/Lab Task/ops-lab.c\<close>: a teacher and \<open>n\<close> students. All messages are 100 bytes, so that a write to
  a pipe is one piece; each student has a pipe of its own, all write to the teacher's. What \<open>sscanf\<close>
  makes of a message is \<open>scan3\<close> and \<open>scan2\<close>. No pipe ever holds as many messages as would block a writer.
\<close>

section \<open>The program\<close>

definition MIN_STUDENTS :: int where "MIN_STUDENTS = 4"

definition MAX_STUDENTS :: int where "MAX_STUDENTS = 20"

definition exam_args :: "string list \<Rightarrow> nat option" where
  "exam_args argv =
     (if length argv \<noteq> 2 then None
      else let n = atoi (argv ! 1) in if n < MIN_STUDENTS \<or> MAX_STUDENTS < n then None else Some (nat n))"

datatype exam_msg = AskHere int | HereMsg int | ResultMsg int int int | OneMsg | DoneMsg | FinalMsg int int

fun scan3 :: "exam_msg \<Rightarrow> (int \<times> int \<times> int) option" where
  "scan3 (ResultMsg result pid stage) = Some (result, pid, stage)"
| "scan3 _ = None"

fun scan2 :: "exam_msg \<Rightarrow> (int \<times> int) option" where
  "scan2 (ResultMsg result pid stage) = Some (result, pid)"
| "scan2 (FinalMsg pid stage) = Some (pid, stage)"
| "scan2 _ = None"

text \<open>The two switches; without a matching case the variable has no value.\<close>

definition difficulty :: "int \<Rightarrow> int \<Rightarrow> int option" where
  "difficulty stage random =
     (if stage = 1 then Some (random + 3) else if stage = 2 then Some (random + 6)
      else if stage = 3 then Some (random + 7) else if stage = 4 then Some (random + 5) else None)"

definition exam_score :: "int \<Rightarrow> int option" where
  "exam_score stage =
     (if stage = 1 then Some 3 else if stage = 2 then Some 9
      else if stage = 3 then Some 16 else if stage = 4 then Some 21 else None)"

text \<open>
  The positions of a student hold its \<open>k\<close> and \<open>i\<close>, later the last \<open>stage\<close>; \<open>SpNone\<close> is before the fork,
  \<open>SpDead\<close> after SIGPIPE. \<open>TeKilled\<close> is the end of all by \<open>ERR\<close>, \<open>TeDead\<close> of the teacher by SIGPIPE.
\<close>

datatype student_pc =
  SpNone | SpNew | SpRoll int | SpHere int | SpTop int nat | SpAnswer int nat | SpFinal nat | SpExit | SpEnd | SpDead

datatype teacher_pc =
  TePipe | TeFork nat | TeCall nat | TeHear nat | TeTop | TeRead | TePass nat int | TeCheck | TeDone nat | TeScore nat
| TeWait | TeExit | TeKilled | TeDead | TeUndefined

datatype exam_out =
  StudentHere int | IsHere int | Finished int int | EndOfTime | Nailed int | OhNo int nat | Exiting | Score int "int option" | Over

record examsys =
  desk :: "exam_msg list"
  inbox :: "nat \<Rightarrow> exam_msg list"
  sp :: "nat \<Rightarrow> student_pc"
  te :: teacher_pc
  done_students :: nat
  alarm_on :: bool
  rung :: bool
  eouts :: "exam_out list"

definition sp_at :: "nat \<Rightarrow> student_pc \<Rightarrow> examsys \<Rightarrow> examsys" where
  "sp_at i p s = s\<lparr>sp := (sp s)(i := p)\<rparr>"

definition exam_say :: "exam_out \<Rightarrow> examsys \<Rightarrow> examsys" where
  "exam_say x s = s\<lparr>eouts := eouts s @ [x]\<rparr>"

text \<open>A write without a reader is the end of the writer.\<close>

definition to_teacher :: "nat \<Rightarrow> exam_msg \<Rightarrow> student_pc \<Rightarrow> examsys \<Rightarrow> examsys" where
  "to_teacher i m p s =
     (if te s = TeDead \<or> te s = TeExit then sp_at i SpDead s else sp_at i p (s\<lparr>desk := desk s @ [m]\<rparr>))"

definition to_student :: "nat \<Rightarrow> exam_msg \<Rightarrow> (examsys \<Rightarrow> examsys) \<Rightarrow> examsys \<Rightarrow> examsys" where
  "to_student i m f s =
     (if sp s i = SpEnd \<or> sp s i = SpDead then s\<lparr>te := TeDead\<rparr>
      else f (s\<lparr>inbox := (inbox s)(i := inbox s i @ [m])\<rparr>))"

text \<open>\<open>student_work\<close> of the process \<open>pid\<close>; \<open>d\<close> is the result of \<open>rand\<close>.\<close>

definition student_work :: "int \<Rightarrow> nat \<Rightarrow> nat \<Rightarrow> examsys \<Rightarrow> examsys option" where
  "student_work pid i d s =
     (case sp s i of
        SpNew \<Rightarrow> Some (sp_at i (SpRoll (int (d mod 7 + 3))) s)
      | SpRoll k \<Rightarrow>
          (case inbox s i of
             [] \<Rightarrow> None
           | m # ms \<Rightarrow> Some (exam_say (StudentHere pid) (sp_at i (SpHere k) (s\<lparr>inbox := (inbox s)(i := ms)\<rparr>))))
      | SpHere k \<Rightarrow> Some (to_teacher i (HereMsg pid) (SpTop k 0) s)
      | SpTop k j \<Rightarrow>
          Some (if j < 4 then to_teacher i (ResultMsg (k + int (d mod 20 + 1)) pid (int j + 1)) (SpAnswer k j) s
            else sp_at i (SpFinal j) s)
      | SpAnswer k j \<Rightarrow>
          (case inbox s i of
             [] \<Rightarrow> None
           | m # ms \<Rightarrow>
               let s = s\<lparr>inbox := (inbox s)(i := ms)\<rparr> in
               Some (if m = OneMsg then exam_say (Nailed pid) (sp_at i (SpTop k (Suc j)) s)
                 else if m \<noteq> DoneMsg then exam_say (OhNo pid (Suc j)) (sp_at i (SpFinal (Suc j)) s)
                 else sp_at i (SpTop k j) s))
      | SpFinal stage \<Rightarrow> Some (to_teacher i (FinalMsg pid (int stage)) SpExit s)
      | SpExit \<Rightarrow> Some (exam_say Exiting (sp_at i SpEnd s))
      | _ \<Rightarrow> None)"

text \<open>\<open>main\<close> with \<open>create_students\<close> and \<open>teacher_work\<close>; \<open>ok\<close> is the outcome of a call that may fail.\<close>

definition from_desk :: "(exam_msg \<Rightarrow> examsys \<Rightarrow> examsys) \<Rightarrow> examsys \<Rightarrow> examsys option" where
  "from_desk f s = (case desk s of [] \<Rightarrow> None | m # ms \<Rightarrow> Some (f m (s\<lparr>desk := ms\<rparr>)))"

definition teacher_grades :: "nat \<Rightarrow> (nat \<Rightarrow> int) \<Rightarrow> nat \<Rightarrow> exam_msg \<Rightarrow> examsys \<Rightarrow> examsys" where
  "teacher_grades n pids r m s =
     (case scan3 m of
        None \<Rightarrow> s\<lparr>te := TeKilled\<rparr>
      | Some (result, pid, stage) \<Rightarrow>
          (case (find (\<lambda>j. pids j = pid) [0..<n], difficulty stage (int (r mod 20 + 1))) of
             (Some j, Some d) \<Rightarrow>
               if d \<le> result then exam_say (Finished pid stage) (s\<lparr>te := TePass j stage\<rparr>) else s\<lparr>te := TeCheck\<rparr>
           | _ \<Rightarrow> s\<lparr>te := TeUndefined\<rparr>))"

definition teacher_work :: "nat \<Rightarrow> (nat \<Rightarrow> int) \<Rightarrow> nat \<Rightarrow> bool \<Rightarrow> examsys \<Rightarrow> examsys option" where
  "teacher_work n pids r ok s =
     (case te s of
        TePipe \<Rightarrow> Some (s\<lparr>te := if ok then TeFork 0 else TeKilled\<rparr>)
      | TeFork i \<Rightarrow>
          Some (if i < n then (if ok then sp_at i SpNew (s\<lparr>te := TeFork (Suc i)\<rparr>) else s\<lparr>te := TeKilled\<rparr>)
            else s\<lparr>te := TeCall 0\<rparr>)
      | TeCall i \<Rightarrow>
          Some (if i < n then to_student i (AskHere (pids i)) (\<lambda>s. exam_say (IsHere (pids i)) (s\<lparr>te := TeHear i\<rparr>)) s
            else s\<lparr>alarm_on := True, te := TeTop\<rparr>)
      | TeHear i \<Rightarrow> from_desk (\<lambda>m s. s\<lparr>te := TeCall (Suc i)\<rparr>) s
      | TeTop \<Rightarrow> Some (if rung s \<or> done_students s = 4 then exam_say EndOfTime (s\<lparr>te := TeDone 0\<rparr>) else s\<lparr>te := TeRead\<rparr>)
      | TeRead \<Rightarrow> from_desk (teacher_grades n pids r) s
      | TePass j stage \<Rightarrow>
          Some (to_student j OneMsg
            (\<lambda>s. s\<lparr>done_students := (if stage = 4 then Suc (done_students s) else done_students s), te := TeCheck\<rparr>) s)
      | TeCheck \<Rightarrow> Some (if done_students s = n then exam_say EndOfTime (s\<lparr>te := TeDone 0\<rparr>) else s\<lparr>te := TeTop\<rparr>)
      | TeDone i \<Rightarrow> Some (if i < n then to_student i DoneMsg (\<lambda>s. s\<lparr>te := TeScore i\<rparr>) s else exam_say Over (s\<lparr>te := TeWait\<rparr>))
      | TeScore i \<Rightarrow>
          from_desk (\<lambda>m s. case scan2 m of
              None \<Rightarrow> s\<lparr>te := TeKilled\<rparr>
            | Some (pid, stage) \<Rightarrow> exam_say (Score pid (exam_score stage)) (s\<lparr>te := TeDone (Suc i)\<rparr>)) s
      | TeWait \<Rightarrow> if \<forall>i<n. sp s i = SpEnd \<or> sp s i = SpDead then Some (s\<lparr>te := TeExit\<rparr>) else None
      | _ \<Rightarrow> None)"

text \<open>The alarm: \<open>read\<close> is repeated, but \<open>wait\<close> is ended by it.\<close>

definition sig_handler :: "examsys \<Rightarrow> examsys option" where
  "sig_handler s =
     (if alarm_on s \<and> \<not> rung s then
        (case te s of
           TeExit \<Rightarrow> None
         | TeDead \<Rightarrow> None
         | TeWait \<Rightarrow> Some (s\<lparr>rung := True, te := TeExit\<rparr>)
         | _ \<Rightarrow> Some (s\<lparr>rung := True\<rparr>))
      else None)"

datatype exam_actor = ExStudent nat nat | ExTeacher nat bool | ExAlarm

definition exam_program :: "nat \<Rightarrow> (nat \<Rightarrow> int) \<Rightarrow> exam_actor \<Rightarrow> examsys \<Rightarrow> examsys option" where
  "exam_program n pids a s =
     (if te s = TeKilled then None
      else case a of
        ExStudent i d \<Rightarrow> if i < n then student_work (pids i) i d s else None
      | ExTeacher r ok \<Rightarrow> teacher_work n pids r ok s
      | ExAlarm \<Rightarrow> sig_handler s)"

definition exam_start :: examsys where
  "exam_start = \<lparr>desk = [], inbox = (\<lambda>_. []), sp = (\<lambda>_. SpNone), te = TePipe, done_students = 0, alarm_on = False, rung = False,
     eouts = []\<rparr>"

section \<open>What is known of a student\<close>

text \<open>The stages a student has done; whether it waits for an answer, has not answered the roll call, or has ended.\<close>

fun stages :: "student_pc \<Rightarrow> nat" where
  "stages (SpTop k j) = j" | "stages (SpAnswer k j) = j" | "stages (SpFinal j) = 4" | "stages SpExit = 4" | "stages SpEnd = 4"
| "stages _ = 0"

fun waits :: "student_pc \<Rightarrow> bool" where
  "waits (SpAnswer k j) = True" | "waits _ = False"

fun novice :: "student_pc \<Rightarrow> bool" where
  "novice SpNone = True" | "novice SpNew = True" | "novice (SpRoll k) = True" | "novice _ = False"

fun over :: "student_pc \<Rightarrow> bool" where
  "over SpExit = True" | "over SpEnd = True" | "over _ = False"

fun pc_ok :: "student_pc \<Rightarrow> bool" where
  "pc_ok (SpTop k j) = (j \<le> 4)" | "pc_ok (SpAnswer k j) = (j < 4)" | "pc_ok (SpFinal j) = (j = 4)" | "pc_ok SpDead = False"
| "pc_ok _ = True"

fun is_ask :: "exam_msg \<Rightarrow> bool" where
  "is_ask (AskHere p) = True" | "is_ask _ = False"

fun is_result :: "exam_msg \<Rightarrow> bool" where
  "is_result (ResultMsg r p t) = True" | "is_result _ = False"

fun is_final :: "exam_msg \<Rightarrow> bool" where
  "is_final (FinalMsg p t) = True" | "is_final _ = False"

text \<open>The stages granted to a student, whether it has heard of it or not.\<close>

definition granted :: "student_pc \<Rightarrow> exam_msg list \<Rightarrow> nat" where
  "granted q ib = stages q + count_list ib OneMsg"

definition results_in :: "exam_msg list \<Rightarrow> nat" where
  "results_in ms = length (filter is_result ms)"

definition finals_in :: "exam_msg list \<Rightarrow> nat" where
  "finals_in ms = length (filter is_final ms)"

text \<open>
  The student's pipe: the question of the roll call comes first, a pass only to one who waits, and
  nothing before a pass that the student has not read.
\<close>

definition pipe_ok :: "bool \<Rightarrow> bool \<Rightarrow> student_pc \<Rightarrow> exam_msg list \<Rightarrow> bool" where
  "pipe_ok unasked fin q ib \<longleftrightarrow> pc_ok q \<and> OneMsg \<notin> set (tl ib) \<and> (OneMsg \<in> set ib \<longrightarrow> waits q) \<and> (\<forall>m \<in> set (tl ib). \<not> is_ask m)
     \<and> (unasked \<longrightarrow> novice q \<and> ib = []) \<and> (\<not> unasked \<longrightarrow> (novice q \<longleftrightarrow> ib \<noteq> [] \<and> is_ask (hd ib)))
     \<and> (\<not> fin \<longrightarrow> DoneMsg \<notin> set ib) \<and> (\<forall>m \<in> set ib. is_ask m \<or> m = OneMsg \<or> m = DoneMsg)"

text \<open>
  A student's own messages on the desk, a stage that is about to be granted, and the scores that it has
  got. Until the end of time there is at most one open result, of the next stage.
\<close>

definition open_ok :: "bool \<Rightarrow> int option \<Rightarrow> student_pc \<Rightarrow> exam_msg list \<Rightarrow> exam_msg list \<Rightarrow> bool" where
  "open_ok fin pass q ib own \<longleftrightarrow>
     (if fin then granted q ib = 4 \<longrightarrow> results_in own = 0
      else results_in own + count_list ib OneMsg + of_bool (pass \<noteq> None) \<le> of_bool (waits q)
        \<and> (\<forall>r p t. ResultMsg r p t \<in> set own \<longrightarrow> t = int (granted q ib) + 1) \<and> (\<forall>t. pass = Some t \<longrightarrow> t = int (granted q ib) + 1))"

definition finals_ok :: "student_pc \<Rightarrow> exam_msg list \<Rightarrow> nat \<Rightarrow> bool" where
  "finals_ok q own scores \<longleftrightarrow> finals_in own + scores = of_bool (over q) \<and> (\<forall>p t. FinalMsg p t \<in> set own \<longrightarrow> t = 4)"

lemma in_simps [simp]:
  "results_in [] = 0" "results_in (ms @ ms') = results_in ms + results_in ms'" "results_in (m # ms) = of_bool (is_result m) + results_in ms"
  "finals_in [] = 0" "finals_in (ms @ ms') = finals_in ms + finals_in ms'" "finals_in (m # ms) = of_bool (is_final m) + finals_in ms"
  by (simp_all add: results_in_def finals_in_def)

lemma granted_le: "pipe_ok un fin q ib \<Longrightarrow> granted q ib \<le> 4"
proof -
  assume ok: "pipe_ok un fin q ib"
  have "count_list ib OneMsg \<le> of_bool (OneMsg \<in> set ib)"
  proof (cases ib)
    case (Cons m ms)
    have "count_list ms OneMsg = 0" using ok Cons by (simp add: pipe_ok_def)
    then show ?thesis using Cons by simp
  qed simp
  moreover have "OneMsg \<in> set ib \<longrightarrow> waits q" and "pc_ok q" using ok by (simp_all add: pipe_ok_def)
  ultimately show ?thesis by (cases q) (auto simp: granted_def of_bool_def split: if_splits)
qed

section \<open>The invariant\<close>

text \<open>The messages of the process \<open>p\<close> on the desk.\<close>

fun sent_by :: "int \<Rightarrow> exam_msg \<Rightarrow> bool" where
  "sent_by p (ResultMsg r q t) = (q = p)" | "sent_by p (FinalMsg q t) = (q = p)" | "sent_by p _ = False"

fun ending :: "teacher_pc \<Rightarrow> bool" where
  "ending (TeDone i) = True" | "ending (TeScore i) = True" | "ending TeWait = True" | "ending TeExit = True" | "ending _ = False"

fun lost_exam :: "teacher_pc \<Rightarrow> bool" where
  "lost_exam TeKilled = True" | "lost_exam TeDead = True" | "lost_exam TeUndefined = True" | "lost_exam _ = False"

fun unasked :: "teacher_pc \<Rightarrow> nat \<Rightarrow> bool" where
  "unasked TePipe i = True" | "unasked (TeFork c) i = True" | "unasked (TeCall c) i = (c \<le> i)" | "unasked (TeHear c) i = (c < i)"
| "unasked _ i = False"

fun early :: "teacher_pc \<Rightarrow> bool" where
  "early TePipe = True" | "early (TeFork c) = True" | "early (TeCall c) = True" | "early (TeHear c) = True" | "early _ = False"

fun passing :: "teacher_pc \<Rightarrow> nat \<Rightarrow> int option" where
  "passing (TePass j t) i = (if j = i then Some t else None)" | "passing _ i = None"

definition scores :: "exam_out list \<Rightarrow> (int \<times> int option) list" where
  "scores os = concat (map (\<lambda>x. case x of Score p v \<Rightarrow> [(p, v)] | _ \<Rightarrow> []) os)"

definition scores_of :: "int \<Rightarrow> exam_out list \<Rightarrow> nat" where
  "scores_of p os = length (filter (\<lambda>x. fst x = p) (scores os))"

definition all_granted :: "nat \<Rightarrow> examsys \<Rightarrow> bool" where
  "all_granted n s \<longleftrightarrow> (\<forall>i<n. granted (sp s i) (inbox s i) = 4)"

definition student_inv :: "(nat \<Rightarrow> int) \<Rightarrow> examsys \<Rightarrow> nat \<Rightarrow> bool" where
  "student_inv pids s i \<longleftrightarrow> pipe_ok (unasked (te s) i) (ending (te s)) (sp s i) (inbox s i)
     \<and> open_ok (ending (te s)) (passing (te s) i) (sp s i) (inbox s i) (filter (sent_by (pids i)) (desk s))
     \<and> (early (te s) \<longrightarrow> granted (sp s i) (inbox s i) = 0)"

fun scored :: "nat \<Rightarrow> teacher_pc \<Rightarrow> nat" where
  "scored n (TeDone d) = d" | "scored n (TeScore d) = d" | "scored n TeWait = n" | "scored n TeExit = n" | "scored n _ = 0"

fun counter_ok :: "nat \<Rightarrow> teacher_pc \<Rightarrow> nat \<Rightarrow> bool" where
  "counter_ok n TeRead d = (d < 4)" | "counter_ok n (TePass j t) d = (d < 4 \<and> j < n)" | "counter_ok n (TeDone i) d = (d \<le> 4 \<and> i \<le> n)"
| "counter_ok n (TeScore i) d = (d \<le> 4 \<and> i < n)" | "counter_ok n _ d = (d \<le> 4)"

definition desk_ok :: "nat \<Rightarrow> (nat \<Rightarrow> int) \<Rightarrow> exam_msg list \<Rightarrow> bool" where
  "desk_ok n pids ms \<longleftrightarrow> (\<forall>m \<in> set ms. case m of HereMsg p \<Rightarrow> True | ResultMsg r p t \<Rightarrow> p \<in> pids ` {..<n}
     | FinalMsg p t \<Rightarrow> p \<in> pids ` {..<n} | _ \<Rightarrow> False)"

definition exam_inv :: "nat \<Rightarrow> (nat \<Rightarrow> int) \<Rightarrow> examsys \<Rightarrow> bool" where
  "exam_inv n pids s \<longleftrightarrow> (\<forall>i<n. student_inv pids s i) \<and> desk_ok n pids (desk s)
     \<and> done_students s = card {i \<in> {..<n}. granted (sp s i) (inbox s i) = 4} \<and> counter_ok n (te s) (done_students s)
     \<and> length (scores (eouts s)) = scored n (te s)
     \<and> (ending (te s) \<longrightarrow> all_granted n s \<longrightarrow> (\<forall>x \<in> set (scores (eouts s)). snd x = Some 21 \<and> fst x \<in> pids ` {..<n}))
     \<and> ((ending (te s) \<longrightarrow> all_granted n s) \<longrightarrow>
        (\<forall>i<n. finals_ok (sp s i) (filter (sent_by (pids i)) (desk s)) (scores_of (pids i) (eouts s))))"

text \<open>Nothing is said of an exam that a signal or an error has ended.\<close>

definition exam_ok :: "nat \<Rightarrow> (nat \<Rightarrow> int) \<Rightarrow> examsys \<Rightarrow> bool" where
  "exam_ok n pids s \<longleftrightarrow> lost_exam (te s) \<or> te s = TeExit \<and> (\<exists>i<n. sp s i = SpDead) \<or> exam_inv n pids s"


section \<open>Steps\<close>

lemma exam_frame [simp]:
  "te (sp_at i q s) = te s" "sp (sp_at i q s) = (sp s)(i := q)" "inbox (sp_at i q s) = inbox s" "desk (sp_at i q s) = desk s"
  "eouts (sp_at i q s) = eouts s" "done_students (sp_at i q s) = done_students s"
  "te (exam_say x s) = te s" "sp (exam_say x s) = sp s" "inbox (exam_say x s) = inbox s" "desk (exam_say x s) = desk s"
  "eouts (exam_say x s) = eouts s @ [x]" "done_students (exam_say x s) = done_students s"
  by (simp_all add: sp_at_def exam_say_def)

lemma scores_simps [simp]:
  "scores [] = []" "scores (os @ [x]) = scores os @ (case x of Score p v \<Rightarrow> [(p, v)] | _ \<Rightarrow> [])"
  by (simp_all add: scores_def)

text \<open>The moves of a student: its position, its pipe, and what it puts on the desk.\<close>

inductive student_move :: "int \<Rightarrow> student_pc \<Rightarrow> exam_msg list \<Rightarrow> student_pc \<Rightarrow> exam_msg list \<Rightarrow> exam_msg list \<Rightarrow> bool" for p where
  born: "student_move p SpNew ib (SpRoll k) ib []"
| asked: "student_move p (SpRoll k) (m # ib) (SpHere k) ib []"
| here: "student_move p (SpHere k) ib (SpTop k 0) ib [HereMsg p]"
| result: "j < 4 \<Longrightarrow> student_move p (SpTop k j) ib (SpAnswer k j) ib [ResultMsg r p (int j + 1)]"
| complete: "\<not> j < 4 \<Longrightarrow> student_move p (SpTop k j) ib (SpFinal j) ib []"
| passed: "student_move p (SpAnswer k j) (OneMsg # ib) (SpTop k (Suc j)) ib []"
| told: "student_move p (SpAnswer k j) (DoneMsg # ib) (SpTop k j) ib []"
| gives_up: "m \<noteq> OneMsg \<Longrightarrow> m \<noteq> DoneMsg \<Longrightarrow> student_move p (SpAnswer k j) (m # ib) (SpFinal (Suc j)) ib []"
| final: "student_move p (SpFinal j) ib SpExit ib [FinalMsg p (int j)]"
| leave: "student_move p SpExit ib SpEnd ib []"

lemma student_moves:
  assumes "student_work p i d s = Some s'" and "sp s' i \<noteq> SpDead"
  shows "\<exists>new. student_move p (sp s i) (inbox s i) (sp s' i) (inbox s' i) new \<and> desk s' = desk s @ new"
  using assms
  by (cases "sp s i") (auto simp: student_work_def to_teacher_def Let_def intro: student_move.intros split: list.splits if_splits)

lemma student_frame:
  assumes "student_work p i d s = Some s'"
  shows "te s' = te s" "done_students s' = done_students s" "scores (eouts s') = scores (eouts s)"
    "j \<noteq> i \<Longrightarrow> sp s' j = sp s j \<and> inbox s' j = inbox s j"
  using assms by (cases "sp s i"; auto simp: student_work_def to_teacher_def Let_def split: list.splits if_splits)+

lemma in_tl: "x \<in> set (tl xs) \<Longrightarrow> x \<in> set xs"
  by (cases xs) auto

lemma move_pipe: "student_move p q ib q' ib' new \<Longrightarrow> pipe_ok un fin q ib \<Longrightarrow> pipe_ok un fin q' ib'"
  by (erule student_move.cases) (auto simp: pipe_ok_def dest: in_tl)

lemma move_granted: "student_move p q ib q' ib' new \<Longrightarrow> pipe_ok un fin q ib \<Longrightarrow> granted q' ib' = granted q ib"
  by (erule student_move.cases) (auto simp: pipe_ok_def granted_def)

lemma move_open:
  assumes "student_move p q ib q' ib' new" and "pipe_ok un fin q ib" and "open_ok fin pass q ib own"
  shows "open_ok fin pass q' ib' (own @ filter (sent_by p) new)"
  using assms by cases (auto simp: pipe_ok_def open_ok_def granted_def)

lemma move_finals:
  assumes "student_move p q ib q' ib' new" and "pipe_ok un fin q ib" and "finals_ok q own k"
  shows "finals_ok q' (own @ filter (sent_by p) new) k"
  using assms by cases (auto simp: pipe_ok_def finals_ok_def)

lemma move_desk: "student_move p q ib q' ib' new \<Longrightarrow> p \<in> pids ` {..<n} \<Longrightarrow> desk_ok n pids new"
  by (erule student_move.cases) (auto simp: desk_ok_def)

lemma move_others: "student_move p q ib q' ib' new \<Longrightarrow> p \<noteq> p' \<Longrightarrow> filter (sent_by p') new = []"
  by (erule student_move.cases) auto


lemma student_keeps:
  assumes inv: "exam_inv n pids s" and inj: "inj_on pids {..<n}" and i: "i < n"
    and st: "student_work (pids i) i d s = Some s'" and alive: "sp s' i \<noteq> SpDead"
  shows "exam_inv n pids s'"
proof -
  from student_moves [OF st alive] obtain new where mv: "student_move (pids i) (sp s i) (inbox s i) (sp s' i) (inbox s' i) new"
    and desk: "desk s' = desk s @ new" by blast
  note fr = student_frame [OF st]
  have S: "student_inv pids s j" if "j < n" for j using inv that by (simp add: exam_inv_def)
  have P: "pipe_ok (unasked (te s) i) (ending (te s)) (sp s i) (inbox s i)" using S [OF i] by (simp add: student_inv_def)
  have own: "filter (sent_by (pids j)) (desk s') = filter (sent_by (pids j)) (desk s)" if "j < n" "j \<noteq> i" for j
  proof -
    have "pids i \<noteq> pids j" using inj i that by (auto dest: inj_onD)
    then show ?thesis using move_others [OF mv] desk by simp
  qed
  have G: "granted (sp s' j) (inbox s' j) = granted (sp s j) (inbox s j)" for j
    using move_granted [OF mv P] fr(4) [of j] by (cases "j = i") auto
  have "student_inv pids s' j" if "j < n" for j
  proof (cases "j = i")
    case True
    then show ?thesis using S [OF i] move_pipe [OF mv] move_open [OF mv P] G [of i] desk by (simp add: student_inv_def fr(1))
  qed (use S [OF that] own [OF that] fr(4) [of j] in \<open>simp add: student_inv_def fr(1)\<close>)
  moreover have "finals_ok (sp s' j) (filter (sent_by (pids j)) (desk s')) k"
    if "j < n" "finals_ok (sp s j) (filter (sent_by (pids j)) (desk s)) k" for j k
  proof (cases "j = i")
    case True
    then show ?thesis using move_finals [OF mv P] that desk by simp
  qed (use that own [OF that(1)] fr(4) [of j] in simp)
  moreover have "desk_ok n pids (desk s')" using inv move_desk [OF mv, of pids n] i desk by (auto simp: exam_inv_def desk_ok_def)
  ultimately show ?thesis using inv by (auto simp: exam_inv_def fr(1,2,3) G all_granted_def scores_of_def)
qed

text \<open>The steps of the teacher that touch no message.\<close>

lemma exam_inv_te:
  assumes inv: "exam_inv n pids s" and same: "desk s' = desk s" "sp s' = sp s" "inbox s' = inbox s"
      "done_students s' = done_students s" "scores (eouts s') = scores (eouts s)"
    and te: "\<And>i. i < n \<Longrightarrow> unasked (te s') i = unasked (te s) i" "\<And>i. passing (te s') i = passing (te s) i"
      "ending (te s') = ending (te s)" "early (te s') \<Longrightarrow> early (te s)"
      "counter_ok n (te s') (done_students s)" "scored n (te s') = scored n (te s)"
  shows "exam_inv n pids s'"
  using assms by (simp add: exam_inv_def student_inv_def all_granted_def scores_of_def)

lemma open_end: "pipe_ok un False q ib \<Longrightarrow> open_ok False pass q ib own \<Longrightarrow> open_ok True None q ib own"
  by (cases q) (auto simp: open_ok_def pipe_ok_def granted_def split: if_splits)

lemma exam_inv_end:
  assumes inv: "exam_inv n pids s" and same: "desk s' = desk s" "sp s' = sp s" "inbox s' = inbox s"
      "done_students s' = done_students s" "scores (eouts s') = scores (eouts s)"
    and te: "te s = TeTop \<or> te s = TeCheck" "te s' = TeDone 0"
  shows "exam_inv n pids s'"
proof -
  have "student_inv pids s' i" if "i < n" for i
  proof -
    have S: "student_inv pids s i" using inv that by (simp add: exam_inv_def)
    then have P: "pipe_ok False False (sp s i) (inbox s i)"
      and "open_ok False None (sp s i) (inbox s i) (filter (sent_by (pids i)) (desk s))" using te(1) by (auto simp: student_inv_def)
    from open_end [OF this] P show ?thesis using te(2) same by (simp add: student_inv_def pipe_ok_def)
  qed
  moreover have "scores (eouts s) = []" using inv te(1) by (auto simp: exam_inv_def)
  ultimately show ?thesis using inv te same by (auto simp: exam_inv_def all_granted_def scores_of_def)
qed

text \<open>The steps that take a message from the desk.\<close>

lemma open_pop: "open_ok fin pass q ib (m # own) \<Longrightarrow> open_ok fin pass q ib own"
  by (auto simp: open_ok_def split: if_splits)

lemma open_pass: "open_ok False None q ib (ResultMsg r p t # own) \<Longrightarrow> open_ok False (Some t) q ib own"
  by (simp add: open_ok_def) metis

lemma finals_pop: "finals_ok q (m # own) k \<Longrightarrow> \<not> is_final m \<Longrightarrow> finals_ok q own k"
  by (auto simp: finals_ok_def)


lemma exam_inv_pop:
  assumes inv: "exam_inv n pids s" and same: "desk s = m # desk s'" "sp s' = sp s" "inbox s' = inbox s"
      "done_students s' = done_students s" "scores (eouts s') = scores (eouts s)"
    and te: "\<And>i. i < n \<Longrightarrow> unasked (te s') i = unasked (te s) i" "\<not> ending (te s)" "\<not> ending (te s')" "early (te s') \<Longrightarrow> early (te s)"
      "counter_ok n (te s') (done_students s)" "scored n (te s') = scored n (te s)" "\<And>i. passing (te s) i = None"
    and pass: "\<And>i t. i < n \<Longrightarrow> passing (te s') i = Some t \<Longrightarrow> \<exists>r. m = ResultMsg r (pids i) t" and nf: "\<not> is_final m"
  shows "exam_inv n pids s'"
proof -
  have "student_inv pids s' i" if i: "i < n" for i
  proof -
    let ?own = "\<lambda>ms. filter (sent_by (pids i)) ms"
    have S: "student_inv pids s i" using inv that by (simp add: exam_inv_def)
    then have o1: "open_ok False None (sp s i) (inbox s i) (?own (m # desk s'))" using te(2,7) same(1) by (simp add: student_inv_def)
    then have o2: "open_ok False None (sp s i) (inbox s i) (?own (desk s'))"
      by (cases "sent_by (pids i) m") (simp_all add: open_pop)
    have "open_ok False (passing (te s') i) (sp s i) (inbox s i) (?own (desk s'))"
    proof (cases "passing (te s') i")
      case (Some t)
      then obtain r where "m = ResultMsg r (pids i) t" using pass [OF i Some] by blast
      with o1 Some show ?thesis by (simp add: open_pass)
    qed (use o2 in simp)
    with S show ?thesis using te that same by (simp add: student_inv_def)
  qed
  moreover have "finals_ok (sp s i) (filter (sent_by (pids i)) (desk s')) (scores_of (pids i) (eouts s))" if "i < n" for i
  proof -
    have "finals_ok (sp s i) (filter (sent_by (pids i)) (m # desk s')) (scores_of (pids i) (eouts s))"
      using inv te(2) that same(1) by (simp add: exam_inv_def)
    then show ?thesis using nf finals_pop by (cases "sent_by (pids i) m") auto
  qed
  moreover have "desk_ok n pids (desk s')" using inv same(1) by (simp add: exam_inv_def desk_ok_def)
  ultimately show ?thesis using inv te same by (simp add: exam_inv_def scores_of_def)
qed

text \<open>The steps that write to a student.\<close>

lemma exam_inv_post:
  assumes inv: "exam_inv n pids s" and j: "j < n" and same: "desk s' = desk s" "sp s' = sp s" "inbox s' = (inbox s)(j := inbox s j @ [m])"
      "done_students s' = done_students s" "scores (eouts s') = scores (eouts s)"
    and te: "\<And>i. i < n \<Longrightarrow> i \<noteq> j \<Longrightarrow> unasked (te s') i = unasked (te s) i" "\<And>i. passing (te s') i = passing (te s) i"
      "ending (te s') = ending (te s)" "early (te s') \<Longrightarrow> early (te s)"
      "counter_ok n (te s') (done_students s)" "scored n (te s') = scored n (te s)"
    and m: "m \<noteq> OneMsg" "pipe_ok (unasked (te s') j) (ending (te s')) (sp s j) (inbox s j @ [m])"
  shows "exam_inv n pids s'"
proof -
  have G: "granted (sp s' i) (inbox s' i) = granted (sp s i) (inbox s i)" for i
    using same m(1) by (simp add: granted_def)
  have "student_inv pids s' i" if "i < n" for i
  proof (cases "i = j")
    case True
    then show ?thesis using inv j m te G [of j] same by (auto simp: exam_inv_def student_inv_def open_ok_def)
  next
    case False
    then show ?thesis using inv that te G [of i] same by (simp add: exam_inv_def student_inv_def)
  qed
  then show ?thesis using inv te same G by (auto simp: exam_inv_def all_granted_def scores_of_def)
qed

lemma no_results: "results_in ms = 0 \<Longrightarrow> ResultMsg r p t \<notin> set ms"
  by (induction ms) auto

lemma pass_once:
  assumes "pipe_ok False False q ib" and "open_ok False (Some t) q ib own"
  shows "ib = []" "waits q" "t = int (granted q ib) + 1" "granted q ib < 4" "results_in own = 0"
    "pipe_ok False False q [OneMsg]" "granted q [OneMsg] = Suc (granted q ib)" "open_ok False None q [OneMsg] own"
proof -
  have w: "waits q" and r: "results_in own = 0" and c: "OneMsg \<notin> set ib" and t: "t = int (granted q ib) + 1"
    using assms(2) by (cases "waits q"; simp add: open_ok_def count_list_0_iff)+
  have nov: "\<not> novice q" using w by (cases q) auto
  then show e: "ib = []" using assms(1) c by (cases ib) (auto simp: pipe_ok_def)
  show "waits q" "t = int (granted q ib) + 1" "results_in own = 0" by fact+
  show "granted q ib < 4" using assms(1) w e by (cases q) (auto simp: granted_def pipe_ok_def)
  show "pipe_ok False False q [OneMsg]" using assms(1) w e nov by (simp add: pipe_ok_def)
  show "granted q [OneMsg] = Suc (granted q ib)" using e by (simp add: granted_def)
  show "open_ok False None q [OneMsg] own" using r w no_results by (auto simp: open_ok_def)
qed


lemma exam_inv_pass:
  assumes inv: "exam_inv n pids s" and te: "te s = TePass j t"
  shows "sp s j \<noteq> SpEnd" "exam_inv n pids (s\<lparr>inbox := (inbox s)(j := inbox s j @ [OneMsg]),
    done_students := (if t = 4 then Suc (done_students s) else done_students s), te := TeCheck\<rparr>)"
proof -
  let ?s = "s\<lparr>inbox := (inbox s)(j := inbox s j @ [OneMsg]),
    done_students := (if t = 4 then Suc (done_students s) else done_students s), te := TeCheck\<rparr>"
  have j: "j < n" and d: "done_students s < 4" using inv te by (simp_all add: exam_inv_def)
  have S: "student_inv pids s i" if "i < n" for i using inv that by (simp add: exam_inv_def)
  have "pipe_ok False False (sp s j) (inbox s j)"
    "open_ok False (Some t) (sp s j) (inbox s j) (filter (sent_by (pids j)) (desk s))"
    using S [OF j] te by (simp_all add: student_inv_def)
  note p = pass_once [OF this]
  show "sp s j \<noteq> SpEnd" using p(2) by auto
  let ?g = "\<lambda>s i. granted (sp s i) (inbox s i)"
  have g: "?g ?s j = Suc (?g s j)" "i \<noteq> j \<Longrightarrow> ?g ?s i = ?g s i" for i using p by simp_all
  define s' where "s' = ?s"
  have s': "te s' = TeCheck" "sp s' = sp s" "desk s' = desk s" "scores (eouts s') = []"
    "done_students s' = (if t = 4 then Suc (done_students s) else done_students s)"
    using inv te by (simp_all add: s'_def exam_inv_def)
  have "student_inv pids s' i" if "i < n" for i
    using S [OF that] te p unfolding s'_def by (cases "i = j") (simp_all add: student_inv_def)
  moreover have "done_students s' = card {i \<in> {..<n}. ?g s' i = 4}"
  proof -
    have D: "done_students s = card {i \<in> {..<n}. ?g s i = 4}" using inv by (simp add: exam_inv_def)
    show ?thesis
    proof (cases "t = 4")
      case True
      then have "{i \<in> {..<n}. ?g s' i = 4} = insert j {i \<in> {..<n}. ?g s i = 4}" "j \<notin> {i \<in> {..<n}. ?g s i = 4}"
        unfolding s'_def using p j g by auto
      with D True s' show ?thesis by simp
    next
      case False
      then have "{i \<in> {..<n}. ?g s' i = 4} = {i \<in> {..<n}. ?g s i = 4}" unfolding s'_def using p g by auto
      with D False s' show ?thesis by simp
    qed
  qed
  moreover have "\<forall>i<n. finals_ok (sp s' i) (filter (sent_by (pids i)) (desk s')) (scores_of (pids i) (eouts s'))"
    using inv te s' by (auto simp: exam_inv_def scores_of_def)
  moreover have "desk_ok n pids (desk s')" "counter_ok n (te s') (done_students s')"
    using inv s' d by (simp_all add: exam_inv_def)
  ultimately have "exam_inv n pids s'" using s' unfolding exam_inv_def by simp
  then show "exam_inv n pids ?s" by (simp only: s'_def)
qed

text \<open>A score: if all stages are granted to all students, it can only be of one that has ended.\<close>

lemma exam_inv_score:
  assumes inv: "exam_inv n pids s" and inj: "inj_on pids {..<n}" and te: "te s = TeScore d" and desk: "desk s = m # ms"
    and m: "scan2 m = Some (p, t)"
  shows "exam_inv n pids (s\<lparr>desk := ms, te := TeDone (Suc d), eouts := eouts s @ [Score p (exam_score t)]\<rparr>)"
proof -
  let ?s = "s\<lparr>desk := ms, te := TeDone (Suc d), eouts := eouts s @ [Score p (exam_score t)]\<rparr>"
  have S: "student_inv pids s i" if "i < n" for i using inv that by (simp add: exam_inv_def)
  have S': "student_inv pids ?s i" if "i < n" for i
    using S [OF that] te desk by (cases "sent_by (pids i) m") (auto simp: student_inv_def dest: open_pop)
  have G: "all_granted n ?s = all_granted n s" by (simp add: all_granted_def)
  have dk: "desk_ok n pids (desk s)" using inv by (simp add: exam_inv_def)
  have fin: "\<exists>i<n. m = FinalMsg (pids i) 4 \<and> p = pids i \<and> t = 4" if g: "all_granted n s"
  proof (cases m)
    case (ResultMsg r q u)
    then obtain i where i: "i < n" "q = pids i" using dk desk by (auto simp: desk_ok_def)
    then have "results_in (filter (sent_by (pids i)) (desk s)) \<noteq> 0" using desk ResultMsg by simp
    then have False using S [OF i(1)] te g i(1) by (simp add: student_inv_def open_ok_def all_granted_def)
    then show ?thesis ..
  next
    case (FinalMsg q u)
    then obtain i where i: "i < n" "q = pids i" using dk desk by (auto simp: desk_ok_def)
    have "finals_ok (sp s i) (filter (sent_by (pids i)) (desk s)) (scores_of (pids i) (eouts s))"
      using inv te g i(1) by (simp add: exam_inv_def)
    then have "u = 4" using desk FinalMsg i(2) by (simp add: finals_ok_def)
    then show ?thesis using m FinalMsg i by auto
  qed (use m in auto)
  have F: "finals_ok (sp s i) (filter (sent_by (pids i)) ms) (scores_of (pids i) (eouts ?s))" if g: "all_granted n s" and i: "i < n" for i
  proof -
    have f: "finals_ok (sp s i) (filter (sent_by (pids i)) (desk s)) (scores_of (pids i) (eouts s))"
      using inv te g i by (simp add: exam_inv_def)
    obtain k where k: "k < n" "m = FinalMsg (pids k) 4" "p = pids k" using fin [OF g] by blast
    have "pids k = pids i \<longleftrightarrow> k = i" using inj k(1) i by (auto dest: inj_onD)
    then show ?thesis using f k desk by (cases "k = i") (auto simp: finals_ok_def scores_of_def)
  qed
  have "snd x = Some 21 \<and> fst x \<in> pids ` {..<n}" if "all_granted n s" "x \<in> set (scores (eouts ?s))" for x
    using that inv te fin [OF that(1)] by (auto simp: exam_inv_def exam_score_def)
  then show ?thesis using inv S' G dk desk te F by (auto simp: exam_inv_def desk_ok_def)
qed


lemma exam_inv_fork:
  assumes inv: "exam_inv n pids s" and te: "te s = TeFork j" and j: "j < n"
  shows "exam_inv n pids (sp_at j SpNew (s\<lparr>te := TeFork (Suc j)\<rparr>))"
proof -
  let ?s = "sp_at j SpNew (s\<lparr>te := TeFork (Suc j)\<rparr>)"
  have S: "student_inv pids s i" if "i < n" for i using inv that by (simp add: exam_inv_def)
  then have nov: "novice (sp s j)" "inbox s j = []" using te j by (auto simp: student_inv_def pipe_ok_def)
  then have g: "granted (sp ?s i) (inbox ?s i) = granted (sp s i) (inbox s i)" for i
    by (cases "sp s j") (auto simp: granted_def)
  have ov: "over (sp ?s i) = over (sp s i)" "waits (sp ?s i) = waits (sp s i)" for i using nov by (cases "sp s j"; simp)+
  have "student_inv pids ?s i" if "i < n" for i
    using S [OF that] te g [of i] ov [of i] nov by (cases "i = j") (auto simp: student_inv_def pipe_ok_def open_ok_def)
  moreover have "finals_ok (sp ?s i) own k = finals_ok (sp s i) own k" for i own k by (simp only: finals_ok_def ov)
  ultimately show ?thesis using inv te unfolding exam_inv_def g by simp
qed

lemma find_pid: "inj_on pids {..<n} \<Longrightarrow> find (\<lambda>j. pids j = p) [0..<n] = Some j \<Longrightarrow> j < n \<and> p = pids j"
  by (auto simp: find_Some_iff)

lemma early_no_final:
  assumes "exam_inv n pids s" and "te s = TeHear c" and "m \<in> set (desk s)"
  shows "\<not> is_final m"
proof
  assume "is_final m"
  then obtain p t where m: "m = FinalMsg p t" by (cases m) auto
  have "desk_ok n pids (desk s)" using assms(1) by (simp add: exam_inv_def)
  then obtain i where i: "i < n" "p = pids i" using assms(3) m by (fastforce simp: desk_ok_def)
  have "0 < finals_in (filter (sent_by (pids i)) (desk s))" using assms(3) m i by (force simp: finals_in_def filter_empty_conv)
  moreover have "finals_ok (sp s i) (filter (sent_by (pids i)) (desk s)) (scores_of (pids i) (eouts s))"
    using assms(1,2) i by (simp add: exam_inv_def)
  ultimately have "over (sp s i)" by (cases "over (sp s i)") (simp_all add: finals_ok_def)
  moreover have "granted (sp s i) (inbox s i) = 0" using assms(1,2) i by (simp add: exam_inv_def student_inv_def)
  ultimately show False by (cases "sp s i") (auto simp: granted_def)
qed


text \<open>The teacher up to the roll call, in the loop, and at the end.\<close>

lemma teacher_begins:
  assumes inv: "exam_inv n pids s" and te: "early (te s)" and st: "teacher_work n pids r ok s = Some s'"
  shows "lost_exam (te s') \<or> exam_inv n pids s'"
proof -
  have c: "counter_ok n (te s) (done_students s)" using inv unfolding exam_inv_def by blast
  consider "te s = TePipe" | j where "te s = TeFork j" | j where "te s = TeCall j" | j where "te s = TeHear j"
    using te by (cases "te s") auto
  then show ?thesis
  proof cases
    case 1
    show ?thesis
    proof (cases ok)
      case True
      then have "s' = s\<lparr>te := TeFork 0\<rparr>" using st 1 by (simp add: teacher_work_def)
      then show ?thesis using 1 c by (intro disjI2 exam_inv_te [OF inv]) auto
    qed (use st 1 in \<open>auto simp: teacher_work_def\<close>)
  next
    case 2
    then consider "j < n" "s' = sp_at j SpNew (s\<lparr>te := TeFork (Suc j)\<rparr>)" | "te s' = TeKilled" | "s' = s\<lparr>te := TeCall 0\<rparr>"
      using st by (auto simp: teacher_work_def split: if_splits)
    then show ?thesis
    proof cases
      case 3
      then show ?thesis using 2 c by (intro disjI2 exam_inv_te [OF inv]) auto
    qed (use exam_inv_fork [OF inv 2] in auto)
  next
    case 3
    show ?thesis
    proof (cases "j < n")
      case True
      have "student_inv pids s j" using inv True by (simp add: exam_inv_def)
      then have "pipe_ok True False (sp s j) (inbox s j)" using 3 by (simp add: student_inv_def)
      then have "pipe_ok False False (sp s j) (inbox s j @ [AskHere (pids j)])" "\<not> (sp s j = SpEnd \<or> sp s j = SpDead)"
        by (auto simp: pipe_ok_def)
      moreover have "s' = s\<lparr>inbox := (inbox s)(j := inbox s j @ [AskHere (pids j)]), te := TeHear j, eouts := eouts s @ [IsHere (pids j)]\<rparr>"
        using st 3 True calculation(2) by (simp add: teacher_work_def to_student_def exam_say_def)
      ultimately show ?thesis using 3 c by (intro disjI2 exam_inv_post [OF inv True, of s' "AskHere (pids j)"]) auto
    next
      case False
      then have "s' = s\<lparr>alarm_on := True, te := TeTop\<rparr>" using st 3 by (simp add: teacher_work_def)
      then show ?thesis using 3 c False by (intro disjI2 exam_inv_te [OF inv]) auto
    qed
  next
    case 4
    then obtain m ms where m: "desk s = m # ms" "s' = s\<lparr>desk := ms, te := TeCall (Suc j)\<rparr>"
      using st by (auto simp: teacher_work_def from_desk_def split: list.splits)
    then have "\<not> is_final m" using early_no_final [OF inv 4] by simp
    with m 4 c show ?thesis by (intro disjI2 exam_inv_pop [OF inv, of m]) auto
  qed
qed


lemma teacher_loops:
  assumes inv: "exam_inv n pids s" and inj: "inj_on pids {..<n}" and te: "\<not> early (te s)" "\<not> ending (te s)" "\<not> lost_exam (te s)"
    and st: "teacher_work n pids r ok s = Some s'"
  shows "lost_exam (te s') \<or> exam_inv n pids s'"
proof -
  have c: "counter_ok n (te s) (done_students s)" using inv unfolding exam_inv_def by blast
  consider "te s = TeTop" | "te s = TeRead" | j t where "te s = TePass j t" | "te s = TeCheck"
    using te by (cases "te s") auto
  then show ?thesis
  proof cases
    case 1
    show ?thesis
    proof (cases "rung s \<or> done_students s = 4")
      case True
      then have "s' = s\<lparr>te := TeDone 0, eouts := eouts s @ [EndOfTime]\<rparr>" using st 1 by (simp add: teacher_work_def exam_say_def)
      then show ?thesis using 1 by - (rule disjI2, rule exam_inv_end [OF inv], auto)
    next
      case False
      then have "s' = s\<lparr>te := TeRead\<rparr>" using st 1 by (simp add: teacher_work_def)
      then show ?thesis using 1 c False by (intro disjI2 exam_inv_te [OF inv]) auto
    qed
  next
    case 2
    then obtain m ms where m: "desk s = m # ms" and s': "s' = teacher_grades n pids r m (s\<lparr>desk := ms\<rparr>)"
      using st by (auto simp: teacher_work_def from_desk_def split: list.splits)
    consider "lost_exam (te s')"
      | q p j t where "m = ResultMsg q p t" "find (\<lambda>j. pids j = p) [0..<n] = Some j"
          "s' = s\<lparr>desk := ms, te := TePass j t, eouts := eouts s @ [Finished p t]\<rparr>"
      | q p t where "m = ResultMsg q p t" "s' = s\<lparr>desk := ms, te := TeCheck\<rparr>"
      using s' by (cases m) (auto simp: teacher_grades_def exam_say_def split: option.splits if_splits)
    then show ?thesis
    proof cases
      case 2
      then have "j < n" "p = pids j" using find_pid [OF inj] by blast+
      then show ?thesis using 2 m \<open>te s = TeRead\<close> c by (intro disjI2 exam_inv_pop [OF inv, of m]) (auto split: if_splits)
    next
      case 3
      then show ?thesis using m \<open>te s = TeRead\<close> c by (intro disjI2 exam_inv_pop [OF inv, of m]) auto
    qed simp
  next
    case 3
    then show ?thesis using st exam_inv_pass [OF inv 3] by (auto simp: teacher_work_def to_student_def split: if_splits)
  next
    case 4
    show ?thesis
    proof (cases "done_students s = n")
      case True
      then have "s' = s\<lparr>te := TeDone 0, eouts := eouts s @ [EndOfTime]\<rparr>" using st 4 by (simp add: teacher_work_def exam_say_def)
      then show ?thesis using 4 by - (rule disjI2, rule exam_inv_end [OF inv], auto)
    next
      case False
      then have "s' = s\<lparr>te := TeTop\<rparr>" using st 4 by (simp add: teacher_work_def)
      then show ?thesis using 4 c by (intro disjI2 exam_inv_te [OF inv]) auto
    qed
  qed
qed

lemma teacher_ends:
  assumes inv: "exam_inv n pids s" and inj: "inj_on pids {..<n}" and te: "ending (te s)"
    and st: "teacher_work n pids r ok s = Some s'"
  shows "lost_exam (te s') \<or> exam_inv n pids s'"
proof -
  have c: "counter_ok n (te s) (done_students s)" using inv unfolding exam_inv_def by blast
  consider j where "te s = TeDone j" | d where "te s = TeScore d" | "te s = TeWait" | "te s = TeExit"
    using te by (cases "te s") auto
  then show ?thesis
  proof cases
    case 1
    consider "te s' = TeDead" | "j < n" "s' = s\<lparr>inbox := (inbox s)(j := inbox s j @ [DoneMsg]), te := TeScore j\<rparr>"
      | "\<not> j < n" "s' = s\<lparr>te := TeWait, eouts := eouts s @ [Over]\<rparr>"
      using st 1 by (auto simp: teacher_work_def to_student_def exam_say_def split: if_splits)
    then show ?thesis
    proof cases
      case 2
      have "student_inv pids s j" using inv 2 by (simp add: exam_inv_def)
      then have P: "pipe_ok False True (sp s j) (inbox s j)" using \<open>te s = TeDone j\<close> by (simp add: student_inv_def)
      then have "pipe_ok False True (sp s j) (inbox s j @ [DoneMsg])" by (cases "inbox s j") (auto simp: pipe_ok_def)
      then show ?thesis using 2 \<open>te s = TeDone j\<close> c by (intro disjI2 exam_inv_post [OF inv 2(1), of s' DoneMsg]) auto
    next
      case 3
      then show ?thesis using \<open>te s = TeDone j\<close> c by (intro disjI2 exam_inv_te [OF inv]) auto
    qed simp
  next
    case 2
    then show ?thesis using st exam_inv_score [OF inv inj 2]
      by (auto simp: teacher_work_def from_desk_def exam_say_def split: list.splits option.splits)
  next
    case 3
    then have "s' = s\<lparr>te := TeExit\<rparr>" using st by (simp add: teacher_work_def split: if_splits)
    then show ?thesis using 3 c by (intro disjI2 exam_inv_te [OF inv]) auto
  qed (use st in \<open>auto simp: teacher_work_def\<close>)
qed

lemma alarm_step:
  assumes inv: "exam_inv n pids s" and st: "sig_handler s = Some s'"
  shows "exam_inv n pids s'"
proof -
  have c: "counter_ok n (te s) (done_students s)" using inv unfolding exam_inv_def by blast
  show ?thesis using st c
    by (intro exam_inv_te [OF inv]) (auto simp: sig_handler_def split: if_splits teacher_pc.splits)
qed

lemma exam_step:
  assumes ok: "exam_ok n pids s" and inj: "inj_on pids {..<n}" and st: "exam_program n pids a s = Some s'"
  shows "exam_ok n pids s'"
proof (cases a)
  case (ExStudent i d)
  then have i: "i < n" and st: "student_work (pids i) i d s = Some s'" using st by (auto simp: exam_program_def split: if_splits)
  note fr = student_frame [OF st]
  have dead: "sp s' i = SpDead \<Longrightarrow> te s = TeDead \<or> te s = TeExit"
    using st by (cases "sp s i") (auto simp: student_work_def to_teacher_def Let_def split: list.splits if_splits)
  have "sp s i \<noteq> SpDead" using st by (auto simp: student_work_def)
  then show ?thesis using ok student_keeps [OF _ inj i st] fr(1) fr(4) dead i unfolding exam_ok_def by (metis lost_exam.simps(2))
next
  case (ExTeacher r k)
  then have st: "teacher_work n pids r k s = Some s'" using st by (auto simp: exam_program_def split: if_splits)
  show ?thesis
  proof (cases "lost_exam (te s) \<or> te s = TeExit")
    case True
    then show ?thesis using st by (cases "te s") (auto simp: teacher_work_def)
  next
    case False
    then show ?thesis
      using ok teacher_begins [OF _ _ st] teacher_loops [OF _ inj _ _ _ st] teacher_ends [OF _ inj _ st] unfolding exam_ok_def by blast
  qed
next
  case ExAlarm
  then have st: "sig_handler s = Some s'" using st by (auto simp: exam_program_def split: if_splits)
  have "lost_exam (te s) \<Longrightarrow> lost_exam (te s')" "te s \<noteq> TeExit"
    using st by (auto simp: sig_handler_def split: if_splits teacher_pc.splits)
  then show ?thesis using ok alarm_step [OF _ st] unfolding exam_ok_def by blast
qed


section \<open>The end of the exam\<close>

lemma exam_reachable:
  assumes "reachable (exam_program n pids) exam_start s" and "inj_on pids {..<n}"
  shows "exam_ok n pids s"
  using assms(1)
proof (rule reachable_invariant)
  show "exam_ok n pids exam_start"
    by (simp add: exam_ok_def exam_inv_def exam_start_def student_inv_def pipe_ok_def open_ok_def granted_def desk_ok_def
        finals_ok_def scores_of_def)
qed (use exam_step assms(2) in blast)

lemma length_by_pid:
  assumes "inj_on pids {..<n}" and "\<forall>x \<in> set xs. fst x \<in> pids ` {..<n :: nat}"
  shows "length xs = (\<Sum>i<n. length (filter (\<lambda>x. fst x = pids i) xs))"
  using assms(2)
proof (induction xs)
  case (Cons x xs)
  then obtain k where k: "k < n" "fst x = pids k" by auto
  have "(\<Sum>i<n. length (filter (\<lambda>x. fst x = pids i) (x # xs))) =
      (\<Sum>i<n. length (filter (\<lambda>x. fst x = pids i) xs) + (if i = k then 1 else 0))"
    by (rule sum.cong) (use k assms(1) in \<open>auto dest: inj_onD\<close>)
  also have "\<dots> = Suc (length xs)" using Cons k by (simp add: sum.distrib)
  finally show ?case by simp
qed simp

text \<open>
  C24. \<open>ops-lab.c\<close>: if the teacher and all students end regularly, then there are at most four students,
  and the list of points names each of them once, with 21 points. So the exam can only end when
  everybody has passed everything, and never with more than four students: \<open>done_students != 4\<close>
  leaves the loop too early, and a student who is told \<open>done\<close> begins the same stage again.
\<close>

theorem exam_ends_only_if_all_pass:
  assumes "reachable (exam_program n pids) exam_start s" and "inj_on pids {..<n}"
    and "te s = TeExit" and "\<forall>i<n. sp s i = SpEnd"
  shows "n \<le> 4 \<and> length (scores (eouts s)) = n \<and> set (scores (eouts s)) = (\<lambda>i. (pids i, Some 21)) ` {..<n}"
proof -
  have inv: "exam_inv n pids s" using exam_reachable [OF assms(1,2)] assms(3,4) by (auto simp: exam_ok_def)
  then have S: "student_inv pids s i" if "i < n" for i using that by (simp add: exam_inv_def)
  have G: "granted (sp s i) (inbox s i) = 4" if "i < n" for i
  proof -
    have "pipe_ok False True (sp s i) (inbox s i)" using S [OF that] assms(3) by (simp add: student_inv_def)
    from granted_le [OF this] show ?thesis using assms(4) that by (simp add: granted_def)
  qed
  then have all: "all_granted n s" by (simp add: all_granted_def)
  have "{i \<in> {..<n}. granted (sp s i) (inbox s i) = 4} = {..<n}" using G by auto
  then have "n \<le> 4" using inv assms(3) by (simp add: exam_inv_def)
  moreover have len: "length (scores (eouts s)) = n" using inv assms(3) by (simp add: exam_inv_def)
  moreover have sc: "\<forall>x \<in> set (scores (eouts s)). snd x = Some 21 \<and> fst x \<in> pids ` {..<n}"
    using inv all assms(3) by (simp add: exam_inv_def)
  moreover have "(pids i, Some 21) \<in> set (scores (eouts s))" if i: "i < n" for i
  proof (rule ccontr)
    assume no: "(pids i, Some 21) \<notin> set (scores (eouts s))"
    have "\<forall>j \<in> {..<n}. scores_of (pids j) (eouts s) \<le> 1"
    proof
      fix j
      assume "j \<in> {..<n}"
      then have "finals_ok (sp s j) (filter (sent_by (pids j)) (desk s)) (scores_of (pids j) (eouts s))"
        using inv all by (simp add: exam_inv_def)
      then show "scores_of (pids j) (eouts s) \<le> 1" by (simp add: finals_ok_def of_bool_def split: if_splits)
    qed
    moreover have "scores_of (pids i) (eouts s) < 1"
      using no sc by (auto simp: scores_of_def filter_empty_conv)
    ultimately have "(\<Sum>j<n. scores_of (pids j) (eouts s)) < (\<Sum>j<n. 1)" using i by (intro sum_strict_mono_ex1) auto
    moreover have "length (scores (eouts s)) = (\<Sum>j<n. scores_of (pids j) (eouts s))"
      unfolding scores_of_def by (rule length_by_pid [OF assms(2)]) (use sc in blast)
    ultimately show False using len by simp
  qed
  moreover have "x \<in> (\<lambda>i. (pids i, Some 21)) ` {..<n}" if x: "x \<in> set (scores (eouts s))" for x
  proof -
    obtain i where "i < n" "fst x = pids i" using sc x by auto
    moreover have "snd x = Some 21" using sc x by blast
    ultimately show ?thesis by (intro image_eqI [of _ _ i]) (simp_all add: prod_eq_iff)
  qed
  ultimately show ?thesis by blast
qed

definition students :: "nat \<Rightarrow> nat \<Rightarrow> nat list \<Rightarrow> exam_actor list" where
  "students m d is = concat (map (\<lambda>i. replicate m (ExStudent i d)) is)"

definition teacher :: "nat \<Rightarrow> nat \<Rightarrow> exam_actor list" where
  "teacher m r = replicate m (ExTeacher r True)"

text \<open>The forks and the roll call; then all send their results of the first stage.\<close>

definition roll_call :: "nat \<Rightarrow> exam_actor list" where
  "roll_call d = teacher 6 0 @ concat (map (\<lambda>i. teacher 1 0 @ students 3 d [i] @ teacher 1 0) [0..<4]) @ teacher 1 0
     @ students 1 d [0..<4]"

definition all_pass :: "exam_actor list" where
  "all_pass = roll_call 19 @ concat (replicate 3 (teacher 16 0 @ students 2 19 [0..<4])) @ teacher 16 0
     @ students 3 19 [0..<4] @ teacher 9 0 @ students 1 19 [0..<4] @ teacher 1 0"

lemma exam_ends_only_if_all_pass_witness:
  "\<exists>s. reachable (exam_program 4 int) exam_start s \<and> te s = TeExit \<and> (\<forall>i<4. sp s i = SpEnd)
     \<and> set (scores (eouts s)) = {(0, Some 21), (1, Some 21), (2, Some 21), (3, Some 21)}"
proof -
  have "map_option (\<lambda>s. (te s, map (sp s) [0..<4])) (run (exam_program 4 int) all_pass exam_start)
      = Some (TeExit, [SpEnd, SpEnd, SpEnd, SpEnd])"
    by code_simp
  from reachable_obs [OF this] obtain s where r: "reachable (exam_program 4 int) exam_start s" "te s = TeExit"
    and "map (sp s) [0..<4] = [SpEnd, SpEnd, SpEnd, SpEnd]" by auto
  then have e: "\<forall>i<4. sp s i = SpEnd" by (simp add: upt_rec less_Suc_eq numeral_eq_Suc)
  have "inj_on int {..<4}" by simp
  from exam_ends_only_if_all_pass [OF r(1) this r(2) e] r e show ?thesis
    by (auto simp: lessThan_Suc numeral_eq_Suc)
qed


end
