(* ===== verification/Bingo.thy ===== *)
theory Bingo
  imports Threads Sockets
begin

text \<open>
  \<open>Lab - 6/Tutorial/Bingo.c\<close>: children that wait for their number. The parent sends numbers over one
  queue; a child answers over the other, once, with its number or with a timeout, and the answers are
  printed by the function that \<open>mq_notify\<close> starts. The queues are new. The list \<open>answers\<close> is not part
  of the program: it records what the children have sent.
\<close>

section \<open>The program\<close>

definition LIFE_SPAN :: nat where "LIFE_SPAN = 10"

definition MAX_NUM :: nat where "MAX_NUM = 10"

definition BINGO_MSGS :: nat where "BINGO_MSGS = 10"

definition bingo_args :: "string list \<Rightarrow> nat option" where
  "bingo_args argv =
     (if length argv \<noteq> 2 then None else let n = atoi (argv ! 1) in if n \<le> 0 \<or> 100 \<le> n then None else Some (nat n))"

text \<open>
  \<open>CbLoop\<close> holds \<open>life\<close> and \<open>my_bingo\<close>, \<open>CbSend\<close> priority and value. \<open>PbFork\<close> counts down as the C code
  does. \<open>PbKilled\<close> is the end of all processes by \<open>ERR\<close>, \<open>PbFailed\<close> the exit after a failed fork.
\<close>

datatype bingo_child = CbNone | CbNew | CbLoop nat nat | CbSend nat nat | CbExit | CbEnd

datatype bingo_parent = PbOpen | PbFork nat | PbNotify | PbTop | PbSend | PbClose | PbEnd | PbKilled | PbFailed

datatype bingo_function = FnIdle | FnReceive | FnNotify

datatype bingo_out = GotNumber nat nat | TimeoutFrom nat | BingoNumber nat | ParentEnds

record bingosys =
  pin :: "(nat \<times> nat) list"
  pout :: "nat list"
  pin_notify :: bool
  children_left :: int
  reaped :: "nat \<Rightarrow> bool"
  cb :: "nat \<Rightarrow> bingo_child"
  pb :: bingo_parent
  fn :: bingo_function
  answers :: "(nat \<times> nat \<times> nat) list"
  bgouts :: "bingo_out list"

definition cb_at :: "nat \<Rightarrow> bingo_child \<Rightarrow> bingosys \<Rightarrow> bingosys" where
  "cb_at i q s = s\<lparr>cb := (cb s)(i := q)\<rparr>"

definition bg_say :: "bingo_out \<Rightarrow> bingosys \<Rightarrow> bingosys" where
  "bg_say x s = s\<lparr>bgouts := bgouts s @ [x]\<rparr>"

text \<open>
  The queue of the answers does not block: if it is full, the sender ends everything. A message goes
  behind those of at least its priority; if the queue was empty, it uses up a registration and starts
  the function.
\<close>

definition insert_prio :: "nat \<times> nat \<Rightarrow> (nat \<times> nat) list \<Rightarrow> (nat \<times> nat) list" where
  "insert_prio m q = takeWhile (\<lambda>x. fst m \<le> fst x) q @ [m] @ dropWhile (\<lambda>x. fst m \<le> fst x) q"

definition send_pin :: "nat \<Rightarrow> nat \<times> nat \<Rightarrow> bingosys \<Rightarrow> bingosys" where
  "send_pin i m s =
     (if length (pin s) < BINGO_MSGS then
        let s' = cb_at i CbExit (s\<lparr>pin := insert_prio m (pin s), answers := answers s @ [(i, m)]\<rparr>) in
        if pin s = [] \<and> pin_notify s then s'\<lparr>pin_notify := False, fn := FnReceive\<rparr> else s'
      else s\<lparr>pb := PbKilled\<rparr>)"

definition bingo_child_work :: "nat \<Rightarrow> nat \<Rightarrow> nat \<Rightarrow> bingosys \<Rightarrow> bingosys option" where
  "bingo_child_work i d e s =
     (case cb s i of
        CbNew \<Rightarrow> Some (cb_at i (CbLoop (d mod LIFE_SPAN + 1) (e mod MAX_NUM)) s)
      | CbLoop life my \<Rightarrow>
          (case (life, pout s) of
             (0, _) \<Rightarrow> Some (cb_at i (CbSend 0 (i mod 256)) s)
           | (Suc l, []) \<Rightarrow> None
           | (Suc l, ni # rest) \<Rightarrow>
               Some (bg_say (GotNumber i ni) (cb_at i (if my = ni then CbSend 1 my else CbLoop l my) (s\<lparr>pout := rest\<rparr>))))
      | CbSend p v \<Rightarrow> Some (send_pin i (p, v) s)
      | CbExit \<Rightarrow> Some (cb_at i CbEnd s)
      | _ \<Rightarrow> None)"

text \<open>The function: it receives until the queue is empty and registers again afterwards.\<close>

definition bingo_function :: "bingosys \<Rightarrow> bingosys option" where
  "bingo_function s =
     (case fn s of
        FnIdle \<Rightarrow> None
      | FnReceive \<Rightarrow>
          Some (case pin s of
             [] \<Rightarrow> s\<lparr>fn := FnNotify\<rparr>
           | (p, v) # rest \<Rightarrow> bg_say (if p = 0 then TimeoutFrom v else BingoNumber v) (s\<lparr>pin := rest\<rparr>))
      | FnNotify \<Rightarrow> Some (if pin_notify s then s\<lparr>pb := PbKilled\<rparr> else s\<lparr>pin_notify := True, fn := FnIdle\<rparr>))"

text \<open>One round of \<open>sigchld_handler\<close>.\<close>

definition sigchld_handler :: "nat \<Rightarrow> bingosys \<Rightarrow> bingosys option" where
  "sigchld_handler i s =
     (if cb s i = CbEnd \<and> \<not> reaped s i
      then Some (s\<lparr>reaped := (reaped s)(i := True), children_left := children_left s - 1\<rparr>) else None)"

text \<open>\<open>main\<close> with \<open>create_children\<close> and \<open>parent_work\<close>; \<open>ok\<close> is the outcome of a call that may fail.\<close>

definition bingo_main :: "nat \<Rightarrow> nat \<Rightarrow> bool \<Rightarrow> bingosys \<Rightarrow> bingosys option" where
  "bingo_main n d ok s =
     (case pb s of
        PbOpen \<Rightarrow> Some (s\<lparr>pb := if ok then PbFork n else PbKilled\<rparr>)
      | PbFork m \<Rightarrow>
          Some (case m of
             0 \<Rightarrow> s\<lparr>pb := PbNotify\<rparr>
           | Suc i \<Rightarrow> if ok then cb_at i CbNew (s\<lparr>children_left := children_left s + 1, pb := PbFork i\<rparr>)
               else s\<lparr>pb := PbFailed\<rparr>)
      | PbNotify \<Rightarrow> Some (if ok then s\<lparr>pin_notify := True, pb := PbTop\<rparr> else s\<lparr>pb := PbKilled\<rparr>)
      | PbTop \<Rightarrow> Some (if children_left s \<noteq> 0 then s\<lparr>pb := PbSend\<rparr> else bg_say ParentEnds (s\<lparr>pb := PbClose\<rparr>))
      | PbSend \<Rightarrow> if length (pout s) < BINGO_MSGS then Some (s\<lparr>pout := pout s @ [d mod MAX_NUM], pb := PbTop\<rparr>) else None
      | PbClose \<Rightarrow> Some (s\<lparr>pb := if ok then PbEnd else PbKilled\<rparr>)
      | _ \<Rightarrow> None)"

datatype bingo_actor = BgChild nat nat nat | BgFunction | BgSigchld nat | BgMain nat bool

definition bingo_program :: "nat \<Rightarrow> bingo_actor \<Rightarrow> bingosys \<Rightarrow> bingosys option" where
  "bingo_program n a s =
     (if pb s = PbKilled then None
      else let alive = pb s \<noteq> PbEnd \<and> pb s \<noteq> PbFailed in
        case a of
          BgChild i d e \<Rightarrow> if i < n then bingo_child_work i d e s else None
        | BgFunction \<Rightarrow> if alive then bingo_function s else None
        | BgSigchld i \<Rightarrow> if alive \<and> i < n then sigchld_handler i s else None
        | BgMain d ok \<Rightarrow> bingo_main n d ok s)"

definition bingo_start :: bingosys where
  "bingo_start = \<lparr>pin = [], pout = [], pin_notify = False, children_left = 0, reaped = (\<lambda>_. False), cb = (\<lambda>_. CbNone),
     pb = PbOpen, fn = FnIdle, answers = [], bgouts = []\<rparr>"

section \<open>Accounts\<close>

text \<open>What has been printed of the answers, as priority and value; a bingo has priority 1.\<close>

definition printed :: "bingo_out list \<Rightarrow> (nat \<times> nat) list" where
  "printed os = concat (map (\<lambda>x. case x of TimeoutFrom v \<Rightarrow> [(0, v)] | BingoNumber v \<Rightarrow> [(1, v)] | _ \<Rightarrow> []) os)"

fun answered :: "bingo_child \<Rightarrow> bool" where
  "answered CbExit = True" | "answered CbEnd = True" | "answered _ = False"

fun to_fork :: "nat \<Rightarrow> bingo_parent \<Rightarrow> nat" where
  "to_fork n PbOpen = n" | "to_fork n (PbFork m) = m" | "to_fork n _ = 0"

fun own_answer :: "nat \<Rightarrow> bingo_child \<Rightarrow> bool" where
  "own_answer i (CbSend p v) = (p \<le> 1 \<and> (p = 0 \<longrightarrow> v = i mod 256))" | "own_answer i _ = True"

definition bingo_inv :: "nat \<Rightarrow> bingosys \<Rightarrow> bool" where
  "bingo_inv n s \<longleftrightarrow> mset (printed (bgouts s)) + mset (pin s) = mset (map snd (answers s))
     \<and> distinct (map fst (answers s)) \<and> set (map fst (answers s)) = {i \<in> {..<n}. answered (cb s i)}
     \<and> (\<forall>(i, p, v) \<in> set (answers s). p \<le> 1 \<and> (p = 0 \<longrightarrow> v = i mod 256))
     \<and> (\<forall>i. own_answer i (cb s i)) \<and> (\<forall>i. reaped s i \<longrightarrow> cb s i = CbEnd)"

definition forks_inv :: "nat \<Rightarrow> bingosys \<Rightarrow> bool" where
  "forks_inv n s \<longleftrightarrow> to_fork n (pb s) \<le> n \<and> (\<forall>i < to_fork n (pb s). cb s i = CbNone)
     \<and> (pb s \<noteq> PbFailed \<longrightarrow> (\<forall>i. to_fork n (pb s) \<le> i \<and> i < n \<longrightarrow> cb s i \<noteq> CbNone)
       \<and> children_left s = (\<Sum>i<n. of_bool (cb s i \<noteq> CbNone \<and> \<not> reaped s i)))
     \<and> (pb s = PbClose \<or> pb s = PbEnd \<longrightarrow> (\<forall>i<n. reaped s i))"

lemma printed_simps [simp]:
  "printed [] = []"
  "printed (os @ [x]) = printed os @ (case x of TimeoutFrom v \<Rightarrow> [(0, v)] | BingoNumber v \<Rightarrow> [(1, v)] | _ \<Rightarrow> [])"
  by (simp_all add: printed_def)

lemma mset_insert_prio [simp]: "mset (insert_prio m q) = add_mset m (mset q)"
  by (simp add: insert_prio_def) (metis mset_append takeWhile_dropWhile_id)


lemma bingo_frame [simp]:
  "cb (cb_at i q s) = (cb s)(i := q)" "pin (cb_at i q s) = pin s" "answers (cb_at i q s) = answers s" "bgouts (cb_at i q s) = bgouts s"
  "reaped (cb_at i q s) = reaped s" "pb (cb_at i q s) = pb s" "children_left (cb_at i q s) = children_left s" "pout (cb_at i q s) = pout s"
  "cb (bg_say x s) = cb s" "pin (bg_say x s) = pin s" "answers (bg_say x s) = answers s" "bgouts (bg_say x s) = bgouts s @ [x]"
  "reaped (bg_say x s) = reaped s" "pb (bg_say x s) = pb s" "children_left (bg_say x s) = children_left s" "pout (bg_say x s) = pout s"
  "fn (cb_at i q s) = fn s" "fn (bg_say x s) = fn s" "pin_notify (cb_at i q s) = pin_notify s" "pin_notify (bg_say x s) = pin_notify s"
  by (simp_all add: cb_at_def bg_say_def)

lemmas bingo_steps = bingo_program_def bingo_child_work_def bingo_function_def sigchld_handler_def bingo_main_def send_pin_def

text \<open>A child that goes on without sending.\<close>

lemma quiet_keeps:
  assumes inv: "bingo_inv n s" and same: "cb s' = (cb s)(i := q)" "pin s' = pin s" "answers s' = answers s"
      "printed (bgouts s') = printed (bgouts s)" "reaped s' = reaped s"
    and q: "answered q = answered (cb s i)" "own_answer i q" "cb s i \<noteq> CbEnd"
  shows "bingo_inv n s'"
proof -
  have "{j \<in> {..<n}. answered (cb s' j)} = {j \<in> {..<n}. answered (cb s j)}" using same(1) q(1) by auto
  moreover have "own_answer j (cb s' j)" "reaped s' j \<longrightarrow> cb s' j = CbEnd" for j
    using inv same q by (auto simp: bingo_inv_def)
  ultimately show ?thesis using inv same(2-4) unfolding bingo_inv_def by simp
qed

lemma same_keeps:
  assumes "bingo_inv n s" and "cb s' = cb s" "pin s' = pin s" "answers s' = answers s" "printed (bgouts s') = printed (bgouts s)"
    and "\<And>j. reaped s' j \<Longrightarrow> cb s j = CbEnd"
  shows "bingo_inv n s'"
  using assms unfolding bingo_inv_def by simp

lemma send_keeps:
  assumes inv: "bingo_inv n s" and i: "i < n" and c: "cb s i = CbSend p v"
    and same: "cb s' = (cb s)(i := CbExit)" "pin s' = insert_prio (p, v) (pin s)" "answers s' = answers s @ [(i, p, v)]"
      "bgouts s' = bgouts s" "reaped s' = reaped s"
  shows "bingo_inv n s'"
proof -
  have own: "own_answer i (cb s i)" and r: "\<forall>j. reaped s j \<longrightarrow> cb s j = CbEnd"
    and a: "set (map fst (answers s)) = {i \<in> {..<n}. answered (cb s i)}" using inv unfolding bingo_inv_def by blast+
  have "{j \<in> {..<n}. answered (cb s' j)} = insert i {j \<in> {..<n}. answered (cb s j)}" "i \<notin> set (map fst (answers s))"
    unfolding a using same(1) i c by auto
  then have "set (map fst (answers s')) = {j \<in> {..<n}. answered (cb s' j)}" "i \<notin> set (map fst (answers s))"
    using a same(3) by simp_all
  moreover have "own_answer j (cb s' j)" "reaped s' j \<longrightarrow> cb s' j = CbEnd" for j
    using inv r same c by (auto simp: bingo_inv_def)
  moreover have "\<forall>(i, p, v) \<in> set (answers s'). p \<le> 1 \<and> (p = 0 \<longrightarrow> v = i mod 256)"
    using inv own c same(3) by (auto simp: bingo_inv_def)
  moreover have "distinct (map fst (answers s))" "mset (printed (bgouts s)) + mset (pin s) = mset (map snd (answers s))"
    using inv unfolding bingo_inv_def by blast+
  ultimately show ?thesis using same(2-4) unfolding bingo_inv_def by simp
qed

lemma child_keeps:
  assumes inv: "bingo_inv n s" and i: "i < n" and st: "bingo_child_work i d e s = Some s'"
  shows "pb s' = PbKilled \<or> bingo_inv n s'"
proof (cases "cb s i")
  case (CbSend p v)
  show ?thesis
  proof (cases "length (pin s) < BINGO_MSGS")
    case True
    then show ?thesis using st CbSend
      by (intro disjI2 send_keeps [OF inv i CbSend]) (auto simp: bingo_child_work_def send_pin_def Let_def)
  qed (use st CbSend in \<open>auto simp: bingo_child_work_def send_pin_def\<close>)
next
  case (CbLoop life my)
  then obtain q where "cb s' = (cb s)(i := q)" "answered q = answered (cb s i)" "own_answer i q" "pin s' = pin s"
      "answers s' = answers s" "printed (bgouts s') = printed (bgouts s)" "reaped s' = reaped s"
    using st by (auto simp: bingo_child_work_def split: nat.splits list.splits if_splits)
  then show ?thesis using CbLoop by (intro disjI2 quiet_keeps [OF inv]) auto
next
  case CbNew
  then show ?thesis using st by (intro disjI2 quiet_keeps [OF inv, of _ i]) (auto simp: bingo_child_work_def)
next
  case CbExit
  then show ?thesis using st by (intro disjI2 quiet_keeps [OF inv, of _ i]) (auto simp: bingo_child_work_def)
qed (use st in \<open>auto simp: bingo_child_work_def\<close>)

lemma function_keeps:
  assumes inv: "bingo_inv n s" and st: "bingo_function s = Some s'"
  shows "bingo_inv n s'"
proof (cases "fn s = FnReceive \<and> pin s \<noteq> []")
  case True
  then obtain p v rest where m: "pin s = (p, v) # rest" by (cases "pin s") auto
  have "mset (printed (bgouts s)) + mset (pin s) = mset (map snd (answers s))" using inv by (simp add: bingo_inv_def)
  then have "(p, v) \<in> set (map snd (answers s))" using m by (metis list.set_intros(1) mset_append mset_eq_setD set_append Un_iff)
  then have "p = 0 \<or> p = 1" using inv by (auto simp: bingo_inv_def le_Suc_eq)
  moreover have "s' = bg_say (if p = 0 then TimeoutFrom v else BingoNumber v) (s\<lparr>pin := rest\<rparr>)"
    using st True m by (simp add: bingo_function_def)
  ultimately show ?thesis using inv m by (elim disjE) (simp_all add: bingo_inv_def)
next
  case False
  have "\<forall>j. reaped s j \<longrightarrow> cb s j = CbEnd" using inv unfolding bingo_inv_def by blast
  with False show ?thesis using st
    by (intro same_keeps [OF inv]) (auto simp: bingo_function_def split: bingo_function.splits list.splits if_splits)
qed

lemma rest_keeps:
  assumes inv: "bingo_inv n s" and f: "\<forall>i < to_fork n (pb s). cb s i = CbNone"
  shows "sigchld_handler i s = Some s' \<Longrightarrow> bingo_inv n s'" "bingo_main n d ok s = Some s' \<Longrightarrow> bingo_inv n s'"
proof -
  have r: "\<forall>j. reaped s j \<longrightarrow> cb s j = CbEnd" using inv unfolding bingo_inv_def by blast
  then show "sigchld_handler i s = Some s' \<Longrightarrow> bingo_inv n s'"
    by (intro same_keeps [OF inv]) (auto simp: sigchld_handler_def split: if_splits)
  assume st: "bingo_main n d ok s = Some s'"
  show "bingo_inv n s'"
  proof (cases "\<exists>i. pb s = PbFork (Suc i) \<and> ok")
    case True
    then obtain i where i: "pb s = PbFork (Suc i)" "ok" by blast
    then have "cb s i = CbNone" using f by simp
    then show ?thesis using st i by (intro quiet_keeps [OF inv, of _ i CbNew]) (auto simp: bingo_main_def)
  next
    case False
    then have "cb s' = cb s" "pin s' = pin s" "answers s' = answers s" "printed (bgouts s') = printed (bgouts s)" "reaped s' = reaped s"
      using st by (auto simp: bingo_main_def split: bingo_parent.splits nat.splits if_splits)
    then show ?thesis using r by (intro same_keeps [OF inv]) auto
  qed
qed


section \<open>The count of the children\<close>

text \<open>A step that creates and reaps no child.\<close>

lemma forks_same:
  assumes inv: "forks_inv n s" and "\<And>i. cb s' i = CbNone \<longleftrightarrow> cb s i = CbNone" and "reaped s' = reaped s" "children_left s' = children_left s"
    and "to_fork n (pb s') = to_fork n (pb s)" "pb s' \<noteq> PbFailed \<Longrightarrow> pb s \<noteq> PbFailed"
    and "pb s' = PbClose \<or> pb s' = PbEnd \<Longrightarrow> \<forall>i<n. reaped s i"
  shows "forks_inv n s'"
  using assms unfolding forks_inv_def by simp

lemma child_forks:
  assumes inv: "forks_inv n s" and st: "bingo_child_work i d e s = Some s'"
  shows "pb s' = PbKilled \<or> forks_inv n s'"
proof -
  have "pb s' = PbKilled \<or> pb s' = pb s" "reaped s' = reaped s" "children_left s' = children_left s" "cb s' j = CbNone \<longleftrightarrow> cb s j = CbNone" for j
    using st by (cases "cb s i"; auto simp: bingo_child_work_def send_pin_def Let_def split: nat.splits list.splits if_splits)+
  moreover have "pb s = PbClose \<or> pb s = PbEnd \<Longrightarrow> \<forall>i<n. reaped s i" using inv unfolding forks_inv_def by blast
  ultimately show ?thesis using forks_same [OF inv, of s'] by auto
qed

lemma sigchld_forks:
  assumes inv: "forks_inv n s" and i: "i < n" and st: "sigchld_handler i s = Some s'"
  shows "forks_inv n s'"
proof -
  have s': "s' = s\<lparr>reaped := (reaped s)(i := True), children_left := children_left s - 1\<rparr>" and c: "cb s i = CbEnd" "\<not> reaped s i"
    using st by (auto simp: sigchld_handler_def split: if_splits)
  let ?f = "\<lambda>s j. of_bool (cb s j \<noteq> CbNone \<and> \<not> reaped s j) :: int"
  have "(\<Sum>j<n. ?f s' j) + ?f s i = (\<Sum>j<n. ?f s j) + ?f s' i" by (rule sum_one_changes [OF i]) (simp add: s')
  then have "(\<Sum>j<n. ?f s' j) = (\<Sum>j<n. ?f s j) - 1" using c by (simp add: s')
  then show ?thesis using inv unfolding forks_inv_def by (simp add: s')
qed

lemma main_forks:
  assumes inv: "forks_inv n s" and un: "\<And>i. reaped s i \<Longrightarrow> cb s i = CbEnd" and st: "bingo_main n d ok s = Some s'"
  shows "pb s' = PbKilled \<or> forks_inv n s'"
proof -
  consider (fork) i where "pb s = PbFork (Suc i)" "ok" | (fail) i where "pb s = PbFork (Suc i)" "\<not> ok" | (top) "pb s = PbTop" "children_left s = 0"
    | (other) "\<And>i. pb s \<noteq> PbFork (Suc i)" "\<not> (pb s = PbTop \<and> children_left s = 0)" by (cases "pb s") auto
  then show ?thesis
  proof cases
    case fork
    then have s': "s' = cb_at i CbNew (s\<lparr>children_left := children_left s + 1, pb := PbFork i\<rparr>)" using st by (simp add: bingo_main_def)
    have i: "i < n" "cb s i = CbNone" using inv fork by (auto simp: forks_inv_def)
    with un have nr: "\<not> reaped s i" by fastforce
    let ?f = "\<lambda>s j. of_bool (cb s j \<noteq> CbNone \<and> \<not> reaped s j) :: int"
    have "(\<Sum>j<n. ?f s' j) + ?f s i = (\<Sum>j<n. ?f s j) + ?f s' i" by (rule sum_one_changes [OF i(1)]) (simp add: s' cb_at_def)
    then have sm: "(\<Sum>j<n. ?f s' j) = (\<Sum>j<n. ?f s j) + 1" using i nr by (simp add: s' cb_at_def)
    have "children_left s = (\<Sum>j<n. ?f s j)" "\<forall>j<Suc i. cb s j = CbNone" "\<forall>j. Suc i \<le> j \<and> j < n \<longrightarrow> cb s j \<noteq> CbNone"
      using inv fork by (simp_all add: forks_inv_def)
    moreover have "j = i \<or> Suc i \<le> j" if "i \<le> j" for j using that by auto
    ultimately have "children_left s' = (\<Sum>j<n. ?f s' j)" "\<forall>j<i. cb s' j = CbNone" "\<forall>j. i \<le> j \<and> j < n \<longrightarrow> cb s' j \<noteq> CbNone"
      using sm by (auto simp: s')
    then show ?thesis using i by (simp add: forks_inv_def s')
  next
    case fail
    then show ?thesis using st inv by (auto simp: bingo_main_def forks_inv_def)
  next
    case top
    then have s': "pb s' = PbClose" "cb s' = cb s" "reaped s' = reaped s" "children_left s' = children_left s"
      using st by (auto simp: bingo_main_def bg_say_def)
    have all: "\<forall>j<n. cb s j \<noteq> CbNone" using inv top(1) by (simp add: forks_inv_def)
    have "pb s \<noteq> PbFailed" using top(1) by simp
    then have "children_left s = (\<Sum>j<n. of_bool (cb s j \<noteq> CbNone \<and> \<not> reaped s j))" using inv unfolding forks_inv_def by blast
    then have zero: "(\<Sum>j<n. of_bool (cb s j \<noteq> CbNone \<and> \<not> reaped s j)) = (0 :: int)" using top(2) by metis
    have "reaped s j" if "j < n" for j using sum_zero_each [OF _ zero that] all that by auto
    with top s' show ?thesis by (intro disjI2 forks_same [OF inv]) auto
  next
    case other
    have r: "pb s = PbClose \<or> pb s = PbEnd \<Longrightarrow> \<forall>i<n. reaped s i" using inv unfolding forks_inv_def by blast
    show ?thesis
    proof (cases "pb s' = PbKilled")
      case False
      then show ?thesis using st other r
        by (intro disjI2 forks_same [OF inv]) (auto simp: bingo_main_def split: bingo_parent.splits nat.splits if_splits)
    qed simp
  qed
qed

definition bingo_ok :: "nat \<Rightarrow> bingosys \<Rightarrow> bool" where
  "bingo_ok n s \<longleftrightarrow> pb s = PbKilled \<or> bingo_inv n s \<and> forks_inv n s"

lemma bingo_step:
  assumes ok: "bingo_ok n s" and st: "bingo_program n a s = Some s'"
  shows "bingo_ok n s'"
proof -
  have inv: "bingo_inv n s" and f: "forks_inv n s" using ok st by (auto simp: bingo_ok_def bingo_program_def)
  have un: "\<And>i. reaped s i \<Longrightarrow> cb s i = CbEnd" and none: "\<forall>i < to_fork n (pb s). cb s i = CbNone"
    using inv f unfolding bingo_inv_def forks_inv_def by blast+
  show ?thesis
  proof (cases a)
    case (BgChild i d e)
    then have "i < n" "bingo_child_work i d e s = Some s'" using st by (auto simp: bingo_program_def split: if_splits)
    then show ?thesis using child_keeps [OF inv] child_forks [OF f] unfolding bingo_ok_def by blast
  next
    case BgFunction
    then have b: "bingo_function s = Some s'" using st by (auto simp: bingo_program_def Let_def split: if_splits)
    then have "pb s' = PbKilled \<or> pb s' = pb s" "reaped s' = reaped s" "children_left s' = children_left s" "cb s' = cb s"
      by (auto simp: bingo_function_def split: bingo_function.splits list.splits if_splits)
    moreover have "pb s = PbClose \<or> pb s = PbEnd \<Longrightarrow> \<forall>i<n. reaped s i" using f unfolding forks_inv_def by blast
    ultimately have "pb s' = PbKilled \<or> forks_inv n s'" using forks_same [OF f, of s'] by auto
    then show ?thesis using function_keeps [OF inv b] unfolding bingo_ok_def by blast
  next
    case (BgSigchld i)
    then have "i < n" "sigchld_handler i s = Some s'" using st by (auto simp: bingo_program_def Let_def split: if_splits)
    then show ?thesis using rest_keeps(1) [OF inv none] sigchld_forks [OF f] unfolding bingo_ok_def by blast
  next
    case (BgMain d ok)
    then have "bingo_main n d ok s = Some s'" using st by (auto simp: bingo_program_def split: if_splits)
    then show ?thesis using rest_keeps(2) [OF inv none] main_forks [OF f un] unfolding bingo_ok_def by blast
  qed
qed

lemma bingo_reachable: "reachable (bingo_program n) bingo_start s \<Longrightarrow> bingo_ok n s"
proof (erule reachable_invariant)
  show "bingo_ok n bingo_start" by (simp add: bingo_ok_def bingo_inv_def forks_inv_def bingo_start_def)
qed (rule bingo_step)


text \<open>
  C26. \<open>Bingo.c\<close>: when the parent has left its loop, every child has sent exactly one answer, a timeout with
  its own number or a bingo, and every answer has been printed once or is still in the queue.
\<close>

theorem bingo_accounts:
  assumes "reachable (bingo_program n) bingo_start s" and "pb s = PbClose \<or> pb s = PbEnd"
  shows "set (map fst (answers s)) = {..<n} \<and> distinct (map fst (answers s))
    \<and> (\<forall>(i, p, v) \<in> set (answers s). p \<le> 1 \<and> (p = 0 \<longrightarrow> v = i mod 256))
    \<and> mset (printed (bgouts s)) + mset (pin s) = mset (map snd (answers s))"
proof -
  have inv: "bingo_inv n s" and f: "forks_inv n s" using bingo_reachable [OF assms(1)] assms(2) by (auto simp: bingo_ok_def)
  have r: "\<forall>i<n. reaped s i" using f assms(2) unfolding forks_inv_def by blast
  have un: "\<forall>i. reaped s i \<longrightarrow> cb s i = CbEnd" and a: "set (map fst (answers s)) = {i \<in> {..<n}. answered (cb s i)}"
    using inv unfolding bingo_inv_def by blast+
  have "{i \<in> {..<n}. answered (cb s i)} = {..<n}" using r un by auto
  with a inv show ?thesis unfolding bingo_inv_def by simp
qed

definition child_answers :: "nat \<Rightarrow> bingo_actor list" where
  "child_answers i = replicate 4 (BgChild i 0 0)"

text \<open>The second answer comes between the last receive of the function and its registration.\<close>

definition late_answer :: "bingo_actor list" where
  "late_answer = replicate 5 (BgMain 0 True) @ replicate 4 (BgMain 5 True) @ child_answers 0 @ replicate 2 BgFunction
     @ child_answers 1 @ [BgFunction]"

definition all_gone :: "bingo_actor list" where
  "all_gone = [BgChild 0 0 0, BgChild 1 0 0, BgSigchld 0, BgSigchld 1, BgMain 0 True, BgMain 0 True]"

lemma bingo_accounts_witness:
  "\<exists>s. reachable (bingo_program 2) bingo_start s \<and> pb s = PbEnd \<and> set (map fst (answers s)) = {..<2}
     \<and> mset (printed (bgouts s)) + mset (pin s) = {#(0, 0), (0, 1)#}"
proof -
  have "map_option (\<lambda>s. (pb s, printed (bgouts s), pin s)) (run (bingo_program 2) (late_answer @ all_gone) bingo_start)
      = Some (PbEnd, [(0, 0)], [(0, 1)])"
    by code_simp
  from reachable_obs [OF this] obtain s where s: "reachable (bingo_program 2) bingo_start s" "pb s = PbEnd"
    "printed (bgouts s) = [(0, 0)]" "pin s = [(0, 1)]" by auto
  moreover from s have "mset (printed (bgouts s)) + mset (pin s) = {#(0, 0), (0, 1)#}" by (simp add: add_mset_commute)
  ultimately show ?thesis using bingo_accounts [OF s(1)] by blast
qed



end
