(* ===== verification/Spec2Isabelle.thy ===== *)
theory Spec2Isabelle
  imports Peterson DataRace CondBuffer Philosophers ReadersWriters Calculator FileTransfer Chat Website Pipes Fifos
    NetServers MQueues Bins Reverse Chunks Cells Frames Roulette Workers Board Integral Exam Bingo
begin

text \<open>
  A verification library for the programs of an operating systems course: the lab programs
  (\<open>src/Lab - 2\<close> to \<open>src/Lab - 8\<close>) and the lecture programs (\<open>src/Lecture Codes\<close>). They are
  small independent C programs, each about one mechanism of POSIX: threads and locks, semaphores,
  condition variables, signals, pipes and FIFOs, message queues, shared memory, sockets, epoll. There
  is no common main program; programs of a pair (client and server, writer and reader) meet through
  the operating system, and so they do here.

  Two kinds of models. Programs whose point is the interleaving of threads or processes are partial
  step functions \<open>step :: actor \<Rightarrow> state \<Rightarrow> state option\<close> on a record of the shared variables, the mutexes
  and the position (program counter) of every thread; \<open>None\<close> means blocked or ended. Every load and
  store of a shared variable outside a lock is a step of its own. Claims are about all states
  \<open>reachable\<close> under all schedules, or about \<open>run step schedule\<close>. Programs whose point is the
  dialogue with the operating system are terms of the type \<open>io\<close> of Sys: a function of the list of the
  replies that the system will give, which returns an outcome (a value, an exit code, or that it
  waits), the history of calls and outputs, and the replies that are left. A claim for all lists of
  replies holds for every error, every short read or write and every interrupted call.

  The theories, each with the files that it models:

  \<^descr> Prelude: \<open>run\<close>, \<open>reachable\<close>, the invariant rule, the rules by which a measure gives progress or
    bounds the length of all runs, division of C.
  \<^descr> Locks, LockPrograms, Peterson, DataRace: \<open>03_synchro\<close> 01, 03 to 07 and 11, a producer and a consumer
    that count in one variable. The locale \<open>lock_algorithm\<close> states what a lock promises and proves the
    client correct once, \<open>direct_lock\<close> narrows it to locks taken in one action; every lock of the
    programs is an interpretation. DataRace is the program without a lock: the bounds of its
    counter, and that updates are lost.
  \<^descr> BoundedBuffer, CondBuffer: \<open>03_synchro\<close> 08, 12 and 15, the ring buffer between producer and
    consumer with semaphores and with condition variables: what is consumed is what was produced, in
    order; all runs end, and with the whole sequence consumed.
  \<^descr> Philosophers, ReadersWriters: \<open>03_synchro\<close> 16 and 09. Exclusion, the deadlock of the
    philosophers, progress of readers and writer.
  \<^descr> Threads: sums over any number of threads and the invariant of a mutex (\<open>guards\<close>) for the labs.
  \<^descr> Bins (\<open>Lab - 3/prog18.c\<close>), Reverse (\<open>Lab - 3/sop-ca.c\<close>), Cells (\<open>Lab - 3/example.c\<close>),
    Chunks (\<open>Lab - 4/task.c\<close>), Workers (\<open>Lab - 6/example.c\<close>), Bingo (\<open>Lab - 6/Tutorial/Bingo.c\<close>),
    Exam (\<open>Lab - 5/Lab Task/ops-lab.c\<close>): programs with any number of threads or processes.
  \<^descr> Board (\<open>Lab - 7/Tutorial/server.c\<close>, \<open>client.c\<close>), Integral (\<open>Lab - 7/examp.c\<close>): processes that
    come and go over shared memory; the robust mutex whose owner dies, and counters that the last
    one prints and removes.
  \<^descr> Sys: the type \<open>io\<close>, its loops and the rules \<open>wp\<close> for all replies.
  \<^descr> Sockets (\<open>Lab - 8/common.h\<close>), EventLoop: the helpers of the socket programs and the locale of a
    server around \<open>epoll_wait\<close>, interpreted on the servers.
  \<^descr> Calculator (\<open>1_server.c\<close>, \<open>1_client_*.c\<close>), FileTransfer (\<open>2_server.c\<close>, \<open>2_client.c\<close>),
    Chat (\<open>sop-chat (1).c\<close>), EchoServers (\<open>l4a.c\<close>, \<open>l4b.c\<close>), Website (\<open>website_*.c\<close>): the programs of lab 8.
  \<^descr> Pipes (\<open>01_pipes\<close>), Fifos (\<open>Lab - 5/Tutorial/FIFOs\<close>), Frames (\<open>Lab - 5/Tutorial/Pipe/prog22a.c\<close>),
    Roulette (\<open>Lab - 5/Example Tasks/example.c\<close>).
  \<^descr> NetServers (\<open>04_net\<close> 08 to 11), MQueues (\<open>02_mqueue\<close> 01 to 09).

  Names are those of the source where HOL allows; a clash is resolved by a prefix for the program.
  The lemmas of a theory come in the order invariant, preservation by each step, properties; each
  property has a witness, a concrete run evaluated by the kernel.

  Bounds and fuel. No model has a bound of its own on the number of threads, rounds or bytes. A C loop
  around system calls is \<open>loop body\<close>; it is computed with as much fuel as there are replies
  (\<open>rounds\<close>), which is enough because every round makes a call and a call uses up a reply
  (\<open>progressing\<close>; \<open>loop_unfold\<close> is the loop's own equation). Termination of concurrent programs is
  a bound on the length of every schedule by a measure (\<open>run_length_bound\<close>).

  Conventions. Texts of messages are written without line feeds, quotes around arguments and the file
  and line that \<open>ERR\<close> prints. Signals reach a program in one of its calls (a reply that says so) or
  as a step of their own. Memory is sequentially consistent, as C11 atomics and mutexes give it;
  DataRace treats the counter of 01 as if single loads and stores were atomic. A kernel object (file,
  queue, socket) is what the replies say; what a claim needs of it, the order of a queue or that a
  pipe delivers what was written, is a hypothesis on the history. Undefined behaviour is an
  outcome (exit code 136, or a position of its own), never a value.

  Not modelled: programs that only print what a library call returns, programs that repeat a modelled
  one, and those whose content is outside of C (the manifest lists them with the reason).
  Within modelled programs: the contents of error texts, \<open>srand\<close>, delays, the release of memory at the
  end of a process.
\<close>

end
